(* ===== verification/Prelude.thy ===== *)
theory Prelude
  imports Main "HOL-Library.AList" "HOL-Library.Char_ord" "HOL-Library.List_Lexorder"
begin

text \<open>
  Shared by every component: the JavaScript containers and string operations the panel's
  TypeScript uses, with the lemmas about them that the component proofs rest on.
  A \<open>Map\<close> is an association list in insertion order, a \<open>Set\<close> a list without repetition in
  insertion order; strings are HOL strings, one character per code unit, over ASCII.
\<close>

named_theorems js_simps \<open>rewrite rules of the JavaScript containers\<close>
named_theorems model_defs \<open>definitions a component proof unfolds by default\<close>

section \<open>Results: a value or the error that was thrown\<close>

fun rbind :: "'e + 'a \<Rightarrow> ('a \<Rightarrow> 'e + 'b) \<Rightarrow> 'e + 'b" where
  "rbind (Inl e) f = Inl e"
| "rbind (Inr x) f = f x"

lemma rbind_Inr_iff [simp]: "rbind m f = Inr y \<longleftrightarrow> (\<exists>x. m = Inr x \<and> f x = Inr y)"
  by (cases m) auto

lemma rbind_Inl_iff [simp]: "rbind m f = Inl e \<longleftrightarrow> m = Inl e \<or> (\<exists>x. m = Inr x \<and> f x = Inl e)"
  by (cases m) auto

lemma rbind_cong [fundef_cong]:
  "m = m' \<Longrightarrow> (\<And>x. m' = Inr x \<Longrightarrow> f x = f' x) \<Longrightarrow> rbind m f = rbind m' f'"
  by (cases m) auto

fun rmap :: "('a \<Rightarrow> 'e + 'b) \<Rightarrow> 'a list \<Rightarrow> 'e + 'b list" where
  "rmap f [] = Inr []"
| "rmap f (x # xs) = rbind (f x) (\<lambda>y. rbind (rmap f xs) (\<lambda>ys. Inr (y # ys)))"

lemma rmap_total: "(\<And>x. x \<in> set xs \<Longrightarrow> f x = Inr (g x)) \<Longrightarrow> rmap f xs = Inr (map g xs)"
  by (induction xs) auto

lemma rmap_Inr_iff: "rmap f xs = Inr ys \<longleftrightarrow> list_all2 (\<lambda>x y. f x = Inr y) xs ys"
  by (induction xs arbitrary: ys) (auto simp: list_all2_Cons1)

section \<open>Map: an association list in insertion order\<close>

type_synonym ('k, 'v) jsmap = "('k \<times> 'v) list"

abbreviation map_get :: "('k, 'v) jsmap \<Rightarrow> 'k \<Rightarrow> 'v option" where
  "map_get m k \<equiv> map_of m k"

abbreviation map_set :: "'k \<Rightarrow> 'v \<Rightarrow> ('k, 'v) jsmap \<Rightarrow> ('k, 'v) jsmap" where
  "map_set k v m \<equiv> AList.update k v m"

abbreviation map_keys :: "('k, 'v) jsmap \<Rightarrow> 'k list" where
  "map_keys m \<equiv> map fst m"

definition map_wf :: "('k, 'v) jsmap \<Rightarrow> bool" where
  "map_wf m \<longleftrightarrow> distinct (map_keys m)"

lemma map_wf_Nil [simp, intro!]: "map_wf []"
  by (simp add: map_wf_def)

lemma map_wf_set [simp, intro]: "map_wf m \<Longrightarrow> map_wf (map_set k v m)"
  by (simp add: map_wf_def distinct_update)

lemma map_get_set [simp, js_simps]: "map_get (map_set k v m) k' = (if k' = k then Some v else map_get m k')"
  by (simp add: update_conv')

lemma map_get_iff_mem: "map_wf m \<Longrightarrow> map_get m k = Some v \<longleftrightarrow> (k, v) \<in> set m"
  by (auto simp: map_wf_def map_of_eq_Some_iff)

lemma map_keys_get: "k \<in> set (map_keys m) \<longleftrightarrow> map_get m k \<noteq> None"
  by (metis domIff dom_map_of_conv_image_fst set_map)

lemma map_keys_set: "set (map_keys (map_set k v m)) = insert k (set (map_keys m))"
  by (induction m) auto

text \<open>\<open>new Map(us.map((u) => [f(u), g(u)]))\<close> over distinct keys.\<close>

lemma foldl_set_get:
  assumes "distinct (map f us)"
  shows "map_get (foldl (\<lambda>m u. map_set (f u) (g u) m) m us) k =
    (case List.find (\<lambda>u. f u = k) us of Some u \<Rightarrow> Some (g u) | None \<Rightarrow> map_get m k)"
  using assms
proof (induction us arbitrary: m)
  case (Cons u us)
  then have "\<forall>v \<in> set us. f v \<noteq> f u"
    by (simp, metis imageI)
  then have "List.find (\<lambda>v. f v = f u) us = None"
    by (induction us) auto
  then show ?case
    using Cons by (auto split: option.splits)
qed simp

lemma foldl_set_wf: "map_wf m \<Longrightarrow> map_wf (foldl (\<lambda>m u. map_set (f u) (g u) m) m us)"
  by (induction us arbitrary: m) simp_all

lemma foldl_set_keys: "set (map_keys (foldl (\<lambda>m u. map_set (f u) (g u) m) m us)) = set (map_keys m) \<union> f ` set us"
proof (induction us arbitrary: m)
  case (Cons u us)
  show ?case
    unfolding foldl_Cons Cons.IH map_keys_set by auto
qed simp

lemma filter_key_single: "distinct (map fst xs) \<Longrightarrow> (k, v) \<in> set xs \<Longrightarrow> filter (\<lambda>kv. fst kv = k) xs = [(k, v)]"
proof (induction xs)
  case (Cons x xs)
  then show ?case
    by (cases "x = (k, v)") (auto simp: filter_empty_conv image_iff)
qed simp

text \<open>Accumulating into a \<open>Map\<close>: \<open>for (const x of xs) m.set(k(x), f(m.get(k(x)) ?? z(x), x))\<close>.\<close>

definition acc_by :: "('x \<Rightarrow> 'k) \<Rightarrow> ('x \<Rightarrow> 'v) \<Rightarrow> ('v \<Rightarrow> 'x \<Rightarrow> 'v) \<Rightarrow> ('k, 'v) jsmap \<Rightarrow> 'x list \<Rightarrow> ('k, 'v) jsmap" where
  "acc_by k z f m xs =
     foldl (\<lambda>m x. map_set (k x) (f (case map_get m (k x) of Some a \<Rightarrow> a | None \<Rightarrow> z x) x) m) m xs"

lemma acc_by_Nil [simp]: "acc_by k z f m [] = m"
  by (simp add: acc_by_def)

lemma acc_by_Cons [simp]:
  "acc_by k z f m (x # xs) =
   acc_by k z f (map_set (k x) (f (case map_get m (k x) of Some a \<Rightarrow> a | None \<Rightarrow> z x) x) m) xs"
  by (simp add: acc_by_def)

lemma acc_by_wf [simp, intro]: "map_wf m \<Longrightarrow> map_wf (acc_by k z f m xs)"
  by (induction xs arbitrary: m) simp_all

lemma acc_by_get:
  "map_get (acc_by k z f m xs) u =
   (case filter (\<lambda>x. k x = u) xs of
      [] \<Rightarrow> map_get m u
    | y # ys \<Rightarrow> Some (foldl f (case map_get m u of Some a \<Rightarrow> a | None \<Rightarrow> z y) (y # ys)))"
proof (induction xs arbitrary: m)
  case (Cons x xs)
  show ?case
    by (cases "k x = u") (auto simp: Cons.IH split: list.split)
qed simp

lemma acc_by_keys: "set (map_keys (acc_by k z f m xs)) = set (map_keys m) \<union> k ` set xs"
proof (induction xs arbitrary: m)
  case (Cons x xs)
  show ?case
    unfolding acc_by_Cons Cons.IH map_keys_set by auto
qed simp

section \<open>Set: insertion order, no repetition\<close>

definition set_add :: "'a \<Rightarrow> 'a list \<Rightarrow> 'a list" where
  "set_add x xs = (if x \<in> set xs then xs else xs @ [x])"

definition set_from :: "'a list \<Rightarrow> 'a list" where
  "set_from xs = foldl (\<lambda>acc x. set_add x acc) [] xs"

lemma set_add_set [simp, js_simps]: "set (set_add x xs) = insert x (set xs)"
  by (auto simp: set_add_def)

lemma set_add_distinct [simp, intro]: "distinct xs \<Longrightarrow> distinct (set_add x xs)"
  by (simp add: set_add_def)

lemma foldl_set_add_set: "set (foldl (\<lambda>acc x. set_add x acc) acc xs) = set acc \<union> set xs"
  by (induction xs arbitrary: acc) auto

lemma foldl_set_add_distinct: "distinct acc \<Longrightarrow> distinct (foldl (\<lambda>acc x. set_add x acc) acc xs)"
  by (induction xs arbitrary: acc) auto

lemma set_from_set [simp, js_simps]: "set (set_from xs) = set xs"
  by (simp add: set_from_def foldl_set_add_set)

lemma set_from_distinct [simp, intro!]: "distinct (set_from xs)"
  by (simp add: set_from_def foldl_set_add_distinct)

lemma set_from_length: "length (set_from xs) = card (set xs)"
  by (metis distinct_card set_from_distinct set_from_set)

lemma set_from_Nil_iff [simp]: "set_from xs = [] \<longleftrightarrow> xs = []"
  by (metis set_empty set_from_set)

text \<open>\<open>new Set(xs).size !== xs.length\<close> is how the code asks for a repetition.\<close>

lemma set_from_length_distinct: "length (set_from xs) = length xs \<longleftrightarrow> distinct xs"
  by (metis card_distinct distinct_card set_from_length)

section \<open>Strings\<close>

fun js_split :: "'a \<Rightarrow> 'a list \<Rightarrow> 'a list list" where
  "js_split c [] = [[]]"
| "js_split c (x # xs) =
     (if x = c then [] # js_split c xs
      else (case js_split c xs of [] \<Rightarrow> [[x]] | y # ys \<Rightarrow> (x # y) # ys))"

fun js_join :: "'a list \<Rightarrow> 'a list list \<Rightarrow> 'a list" where
  "js_join sep [] = []"
| "js_join sep [x] = x"
| "js_join sep (x # y # zs) = x @ sep @ js_join sep (y # zs)"

definition js_starts_with :: "'a list \<Rightarrow> 'a list \<Rightarrow> bool" where
  "js_starts_with p s \<longleftrightarrow> take (length p) s = p"

fun js_index_of :: "'a \<Rightarrow> 'a list \<Rightarrow> nat option" where
  "js_index_of c [] = None"
| "js_index_of c (x # xs) = (if x = c then Some 0 else map_option Suc (js_index_of c xs))"

definition is_ws :: "char \<Rightarrow> bool" where
  "is_ws c \<longleftrightarrow> of_char c \<in> {9, 10, 11, 12, 13, 32, 160 :: nat}"

definition js_trim :: "string \<Rightarrow> string" where
  "js_trim s = rev (dropWhile is_ws (rev (dropWhile is_ws s)))"

definition lower_char :: "char \<Rightarrow> char" where
  "lower_char c = (let n = of_char c :: nat in if 65 \<le> n \<and> n \<le> 90 then char_of (n + 32) else c)"

definition upper_char :: "char \<Rightarrow> char" where
  "upper_char c = (let n = of_char c :: nat in if 97 \<le> n \<and> n \<le> 122 then char_of (n - 32) else c)"

definition to_lower :: "string \<Rightarrow> string" where
  "to_lower = map lower_char"

definition to_upper :: "string \<Rightarrow> string" where
  "to_upper = map upper_char"

lemma js_split_not_Nil [simp]: "js_split c xs \<noteq> []"
  by (cases xs) (auto split: list.splits)

lemma js_split_no_sep: "p \<in> set (js_split c xs) \<Longrightarrow> c \<notin> set p"
  by (induction c xs arbitrary: p rule: js_split.induct) (auto split: list.splits if_splits)

lemma js_join_split: "js_join [c] (js_split c xs) = xs"
proof (induction c xs rule: js_split.induct)
  case (2 c x xs)
  then show ?case
    by (cases "js_split c xs"; cases "tl (js_split c xs)") auto
qed simp

lemma js_split_plain: "c \<notin> set xs \<Longrightarrow> js_split c xs = [xs]"
  by (induction xs) auto

lemma js_split_append: "c \<notin> set xs \<Longrightarrow> js_split c (xs @ c # ys) = xs # js_split c ys"
  by (induction xs) auto

lemma js_split_join:
  "ps \<noteq> [] \<Longrightarrow> (\<And>p. p \<in> set ps \<Longrightarrow> c \<notin> set p) \<Longrightarrow> js_split c (js_join [c] ps) = ps"
  by (induction "[c]" ps rule: js_join.induct) (auto simp: js_split_plain js_split_append)

lemma js_starts_with_iff: "js_starts_with p s \<longleftrightarrow> (\<exists>t. s = p @ t)"
  by (metis append_eq_conv_conj append_take_drop_id js_starts_with_def)

lemma js_index_of_Some:
  "js_index_of c s = Some i \<Longrightarrow> i < length s \<and> s ! i = c \<and> c \<notin> set (take i s)"
  by (induction s arbitrary: i) (auto split: if_splits)

lemma js_index_of_None: "js_index_of c s = None \<longleftrightarrow> c \<notin> set s"
  by (induction s) auto

section \<open>Lists\<close>

text \<open>\<open>Array.prototype.sort\<close> with a numeric key comparator is stable, as \<^const>\<open>sort_key\<close> is.\<close>

lemma filter_hd_find: "List.find P xs = (case filter P xs of [] \<Rightarrow> None | x # _ \<Rightarrow> Some x)"
  by (induction xs) auto

lemma find_Some_in: "List.find P xs = Some x \<Longrightarrow> x \<in> set xs \<and> P x"
  by (auto simp: find_Some_iff)

lemma find_None_all: "List.find P xs = None \<longleftrightarrow> (\<forall>x \<in> set xs. \<not> P x)"
  by (induction xs) auto

lemma find_append: "List.find P (xs @ ys) = (case List.find P xs of Some x \<Rightarrow> Some x | None \<Rightarrow> List.find P ys)"
  by (induction xs) auto

lemma find_unique:
  assumes "x \<in> set xs" and "P x" and "\<And>y. y \<in> set xs \<Longrightarrow> P y \<Longrightarrow> y = x"
  shows "List.find P xs = Some x"
proof (cases "List.find P xs")
  case None
  then show ?thesis
    using assms(1,2) by (simp add: find_None_all)
next
  case (Some y)
  then show ?thesis
    using assms(3) find_Some_in [OF Some] by simp
qed

text \<open>A counting argument used by the address allocators: more candidates than taken values
  leave one free.\<close>

lemma pigeonhole_free:
  fixes taken :: "'a list"
  assumes "inj_on f {..n}" and "length taken \<le> n"
  shows "\<exists>i \<le> n. f i \<notin> set taken"
proof (rule ccontr)
  assume "\<not> ?thesis"
  then have "f ` {..n} \<subseteq> set taken"
    by auto
  then have "card (f ` {..n}) \<le> card (set taken)"
    by (simp add: card_mono)
  also have "\<dots> \<le> length taken"
    by (rule card_length)
  finally show False
    using assms by (simp add: card_image)
qed

end
