(* ===== verification/JsNumber.thy ===== *)
theory JsNumber
  imports Prelude Complex_Main
begin

text \<open>
  The numbers of the language: IEEE doubles as far as the panel meets them (integers rounded
  to 53 significant bits, ties to even), \<open>Number(s)\<close> on a string by the language's string
  grammar, \<open>Number.isInteger\<close>, and decimal printing of a natural number.
\<close>

section \<open>Rounding to 53 bits\<close>

fun nbits :: "nat \<Rightarrow> nat" where
  "nbits n = (if n = 0 then 0 else Suc (nbits (n div 2)))"

declare nbits.simps [simp del]

definition half_even :: "nat \<Rightarrow> nat \<Rightarrow> nat" where
  "half_even n d = (let q = n div d; r = n mod d in
     if 2 * r > d \<or> (2 * r = d \<and> odd q) then q + 1 else q)"

definition dbl :: "nat \<Rightarrow> nat" where
  "dbl n = (let e = nbits n - 53 in if e = 0 then n else half_even n (2 ^ e) * 2 ^ e)"

lemma nbits_le_iff: "nbits n \<le> k \<longleftrightarrow> n < 2 ^ k"
proof (induction k arbitrary: n)
  case 0
  show ?case by (subst nbits.simps) simp
next
  case (Suc k)
  show ?case
    by (subst nbits.simps) (auto simp: Suc less_mult_imp_div_less mult.commute)
qed

lemma nbits_lower: "0 < n \<Longrightarrow> 2 ^ (nbits n - 1) \<le> n"
proof -
  assume "0 < n"
  then have "\<not> nbits n \<le> nbits n - 1"
    by (subst (1 2) nbits.simps) simp
  then show ?thesis
    using nbits_le_iff [of n "nbits n - 1"] by simp
qed

lemma dbl_small [simp]: "n < 2 ^ 53 \<Longrightarrow> dbl n = n"
  using nbits_le_iff [of n 53] by (simp add: dbl_def Let_def)

lemma half_even_ge: "n div d \<le> half_even n d"
  by (simp add: half_even_def Let_def)

text \<open>Rounding never brings a large integer below \<open>2 ^ 53\<close>, so a length or a field number
  that did not fit stays too large.\<close>

lemma dbl_large:
  assumes "2 ^ 53 \<le> n"
  shows "2 ^ 53 \<le> dbl n"
proof -
  define e where "e = nbits n - 53"
  from assms have pos: "0 < n" and nb: "53 < nbits n"
    using nbits_le_iff [of n 53] by auto
  then have e: "0 < e" "nbits n - 1 = 52 + e"
    by (auto simp: e_def)
  have "2 ^ (52 + e) \<le> n"
    using nbits_lower [OF pos] e by simp
  then have "2 ^ 52 \<le> n div 2 ^ e"
    by (simp add: less_eq_div_iff_mult_less_eq power_add)
  then have "2 ^ 52 \<le> half_even n (2 ^ e)"
    using half_even_ge [of n "2 ^ e"] by linarith
  then have "2 ^ 52 * 2 ^ e \<le> half_even n (2 ^ e) * 2 ^ e"
    by (rule mult_right_mono) simp
  moreover have "(2 :: nat) ^ 53 \<le> 2 ^ 52 * 2 ^ e"
    using e by (cases e) simp_all
  ultimately have "2 ^ 53 \<le> half_even n (2 ^ e) * 2 ^ e"
    by (rule order.trans [rotated])
  then show ?thesis
    using e(1) by (simp only: dbl_def Let_def e_def [symmetric]) simp
qed

lemma dbl_lt_iff: "dbl n < 2 ^ 53 \<longleftrightarrow> n < 2 ^ 53"
  using dbl_large [of n] by (cases "n < 2 ^ 53") auto

section \<open>\<open>Number\<close> of a string\<close>

datatype js_number = NaN | Inf bool | Fin rat

definition is_digit :: "char \<Rightarrow> bool" where
  "is_digit c \<longleftrightarrow> 48 \<le> (of_char c :: nat) \<and> (of_char c :: nat) \<le> 57"

definition digit_val :: "char \<Rightarrow> nat" where
  "digit_val c = (let n = of_char c :: nat in
     if 48 \<le> n \<and> n \<le> 57 then n - 48
     else if 97 \<le> n \<and> n \<le> 122 then n - 87
     else if 65 \<le> n \<and> n \<le> 90 then n - 55 else 36)"

definition digits_val :: "nat \<Rightarrow> string \<Rightarrow> nat" where
  "digits_val b s = foldl (\<lambda>acc c. acc * b + digit_val c) 0 s"

text \<open>The double nearest to \<open>n / d\<close>, through the finest spacing \<open>2 ^ -1074\<close>.\<close>

definition dbl_quotient :: "nat \<Rightarrow> nat \<Rightarrow> rat" where
  "dbl_quotient n d =
     (let s = n * 2 ^ 1074; e = nbits (s div d) - 53 in
      of_nat (half_even s (d * 2 ^ e) * 2 ^ e) / 2 ^ 1074)"

text \<open>Beyond the largest finite double the result is an infinity.\<close>

definition fin_or_inf :: "bool \<Rightarrow> rat \<Rightarrow> js_number" where
  "fin_or_inf neg r = (if 2 ^ 1024 \<le> r then Inf neg else Fin (if neg then - r else r))"

definition radix_literal :: "nat \<Rightarrow> string \<Rightarrow> js_number" where
  "radix_literal b s =
     (if s \<noteq> [] \<and> list_all (\<lambda>c. digit_val c < b) s then fin_or_inf False (of_nat (dbl (digits_val b s))) else NaN)"

definition split_sign :: "string \<Rightarrow> bool \<times> string" where
  "split_sign s =
     (case s of [] \<Rightarrow> (False, [])
      | c # t \<Rightarrow> if c = CHR ''-'' then (True, t) else if c = CHR ''+'' then (False, t) else (False, s))"

text \<open>An exponent part: optional sign, at least one digit.\<close>

definition exponent_of :: "string \<Rightarrow> int option" where
  "exponent_of s =
     (let (neg, ds) = split_sign s in
      if ds \<noteq> [] \<and> list_all is_digit ds
      then Some (if neg then - int (digits_val 10 ds) else int (digits_val 10 ds)) else None)"

definition unsigned_decimal :: "string \<Rightarrow> rat option" where
  "unsigned_decimal s =
     (let mant = takeWhile (\<lambda>c. c \<noteq> CHR ''e'' \<and> c \<noteq> CHR ''E'') s;
          rest = dropWhile (\<lambda>c. c \<noteq> CHR ''e'' \<and> c \<noteq> CHR ''E'') s;
          ex = (case rest of [] \<Rightarrow> Some 0 | _ # t \<Rightarrow> exponent_of t) in
      case (js_split CHR ''.'' mant, ex) of
        ([ip], Some e) \<Rightarrow>
          if ip \<noteq> [] \<and> list_all is_digit ip
          then Some (if 0 \<le> e then of_nat (dbl (digits_val 10 ip * 10 ^ nat e))
                     else dbl_quotient (digits_val 10 ip) (10 ^ nat (- e)))
          else None
      | ([ip, fp], Some e) \<Rightarrow>
          if ip @ fp \<noteq> [] \<and> list_all is_digit (ip @ fp)
          then (let n = digits_val 10 (ip @ fp); k = e - int (length fp) in
                Some (if 0 \<le> k then of_nat (dbl (n * 10 ^ nat k))
                      else dbl_quotient n (10 ^ nat (- k))))
          else None
      | _ \<Rightarrow> None)"

definition signed_literal :: "string \<Rightarrow> js_number" where
  "signed_literal s =
     (let (neg, t) = split_sign s in
      if t = ''Infinity'' then Inf neg
      else (case unsigned_decimal t of
              None \<Rightarrow> NaN
            | Some r \<Rightarrow> fin_or_inf neg r))"

definition js_Number :: "string \<Rightarrow> js_number" where
  "js_Number s0 =
     (let s = js_trim s0 in
      if s = [] then Fin 0
      else if hd s = CHR ''0'' \<and> tl s \<noteq> [] \<and> (s ! 1 = CHR ''x'' \<or> s ! 1 = CHR ''X'') then radix_literal 16 (drop 2 s)
      else if hd s = CHR ''0'' \<and> tl s \<noteq> [] \<and> (s ! 1 = CHR ''o'' \<or> s ! 1 = CHR ''O'') then radix_literal 8 (drop 2 s)
      else if hd s = CHR ''0'' \<and> tl s \<noteq> [] \<and> (s ! 1 = CHR ''b'' \<or> s ! 1 = CHR ''B'') then radix_literal 2 (drop 2 s)
      else signed_literal s)"

text \<open>\<open>Number.isInteger(v)\<close>, with the integer it is.\<close>

definition integer_of :: "js_number \<Rightarrow> int option" where
  "integer_of v = (case v of Fin r \<Rightarrow> if r = of_int \<lfloor>r\<rfloor> then Some \<lfloor>r\<rfloor> else None | _ \<Rightarrow> None)"

section \<open>Decimal printing\<close>

fun dec_of_nat :: "nat \<Rightarrow> string" where
  "dec_of_nat n = (if n < 10 then [char_of (48 + n)] else dec_of_nat (n div 10) @ [char_of (48 + n mod 10)])"

declare dec_of_nat.simps [simp del]

lemma digit_char [simp]: "(n :: nat) < 10 \<Longrightarrow> is_digit (char_of (48 + n))"
  by (simp add: is_digit_def)

lemma digit_val_char [simp]: "n < 10 \<Longrightarrow> digit_val (char_of (48 + n)) = n"
  by (simp add: digit_val_def)

lemma dec_of_nat_digits: "list_all is_digit (dec_of_nat n)"
  by (induction n rule: dec_of_nat.induct) (subst dec_of_nat.simps, auto)

lemma dec_of_nat_not_Nil [simp]: "dec_of_nat n \<noteq> []"
  by (subst dec_of_nat.simps) simp

lemma digits_val_snoc: "digits_val b (s @ [c]) = digits_val b s * b + digit_val c"
  by (simp add: digits_val_def)

lemma digits_val_dec [simp]: "digits_val 10 (dec_of_nat n) = n"
proof (induction n rule: dec_of_nat.induct)
  case (1 n)
  show ?case
  proof (cases "n < 10")
    case True
    then show ?thesis
      by (subst dec_of_nat.simps) (simp add: digits_val_def)
  next
    case False
    with 1 show ?thesis
      by (subst dec_of_nat.simps) (simp add: digits_val_snoc)
  qed
qed

lemma dec_of_nat_inj: "dec_of_nat m = dec_of_nat n \<Longrightarrow> m = n"
  by (metis digits_val_dec)

lemma is_digit_neq [simp]:
  "is_digit c \<Longrightarrow> c \<noteq> CHR ''.''" "is_digit c \<Longrightarrow> c \<noteq> CHR ''e''" "is_digit c \<Longrightarrow> c \<noteq> CHR ''E''"
  "is_digit c \<Longrightarrow> c \<noteq> CHR ''x''" "is_digit c \<Longrightarrow> c \<noteq> CHR ''X''" "is_digit c \<Longrightarrow> c \<noteq> CHR ''o''"
  "is_digit c \<Longrightarrow> c \<noteq> CHR ''O''" "is_digit c \<Longrightarrow> c \<noteq> CHR ''b''" "is_digit c \<Longrightarrow> c \<noteq> CHR ''B''"
  "is_digit c \<Longrightarrow> c \<noteq> CHR ''-''" "is_digit c \<Longrightarrow> c \<noteq> CHR ''+''" "is_digit c \<Longrightarrow> c \<noteq> CHR ''I''"
  "is_digit c \<Longrightarrow> c \<noteq> CHR ''/''" "is_digit c \<Longrightarrow> c \<noteq> CHR '':''"
  by (auto simp: is_digit_def)

lemma is_digit_not_ws [simp]: "is_digit c \<Longrightarrow> \<not> is_ws c"
  by (auto simp: is_digit_def is_ws_def)

section \<open>\<open>Number\<close> of a digit string\<close>

lemma dropWhile_ws_digits: "list_all is_digit s \<Longrightarrow> dropWhile is_ws s = s"
  by (cases s) auto

lemma js_trim_digits [simp]: "list_all is_digit s \<Longrightarrow> js_trim s = s"
  by (simp add: js_trim_def dropWhile_ws_digits)

lemma digits_no_char:
  "list_all is_digit s \<Longrightarrow> \<not> is_digit c \<Longrightarrow> c \<notin> set s"
  by (auto simp: list_all_iff)

lemma takeWhile_digits:
  "list_all is_digit s \<Longrightarrow> takeWhile (\<lambda>c. c \<noteq> CHR ''e'' \<and> c \<noteq> CHR ''E'') s = s"
  "list_all is_digit s \<Longrightarrow> dropWhile (\<lambda>c. c \<noteq> CHR ''e'' \<and> c \<noteq> CHR ''E'') s = []"
  by (induction s) auto

lemma unsigned_decimal_digits:
  assumes "list_all is_digit s" and "s \<noteq> []"
  shows "unsigned_decimal s = Some (of_nat (dbl (digits_val 10 s)))"
proof -
  have "js_split CHR ''.'' s = [s]"
    using assms by (intro js_split_plain digits_no_char) (simp_all add: is_digit_def)
  then show ?thesis
    using assms by (simp add: unsigned_decimal_def Let_def takeWhile_digits)
qed

lemma signed_literal_digits:
  assumes "list_all is_digit s" and "s \<noteq> []"
  shows "signed_literal s = fin_or_inf False (of_nat (dbl (digits_val 10 s)))"
proof -
  obtain c t where s: "s = c # t" and c: "is_digit c"
    using assms by (cases s) auto
  have "split_sign s = (False, s)"
    using c by (auto simp: s split_sign_def)
  moreover have "s \<noteq> ''Infinity''"
    using c by (auto simp: s)
  ultimately show ?thesis
    using assms by (simp add: signed_literal_def unsigned_decimal_digits)
qed

lemma js_Number_digits:
  assumes "list_all is_digit s" and "s \<noteq> []"
  shows "js_Number s = fin_or_inf False (of_nat (dbl (digits_val 10 s)))"
proof -
  have "js_Number s = signed_literal s"
    using assms by (cases s; cases "tl s") (auto simp: js_Number_def Let_def)
  then show ?thesis
    using assms by (simp add: signed_literal_digits)
qed

lemma integer_of_digits:
  assumes "list_all is_digit s" and "s \<noteq> []" and "digits_val 10 s < 2 ^ 53"
  shows "integer_of (js_Number s) = Some (int (digits_val 10 s))"
proof -
  let ?n = "digits_val 10 s"
  have "rat_of_nat ?n < 2 ^ 53"
    using assms(3) by (metis of_nat_less_iff of_nat_numeral of_nat_power)
  also have "(2 :: rat) ^ 53 \<le> 2 ^ 1024"
    by (rule power_increasing) simp_all
  finally have "\<not> (2 :: rat) ^ 1024 \<le> of_nat ?n"
    by (simp only: not_le)
  moreover have "dbl ?n = ?n"
    using assms(3) by (rule dbl_small)
  ultimately have "js_Number s = Fin (of_nat ?n)"
    unfolding js_Number_digits [OF assms(1,2)] fin_or_inf_def by presburger
  then show ?thesis
    by (simp add: integer_of_def)
qed

lemma integer_of_dec [simp]: "n < 2 ^ 53 \<Longrightarrow> integer_of (js_Number (dec_of_nat n)) = Some (int n)"
  using integer_of_digits [of "dec_of_nat n"] by (simp add: dec_of_nat_digits)

end
