(* ===== verification/AwgSubnet.thy ===== *)
theory AwgSubnet
  imports JsNumber "HOL-Library.Word"
begin

text \<open>
  IPv4 addresses and subnets of AmneziaWG profiles
  (\<open>modules/amneziawg/amneziawg.subnet.ts\<close>): parsing, printing and the usable range of a
  CIDR. An address is the unsigned 32-bit number the code keeps, here a natural number; the
  bit operations that make a mask are on \<open>32 word\<close>, as JavaScript's are on 32 bits.
\<close>

unbundle bit_operations_syntax

datatype subnet_error =
    InvalidIPv4 string
  | InvalidOctet string
  | InvalidCidr string
  | InvalidPrefix js_number
  | SubnetTooSmall string

record subnet_range =
  range_base :: nat
  range_prefix :: nat
  serverIp :: nat
  firstUsable :: nat
  lastUsable :: nat

text \<open>The octet loop of \<open>ipToInt\<close>: \<open>Number(p)\<close> has to be an integer in 0..255 and the text
  not empty (\<open>Number('')\<close> is 0).\<close>

fun ip_octets :: "string \<Rightarrow> nat \<Rightarrow> string list \<Rightarrow> subnet_error + nat" where
  "ip_octets ip n [] = Inr n"
| "ip_octets ip n (p # ps) =
     (case integer_of (js_Number p) of
        None \<Rightarrow> Inl (InvalidOctet ip)
      | Some v \<Rightarrow>
          if v < 0 \<or> v > 255 \<or> p = [] then Inl (InvalidOctet ip)
          else ip_octets ip (n * 256 + nat v) ps)"

definition ipToInt :: "string \<Rightarrow> subnet_error + nat" where
  "ipToInt ip =
     (let parts = js_split CHR ''.'' ip in
      if length parts \<noteq> 4 then Inl (InvalidIPv4 ip)
      else rbind (ip_octets ip 0 parts) (\<lambda>n. Inr (n mod 2 ^ 32)))"

definition intToIp :: "nat \<Rightarrow> string" where
  "intToIp n =
     (let w = word_of_nat n :: 32 word; octet = (\<lambda>k. dec_of_nat (unat (drop_bit k w AND 255))) in
      js_join ''.'' [octet 24, octet 16, octet 8, octet 0])"

definition parseSubnet :: "string \<Rightarrow> subnet_error + subnet_range" where
  "parseSubnet cidr =
     (case js_index_of CHR ''/'' cidr of
        None \<Rightarrow> Inl (InvalidCidr cidr)
      | Some slash \<Rightarrow>
          if slash < 1 then Inl (InvalidCidr cidr)
          else
            let ipStr = take slash cidr; pnum = js_Number (drop (slash + 1) cidr) in
            (case integer_of pnum of
               None \<Rightarrow> Inl (InvalidPrefix pnum)
             | Some p \<Rightarrow>
                 if p < 8 \<or> p > 30 then Inl (InvalidPrefix pnum)
                 else rbind (ipToInt ipStr) (\<lambda>baseRaw.
                   let prefix = nat p;
                       mask = (if prefix = 0 then 0 else push_bit (32 - prefix) (- 1 :: 32 word));
                       base = word_of_nat baseRaw AND mask;
                       broadcast = base OR NOT mask;
                       server = unat base + 1;
                       first = server + 1;
                       final = unat broadcast - 1
                   in if first > final then Inl (SubnetTooSmall cidr)
                      else Inr \<lparr>range_base = unat base, range_prefix = prefix, serverIp = server,
                                firstUsable = first, lastUsable = final\<rparr>)))"

section \<open>Printing and reading an address\<close>

lemma octet_value: "unat (drop_bit k (w :: 32 word) AND 255) = unat w div 2 ^ k mod 256"
proof -
  have "drop_bit k w AND 255 = take_bit 8 (drop_bit k w)"
    by (simp add: take_bit_eq_mask mask_eq_exp_minus_1)
  then show ?thesis
    using unsigned_less [of w, where 'a = nat]
    by (simp only: unsigned_take_bit_eq unsigned_drop_bit_eq) (simp add: take_bit_eq_mod drop_bit_eq_div)
qed

lemma intToIp_eq:
  "n < 2 ^ 32 \<Longrightarrow> intToIp n =
     js_join ''.'' (map dec_of_nat [n div 2 ^ 24 mod 256, n div 2 ^ 16 mod 256, n div 2 ^ 8 mod 256, n mod 256])"
  by (simp add: intToIp_def Let_def octet_value unat_of_nat)

lemma dec_no_dot [simp]: "CHR ''.'' \<notin> set (dec_of_nat n)"
  by (rule digits_no_char [OF dec_of_nat_digits]) (simp add: is_digit_def)

lemma split_intToIp:
  "n < 2 ^ 32 \<Longrightarrow> js_split CHR ''.'' (intToIp n) =
     map dec_of_nat [n div 2 ^ 24 mod 256, n div 2 ^ 16 mod 256, n div 2 ^ 8 mod 256, n mod 256]"
  unfolding intToIp_eq by (rule js_split_join) (auto simp del: js_join.simps)

lemma ip_octets_dec:
  "\<forall>v \<in> set vs. v < 256 \<Longrightarrow>
   ip_octets ip n (map dec_of_nat vs) = Inr (foldl (\<lambda>a v. a * 256 + v) n vs)"
  by (induction vs arbitrary: n) auto

lemma octets_value:
  fixes n :: nat
  assumes "n < 2 ^ 32"
  shows "((n div 2 ^ 24 mod 256 * 256 + n div 2 ^ 16 mod 256) * 256 + n div 2 ^ 8 mod 256) * 256 + n mod 256 = n"
proof -
  define a b c where "a = n div 256" and "b = a div 256" and "c = b div 256"
  have d: "n div 2 ^ 24 = c" "n div 2 ^ 16 = b" "n div 2 ^ 8 = a"
    by (simp_all add: a_def b_def c_def flip: div_mult2_eq)
  have "c = n div (256 * 256 * 256)"
    by (simp add: a_def b_def c_def flip: div_mult2_eq)
  then have c: "c mod 256 = c"
    using assms by (simp add: less_mult_imp_div_less)
  have "c * 256 + b mod 256 = b" "b * 256 + a mod 256 = a" "a * 256 + n mod 256 = n"
    by (simp_all add: a_def b_def c_def)
  then show ?thesis
    unfolding d c by simp
qed

lemma ipToInt_intToIp [simp]:
  assumes "n < 2 ^ 32"
  shows "ipToInt (intToIp n) = Inr n"
proof -
  have "ip_octets (intToIp n) 0 (js_split CHR ''.'' (intToIp n)) = Inr n"
    unfolding split_intToIp [OF assms]
    by (subst ip_octets_dec) (simp_all add: octets_value [OF assms, simplified])
  then show ?thesis
    using assms by (simp add: ipToInt_def split_intToIp)
qed

lemma intToIp_inj: "m < 2 ^ 32 \<Longrightarrow> n < 2 ^ 32 \<Longrightarrow> intToIp m = intToIp n \<Longrightarrow> m = n"
  by (metis ipToInt_intToIp sum.inject(2))

section \<open>The range of a subnet\<close>

lemma ipToInt_bound:
  assumes "ipToInt ip = Inr n"
  shows "n < 2 ^ 32"
proof -
  have "\<exists>m. n = m mod 2 ^ 32"
    using assms by (cases "ip_octets ip 0 (js_split CHR ''.'' ip)") (auto simp only: ipToInt_def Let_def rbind.simps split: if_split_asm)
  then show ?thesis
    by (metis mod_less_divisor zero_less_power zero_less_numeral)
qed

lemma masked_base:
  fixes w :: "32 word"
  shows "unat (w AND push_bit k (- 1)) = unat w - unat w mod 2 ^ k"
proof -
  have "w AND push_bit k (- 1) = push_bit k (drop_bit k w)"
    by (rule bit_word_eqI) (auto simp: bit_simps)
  moreover have "push_bit k (drop_bit k w) + take_bit k w = w"
    by (rule bits_ident)
  ultimately have eq: "(w AND push_bit k (- 1)) + take_bit k w = w"
    by simp
  have "unat (take_bit k w) = unat w mod 2 ^ k"
    by (simp only: unsigned_take_bit_eq) (simp add: take_bit_eq_mod)
  moreover have "take_bit k w \<le> w"
    by (simp only: word_le_nat_alt unsigned_take_bit_eq) (simp add: take_bit_eq_mod)
  ultimately show ?thesis
    using eq by (metis add_diff_cancel_right' unat_sub)
qed

lemma masked_broadcast:
  fixes w :: "32 word"
  assumes "k \<le> 32"
  shows "unat ((w AND push_bit k (- 1)) OR NOT (push_bit k (- 1))) = unat (w AND push_bit k (- 1)) + (2 ^ k - 1)"
proof -
  let ?b = "w AND push_bit k (- 1)"
  have m: "NOT (push_bit k (- 1 :: 32 word)) = mask k"
    by (rule bit_word_eqI) (auto simp: bit_simps)
  have "?b OR mask k = ?b + mask k"
    by (rule disjunctive_add [symmetric]) (auto simp: bit_simps)
  moreover have "unat ?b + (2 ^ k - 1) < 2 ^ 32"
  proof -
    define q where "q = unat w div 2 ^ k"
    have b: "unat ?b = q * 2 ^ k"
      by (simp only: masked_base q_def minus_mod_eq_div_mult)
    have "unat w < 2 ^ (32 - k) * 2 ^ k"
      using assms unsigned_less [of w] by (simp flip: power_add)
    then have "q < 2 ^ (32 - k)"
      by (simp add: q_def less_mult_imp_div_less)
    then have "(q + 1) * 2 ^ k \<le> 2 ^ (32 - k) * 2 ^ k"
      by (intro mult_right_mono) simp_all
    also have "(2 :: nat) ^ (32 - k) * 2 ^ k = 2 ^ 32"
      using assms by (simp flip: power_add)
    finally have "unat ?b + 2 ^ k \<le> 2 ^ 32"
      by (simp only: b add_mult_distrib mult_1)
    moreover have "(0 :: nat) < 2 ^ k"
      by simp
    ultimately show ?thesis
      by linarith
  qed
  moreover have "unat (mask k :: 32 word) = 2 ^ k - 1"
    using assms by (simp only: unat_eq_nat_uint uint_mask_eq) (simp add: mask_eq_exp_minus_1 nat_diff_distrib nat_power_eq min_def)
  ultimately show ?thesis
    unfolding m using unat_add_lem [of ?b "mask k"] by simp
qed

text \<open>What every range the parser returns looks like; the allocators rest on it.\<close>

definition range_wf :: "subnet_range \<Rightarrow> bool" where
  "range_wf r \<longleftrightarrow>
     8 \<le> range_prefix r \<and> range_prefix r \<le> 30 \<and>
     range_base r mod 2 ^ (32 - range_prefix r) = 0 \<and>
     serverIp r = range_base r + 1 \<and>
     firstUsable r = range_base r + 2 \<and>
     lastUsable r = range_base r + (2 ^ (32 - range_prefix r) - 2) \<and>
     firstUsable r \<le> lastUsable r \<and>
     range_base r + 2 ^ (32 - range_prefix r) \<le> 2 ^ 32"

lemma masked_range:
  fixes w m :: "32 word"
  assumes m: "m = push_bit k (- 1)" and k: "1 \<le> k" "k \<le> 24"
  shows "unat (w AND m) mod 2 ^ k = 0"
    and "unat ((w AND m) OR NOT m) - 1 = unat (w AND m) + (2 ^ k - 2)"
    and "unat (w AND m) + 2 ^ k \<le> 2 ^ 32"
proof -
  have k2: "(2 :: nat) ^ 1 \<le> 2 ^ k"
    using k(1) by (rule power_increasing) simp
  have b: "unat ((w AND m) OR NOT m) = unat (w AND m) + (2 ^ k - 1)"
    unfolding m using k by (intro masked_broadcast) simp
  show "unat (w AND m) mod 2 ^ k = 0"
    unfolding m masked_base by (simp add: minus_mod_eq_div_mult)
  show "unat ((w AND m) OR NOT m) - 1 = unat (w AND m) + (2 ^ k - 2)"
    unfolding b using k2 by simp
  have "unat ((w AND m) OR NOT m) < 2 ^ 32"
    using unsigned_less [of "(w AND m) OR NOT m", where 'a = nat] by simp
  then show "unat (w AND m) + 2 ^ k \<le> 2 ^ 32"
    unfolding b using k2 by linarith
qed

lemma parseSubnet_wf:
  assumes "parseSubnet cidr = Inr r"
  shows "range_wf r"
proof -
  obtain slash where slash: "js_index_of CHR ''/'' cidr = Some slash" "\<not> slash < 1"
    using assms by (auto simp only: parseSubnet_def split: option.split_asm if_split_asm)
  obtain p where p: "integer_of (js_Number (drop (slash + 1) cidr)) = Some p" "\<not> (p < 8 \<or> p > 30)"
    using assms slash by (auto simp only: parseSubnet_def Let_def split: option.split_asm if_split_asm)
  obtain raw where raw: "ipToInt (take slash cidr) = Inr raw"
    using assms slash p by (cases "ipToInt (take slash cidr)") (simp_all add: parseSubnet_def Let_def)
  define k where "k = 32 - nat p"
  define m where "m = push_bit k (- 1 :: 32 word)"
  define b where "b = (word_of_nat raw :: 32 word) AND m"
  have k: "1 \<le> k" "k \<le> 24" and pk: "32 - nat p = k" "nat p \<noteq> 0" "8 \<le> nat p" "nat p \<le> 30"
    using p(2) by (auto simp: k_def)
  note mr = masked_range [OF m_def k, of "word_of_nat raw", folded b_def]
  have "\<not> unat b + 1 + 1 > unat (b OR NOT m) - 1 \<and>
    r = \<lparr>range_base = unat b, range_prefix = nat p, serverIp = unat b + 1,
         firstUsable = unat b + 1 + 1, lastUsable = unat (b OR NOT m) - 1\<rparr>"
    using assms p(2) unfolding parseSubnet_def slash(1) option.case Let_def p(1) raw rbind.simps pk(1) m_def b_def
    by (simp only: slash(2) pk(2) if_False split: if_split_asm) auto
  then show ?thesis
    using mr pk unfolding range_wf_def by simp
qed

text \<open>The addresses handed to peers: candidate \<open>i\<close> of a range.\<close>

definition peer_addr :: "subnet_range \<Rightarrow> nat \<Rightarrow> string" where
  "peer_addr r i = intToIp (firstUsable r + i)"

definition peer_span :: "subnet_range \<Rightarrow> nat" where
  "peer_span r = lastUsable r - firstUsable r"

lemma range_wf_bounds:
  assumes "range_wf r"
  shows "lastUsable r < 2 ^ 32" "firstUsable r \<le> lastUsable r"
proof -
  from assms have "lastUsable r = range_base r + (2 ^ (32 - range_prefix r) - 2)"
    and "range_base r + 2 ^ (32 - range_prefix r) \<le> 2 ^ 32"
    and le: "firstUsable r \<le> lastUsable r" "firstUsable r = range_base r + 2"
    by (auto simp: range_wf_def)
  moreover have "(0 :: nat) < 2 ^ (32 - range_prefix r)"
    by simp
  ultimately show "lastUsable r < 2 ^ 32"
    by linarith
  show "firstUsable r \<le> lastUsable r"
    by (fact le)
qed

lemma peer_addr_inj:
  assumes "range_wf r"
  shows "inj_on (peer_addr r) {..peer_span r}"
proof (rule inj_onI)
  fix i j assume "i \<in> {..peer_span r}" "j \<in> {..peer_span r}" and eq: "peer_addr r i = peer_addr r j"
  then have "firstUsable r + i < 2 ^ 32" "firstUsable r + j < 2 ^ 32"
    using range_wf_bounds [OF assms] by (auto simp: peer_span_def)
  with eq have "firstUsable r + i = firstUsable r + j"
    unfolding peer_addr_def by (metis intToIp_inj)
  then show "i = j"
    by simp
qed

section \<open>Properties\<close>

text \<open>Round trip of addresses: printing any 32-bit address as a dotted quad and reading it
  back gives the address, so an address column written by the panel is read as what was
  written.\<close>

theorem ip_round_trip:
  assumes "n < 2 ^ 32"
  shows "ipToInt (intToIp n) = Inr n"
  using assms by (rule ipToInt_intToIp)

theorem ip_round_trip_witness: "ipToInt (intToIp 171065344) = Inr 171065344"
  by (rule ip_round_trip) simp

text \<open>A subnet that parses has a prefix of 8..30, an aligned base, the server on the first
  address after it, and exactly the remaining addresses but the broadcast one as its usable
  range: network, server and broadcast are never handed to a peer and every usable address is
  inside the subnet.\<close>

theorem parseSubnet_reserves:
  assumes "parseSubnet cidr = Inr r"
  shows "8 \<le> range_prefix r \<and> range_prefix r \<le> 30 \<and>
     range_base r mod 2 ^ (32 - range_prefix r) = 0 \<and>
     serverIp r = range_base r + 1 \<and>
     firstUsable r = serverIp r + 1 \<and> firstUsable r \<le> lastUsable r \<and>
     lastUsable r + 1 = range_base r + (2 ^ (32 - range_prefix r) - 1) \<and>
     lastUsable r - firstUsable r + 1 = 2 ^ (32 - range_prefix r) - 3 \<and>
     range_base r + 2 ^ (32 - range_prefix r) \<le> 2 ^ 32"
proof -
  define size where "size = (2 :: nat) ^ (32 - range_prefix r)"
  have "range_wf r"
    using assms by (rule parseSubnet_wf)
  then have wf: "8 \<le> range_prefix r" "range_prefix r \<le> 30" "range_base r mod size = 0"
    "serverIp r = range_base r + 1" "firstUsable r = range_base r + 2"
    "lastUsable r = range_base r + (size - 2)" "firstUsable r \<le> lastUsable r" "range_base r + size \<le> 2 ^ 32"
    unfolding range_wf_def size_def [symmetric] by auto
  then have "4 \<le> size"
    by simp
  moreover from this have "lastUsable r + 1 = range_base r + (size - 1)" "lastUsable r - firstUsable r + 1 = size - 3"
    using wf by linarith+
  ultimately show ?thesis
    unfolding size_def [symmetric] using wf by simp
qed

lemma parseSubnet_default:
  "parseSubnet ''10.66.66.0/24'' =
     Inr \<lparr>range_base = 172114432, range_prefix = 24, serverIp = 172114433,
          firstUsable = 172114434, lastUsable = 172114686\<rparr>"
proof -
  have "integer_of (js_Number ''10'') = Some 10" "integer_of (js_Number ''66'') = Some 66"
    "integer_of (js_Number ''0'') = Some 0" "integer_of (js_Number ''24'') = Some 24"
    by (subst integer_of_digits; simp add: is_digit_def digits_val_def digit_val_def)+
  then show ?thesis
    by (simp add: parseSubnet_def ipToInt_def Let_def mask_eq_exp_minus_1)
qed

theorem parseSubnet_reserves_witness:
  "\<exists>r. parseSubnet ''10.66.66.0/24'' = Inr r \<and> serverIp r = 172114433 \<and>
     lastUsable r - firstUsable r + 1 = 2 ^ (32 - range_prefix r) - 3"
  using parseSubnet_reserves [OF parseSubnet_default] parseSubnet_default by auto

end
