(* ===== verification/AwgPeers.thy ===== *)
theory AwgPeers
  imports AwgSubnet
begin

text \<open>
  The AmneziaWG address allocator (\<open>modules/amneziawg/amneziawg.service.ts\<close>,
  \<open>awg-addresses.ts\<close>). The table \<open>amneziawg_peers\<close> is a list of rows. A statement reads the
  snapshot it started on and inserts into the table as it is by then, so a statement takes
  both; what other sessions commit in between is an argument of the operations, a function on
  the table per gap. The two unique keys of the table are (profile, ip) and (profile, user).
\<close>

record peer =
  peer_profile :: string
  peer_user :: string
  peer_ip :: string

type_synonym peers = "peer list"

datatype alloc_error =
    SubnetErr subnet_error
  | UniqueViolation
  | IpExhaustedError string string
  | AttemptsError string

definition peers_of :: "string \<Rightarrow> peers \<Rightarrow> peers" where
  "peers_of prof t = filter (\<lambda>p. peer_profile p = prof) t"

definition taken_ips :: "string \<Rightarrow> peers \<Rightarrow> string list" where
  "taken_ips prof t = map peer_ip (peers_of prof t)"

definition getPeer :: "string \<Rightarrow> string \<Rightarrow> peers \<Rightarrow> peer option" where
  "getPeer prof user t = List.find (\<lambda>p. peer_profile p = prof \<and> peer_user p = user) t"

text \<open>The candidate scan \<open>generate_series(0, k)\<close> filtered by NOT EXISTS, lowest first.\<close>

definition first_free :: "(nat \<Rightarrow> string) \<Rightarrow> nat \<Rightarrow> string list \<Rightarrow> nat option" where
  "first_free addr k taken = List.find (\<lambda>gs. addr gs \<notin> set taken) [0..<Suc k]"

definition alloc_stmt ::
  "subnet_range \<Rightarrow> string \<Rightarrow> string \<Rightarrow> peers \<Rightarrow> peers \<Rightarrow> alloc_error + peers \<times> peer option" where
  "alloc_stmt r prof user snap cur =
     (case getPeer prof user snap of
        Some p \<Rightarrow> Inr (cur, Some p)
      | None \<Rightarrow>
          (case first_free (peer_addr r) (min (peer_span r) (length (peers_of prof snap))) (taken_ips prof snap) of
             None \<Rightarrow> Inr (cur, None)
           | Some gs \<Rightarrow>
               let ip = peer_addr r gs in
               if ip \<in> set (taken_ips prof cur) then Inr (cur, None)
               else if getPeer prof user cur \<noteq> None then Inl UniqueViolation
               else let p = \<lparr>peer_profile = prof, peer_user = user, peer_ip = ip\<rparr>
                    in Inr (cur @ [p], Some p)))"

type_synonym gap = "peers \<Rightarrow> peers"

text \<open>The retry loop. Each attempt has two gaps: between the snapshot and the insert, and
  between the statement and the count that tells exhaustion from a lost race.\<close>

fun alloc_loop ::
  "subnet_range \<Rightarrow> string \<Rightarrow> string \<Rightarrow> string \<Rightarrow> (gap \<times> gap) list \<Rightarrow> peers \<Rightarrow> (alloc_error + peer) \<times> peers" where
  "alloc_loop r subnet prof user [] t = (Inl (AttemptsError prof), t)"
| "alloc_loop r subnet prof user ((f, g) # gaps) t =
     (case alloc_stmt r prof user t (f t) of
        Inl e \<Rightarrow> (Inl e, f t)
      | Inr (t', Some p) \<Rightarrow> (Inr p, t')
      | Inr (t', None) \<Rightarrow>
          let t'' = g t'; taken = length (peers_of prof t''); capacity = lastUsable r - firstUsable r + 1 in
          if taken \<ge> capacity then (Inl (IpExhaustedError prof subnet), t'')
          else alloc_loop r subnet prof user gaps t'')"

definition maxAttempts :: nat where
  "maxAttempts = 12"

definition allocatePeer ::
  "(nat \<Rightarrow> gap \<times> gap) \<Rightarrow> string \<Rightarrow> string \<Rightarrow> string \<Rightarrow> peers \<Rightarrow> (alloc_error + peer) \<times> peers" where
  "allocatePeer gaps prof user subnet t =
     (case parseSubnet subnet of
        Inl e \<Rightarrow> (Inl (SubnetErr e), t)
      | Inr r \<Rightarrow> alloc_loop r subnet prof user (map gaps [0..<maxAttempts]) t)"

definition releasePeer :: "string \<Rightarrow> string \<Rightarrow> peers \<Rightarrow> peers" where
  "releasePeer prof user t = filter (\<lambda>p. \<not> (peer_profile p = prof \<and> peer_user p = user)) t"

text \<open>\<open>INSERT ... ON CONFLICT DO NOTHING\<close>, row by row, over both unique keys.\<close>

fun insert_pairs :: "string \<Rightarrow> (string \<times> string) list \<Rightarrow> peers \<Rightarrow> peers" where
  "insert_pairs prof [] t = t"
| "insert_pairs prof ((u, ip) # ps) t =
     insert_pairs prof ps
       (if ip \<in> set (taken_ips prof t) \<or> getPeer prof u t \<noteq> None then t
        else t @ [\<lparr>peer_profile = prof, peer_user = u, peer_ip = ip\<rparr>])"

definition prealloc_stmt :: "subnet_range \<Rightarrow> string \<Rightarrow> string list \<Rightarrow> peers \<Rightarrow> peers \<Rightarrow> peers" where
  "prealloc_stmt r prof userIds snap cur =
     (let needed = sort (filter (\<lambda>u. getPeer prof u snap = None) userIds);
          n = length needed;
          free = take n (filter (\<lambda>gs. peer_addr r gs \<notin> set (taken_ips prof snap))
                   [0..<Suc (min (peer_span r) (length (peers_of prof snap) + n))])
      in insert_pairs prof (zip needed (map (peer_addr r) free)) cur)"

definition peer_map :: "string \<Rightarrow> string list \<Rightarrow> peers \<Rightarrow> (string, string) jsmap" where
  "peer_map prof userIds t =
     foldl (\<lambda>m p. map_set (peer_user p) (peer_ip p) m) []
       (filter (\<lambda>p. peer_profile p = prof \<and> peer_user p \<in> set userIds) t)"

definition preallocatePeers ::
  "gap \<Rightarrow> gap \<Rightarrow> string \<Rightarrow> string list \<Rightarrow> string \<Rightarrow> peers \<Rightarrow> (alloc_error + (string, string) jsmap) \<times> peers" where
  "preallocatePeers f g prof userIds subnet t =
     (if userIds = [] then (Inr [], t)
      else case parseSubnet subnet of
        Inl e \<Rightarrow> (Inl (SubnetErr e), t)
      | Inr r \<Rightarrow> let t' = g (prealloc_stmt r prof userIds t (f t)) in (Inr (peer_map prof userIds t'), t'))"

section \<open>The address a user is pushed with\<close>

record awg_binding =
  ab_id :: string
  ab_port :: nat
  ab_protocol3 :: bool

text \<open>\<open>awgBindingsOfNode\<close>: the rows come in port order, the last of each generation counts.\<close>

definition awgBindingsOfNode :: "awg_binding list \<Rightarrow> string option \<times> string option" where
  "awgBindingsOfNode rows0 =
     (let rows = sort_key ab_port rows0;
          final = (\<lambda>xs. if xs = [] then None else Some (ab_id (last xs))) in
      (final (filter (\<lambda>b. \<not> ab_protocol3 b) rows), final (filter ab_protocol3 rows)))"

record awg_user =
  au_id :: string
  au_key :: "string option"

definition has_awg_key :: "awg_user \<Rightarrow> bool" where
  "has_awg_key u \<longleftrightarrow> (case au_key u of None \<Rightarrow> False | Some k \<Rightarrow> k \<noteq> [])"

fun address_users ::
  "(string \<Rightarrow> nat \<Rightarrow> gap \<times> gap) \<Rightarrow> string \<Rightarrow> string \<Rightarrow> (string, string) jsmap \<Rightarrow> awg_user list \<Rightarrow>
   (string, string) jsmap \<times> peers \<Rightarrow> (string, string) jsmap \<times> peers" where
  "address_users gaps prof subnet bulk [] (out, t) = (out, t)"
| "address_users gaps prof subnet bulk (u # us) (out, t) =
     (case map_get bulk (au_id u) of
        Some ip \<Rightarrow> address_users gaps prof subnet bulk us (map_set (au_id u) ip out, t)
      | None \<Rightarrow>
          (case allocatePeer (gaps (au_id u)) prof (au_id u) subnet t of
             (Inl _, t') \<Rightarrow> address_users gaps prof subnet bulk us (out, t')
           | (Inr p, t') \<Rightarrow> address_users gaps prof subnet bulk us (map_set (au_id u) (peer_ip p) out, t')))"

text \<open>\<open>allocateAwgAddresses\<close>. \<open>row\<close> is what the binding's id finds: the profile and its
  configured subnet, if any. Bulk first, whoever is missing one by one.\<close>

definition allocateAwgAddresses ::
  "gap \<Rightarrow> gap \<Rightarrow> (string \<Rightarrow> nat \<Rightarrow> gap \<times> gap) \<Rightarrow> string option \<Rightarrow> (string \<Rightarrow> (string \<times> string option) option) \<Rightarrow>
   awg_user list \<Rightarrow> peers \<Rightarrow> (string, string) jsmap \<times> peers" where
  "allocateAwgAddresses f g gaps bindingId findBinding users t =
     (case bindingId of
        None \<Rightarrow> ([], t)
      | Some b \<Rightarrow>
          if b = [] then ([], t)
          else (case findBinding b of
            None \<Rightarrow> ([], t)
          | Some (prof, sub) \<Rightarrow>
              let subnet = (case sub of None \<Rightarrow> ''10.66.66.0/24'' | Some s \<Rightarrow> s);
                  awgUsers = filter has_awg_key users in
              if awgUsers = [] then ([], t)
              else (case preallocatePeers f g prof (map au_id awgUsers) subnet t of
                      (Inl _, t1) \<Rightarrow> address_users gaps prof subnet [] awgUsers ([], t1)
                    | (Inr bulk, t1) \<Rightarrow> address_users gaps prof subnet bulk awgUsers ([], t1))))"

section \<open>The interface of an address pool\<close>

text \<open>An allocator needs one thing of the addresses it hands out: within the span they are
  pairwise different. From that alone the bounded scan finds whatever the scan of the whole
  span would.\<close>

locale address_pool =
  fixes addr :: "'r \<Rightarrow> nat \<Rightarrow> string"
    and span :: "'r \<Rightarrow> nat"
    and valid :: "'r \<Rightarrow> bool"
  assumes addr_inj: "valid r \<Longrightarrow> inj_on (addr r) {..span r}"
begin

lemma free_within_count:
  assumes "valid r" and "k \<le> span r" and "length taken \<le> k"
  shows "\<exists>i \<le> k. addr r i \<notin> set taken"
proof (rule pigeonhole_free)
  show "inj_on (addr r) {..k}"
    using addr_inj [OF assms(1)] by (rule inj_on_subset) (use assms(2) in auto)
qed (fact assms(3))

lemma first_free_bounded:
  assumes "valid r"
  shows "first_free (addr r) (min (span r) (length taken)) taken = first_free (addr r) (span r) taken"
proof (cases "length taken \<le> span r")
  case True
  define k where "k = length taken"
  have k: "k \<le> span r" "min (span r) (length taken) = k"
    using True by (simp_all add: k_def)
  obtain i where "i \<le> k" "addr r i \<notin> set taken"
    using free_within_count [OF assms k(1), of taken] by (auto simp: k_def)
  then have "List.find (\<lambda>gs. addr r gs \<notin> set taken) [0..<Suc k] \<noteq> None"
    unfolding find_None_all by (auto simp del: upt_Suc)
  moreover have "[0..<Suc (span r)] = [0..<Suc k] @ [Suc k..<Suc (span r)]"
    using upt_add_eq_append [of 0 "Suc k" "span r - k"] k(1) by (simp del: upt_Suc)
  moreover have "List.find P (xs @ ys) = (case List.find P xs of None \<Rightarrow> List.find P ys | Some x \<Rightarrow> Some x)"
    for P :: "nat \<Rightarrow> bool" and xs ys
    by (induction xs) auto
  ultimately show ?thesis
    unfolding first_free_def k(2) by (auto split: option.splits)
next
  case False
  then show ?thesis
    by (simp add: min_def)
qed

lemma first_free_least:
  assumes "first_free (addr r) k taken = Some i"
  shows "i \<le> k" "addr r i \<notin> set taken" "\<And>j. j < i \<Longrightarrow> addr r j \<in> set taken"
  using assms unfolding first_free_def
  by (auto simp: find_Some_iff nth_append less_Suc_eq split: if_splits)

lemma first_free_None:
  "first_free (addr r) k taken = None \<longleftrightarrow> (\<forall>i \<le> k. addr r i \<in> set taken)"
  unfolding first_free_def find_None_all by auto

end

interpretation subnet_pool: address_pool peer_addr peer_span range_wf
  by unfold_locales (rule peer_addr_inj)

section \<open>The unique keys, in every interleaving\<close>

definition peers_inv :: "peers \<Rightarrow> bool" where
  "peers_inv t \<longleftrightarrow>
     distinct (map (\<lambda>p. (peer_profile p, peer_ip p)) t) \<and>
     distinct (map (\<lambda>p. (peer_profile p, peer_user p)) t)"

text \<open>One committed statement of any session; the snapshot it chose its row on is arbitrary.\<close>

inductive peers_step :: "peers \<Rightarrow> peers \<Rightarrow> bool" where
  step_alloc: "alloc_stmt r prof user snap t = Inr (t', res) \<Longrightarrow> peers_step t t'"
| step_prealloc: "peers_step t (prealloc_stmt r prof userIds snap t)"
| step_release: "peers_step t (releasePeer prof user t)"

definition gap_ok :: "gap \<Rightarrow> bool" where
  "gap_ok f \<longleftrightarrow> (\<forall>t. peers_step\<^sup>*\<^sup>* t (f t))"

lemma gap_ok_id [simp]: "gap_ok id" "gap_ok (\<lambda>t. t)"
  by (simp_all add: gap_ok_def)

lemma getPeer_None: "getPeer prof u t = None \<longleftrightarrow> (\<forall>p \<in> set t. \<not> (peer_profile p = prof \<and> peer_user p = u))"
  by (simp add: getPeer_def find_None_all)

lemma getPeer_Some: "getPeer prof u t = Some p \<Longrightarrow> p \<in> set t \<and> peer_profile p = prof \<and> peer_user p = u"
  unfolding getPeer_def by (auto dest: find_Some_in)

lemma taken_ips_set: "ip \<in> set (taken_ips prof t) \<longleftrightarrow> (\<exists>p \<in> set t. peer_profile p = prof \<and> peer_ip p = ip)"
  by (auto simp: taken_ips_def peers_of_def)

lemma taken_ips_length: "length (taken_ips prof t) = length (peers_of prof t)"
  by (simp add: taken_ips_def)

lemma peers_inv_snoc:
  assumes "peers_inv t" and "ip \<notin> set (taken_ips prof t)" and "getPeer prof u t = None"
  shows "peers_inv (t @ [\<lparr>peer_profile = prof, peer_user = u, peer_ip = ip\<rparr>])"
  using assms by (auto simp: peers_inv_def taken_ips_set getPeer_None)

lemma alloc_stmt_inv: "alloc_stmt r prof u snap t = Inr (t', res) \<Longrightarrow> peers_inv t \<Longrightarrow> peers_inv t'"
  by (auto simp: alloc_stmt_def Let_def peers_inv_snoc split: option.splits if_splits)

lemma insert_pairs_inv: "peers_inv t \<Longrightarrow> peers_inv (insert_pairs prof ps t)"
  by (induction prof ps t rule: insert_pairs.induct) (auto simp: peers_inv_snoc)

lemma releasePeer_inv: "peers_inv t \<Longrightarrow> peers_inv (releasePeer prof u t)"
  by (auto simp: peers_inv_def releasePeer_def intro: distinct_map_filter)

lemma peers_step_inv: "peers_step t t' \<Longrightarrow> peers_inv t \<Longrightarrow> peers_inv t'"
  by (induction rule: peers_step.induct)
    (auto simp: prealloc_stmt_def Let_def intro: alloc_stmt_inv insert_pairs_inv releasePeer_inv)

lemma peers_steps_inv: "peers_step\<^sup>*\<^sup>* t t' \<Longrightarrow> peers_inv t \<Longrightarrow> peers_inv t'"
  by (induction rule: rtranclp_induct) (auto intro: peers_step_inv)

lemma gap_steps: "gap_ok f \<Longrightarrow> peers_step\<^sup>*\<^sup>* t s \<Longrightarrow> peers_step\<^sup>*\<^sup>* t (f s)"
  by (meson gap_ok_def rtranclp_trans)

text \<open>Every operation is a sequence of committed steps, its own and those of the gaps.\<close>

lemma alloc_loop_steps:
  assumes "\<forall>(f, g) \<in> set gaps. gap_ok f \<and> gap_ok g"
  shows "peers_step\<^sup>*\<^sup>* t (snd (alloc_loop r subnet prof user gaps t))"
  using assms
proof (induction r subnet prof user gaps t rule: alloc_loop.induct)
  case (2 r subnet prof user f g gaps t)
  have f: "peers_step\<^sup>*\<^sup>* t (f t)" and ok: "gap_ok g"
    using "2.prems" by (auto simp: gap_ok_def)
  show ?case
  proof (cases "alloc_stmt r prof user t (f t)")
    case (Inl e)
    then show ?thesis using f by simp
  next
    case (Inr res)
    obtain t' q where res: "res = (t', q)" by (cases res)
    have t': "peers_step\<^sup>*\<^sup>* t t'"
      using f Inr res by (auto intro: rtranclp.rtrancl_into_rtrancl peers_step.step_alloc)
    then have g: "peers_step\<^sup>*\<^sup>* t (g t')"
      using ok by (rule gap_steps [rotated])
    show ?thesis
    proof (cases q)
      case None
      have "\<not> length (peers_of prof (g t')) \<ge> lastUsable r - firstUsable r + 1 \<Longrightarrow>
        peers_step\<^sup>*\<^sup>* (g t') (snd (alloc_loop r subnet prof user gaps (g t')))"
        using "2.IH" [OF Inr [unfolded res None] refl refl refl refl refl] "2.prems" by simp
      then show ?thesis
        using g Inr res None by (auto simp: Let_def intro: rtranclp_trans)
    qed (use t' Inr res in simp)
  qed
qed simp

definition alloc_gaps_ok :: "(nat \<Rightarrow> gap \<times> gap) \<Rightarrow> bool" where
  "alloc_gaps_ok gaps \<longleftrightarrow> (\<forall>i. gap_ok (fst (gaps i)) \<and> gap_ok (snd (gaps i)))"

lemma allocatePeer_steps:
  "alloc_gaps_ok gaps \<Longrightarrow> peers_step\<^sup>*\<^sup>* t (snd (allocatePeer gaps prof user subnet t))"
  unfolding allocatePeer_def alloc_gaps_ok_def
  by (auto split: sum.split intro!: alloc_loop_steps) (metis fst_conv snd_conv)+

lemma preallocatePeers_steps:
  assumes "gap_ok f" and "gap_ok g"
  shows "peers_step\<^sup>*\<^sup>* t (snd (preallocatePeers f g prof userIds subnet t))"
proof -
  have "peers_step\<^sup>*\<^sup>* t (g (prealloc_stmt r prof userIds t (f t)))" for r
  proof -
    have "peers_step\<^sup>*\<^sup>* t (f t)"
      using assms(1) by (simp add: gap_ok_def)
    then have "peers_step\<^sup>*\<^sup>* t (prealloc_stmt r prof userIds t (f t))"
      by (rule rtranclp.rtrancl_into_rtrancl) (rule peers_step.step_prealloc)
    then show ?thesis
      using assms(2) by (rule gap_steps [rotated])
  qed
  then show ?thesis
    by (auto simp: preallocatePeers_def Let_def split: sum.split)
qed

lemma address_users_steps:
  assumes "\<forall>u. alloc_gaps_ok (gaps u)"
  shows "peers_step\<^sup>*\<^sup>* t (snd (address_users gaps prof subnet bulk us (out, t)))"
proof (induction us arbitrary: out t)
  case (Cons u us)
  have step: "peers_step\<^sup>*\<^sup>* t (snd (allocatePeer (gaps (au_id u)) prof (au_id u) subnet t))"
    using assms by (simp add: allocatePeer_steps)
  show ?case
    using step Cons.IH
    by (auto split: option.split prod.split sum.split) (metis rtranclp_trans snd_conv)+
qed simp

lemma allocateAwgAddresses_steps:
  assumes "gap_ok f" and "gap_ok g" and "\<forall>u. alloc_gaps_ok (gaps u)"
  shows "peers_step\<^sup>*\<^sup>* t (snd (allocateAwgAddresses f g gaps bindingId findBinding users t))"
proof -
  have "peers_step\<^sup>*\<^sup>* t t1 \<Longrightarrow> peers_step\<^sup>*\<^sup>* t (snd (address_users gaps prof subnet bulk us ([], t1)))"
    for t1 prof subnet bulk us
    by (erule rtranclp_trans) (rule address_users_steps [OF assms(3)])
  moreover have "peers_step\<^sup>*\<^sup>* t t1" if "preallocatePeers f g prof ids subnet t = (x, t1)" for prof ids subnet x t1
    using preallocatePeers_steps [OF assms(1,2), of t prof ids subnet] that by simp
  ultimately show ?thesis
    by (auto simp: allocateAwgAddresses_def Let_def split: option.split prod.split sum.split)
qed

section \<open>Allocation without contention\<close>

definition quiet :: "nat \<Rightarrow> gap \<times> gap" where
  "quiet = (\<lambda>_. (id, id))"

lemma quiet_gaps: "map quiet [0..<maxAttempts] = (id, id) # map quiet [1..<maxAttempts]"
  by (simp add: quiet_def maxAttempts_def upt_rec)

lemma full_range_taken:
  assumes "range_wf r" and "\<forall>i \<le> peer_span r. peer_addr r i \<in> set taken"
  shows "peer_span r + 1 \<le> length taken"
proof (rule ccontr)
  assume "\<not> ?thesis"
  then have "length taken \<le> peer_span r"
    by simp
  then show False
    using subnet_pool.free_within_count [OF assms(1) order_refl] assms(2) by blast
qed

lemma alloc_stmt_whole_range:
  assumes "range_wf r"
  shows "first_free (peer_addr r) (min (peer_span r) (length (peers_of prof t))) (taken_ips prof t)
       = first_free (peer_addr r) (peer_span r) (taken_ips prof t)"
  using subnet_pool.first_free_bounded [OF assms, of "taken_ips prof t"] by (simp add: taken_ips_length)

lemma allocatePeer_quiet:
  assumes "parseSubnet subnet = Inr r"
  shows "allocatePeer quiet prof user subnet t =
     (case getPeer prof user t of
        Some p \<Rightarrow> (Inr p, t)
      | None \<Rightarrow>
          (case first_free (peer_addr r) (peer_span r) (taken_ips prof t) of
             Some i \<Rightarrow> let p = \<lparr>peer_profile = prof, peer_user = user, peer_ip = peer_addr r i\<rparr> in (Inr p, t @ [p])
           | None \<Rightarrow> (Inl (IpExhaustedError prof subnet), t)))"
proof -
  have wf: "range_wf r"
    using assms by (rule parseSubnet_wf)
  have run: "allocatePeer quiet prof user subnet t = alloc_loop r subnet prof user ((id, id) # map quiet [1..<maxAttempts]) t"
    by (simp add: allocatePeer_def assms quiet_gaps del: alloc_loop.simps)
  show ?thesis
  proof (cases "getPeer prof user t")
    case None
    show ?thesis
    proof (cases "first_free (peer_addr r) (peer_span r) (taken_ips prof t)")
      case (Some i)
      then have "peer_addr r i \<notin> set (taken_ips prof t)"
        by (rule subnet_pool.first_free_least(2))
      then show ?thesis
        unfolding run using None Some by (simp add: alloc_stmt_def alloc_stmt_whole_range [OF wf] Let_def)
    next
      case f: None
      then have "\<forall>i \<le> peer_span r. peer_addr r i \<in> set (taken_ips prof t)"
        by (simp add: subnet_pool.first_free_None)
      then have "lastUsable r - firstUsable r + 1 \<le> length (peers_of prof t)"
        using full_range_taken [OF wf, of "taken_ips prof t"] by (simp add: peer_span_def taken_ips_length)
      then show ?thesis
        unfolding run using None f by (simp add: alloc_stmt_def alloc_stmt_whole_range [OF wf] Let_def)
    qed
  qed (simp add: run alloc_stmt_def)
qed

section \<open>Bulk allocation without contention\<close>

lemma insert_pairs_fresh:
  assumes "distinct (map fst ps)" and "distinct (map snd ps)"
    and "\<forall>(u, ip) \<in> set ps. ip \<notin> set (taken_ips prof t) \<and> getPeer prof u t = None"
  shows "insert_pairs prof ps t =
    t @ map (\<lambda>(u, ip). \<lparr>peer_profile = prof, peer_user = u, peer_ip = ip\<rparr>) ps"
  using assms
proof (induction prof ps t rule: insert_pairs.induct)
  case (2 prof u ip ps t)
  let ?t = "t @ [\<lparr>peer_profile = prof, peer_user = u, peer_ip = ip\<rparr>]"
  have "\<forall>(u', ip') \<in> set ps. ip' \<notin> set (taken_ips prof ?t) \<and> getPeer prof u' ?t = None"
    using "2.prems" by (fastforce simp: taken_ips_set getPeer_None image_iff)
  then show ?case
    using "2.IH" "2.prems" by simp
qed simp

lemma free_count:
  assumes "range_wf r" and "k \<le> peer_span r"
  shows "Suc k \<le> length (filter (\<lambda>gs. peer_addr r gs \<notin> set taken) [0..<Suc k]) + length taken"
proof -
  let ?T = "{i \<in> {..k}. peer_addr r i \<in> set taken}"
  have len: "length (filter (\<lambda>gs. peer_addr r gs \<notin> set taken) [0..<Suc k]) = card {i \<in> {..k}. peer_addr r i \<notin> set taken}"
  proof -
    have "set (filter (\<lambda>gs. peer_addr r gs \<notin> set taken) [0..<Suc k]) = {i \<in> {..k}. peer_addr r i \<notin> set taken}"
      by (auto simp del: upt_Suc)
    then show ?thesis
      by (metis distinct_card distinct_filter distinct_upt)
  qed
  have "inj_on (peer_addr r) {..k}"
    by (rule inj_on_subset [OF peer_addr_inj [OF assms(1)]]) (use assms(2) in auto)
  then have "inj_on (peer_addr r) ?T"
    by (rule inj_on_subset) auto
  then have "card ?T = card (peer_addr r ` ?T)"
    by (simp add: card_image)
  also have "\<dots> \<le> card (set taken)"
    by (rule card_mono) auto
  also have "\<dots> \<le> length taken"
    by (rule card_length)
  finally have T: "card ?T \<le> length taken" .
  have "{..k} = {i \<in> {..k}. peer_addr r i \<notin> set taken} \<union> ?T"
    by auto
  then have "card {..k} \<le> card {i \<in> {..k}. peer_addr r i \<notin> set taken} + card ?T"
    by (metis card_Un_le)
  then show ?thesis
    using len T by simp
qed

text \<open>The scan bounded by taken plus needed yields as many free addresses as the users that
  need one, as soon as the whole range has that many.\<close>

lemma bulk_scan_enough:
  assumes "range_wf r"
    and "n \<le> length (filter (\<lambda>gs. peer_addr r gs \<notin> set taken) [0..<Suc (peer_span r)])"
  shows "n \<le> length (filter (\<lambda>gs. peer_addr r gs \<notin> set taken) [0..<Suc (min (peer_span r) (length taken + n))])"
proof (cases "length taken + n \<le> peer_span r")
  case True
  then show ?thesis
    using free_count [OF assms(1) True, of taken] by (simp add: min_def del: upt_Suc)
qed (use assms(2) in \<open>simp add: min_def\<close>)

lemma foldl_map_set_get:
  "map_get (foldl (\<lambda>m p. map_set (peer_user p) (peer_ip p) m) m ps) u =
     (case List.find (\<lambda>p. peer_user p = u) (rev ps) of Some p \<Rightarrow> Some (peer_ip p) | None \<Rightarrow> map_get m u)"
  by (induction ps rule: rev_induct) auto

lemma peer_map_get:
  assumes "peers_inv t" and "p \<in> set t" and "peer_profile p = prof" and "peer_user p \<in> set userIds"
  shows "map_get (peer_map prof userIds t) (peer_user p) = Some (peer_ip p)"
proof -
  let ?rows = "filter (\<lambda>q. peer_profile q = prof \<and> peer_user q \<in> set userIds) t"
  have "List.find (\<lambda>q. peer_user q = peer_user p) (rev ?rows) \<noteq> None"
    using assms unfolding find_None_all by auto
  then obtain q where q: "List.find (\<lambda>q. peer_user q = peer_user p) (rev ?rows) = Some q"
    by auto
  then have "q \<in> set t" "peer_profile q = prof" "peer_user q = peer_user p"
    by (auto dest!: find_Some_in)
  then have "q = p"
    using assms unfolding peers_inv_def by (metis (mono_tags, lifting) distinct_map inj_onD)
  then show ?thesis
    using q by (simp add: peer_map_def foldl_map_set_get)
qed

lemma prealloc_stmt_quiet:
  assumes "range_wf r" and "peers_inv t" and "distinct userIds"
    and enough: "length (filter (\<lambda>u. getPeer prof u t = None) userIds)
      \<le> length (filter (\<lambda>gs. peer_addr r gs \<notin> set (taken_ips prof t)) [0..<Suc (peer_span r)])"
  shows "\<exists>us ips. set us = {u \<in> set userIds. getPeer prof u t = None} \<and> length ips = length us \<and>
    distinct us \<and> distinct ips \<and> set ips \<subseteq> peer_addr r ` {..peer_span r} - set (taken_ips prof t) \<and>
    prealloc_stmt r prof userIds t t =
      t @ map (\<lambda>(u, ip). \<lparr>peer_profile = prof, peer_user = u, peer_ip = ip\<rparr>) (zip us ips)"
proof -
  define us where "us = sort (filter (\<lambda>u. getPeer prof u t = None) userIds)"
  define n where "n = length us"
  define k where "k = min (peer_span r) (length (peers_of prof t) + n)"
  define free where "free = take n (filter (\<lambda>gs. peer_addr r gs \<notin> set (taken_ips prof t)) [0..<Suc k])"
  have us: "set us = {u \<in> set userIds. getPeer prof u t = None}" "distinct us"
    using assms(3) by (auto simp: us_def)
  have "n \<le> length (filter (\<lambda>gs. peer_addr r gs \<notin> set (taken_ips prof t)) [0..<Suc k])"
    unfolding k_def taken_ips_length [of prof t, symmetric]
    by (rule bulk_scan_enough [OF assms(1)]) (use enough in \<open>simp add: n_def us_def del: upt_Suc\<close>)
  then have len: "length free = n"
    by (simp add: free_def del: upt_Suc)
  have free: "set free \<subseteq> {i. i \<le> peer_span r \<and> peer_addr r i \<notin> set (taken_ips prof t)}" "distinct free"
    by (auto simp: free_def k_def simp del: upt_Suc dest!: in_set_takeD)
  define ips where "ips = map (peer_addr r) free"
  have ips: "distinct ips" "set ips \<subseteq> peer_addr r ` {..peer_span r} - set (taken_ips prof t)"
    using free peer_addr_inj [OF assms(1)] by (auto simp: ips_def distinct_map intro: inj_on_subset)
  have zip: "map fst (zip us ips) = us" "map snd (zip us ips) = ips"
    using len by (simp_all add: ips_def n_def)
  have "prealloc_stmt r prof userIds t t = insert_pairs prof (zip us ips) t"
    unfolding prealloc_stmt_def Let_def us_def [symmetric] n_def [symmetric] k_def [symmetric]
    by (simp only: free_def [symmetric] ips_def)
  also have "\<dots> = t @ map (\<lambda>(u, ip). \<lparr>peer_profile = prof, peer_user = u, peer_ip = ip\<rparr>) (zip us ips)"
    using us ips by (intro insert_pairs_fresh) (auto simp: zip dest: set_zip_leftD set_zip_rightD)
  finally show ?thesis
    using us ips len by (intro exI [of _ us] exI [of _ ips]) (simp add: ips_def n_def)
qed

section \<open>Properties\<close>

text \<open>The candidate scan bounded by the number of peers answers exactly as the scan of the
  whole range of the subnet: when any address of the range is free it finds the lowest free
  one, and it finds none only when every address is taken.\<close>

theorem allocator_scan_complete:
  assumes "parseSubnet subnet = Inr r"
  shows "first_free (peer_addr r) (min (peer_span r) (length (peers_of prof t))) (taken_ips prof t)
       = first_free (peer_addr r) (peer_span r) (taken_ips prof t)"
  using alloc_stmt_whole_range [OF parseSubnet_wf [OF assms]] .

theorem allocator_scan_complete_witness:
  "\<exists>r. parseSubnet ''10.66.66.0/24'' = Inr r \<and>
     first_free (peer_addr r) (min (peer_span r) (length (peers_of ''p'' []))) (taken_ips ''p'' [])
       = first_free (peer_addr r) (peer_span r) (taken_ips ''p'' [])"
  using allocator_scan_complete [OF parseSubnet_default, of "''p''" "[]"] parseSubnet_default by blast

text \<open>Without contention \<open>allocatePeer\<close> always answers on its first attempt: the user's
  existing row unchanged when there is one; otherwise a new row with the lowest address of the
  subnet's usable range no peer of the profile holds, appended to the table; and the
  exhaustion error, with the table unchanged, exactly when the whole range is taken.\<close>

theorem allocatePeer_spec:
  assumes "parseSubnet subnet = Inr r"
  shows "allocatePeer quiet prof user subnet t =
     (case getPeer prof user t of
        Some p \<Rightarrow> (Inr p, t)
      | None \<Rightarrow>
          (case first_free (peer_addr r) (peer_span r) (taken_ips prof t) of
             Some i \<Rightarrow> let p = \<lparr>peer_profile = prof, peer_user = user, peer_ip = peer_addr r i\<rparr> in (Inr p, t @ [p])
           | None \<Rightarrow> (Inl (IpExhaustedError prof subnet), t)))"
  using assms by (rule allocatePeer_quiet)

theorem allocatePeer_spec_witness:
  "\<exists>p. allocatePeer quiet ''p'' ''u'' ''10.66.66.0/24'' [] = (Inr p, [p])"
proof -
  have "first_free addr k [] = Some 0" for addr k
    by (simp add: first_free_def upt_rec del: upt_Suc)
  then show ?thesis
    using allocatePeer_spec [OF parseSubnet_default, of "''p''" "''u''" "[]"]
    by (simp add: getPeer_def taken_ips_def peers_of_def Let_def)
qed



text \<open>C4. Bulk allocation without contention serves everybody it can: if the range has as many
  free addresses as users without a row, then afterwards every requested user is in the
  returned map, users that had a row keep its address, every new address is one of the
  subnet's usable range that nobody of the profile held, and the old rows are untouched.\<close>

theorem preallocatePeers_serves_all:
  assumes "parseSubnet subnet = Inr r" and "peers_inv t" and "distinct userIds" and "userIds \<noteq> []"
    and "length (filter (\<lambda>u. getPeer prof u t = None) userIds)
      \<le> length (filter (\<lambda>gs. peer_addr r gs \<notin> set (taken_ips prof t)) [0..<Suc (peer_span r)])"
  shows "\<exists>m t'. preallocatePeers id id prof userIds subnet t = (Inr m, t') \<and> peers_inv t' \<and>
    take (length t) t' = t \<and>
    (\<forall>u \<in> set userIds. \<exists>ip. map_get m u = Some ip \<and>
       (case getPeer prof u t of Some p \<Rightarrow> ip = peer_ip p
        | None \<Rightarrow> ip \<in> peer_addr r ` {..peer_span r} - set (taken_ips prof t)))"
proof -
  have wf: "range_wf r"
    using assms(1) by (rule parseSubnet_wf)
  obtain us ips where us: "set us = {u \<in> set userIds. getPeer prof u t = None}" "length ips = length us"
      "set ips \<subseteq> peer_addr r ` {..peer_span r} - set (taken_ips prof t)"
    and st: "prealloc_stmt r prof userIds t t =
      t @ map (\<lambda>(u, ip). \<lparr>peer_profile = prof, peer_user = u, peer_ip = ip\<rparr>) (zip us ips)"
    using prealloc_stmt_quiet [OF wf assms(2,3,5)] by blast
  define t' where "t' = prealloc_stmt r prof userIds t t"
  have run: "preallocatePeers id id prof userIds subnet t = (Inr (peer_map prof userIds t'), t')"
    using assms(1,4) by (simp add: preallocatePeers_def t'_def Let_def)
  have inv: "peers_inv t'"
    unfolding t'_def prealloc_stmt_def Let_def using assms(2) by (rule insert_pairs_inv)
  have served: "\<exists>ip. map_get (peer_map prof userIds t') u = Some ip \<and>
       (case getPeer prof u t of Some p \<Rightarrow> ip = peer_ip p
        | None \<Rightarrow> ip \<in> peer_addr r ` {..peer_span r} - set (taken_ips prof t))" if u: "u \<in> set userIds" for u
  proof (cases "getPeer prof u t")
    case None
    then obtain j where j: "j < length us" "us ! j = u"
      using u us(1) by (metis (mono_tags, lifting) in_set_conv_nth mem_Collect_eq)
    let ?p = "\<lparr>peer_profile = prof, peer_user = u, peer_ip = ips ! j\<rparr>"
    have "(u, ips ! j) \<in> set (zip us ips)"
      using j us(2) by (auto simp: set_zip)
    then have "?p \<in> set t'"
      unfolding t'_def st by force
    moreover have "ips ! j \<in> set ips"
      using j us(2) by simp
    ultimately show ?thesis
      using peer_map_get [OF inv, of ?p prof userIds] u None us(3) by auto
  next
    case (Some p)
    then show ?thesis
      using peer_map_get [OF inv, of p prof userIds] getPeer_Some [OF Some] u by (simp add: t'_def st)
  qed
  show ?thesis
    using run inv served by (auto simp: t'_def st)
qed

theorem preallocatePeers_serves_all_witness:
  "\<exists>m t'. preallocatePeers id id ''p'' [''u''] ''10.66.66.0/24'' [] = (Inr m, t') \<and> map_get m ''u'' \<noteq> None"
proof -
  have "\<exists>x xs. [0..<Suc n] = x # xs" for n
    by (simp add: upt_rec del: upt_Suc)
  then have "length (filter (\<lambda>u. getPeer ''p'' u [] = None) [''u'']) \<le> length (filter (\<lambda>gs. peer_addr r gs \<notin> set (taken_ips ''p'' [])) [0..<Suc n])" for r n
    by (auto simp: taken_ips_def peers_of_def simp del: upt_Suc)
  then show ?thesis
    using preallocatePeers_serves_all [OF parseSubnet_default, of "[]" "[''u'']" "''p''"]
    by (fastforce simp: peers_inv_def simp del: upt_Suc)
qed

text \<open>A race the comments on \<open>allocatePeer\<close> describe as collapsing to the existing row does
  not: when, between the snapshot and the insert, the same user is given another address and
  the chosen one is free again, the insert meets the (profile, user) key, which its
  ON CONFLICT clause does not name, and the call fails with the unique violation.\<close>

theorem same_user_race_fails:
  "\<exists>gaps subnet. alloc_gaps_ok gaps \<and> fst (allocatePeer gaps ''p'' ''u'' subnet []) = Inl UniqueViolation"
proof -
  obtain r where r: "parseSubnet ''10.66.66.0/24'' = Inr r" "peer_span r = 252"
    using parseSubnet_default by (auto simp: peer_span_def)
  define V where "V = \<lparr>peer_profile = ''p'', peer_user = ''v'', peer_ip = peer_addr r 0\<rparr>"
  define U where "U = \<lparr>peer_profile = ''p'', peer_user = ''u'', peer_ip = peer_addr r 1\<rparr>"
  have ne: "peer_addr r 0 \<noteq> peer_addr r 1"
    using peer_addr_inj [OF parseSubnet_wf [OF r(1)]] r(2) by (auto dest: inj_onD)
  have free: "first_free (peer_addr r) 0 [] = Some 0" "first_free (peer_addr r) (Suc 0) [peer_addr r 0] = Some 1"
    using ne by (simp_all add: first_free_def)
  note defs = alloc_stmt_def getPeer_def peers_of_def taken_ips_def Let_def V_def U_def r(2)
  have "peers_step [] [V]"
    by (rule peers_step.step_alloc [of r "''p''" "''v''" "[]"]) (simp add: defs free)
  moreover have "peers_step [V] [V, U]"
    by (rule peers_step.step_alloc [of r "''p''" "''u''" "[V]"]) (use ne in \<open>simp add: defs free\<close>)
  moreover have "peers_step [V, U] [U]"
    using peers_step.step_release [of "[V, U]" "''p''" "''v''"] by (simp add: releasePeer_def V_def U_def)
  ultimately have steps: "peers_step\<^sup>*\<^sup>* [] [U]"
    by (meson converse_rtranclp_into_rtranclp r_into_rtranclp)
  define f where "f = (\<lambda>t. if t = [] then [U] else t)"
  have "alloc_gaps_ok (\<lambda>_. (f, id))"
    using steps by (simp add: alloc_gaps_ok_def gap_ok_def f_def)
  moreover have "alloc_stmt r ''p'' ''u'' [] (f []) = Inl UniqueViolation"
    using ne by (simp add: f_def defs free)
  then have "fst (allocatePeer (\<lambda>_. (f, id)) ''p'' ''u'' ''10.66.66.0/24'' []) = Inl UniqueViolation"
    by (simp add: allocatePeer_def r(1) maxAttempts_def upt_rec)
  ultimately show ?thesis
    by blast
qed

end
