(* ===== verification/GeoDatReader.thy ===== *)
theory GeoDatReader
  imports JsNumber "HOL-Library.Word"
begin

text \<open>
  The protobuf reader of v2fly geo files (\<open>modules/geo-sets/geo-dat.ts\<close>, first half): varints,
  keys, length-delimited values, UTF-8 strings, skipping. The reader's position is threaded
  through; an exception is an \<open>Inl\<close> with the message and the byte where reading stopped.
  Numbers are accumulated as the doubles they are (\<^const>\<open>dbl\<close>). A position plus a length is
  left exact: typed arrays are shorter than \<open>2 ^ 53\<close>, so the comparison with the end and every
  accepted end are the same as after rounding.
\<close>

unbundle bit_operations_syntax

type_synonym u8 = "8 word"

text \<open>A JavaScript string as its UTF-16 code units.\<close>

type_synonym jsstr = "nat list"

definition js :: "string \<Rightarrow> jsstr" where
  "js s = map of_char s"

datatype geo_kind = Geosite | Geoip

datatype geo_msg =
    EndsInNumber
  | NumberTooLong
  | FieldZero
  | RunsPast nat nat
  | NotUtf8 string
  | EndsInFixed
  | BadWire nat
  | WrongWire string nat nat
  | BadDomainType nat
  | DomainNoValue
  | AttributeNoKey
  | AddressLength nat
  | CidrNoAddress
  | PrefixTooLong nat
  | TopLevelField nat
  | EntryNoCode
  | NoEntries
  | OtherKind geo_kind geo_kind
  | NotValid geo_kind geo_msg nat

datatype geo_error = GeoDatError geo_msg nat

section \<open>UTF-8, as \<open>TextDecoder('utf-8', { fatal: true })\<close> decodes it\<close>

definition cont :: "nat \<Rightarrow> bool" where
  "cont b \<longleftrightarrow> 128 \<le> b \<and> b \<le> 191"

fun utf8_points :: "nat list \<Rightarrow> nat list option" where
  "utf8_points [] = Some []"
| "utf8_points (a # r) =
     (if a < 128 then map_option ((#) a) (utf8_points r)
      else if 194 \<le> a \<and> a \<le> 223 then
        (case r of b # r1 \<Rightarrow>
           if cont b then map_option ((#) ((a - 192) * 64 + (b - 128))) (utf8_points r1) else None
         | _ \<Rightarrow> None)
      else if 224 \<le> a \<and> a \<le> 239 then
        (case r of b # c # r2 \<Rightarrow>
           if cont b \<and> cont c \<and> (a = 224 \<longrightarrow> 160 \<le> b) \<and> (a = 237 \<longrightarrow> b \<le> 159)
           then map_option ((#) ((a - 224) * 4096 + (b - 128) * 64 + (c - 128))) (utf8_points r2) else None
         | _ \<Rightarrow> None)
      else if 240 \<le> a \<and> a \<le> 244 then
        (case r of b # c # d # r3 \<Rightarrow>
           if cont b \<and> cont c \<and> cont d \<and> (a = 240 \<longrightarrow> 144 \<le> b) \<and> (a = 244 \<longrightarrow> b \<le> 143)
           then map_option ((#) ((a - 240) * 262144 + (b - 128) * 4096 + (c - 128) * 64 + (d - 128))) (utf8_points r3)
           else None
         | _ \<Rightarrow> None)
      else None)"

definition utf16_units :: "nat \<Rightarrow> nat list" where
  "utf16_units p = (if p < 65536 then [p] else [55296 + (p - 65536) div 1024, 56320 + (p - 65536) mod 1024])"

text \<open>The decoder drops a leading byte order mark.\<close>

definition utf8_decode :: "u8 list \<Rightarrow> jsstr option" where
  "utf8_decode bs =
     (let ns = map unat bs; body = (if take 3 ns = [239, 187, 191] then drop 3 ns else ns) in
      map_option (\<lambda>ps. concat (map utf16_units ps)) (utf8_points body))"

section \<open>The reader\<close>

text \<open>An index past the array reads \<open>undefined\<close>, which the bit operations take as 0.\<close>

definition byte_at :: "u8 list \<Rightarrow> nat \<Rightarrow> u8" where
  "byte_at buf i = (if i < length buf then buf ! i else 0)"

fun varint_loop :: "u8 list \<Rightarrow> nat \<Rightarrow> nat \<Rightarrow> nat \<Rightarrow> nat \<Rightarrow> nat \<Rightarrow> geo_error + nat \<times> nat" where
  "varint_loop buf e 0 pos result shift = Inl (GeoDatError NumberTooLong pos)"
| "varint_loop buf e (Suc k) pos result shift =
     (if pos \<ge> e then Inl (GeoDatError EndsInNumber pos)
      else let b = byte_at buf pos; result' = dbl (result + unat (b AND 127) * 2 ^ shift) in
        if b AND 128 = 0 then Inr (result', pos + 1)
        else varint_loop buf e k (pos + 1) result' (shift + 7))"

definition reader_varint :: "u8 list \<Rightarrow> nat \<Rightarrow> nat \<Rightarrow> geo_error + nat \<times> nat" where
  "reader_varint buf e pos = varint_loop buf e 10 pos 0 0"

text \<open>\<open>key()\<close>: field number, wire type and the position after; the key starts at \<open>pos\<close>.\<close>

definition reader_key :: "u8 list \<Rightarrow> nat \<Rightarrow> nat \<Rightarrow> geo_error + nat \<times> nat \<times> nat" where
  "reader_key buf e pos =
     rbind (reader_varint buf e pos) (\<lambda>(k, p).
       let field = k div 8 in
       if field = 0 then Inl (GeoDatError FieldZero pos) else Inr (field, k mod 8, p))"

definition reader_bytes :: "u8 list \<Rightarrow> nat \<Rightarrow> nat \<Rightarrow> geo_error + nat \<times> nat" where
  "reader_bytes buf e pos =
     rbind (reader_varint buf e pos) (\<lambda>(len, start).
       if start + len > e then Inl (GeoDatError (RunsPast len (e - start)) pos)
       else Inr (start, start + len))"

definition subarray :: "u8 list \<Rightarrow> nat \<Rightarrow> nat \<Rightarrow> u8 list" where
  "subarray buf s e = take (e - s) (drop s buf)"

definition reader_string :: "u8 list \<Rightarrow> nat \<Rightarrow> nat \<Rightarrow> string \<Rightarrow> geo_error + jsstr \<times> nat" where
  "reader_string buf e pos what =
     rbind (reader_bytes buf e pos) (\<lambda>(start, fin).
       case utf8_decode (subarray buf start fin) of
         Some s \<Rightarrow> Inr (s, fin)
       | None \<Rightarrow> Inl (GeoDatError (NotUtf8 what) start))"

definition reader_advance :: "nat \<Rightarrow> nat \<Rightarrow> nat \<Rightarrow> nat \<Rightarrow> geo_error + nat" where
  "reader_advance e pos n at0 = (if pos + n > e then Inl (GeoDatError EndsInFixed at0) else Inr (pos + n))"

definition reader_skip :: "u8 list \<Rightarrow> nat \<Rightarrow> nat \<Rightarrow> nat \<Rightarrow> nat \<Rightarrow> geo_error + nat" where
  "reader_skip buf e pos wire at0 =
     (if wire = 0 then rbind (reader_varint buf e pos) (\<lambda>(_, p). Inr p)
      else if wire = 1 then reader_advance e pos 8 at0
      else if wire = 2 then rbind (reader_bytes buf e pos) (\<lambda>(_, p). Inr p)
      else if wire = 5 then reader_advance e pos 4 at0
      else Inl (GeoDatError (BadWire wire) at0))"

definition expectWire :: "string \<Rightarrow> nat \<Rightarrow> nat \<Rightarrow> nat \<Rightarrow> geo_error + unit" where
  "expectWire what got want at0 =
     (if got \<noteq> want then Inl (GeoDatError (WrongWire what got want) at0) else Inr ())"

section \<open>Progress and bounds of the reader\<close>

lemma varint_loop_pos: "varint_loop buf e k pos res sh = Inr (v, p) \<Longrightarrow> pos < p \<and> p \<le> e"
proof (induction k arbitrary: pos res sh)
  case (Suc k)
  then show ?case
    by (fastforce simp: Let_def split: if_splits)
qed simp

lemma reader_varint_pos: "reader_varint buf e pos = Inr (v, p) \<Longrightarrow> pos < p \<and> p \<le> e"
  unfolding reader_varint_def by (rule varint_loop_pos)

lemma reader_key_pos: "reader_key buf e pos = Inr (f, w, p) \<Longrightarrow> pos < p \<and> p \<le> e"
  by (auto simp: reader_key_def Let_def dest!: reader_varint_pos split: if_splits)

lemma reader_bytes_pos: "reader_bytes buf e pos = Inr (s, t) \<Longrightarrow> pos < s \<and> s \<le> t \<and> t \<le> e"
  by (auto simp: reader_bytes_def dest!: reader_varint_pos split: if_splits)

lemma reader_string_pos: "reader_string buf e pos what = Inr (s, p) \<Longrightarrow> pos < p \<and> p \<le> e"
  by (fastforce simp: reader_string_def dest!: reader_bytes_pos split: option.splits)

lemma reader_skip_pos: "reader_skip buf e pos wire at0 = Inr p \<Longrightarrow> pos < p \<and> p \<le> e"
  by (auto simp: reader_skip_def reader_advance_def dest!: reader_varint_pos reader_bytes_pos split: if_splits)

lemmas reader_pos = reader_varint_pos reader_key_pos reader_bytes_pos reader_string_pos reader_skip_pos

lemma expectWire_Inr [simp]: "expectWire what got want at0 = Inr u \<longleftrightarrow> got = want"
  by (simp add: expectWire_def)

text \<open>A string or a checked length is skipped as the length-delimited value it is.\<close>

lemma reader_string_bytes:
  "reader_string buf e pos what = Inr (s, p) \<Longrightarrow> \<exists>st. reader_bytes buf e pos = Inr (st, p)"
  by (auto simp: reader_string_def split: option.splits)

lemma reader_skip_2: "reader_skip buf e pos 2 at0 = rbind (reader_bytes buf e pos) (\<lambda>(_, p). Inr p)"
  by (simp add: reader_skip_def)

lemma reader_skip_0: "reader_skip buf e pos 0 at0 = rbind (reader_varint buf e pos) (\<lambda>(_, p). Inr p)"
  by (simp add: reader_skip_def)

section \<open>The encoding the reader inverts\<close>

text \<open>Protobuf's base-128 encoding, least significant group first.\<close>

fun varint_encode :: "nat \<Rightarrow> u8 list" where
  "varint_encode n = (if n < 128 then [word_of_nat n] else word_of_nat (128 + n mod 128) # varint_encode (n div 128))"

declare varint_encode.simps [simp del]

lemma byte_at_append [simp]: "byte_at (pre @ b # rest) (length pre) = b"
  by (simp add: byte_at_def nth_append)

lemma low_bits: "unat ((b :: u8) AND 127) = unat b mod 128"
proof -
  have "b AND 127 = take_bit 7 b"
    by (simp add: take_bit_eq_mask mask_eq_exp_minus_1)
  then show ?thesis
    by (simp only: unsigned_take_bit_eq) (simp add: take_bit_eq_mod)
qed

lemma high_bit: "(b :: u8) AND 128 = 0 \<longleftrightarrow> unat b < 128"
proof -
  have "b AND 128 = 0 \<longleftrightarrow> \<not> bit b 7"
    using and_exp_eq_0_iff_not_bit [of b 7] by simp
  also have "\<dots> \<longleftrightarrow> even (unat b div 128)"
    by (simp add: bit_iff_odd_drop_bit drop_bit_eq_div word_arith_nat_div)
  also have "\<dots> \<longleftrightarrow> unat b < 128"
  proof -
    have "unat b div 128 < 2"
      using unsigned_less [of b, where 'a = nat] by (simp add: less_mult_imp_div_less)
    then have "even (unat b div 128) \<longleftrightarrow> unat b div 128 = 0"
      by (auto simp: less_2_cases_iff)
    then show ?thesis
      by (simp add: div_eq_0_iff)
  qed
  finally show ?thesis .
qed

lemma encode_group:
  "n < 128 \<Longrightarrow> unat (word_of_nat n :: u8) = n"
  "unat (word_of_nat (128 + n mod 128) :: u8) = 128 + n mod 128"
  by (simp_all only: unat_of_nat) simp_all

lemma varint_loop_encode:
  assumes "length (varint_encode n) \<le> k" and "result + n * 2 ^ shift < 2 ^ 53"
    and "length pre + length (varint_encode n) \<le> e"
  shows "varint_loop (pre @ varint_encode n @ rest) e k (length pre) result shift =
    Inr (result + n * 2 ^ shift, length pre + length (varint_encode n))"
  using assms
proof (induction n arbitrary: k result shift pre rule: varint_encode.induct)
  case (1 n)
  show ?case
  proof (cases "n < 128")
    case True
    then have enc: "varint_encode n = [word_of_nat n]"
      by (simp add: varint_encode.simps)
    then show ?thesis
      using "1.prems" True by (cases k) (simp_all add: low_bits high_bit encode_group)
  next
    case False
    define b :: u8 where "b = word_of_nat (128 + n mod 128)"
    have enc: "varint_encode n = b # varint_encode (n div 128)"
      using False by (simp add: varint_encode.simps [of n] b_def)
    have b: "unat b = 128 + n mod 128"
      unfolding b_def by (rule encode_group(2))
    obtain k' where k: "k = Suc k'"
      using "1.prems"(1) enc by (cases k) auto
    have val: "result + n mod 128 * 2 ^ shift + n div 128 * 2 ^ (shift + 7) = result + n * 2 ^ shift"
    proof -
      have "n mod 128 * 2 ^ shift + n div 128 * 2 ^ (shift + 7) = (n div 128 * 128 + n mod 128) * 2 ^ shift"
        by (simp only: power_add add_mult_distrib) simp
      then show ?thesis
        by (simp only: div_mult_mod_eq add.assoc)
    qed
    have small: "result + n mod 128 * 2 ^ shift < 2 ^ 53"
      using val "1.prems"(2) by linarith
    have step: "varint_loop (pre @ varint_encode n @ rest) e k (length pre) result shift =
      varint_loop ((pre @ [b]) @ varint_encode (n div 128) @ rest) e k' (length (pre @ [b]))
        (result + n mod 128 * 2 ^ shift) (shift + 7)"
      using "1.prems"(3) small by (simp add: enc k high_bit low_bits b)
    show ?thesis
      unfolding step
      using "1.IH" [OF False, of k' "result + n mod 128 * 2 ^ shift" "shift + 7" "pre @ [b]"] "1.prems" val enc k
      by simp
  qed
qed

lemma varint_encode_length: "n < 128 ^ Suc k \<Longrightarrow> length (varint_encode n) \<le> Suc k"
proof (induction k arbitrary: n)
  case (Suc k)
  show ?case
  proof (cases "n < 128")
    case False
    have "n div 128 < 128 ^ Suc k"
      using Suc.prems by (simp add: less_mult_imp_div_less mult.commute)
    then show ?thesis
      using Suc.IH [of "n div 128"] False by (simp add: varint_encode.simps [of n])
  qed (simp add: varint_encode.simps [of n])
qed (simp add: varint_encode.simps)

lemma reader_varint_encode:
  assumes "n < 2 ^ 53" and "length pre + length (varint_encode n) \<le> e"
  shows "reader_varint (pre @ varint_encode n @ rest) e (length pre) = Inr (n, length pre + length (varint_encode n))"
proof -
  have "n < 128 ^ Suc 9"
    using assms(1) by simp
  then have "length (varint_encode n) \<le> 10"
    using varint_encode_length [of n 9] by simp
  then show ?thesis
    unfolding reader_varint_def using varint_loop_encode [of n 10 0 0] assms by simp
qed

text \<open>Evaluation on concrete bytes: a number of one byte.\<close>

lemma reader_varint_byte:
  assumes "pos < e" and "byte_at buf pos = b" and "unat b < 128"
  shows "reader_varint buf e pos = Inr (unat b, pos + 1)"
proof -
  have ten: "(10 :: nat) = Suc 9"
    by simp
  have "unat b < 2 ^ 53"
    using assms(3) by simp
  then show ?thesis
    unfolding reader_varint_def ten varint_loop.simps Let_def assms(2)
    using assms by (simp add: high_bit low_bits)
qed

section \<open>Properties\<close>

text \<open>The varint reader inverts protobuf's encoding: wherever the encoding of a number
  below \<open>2 ^ 53\<close> stands in a file and fits before the end, reading there returns exactly that
  number and stops right after it.\<close>

theorem varint_round_trip:
  assumes "n < 2 ^ 53" and "length pre + length (varint_encode n) \<le> e"
  shows "reader_varint (pre @ varint_encode n @ rest) e (length pre) = Inr (n, length pre + length (varint_encode n))"
  using assms by (rule reader_varint_encode)

theorem varint_round_trip_witness:
  "reader_varint ([7] @ varint_encode 300 @ [9]) 4 1 = Inr (300, 3)"
  using varint_round_trip [of 300 "[7]" 4 "[9]"] by (simp add: varint_encode.simps)

text \<open>The reader never runs past the end of the value it reads, and always advances: every
  successful varint, key, value, string or skip ends after where it started and at or before
  the given end, whatever the bytes are.\<close>

theorem reader_stays_inside:
  "(\<forall>v p. reader_varint buf e pos = Inr (v, p) \<longrightarrow> pos < p \<and> p \<le> e) \<and>
   (\<forall>f w p. reader_key buf e pos = Inr (f, w, p) \<longrightarrow> pos < p \<and> p \<le> e) \<and>
   (\<forall>s t. reader_bytes buf e pos = Inr (s, t) \<longrightarrow> pos < s \<and> s \<le> t \<and> t \<le> e) \<and>
   (\<forall>s p. reader_string buf e pos what = Inr (s, p) \<longrightarrow> pos < p \<and> p \<le> e) \<and>
   (\<forall>p. reader_skip buf e pos wire at0 = Inr p \<longrightarrow> pos < p \<and> p \<le> e)"
  by (intro conjI allI impI) (auto dest: reader_pos)

theorem reader_stays_inside_witness:
  "reader_varint (varint_encode 300 @ [9]) 3 0 = Inr (300, 2) \<and> (0 :: nat) < 2 \<and> (2 :: nat) \<le> 3"
proof -
  have "reader_varint (varint_encode 300 @ [9]) 3 0 = Inr (300, 2)"
    using reader_varint_encode [of 300 "[]" 3 "[9]"] by (simp add: varint_encode.simps)
  then show ?thesis
    using reader_stays_inside [of "varint_encode 300 @ [9]" 3 0 "[]" 0 0] by blast
qed

end
