(* ===== verification/GeoDatIndex.thy ===== *)
theory GeoDatIndex
  imports GeoDatReader
begin

text \<open>
  The index of a v2fly geo file (\<open>modules/geo-sets/geo-dat.ts\<close>, parsing): the messages, the walk
  over the whole file, the tags. Every \<open>while (!r.done())\<close> loop is a recursive
  function on the reader's position; its termination is that every read advances.
  The locale-independent case mapping of Unicode is a parameter: the theorems that need one
  assume only what it does on ASCII.
\<close>

section \<open>Case mapping\<close>

record case_map =
  toUpperCase :: "jsstr \<Rightarrow> jsstr"
  toLowerCase :: "jsstr \<Rightarrow> jsstr"

definition ascii_upper :: "jsstr \<Rightarrow> jsstr" where
  "ascii_upper = map (\<lambda>c. if 97 \<le> c \<and> c \<le> 122 then c - 32 else c)"

definition ascii_lower :: "jsstr \<Rightarrow> jsstr" where
  "ascii_lower = map (\<lambda>c. if 65 \<le> c \<and> c \<le> 90 then c + 32 else c)"

definition is_ascii :: "jsstr \<Rightarrow> bool" where
  "is_ascii s \<longleftrightarrow> list_all (\<lambda>c. c < 128) s"

definition ascii_case :: "case_map \<Rightarrow> bool" where
  "ascii_case cm \<longleftrightarrow>
     (\<forall>s. is_ascii s \<longrightarrow> toUpperCase cm s = ascii_upper s \<and> toLowerCase cm s = ascii_lower s)"

definition ascii_only :: case_map where
  "ascii_only = \<lparr>toUpperCase = ascii_upper, toLowerCase = ascii_lower\<rparr>"

section \<open>Messages\<close>

record raw_entry =
  re_code :: jsstr
  re_codeFirst :: bool
  re_start :: nat
  re_end :: nat
  re_entries :: nat
  re_attrs :: "jsstr list"

record geo_domain =
  d_type :: nat
  d_value :: jsstr
  d_attrs :: "jsstr list"

function readAttribute_loop :: "u8 list \<Rightarrow> nat \<Rightarrow> nat \<Rightarrow> jsstr \<Rightarrow> geo_error + jsstr" where
  "readAttribute_loop buf e pos key =
     (if pos \<ge> e then Inr key
      else rbind (reader_key buf e pos) (\<lambda>(field, wire, p).
        if field = 1 then
          rbind (expectWire ''the key of an attribute'' wire 2 pos) (\<lambda>_.
          rbind (reader_string buf e p ''the key of an attribute'') (\<lambda>(s, q).
            readAttribute_loop buf e q s))
        else rbind (reader_skip buf e p wire pos) (\<lambda>q. readAttribute_loop buf e q key)))"
  by pat_completeness auto

termination
  by (relation "measure (\<lambda>(buf, e, pos, key). e - pos)") (auto dest!: reader_pos)

definition readAttribute :: "u8 list \<Rightarrow> nat \<Rightarrow> nat \<Rightarrow> geo_error + jsstr" where
  "readAttribute buf pos e =
     rbind (readAttribute_loop buf e pos []) (\<lambda>key.
       if key = [] then Inl (GeoDatError AttributeNoKey e) else Inr key)"

text \<open>\<open>attrsSeen\<close> collects the keys a rule can name; the caller that passes none ignores it.\<close>

function readDomain_loop ::
    "case_map \<Rightarrow> u8 list \<Rightarrow> nat \<Rightarrow> nat \<Rightarrow> geo_domain \<Rightarrow> jsstr list \<Rightarrow> geo_error + geo_domain \<times> jsstr list" where
  "readDomain_loop cm buf e pos d seen =
     (if pos \<ge> e then Inr (d, seen)
      else rbind (reader_key buf e pos) (\<lambda>(field, wire, p).
        if field = 1 then
          rbind (expectWire ''the type of a domain'' wire 0 pos) (\<lambda>_.
          rbind (reader_varint buf e p) (\<lambda>(t, q).
            if t > 3 then Inl (GeoDatError (BadDomainType t) pos)
            else readDomain_loop cm buf e q (d\<lparr>d_type := t\<rparr>) seen))
        else if field = 2 then
          rbind (expectWire ''the value of a domain'' wire 2 pos) (\<lambda>_.
          rbind (reader_string buf e p ''the value of a domain'') (\<lambda>(s, q).
            readDomain_loop cm buf e q (d\<lparr>d_value := s\<rparr>) seen))
        else if field = 3 then
          rbind (expectWire ''an attribute'' wire 2 pos) (\<lambda>_.
          rbind (reader_bytes buf e p) (\<lambda>(s, t).
          rbind (readAttribute buf s t) (\<lambda>key.
            readDomain_loop cm buf e t (d\<lparr>d_attrs := d_attrs d @ [key]\<rparr>)
              (if key = toLowerCase cm key then set_add key seen else seen))))
        else rbind (reader_skip buf e p wire pos) (\<lambda>q. readDomain_loop cm buf e q d seen)))"
  by pat_completeness auto

termination
  by (relation "measure (\<lambda>(cm, buf, e, pos, d, seen). e - pos)") (auto dest!: reader_pos)

definition readDomain ::
    "case_map \<Rightarrow> u8 list \<Rightarrow> nat \<Rightarrow> nat \<Rightarrow> jsstr list \<Rightarrow> geo_error + geo_domain \<times> jsstr list" where
  "readDomain cm buf pos e seen =
     rbind (readDomain_loop cm buf e pos \<lparr>d_type = 0, d_value = [], d_attrs = []\<rparr> seen) (\<lambda>(d, seen').
       if d_value d = [] then Inl (GeoDatError DomainNoValue e) else Inr (d, seen'))"

function readSite_loop :: "case_map \<Rightarrow> u8 list \<Rightarrow> nat \<Rightarrow> nat \<Rightarrow> bool \<Rightarrow> raw_entry \<Rightarrow> geo_error + raw_entry" where
  "readSite_loop cm buf e pos first into =
     (if pos \<ge> e then Inr into
      else rbind (reader_key buf e pos) (\<lambda>(field, wire, p).
        if field = 1 then
          rbind (expectWire ''the code of a geosite entry'' wire 2 pos) (\<lambda>_.
          rbind (reader_string buf e p ''the code of a geosite entry'') (\<lambda>(s, q).
            readSite_loop cm buf e q False (into\<lparr>re_code := s, re_codeFirst := first\<rparr>)))
        else if field = 2 then
          rbind (expectWire ''a domain'' wire 2 pos) (\<lambda>_.
          rbind (reader_bytes buf e p) (\<lambda>(s, t).
          rbind (readDomain cm buf s t (re_attrs into)) (\<lambda>(d, seen).
            readSite_loop cm buf e t False (into\<lparr>re_attrs := seen, re_entries := re_entries into + 1\<rparr>))))
        else rbind (reader_skip buf e p wire pos) (\<lambda>q. readSite_loop cm buf e q False into)))"
  by pat_completeness auto

termination
  by (relation "measure (\<lambda>(cm, buf, e, pos, first, into). e - pos)") (auto dest!: reader_pos)

definition readSite :: "case_map \<Rightarrow> u8 list \<Rightarrow> nat \<Rightarrow> nat \<Rightarrow> raw_entry \<Rightarrow> geo_error + raw_entry" where
  "readSite cm buf pos e into = readSite_loop cm buf e pos True into"

function readCidr_loop ::
    "u8 list \<Rightarrow> nat \<Rightarrow> nat \<Rightarrow> u8 list option \<Rightarrow> nat \<Rightarrow> geo_error + u8 list option \<times> nat" where
  "readCidr_loop buf e pos ip prefix =
     (if pos \<ge> e then Inr (ip, prefix)
      else rbind (reader_key buf e pos) (\<lambda>(field, wire, p).
        if field = 1 then
          rbind (expectWire ''the address of a CIDR'' wire 2 pos) (\<lambda>_.
          rbind (reader_bytes buf e p) (\<lambda>(s, t).
            let ip' = subarray buf s t in
            if length ip' \<noteq> 4 \<and> length ip' \<noteq> 16 then Inl (GeoDatError (AddressLength (length ip')) s)
            else readCidr_loop buf e t (Some ip') prefix))
        else if field = 2 then
          rbind (expectWire ''the prefix of a CIDR'' wire 0 pos) (\<lambda>_.
          rbind (reader_varint buf e p) (\<lambda>(v, q). readCidr_loop buf e q ip v))
        else rbind (reader_skip buf e p wire pos) (\<lambda>q. readCidr_loop buf e q ip prefix)))"
  by pat_completeness auto

termination
  by (relation "measure (\<lambda>(buf, e, pos, ip, prefix). e - pos)") (auto dest!: reader_pos)

definition readCidr :: "u8 list \<Rightarrow> nat \<Rightarrow> nat \<Rightarrow> geo_error + u8 list \<times> nat" where
  "readCidr buf pos e =
     rbind (readCidr_loop buf e pos None 0) (\<lambda>(ip, prefix).
       case ip of
         None \<Rightarrow> Inl (GeoDatError CidrNoAddress e)
       | Some a \<Rightarrow>
           if prefix > length a * 8 then Inl (GeoDatError (PrefixTooLong prefix) e) else Inr (a, prefix))"

function readIP_loop :: "u8 list \<Rightarrow> nat \<Rightarrow> nat \<Rightarrow> bool \<Rightarrow> raw_entry \<Rightarrow> geo_error + raw_entry" where
  "readIP_loop buf e pos first into =
     (if pos \<ge> e then Inr into
      else rbind (reader_key buf e pos) (\<lambda>(field, wire, p).
        if field = 1 then
          rbind (expectWire ''the code of a geoip entry'' wire 2 pos) (\<lambda>_.
          rbind (reader_string buf e p ''the code of a geoip entry'') (\<lambda>(s, q).
            readIP_loop buf e q False (into\<lparr>re_code := s, re_codeFirst := first\<rparr>)))
        else if field = 2 then
          rbind (expectWire ''a CIDR'' wire 2 pos) (\<lambda>_.
          rbind (reader_bytes buf e p) (\<lambda>(s, t).
          rbind (readCidr buf s t) (\<lambda>_.
            readIP_loop buf e t False (into\<lparr>re_entries := re_entries into + 1\<rparr>))))
        else if field = 3 then
          rbind (expectWire ''reverse_match'' wire 0 pos) (\<lambda>_.
          rbind (reader_varint buf e p) (\<lambda>(_, q). readIP_loop buf e q False into))
        else rbind (reader_skip buf e p wire pos) (\<lambda>q. readIP_loop buf e q False into)))"
  by pat_completeness auto

termination
  by (relation "measure (\<lambda>(buf, e, pos, first, into). e - pos)") (auto dest!: reader_pos)

definition readIP :: "u8 list \<Rightarrow> nat \<Rightarrow> nat \<Rightarrow> raw_entry \<Rightarrow> geo_error + raw_entry" where
  "readIP buf pos e into = readIP_loop buf e pos True into"

declare readAttribute_loop.simps [simp del] readDomain_loop.simps [simp del] readSite_loop.simps [simp del]
  readCidr_loop.simps [simp del] readIP_loop.simps [simp del]

section \<open>The whole file\<close>

definition read_entry :: "case_map \<Rightarrow> u8 list \<Rightarrow> geo_kind \<Rightarrow> nat \<Rightarrow> nat \<Rightarrow> geo_error + raw_entry" where
  "read_entry cm buf kind s t =
     (let e0 = \<lparr>re_code = [], re_codeFirst = False, re_start = s, re_end = t, re_entries = 0, re_attrs = []\<rparr> in
      rbind (case kind of Geosite \<Rightarrow> readSite cm buf s t e0 | Geoip \<Rightarrow> readIP buf s t e0) (\<lambda>e.
        if re_code e = [] then Inl (GeoDatError EntryNoCode s) else Inr e))"

function walk_loop ::
    "case_map \<Rightarrow> u8 list \<Rightarrow> geo_kind \<Rightarrow> nat \<Rightarrow> raw_entry list \<Rightarrow> geo_error + raw_entry list" where
  "walk_loop cm buf kind pos out =
     (if pos \<ge> length buf then Inr out
      else rbind (reader_key buf (length buf) pos) (\<lambda>(field, wire, p).
        if field \<noteq> 1 then Inl (GeoDatError (TopLevelField field) pos)
        else
          rbind (expectWire ''an entry'' wire 2 pos) (\<lambda>_.
          rbind (reader_bytes buf (length buf) p) (\<lambda>(s, t).
          rbind (read_entry cm buf kind s t) (\<lambda>e. walk_loop cm buf kind t (out @ [e]))))))"
  by pat_completeness auto

termination
  by (relation "measure (\<lambda>(cm, buf, kind, pos, out). length buf - pos)") (auto dest!: reader_pos)

declare walk_loop.simps [simp del]

definition walk :: "case_map \<Rightarrow> u8 list \<Rightarrow> geo_kind \<Rightarrow> geo_error + raw_entry list" where
  "walk cm buf kind =
     rbind (walk_loop cm buf kind 0 []) (\<lambda>out.
       if out = [] then Inl (GeoDatError NoEntries 0) else Inr out)"

fun OTHER :: "geo_kind \<Rightarrow> geo_kind" where
  "OTHER Geosite = Geoip"
| "OTHER Geoip = Geosite"

record geo_entry =
  ge_name :: jsstr
  ge_start :: nat
  ge_end :: nat
  ge_entries :: nat
  ge_attrs :: "jsstr list"

record geo_index =
  gi_kind :: geo_kind
  gi_tags :: "geo_entry list"
  gi_unreachable :: "jsstr list"

definition tag_of :: "case_map \<Rightarrow> raw_entry \<Rightarrow> geo_entry" where
  "tag_of cm e = \<lparr>ge_name = toLowerCase cm (re_code e), ge_start = re_start e, ge_end = re_end e,
     ge_entries = re_entries e, ge_attrs = sort (re_attrs e)\<rparr>"

text \<open>The loop over the raw entries: \<open>tags\<close>, \<open>unreachable\<close> and the codes \<open>seen\<close>.\<close>

primrec index_loop ::
    "case_map \<Rightarrow> raw_entry list \<Rightarrow> geo_entry list \<Rightarrow> jsstr list \<Rightarrow> jsstr list \<Rightarrow> geo_entry list \<times> jsstr list" where
  "index_loop cm [] tags unreachable seen = (tags, unreachable)"
| "index_loop cm (e # es) tags unreachable seen =
     (let upper = toUpperCase cm (re_code e) in
      if re_code e \<noteq> upper \<or> \<not> re_codeFirst e \<or> upper \<in> set seen
      then index_loop cm es tags (unreachable @ [re_code e]) seen
      else index_loop cm es (tags @ [tag_of cm e]) unreachable (set_add upper seen))"

definition parseGeoDat :: "case_map \<Rightarrow> u8 list \<Rightarrow> geo_kind \<Rightarrow> geo_error + geo_index" where
  "parseGeoDat cm buf kind =
     (case walk cm buf kind of
        Inr raw \<Rightarrow>
          (let (tags, unreachable) = index_loop cm raw [] [] [] in
           Inr \<lparr>gi_kind = kind, gi_tags = tags, gi_unreachable = unreachable\<rparr>)
      | Inl (GeoDatError msg off) \<Rightarrow>
          (case walk cm buf (OTHER kind) of
             Inr _ \<Rightarrow> Inl (GeoDatError (OtherKind (OTHER kind) kind) off)
           | Inl _ \<Rightarrow> Inl (GeoDatError (NotValid kind msg off) off)))"

text \<open>\<open>GeoSetTag\<close>: the attributes are there for geosite only.\<close>

record geo_set_tag =
  gt_name :: jsstr
  gt_entries :: nat
  gt_attrs :: "jsstr list option"

definition geoTagList :: "geo_index \<Rightarrow> geo_set_tag list" where
  "geoTagList idx = map (\<lambda>t. \<lparr>gt_name = ge_name t, gt_entries = ge_entries t,
     gt_attrs = (if gi_kind idx = Geosite then Some (ge_attrs t) else None)\<rparr>) (gi_tags idx)"

section \<open>The walk: where entries lie\<close>

lemma readSite_loop_range:
  "readSite_loop cm buf e pos first into = Inr r \<Longrightarrow> re_start r = re_start into \<and> re_end r = re_end into"
proof (induction cm buf e pos first into rule: readSite_loop.induct)
  case (1 cm buf e pos first into)
  show ?case
    using "1.prems" "1.IH"
    by (subst (asm) readSite_loop.simps) (fastforce split: if_splits)
qed

lemma readIP_loop_range:
  "readIP_loop buf e pos first into = Inr r \<Longrightarrow> re_start r = re_start into \<and> re_end r = re_end into"
proof (induction buf e pos first into rule: readIP_loop.induct)
  case (1 buf e pos first into)
  show ?case
    using "1.prems" "1.IH"
    by (subst (asm) readIP_loop.simps) (fastforce split: if_splits)
qed

lemma read_entry_range: "read_entry cm buf kind s t = Inr e \<Longrightarrow> re_start e = s \<and> re_end e = t \<and> re_code e \<noteq> []"
  by (auto simp: read_entry_def readSite_def readIP_def Let_def
      dest!: readSite_loop_range readIP_loop_range split: geo_kind.splits if_splits)

text \<open>What the walk knows of an entry: it lies in the file, after \<open>pos\<close>, and was read there.\<close>

definition entry_ok :: "case_map \<Rightarrow> u8 list \<Rightarrow> geo_kind \<Rightarrow> nat \<Rightarrow> raw_entry \<Rightarrow> bool" where
  "entry_ok cm buf kind pos e \<longleftrightarrow>
     pos < re_start e \<and> re_start e \<le> re_end e \<and> re_end e \<le> length buf \<and>
     read_entry cm buf kind (re_start e) (re_end e) = Inr e"

lemma entry_ok_mono: "entry_ok cm buf kind pos e \<Longrightarrow> pos' \<le> pos \<Longrightarrow> entry_ok cm buf kind pos' e"
  by (simp add: entry_ok_def)

lemma walk_loop_entries:
  "walk_loop cm buf kind pos out = Inr out' \<Longrightarrow>
   \<exists>es. out' = out @ es \<and> list_all (entry_ok cm buf kind pos) es \<and> sorted_wrt (\<lambda>a b. re_end a < re_start b) es"
proof (induction cm buf kind pos out rule: walk_loop.induct)
  case (1 cm buf kind pos out)
  show ?case
  proof (cases "pos \<ge> length buf")
    case True
    then show ?thesis
      using "1.prems" by (simp add: walk_loop.simps [of _ _ _ pos])
  next
    case False
    then obtain wire p s t e where key: "reader_key buf (length buf) pos = Inr (1, wire, p)"
      and wire: "expectWire ''an entry'' wire 2 pos = Inr ()"
      and bytes: "reader_bytes buf (length buf) p = Inr (s, t)"
      and entry: "read_entry cm buf kind s t = Inr e"
      and rest: "walk_loop cm buf kind t (out @ [e]) = Inr out'"
      using "1.prems" by (subst (asm) walk_loop.simps) (auto split: if_splits)
    obtain es where es: "out' = (out @ [e]) @ es" "list_all (entry_ok cm buf kind t) es"
        "sorted_wrt (\<lambda>a b. re_end a < re_start b) es"
      using "1.IH" [OF False key _ _ _ wire bytes _ entry rest] by fastforce
    have "entry_ok cm buf kind pos e"
      using reader_key_pos [OF key] reader_bytes_pos [OF bytes] read_entry_range [OF entry] entry
      by (simp add: entry_ok_def)
    moreover have "list_all (entry_ok cm buf kind pos) es" "\<forall>x \<in> set es. re_end e < re_start x"
      using es(2) reader_key_pos [OF key] reader_bytes_pos [OF bytes] read_entry_range [OF entry]
      by (auto simp: list_all_iff entry_ok_def)
    ultimately show ?thesis
      using es by auto
  qed
qed

lemma walk_entries:
  assumes "walk cm buf kind = Inr raw"
  shows "raw \<noteq> []" and "list_all (entry_ok cm buf kind 0) raw" and "sorted_wrt (\<lambda>a b. re_end a < re_start b) raw"
  using assms walk_loop_entries [of cm buf kind 0 "[]"] by (auto simp: walk_def split: if_splits)

section \<open>The index: which entries become tags\<close>

text \<open>What xray can find: the code is the entry's first field and has no lower-case letter.\<close>

definition scannable :: "case_map \<Rightarrow> raw_entry \<Rightarrow> bool" where
  "scannable cm e \<longleftrightarrow> re_codeFirst e \<and> re_code e = toUpperCase cm (re_code e)"

lemma index_loop_Cons:
  "index_loop cm (e # es) tags unr seen =
   (if scannable cm e \<and> re_code e \<notin> set seen
    then index_loop cm es (tags @ [tag_of cm e]) unr (set_add (re_code e) seen)
    else index_loop cm es tags (unr @ [re_code e]) seen)"
proof (cases "re_code e = toUpperCase cm (re_code e)")
  case True
  show ?thesis
    unfolding index_loop.simps Let_def scannable_def True [symmetric] by simp
qed (simp add: scannable_def)

declare index_loop.simps(2) [simp del]

lemma index_loop_acc:
  "index_loop cm raw tags unr seen =
   (let (ts, us) = index_loop cm raw [] [] seen in (tags @ ts, unr @ us))"
proof (induction raw arbitrary: tags unr seen)
  case (Cons e es)
  note ih1 = Cons.IH [of tags "unr @ [re_code e]" seen] Cons.IH [of "[]" "[re_code e]" seen]
  note ih2 = Cons.IH [of "tags @ [tag_of cm e]" unr "set_add (re_code e) seen"]
    Cons.IH [of "[tag_of cm e]" "[]" "set_add (re_code e) seen"]
  show ?case
    by (simp add: index_loop_Cons ih1 ih2 Let_def case_prod_unfold)
qed (simp add: Let_def)

text \<open>The entries that become tags, as a sublist of the raw ones.\<close>

fun tagged :: "case_map \<Rightarrow> raw_entry list \<Rightarrow> jsstr list \<Rightarrow> raw_entry list" where
  "tagged cm [] seen = []"
| "tagged cm (e # es) seen =
     (if scannable cm e \<and> re_code e \<notin> set seen then e # tagged cm es (re_code e # seen) else tagged cm es seen)"

lemma tagged_seen_cong: "set seen = set seen' \<Longrightarrow> tagged cm raw seen = tagged cm raw seen'"
proof (induction raw arbitrary: seen seen')
  case (Cons e es)
  then have "tagged cm es (re_code e # seen) = tagged cm es (re_code e # seen')"
    by simp
  then show ?case
    using Cons.IH [OF Cons.prems] Cons.prems by simp
qed simp

lemma index_loop_tagged: "fst (index_loop cm raw [] [] seen) = map (tag_of cm) (tagged cm raw seen)"
proof (induction raw arbitrary: seen)
  case (Cons e es)
  show ?case
    using Cons.IH [of seen] Cons.IH [of "set_add (re_code e) seen"]
      index_loop_acc [of cm es "[]" "[re_code e]" seen]
      index_loop_acc [of cm es "[tag_of cm e]" "[]" "set_add (re_code e) seen"]
      tagged_seen_cong [of "set_add (re_code e) seen" "re_code e # seen"]
    by (simp add: index_loop_Cons Let_def case_prod_unfold)
qed simp

lemma index_loop_count: "length (fst (index_loop cm raw [] [] seen)) + length (snd (index_loop cm raw [] [] seen)) = length raw"
proof (induction raw arbitrary: seen)
  case (Cons e es)
  show ?case
    using Cons.IH [of seen] Cons.IH [of "set_add (re_code e) seen"]
      index_loop_acc [of cm es "[]" "[re_code e]" seen]
      index_loop_acc [of cm es "[tag_of cm e]" "[]" "set_add (re_code e) seen"]
    by (simp add: index_loop_Cons Let_def case_prod_unfold)
qed simp

lemma tagged_codes: "re_code ` set (tagged cm raw seen) = {re_code e | e. e \<in> set raw \<and> scannable cm e} - set seen"
  by (induction raw arbitrary: seen) auto

lemma tagged_subset: "e \<in> set (tagged cm raw seen) \<Longrightarrow> e \<in> set raw \<and> scannable cm e"
  by (induction raw arbitrary: seen) (auto split: if_splits)

lemma tagged_distinct: "distinct (map re_code (tagged cm raw seen))"
proof (induction raw arbitrary: seen)
  case (Cons e es)
  then show ?case
    using tagged_codes [of cm es "re_code e # seen"] by auto
qed simp

lemma tagged_sorted_wrt: "sorted_wrt R raw \<Longrightarrow> sorted_wrt R (tagged cm raw seen)"
proof (induction raw arbitrary: seen)
  case (Cons e es)
  then show ?case
    by (auto dest: tagged_subset)
qed simp

lemma parseGeoDat_Inr:
  assumes "parseGeoDat cm buf kind = Inr idx"
  obtains raw where "walk cm buf kind = Inr raw" and "gi_kind idx = kind"
    and "gi_tags idx = map (tag_of cm) (tagged cm raw [])"
    and "length (gi_tags idx) + length (gi_unreachable idx) = length raw"
proof -
  from assms obtain raw where raw: "walk cm buf kind = Inr raw"
    by (auto simp: parseGeoDat_def split: sum.splits geo_error.splits)
  then have "idx = \<lparr>gi_kind = kind, gi_tags = fst (index_loop cm raw [] [] []),
      gi_unreachable = snd (index_loop cm raw [] [] [])\<rparr>"
    using assms by (simp add: parseGeoDat_def case_prod_unfold Let_def)
  then show thesis
    using raw index_loop_count [of cm raw "[]"] by (intro that) (simp_all add: index_loop_tagged)
qed

section \<open>Evaluation on a small file\<close>

text \<open>One geosite entry: code \<open>A\<close>, one root domain \<open>a.b\<close> with the attribute \<open>x\<close>.\<close>

definition small_site :: "u8 list" where
  "small_site = [10, 17, 10, 1, 65, 18, 12, 8, 2, 18, 3, 97, 46, 98, 26, 3, 10, 1, 120]"

lemmas small_eval = reader_key_def reader_bytes_def reader_string_def reader_skip_def reader_advance_def
  expectWire_def reader_varint_byte byte_at_def subarray_def utf8_decode_def utf16_units_def Let_def

lemma small_site_walk:
  "walk ascii_only small_site Geosite =
     Inr [\<lparr>re_code = [65], re_codeFirst = True, re_start = 2, re_end = 19, re_entries = 1, re_attrs = [[120]]\<rparr>]"
  by (simp add: walk_def small_site_def walk_loop.simps read_entry_def readSite_def readSite_loop.simps small_eval
      readDomain_def readDomain_loop.simps readAttribute_def readAttribute_loop.simps set_add_def ascii_only_def
      ascii_lower_def)

lemma small_site_parse:
  "parseGeoDat ascii_only small_site Geosite =
     Inr \<lparr>gi_kind = Geosite, gi_tags = [\<lparr>ge_name = [97], ge_start = 2, ge_end = 19, ge_entries = 1, ge_attrs = [[120]]\<rparr>],
       gi_unreachable = []\<rparr>"
  unfolding parseGeoDat_def small_site_walk
  by (simp add: Let_def tag_of_def ascii_only_def ascii_upper_def ascii_lower_def index_loop.simps)

lemma ascii_only_case: "ascii_case ascii_only"
  by (simp add: ascii_case_def ascii_only_def)

lemma ascii_lower_inj: "ascii_upper s = s \<Longrightarrow> ascii_upper t = t \<Longrightarrow> ascii_lower s = ascii_lower t \<Longrightarrow> s = t"
proof (induction s arbitrary: t)
  case Nil
  then show ?case
    by (simp add: ascii_lower_def)
next
  case (Cons c s)
  obtain d t' where t: "t = d # t'"
    using Cons.prems(3) by (cases t) (auto simp: ascii_lower_def)
  have "c = d"
    using Cons.prems unfolding t by (simp add: ascii_upper_def ascii_lower_def split: if_splits)
  moreover have "s = t'"
    using Cons.prems unfolding t by (intro Cons.IH) (simp_all add: ascii_upper_def ascii_lower_def)
  ultimately show ?case
    by (simp add: t)
qed

section \<open>Properties\<close>



text \<open>The tags are exactly what xray's scan can reach, once each: a name is listed if and
  only if the file has an entry whose code comes first, has no lower-case letter and
  lower-cases to it; over ASCII codes no two tags share a name, so looking a tag up is
  unambiguous.\<close>

theorem parseGeoDat_tags_reachable:
  assumes "ascii_case cm" and "walk cm buf kind = Inr raw" and "parseGeoDat cm buf kind = Inr idx"
    and "\<forall>e \<in> set raw. is_ascii (re_code e)"
  shows "ge_name ` set (gi_tags idx) = {ascii_lower (re_code e) | e. e \<in> set raw \<and> scannable cm e} \<and>
    distinct (map ge_name (gi_tags idx))"
proof -
  have tags: "gi_tags idx = map (tag_of cm) (tagged cm raw [])"
    using parseGeoDat_Inr [OF assms(3)] assms(2) by auto
  have low: "toLowerCase cm (re_code e) = ascii_lower (re_code e) \<and> toUpperCase cm (re_code e) = ascii_upper (re_code e)"
    if "e \<in> set raw" for e
    using assms(1,4) that by (simp add: ascii_case_def)
  have up: "ascii_upper (re_code e) = re_code e" if "e \<in> set (tagged cm raw [])" for e
    using tagged_subset [OF that] low [of e] unfolding scannable_def by metis
  have "inj_on ascii_lower (re_code ` set (tagged cm raw []))"
    by (rule inj_onI) (auto intro: ascii_lower_inj up)
  then have "distinct (map ascii_lower (map re_code (tagged cm raw [])))"
    using tagged_distinct [of cm raw "[]"] unfolding distinct_map by simp
  moreover have names: "map ge_name (gi_tags idx) = map ascii_lower (map re_code (tagged cm raw []))"
    by (auto simp: tags tag_of_def low dest!: tagged_subset)
  moreover have "ge_name ` set (gi_tags idx) = ascii_lower ` re_code ` set (tagged cm raw [])"
    using arg_cong [OF names, of set] by (simp add: image_image)
  ultimately show ?thesis
    unfolding tagged_codes by auto
qed

theorem parseGeoDat_tags_reachable_witness:
  "\<exists>raw idx. walk ascii_only small_site Geosite = Inr raw \<and> parseGeoDat ascii_only small_site Geosite = Inr idx \<and>
     ge_name ` set (gi_tags idx) = {ascii_lower (re_code e) | e. e \<in> set raw \<and> scannable ascii_only e} \<and>
     distinct (map ge_name (gi_tags idx))"
proof -
  have "\<forall>e \<in> set [\<lparr>re_code = [65], re_codeFirst = True, re_start = 2, re_end = 19, re_entries = 1, re_attrs = [[120]]\<rparr>].
      is_ascii (re_code e)"
    by (simp add: is_ascii_def)
  from parseGeoDat_tags_reachable [OF ascii_only_case small_site_walk small_site_parse this] small_site_walk small_site_parse
  show ?thesis
    by blast
qed

end
