(* ===== verification/GeoRuleSets.thy ===== *)
theory GeoRuleSets
  imports GeoDatIndex
begin

text \<open>
  The rule-sets built from an indexed geo file (\<open>modules/geo-sets/geo-dat.ts\<close>, last part), and
  the printing of addresses. The theorems say that a file that parsed gives a rule-set for every
  listed tag, what the rule-set holds, and that printed addresses can be read back.
\<close>

section \<open>Rules\<close>

record headless_rule =
  hr_domain :: "jsstr list option"
  hr_domain_suffix :: "jsstr list option"
  hr_domain_keyword :: "jsstr list option"
  hr_domain_regex :: "jsstr list option"
  hr_ip_cidr :: "string list option"
  hr_invert :: "bool option"

definition no_rule :: headless_rule where
  "no_rule = \<lparr>hr_domain = None, hr_domain_suffix = None, hr_domain_keyword = None, hr_domain_regex = None,
     hr_ip_cidr = None, hr_invert = None\<rparr>"

text \<open>A rule-set (version 2) is its rules.\<close>

type_synonym rule_set = "headless_rule list"

datatype rule_error = WrongKind | GeoTagUnknown jsstr | Dat geo_error

definition lift_dat :: "geo_error + 'a \<Rightarrow> rule_error + 'a" where
  "lift_dat r = (case r of Inl e \<Rightarrow> Inl (Dat e) | Inr x \<Rightarrow> Inr x)"

definition findTag :: "case_map \<Rightarrow> geo_index \<Rightarrow> jsstr \<Rightarrow> rule_error + geo_entry" where
  "findTag cm idx name =
     (case List.find (\<lambda>x. ge_name x = toLowerCase cm name) (gi_tags idx) of
        None \<Rightarrow> Inl (GeoTagUnknown name)
      | Some t \<Rightarrow> Inr t)"

definition ruleSet :: "headless_rule \<Rightarrow> rule_set" where
  "ruleSet rule =
     (let empty = hr_domain rule = None \<and> hr_domain_suffix rule = None \<and> hr_domain_keyword rule = None \<and>
        hr_domain_regex rule = None \<and> hr_ip_cidr rule = None in
      if empty then [] else [rule])"

record site_sets =
  ss_domain :: "jsstr list"
  ss_suffix :: "jsstr list"
  ss_keyword :: "jsstr list"
  ss_regex :: "jsstr list"

definition dot :: nat where
  "dot = 46"

definition add_domain :: "jsstr list \<Rightarrow> geo_domain \<Rightarrow> site_sets \<Rightarrow> site_sets" where
  "add_domain want d ss =
     (if \<not> list_all (\<lambda>a. a \<in> set (d_attrs d)) want then ss
      else if d_type d = 0 then ss\<lparr>ss_keyword := set_add (d_value d) (ss_keyword ss)\<rparr>
      else if d_type d = 1 then ss\<lparr>ss_regex := set_add (d_value d) (ss_regex ss)\<rparr>
      else if d_type d = 2 then
        (let ss' = (if dot \<in> set (d_value d) then ss\<lparr>ss_domain := set_add (d_value d) (ss_domain ss)\<rparr> else ss) in
         ss'\<lparr>ss_suffix := set_add (dot # d_value d) (ss_suffix ss')\<rparr>)
      else if d_type d = 3 then ss\<lparr>ss_domain := set_add (d_value d) (ss_domain ss)\<rparr>
      else ss)"

function site_rules_loop ::
    "case_map \<Rightarrow> u8 list \<Rightarrow> nat \<Rightarrow> jsstr list \<Rightarrow> nat \<Rightarrow> site_sets \<Rightarrow> geo_error + site_sets" where
  "site_rules_loop cm buf e want pos ss =
     (if pos \<ge> e then Inr ss
      else rbind (reader_key buf e pos) (\<lambda>(field, wire, p).
        if field \<noteq> 2 then rbind (reader_skip buf e p wire pos) (\<lambda>q. site_rules_loop cm buf e want q ss)
        else
          rbind (reader_bytes buf e p) (\<lambda>(s, t).
          rbind (readDomain cm buf s t []) (\<lambda>(d, _).
            site_rules_loop cm buf e want t (add_domain want d ss)))))"
  by pat_completeness auto

termination
  by (relation "measure (\<lambda>(cm, buf, e, want, pos, ss). e - pos)") (auto dest!: reader_pos)

declare site_rules_loop.simps [simp del]

text \<open>\<open>[...s].sort()\<close> orders by code units.\<close>

definition sorted_set :: "jsstr list \<Rightarrow> jsstr list option" where
  "sorted_set s = (if s = [] then None else Some (sort s))"

definition site_rule :: "site_sets \<Rightarrow> headless_rule" where
  "site_rule ss = no_rule\<lparr>hr_domain := sorted_set (ss_domain ss), hr_domain_suffix := sorted_set (ss_suffix ss),
     hr_domain_keyword := sorted_set (ss_keyword ss), hr_domain_regex := sorted_set (ss_regex ss)\<rparr>"

definition at_sign :: nat where
  "at_sign = 64"

definition geositeRuleSet :: "case_map \<Rightarrow> u8 list \<Rightarrow> geo_index \<Rightarrow> jsstr \<Rightarrow> rule_error + rule_set" where
  "geositeRuleSet cm buf idx tag =
     (if gi_kind idx \<noteq> Geosite then Inl WrongKind
      else
        let parts = js_split at_sign tag; want = map (toLowerCase cm) (tl parts) in
        rbind (findTag cm idx (hd parts)) (\<lambda>t.
        rbind (lift_dat (site_rules_loop cm buf (ge_end t) want (ge_start t)
            \<lparr>ss_domain = [], ss_suffix = [], ss_keyword = [], ss_regex = []\<rparr>)) (\<lambda>ss.
          Inr (ruleSet (site_rule ss)))))"

section \<open>Addresses\<close>

definition hex_char :: "nat \<Rightarrow> char" where
  "hex_char d = (if d < 10 then char_of (48 + d) else char_of (87 + d))"

fun to_hex :: "nat \<Rightarrow> string" where
  "to_hex n = (if n < 16 then [hex_char n] else to_hex (n div 16) @ [hex_char (n mod 16)])"

declare to_hex.simps [simp del]

definition ip_groups :: "u8 list \<Rightarrow> nat list" where
  "ip_groups ip = map (\<lambda>i. unat (byte_at ip (2 * i)) * 256 + unat (byte_at ip (2 * i + 1))) [0..<8]"

text \<open>The inner scan: the first index from \<open>j\<close> that is 8 or holds a group other than 0.\<close>

function run_end :: "nat list \<Rightarrow> nat \<Rightarrow> nat" where
  "run_end groups j = (if j < 8 \<and> groups ! j = 0 then run_end groups (j + 1) else j)"
  by pat_completeness auto

termination
  by (relation "measure (\<lambda>(groups, j). 8 - j)") auto

declare run_end.simps [simp del]

lemma run_end_ge: "j \<le> run_end groups j"
proof (induction groups j rule: run_end.induct)
  case (1 groups j)
  then show ?case
    by (cases "j < 8 \<and> groups ! j = 0") (auto simp: run_end.simps [of groups j])
qed

lemma run_end_gt: "j < 8 \<Longrightarrow> groups ! j = 0 \<Longrightarrow> j < run_end groups j"
  using run_end_ge [of "j + 1" groups] by (simp add: run_end.simps [of groups j])

function best_run :: "nat list \<Rightarrow> nat \<Rightarrow> nat \<Rightarrow> nat \<Rightarrow> nat \<times> nat" where
  "best_run groups i bestStart bestLen =
     (if i \<ge> 8 then (bestStart, bestLen)
      else if groups ! i \<noteq> 0 then best_run groups (i + 1) bestStart bestLen
      else let j = run_end groups i in
        if j - i > bestLen then best_run groups j i (j - i) else best_run groups j bestStart bestLen)"
  by pat_completeness auto

termination
  by (relation "measure (\<lambda>(groups, i, bs, bl). 8 - i)") (auto intro!: diff_less_mono2 run_end_gt)

declare best_run.simps [simp del]

definition hex_groups :: "nat list \<Rightarrow> string" where
  "hex_groups gs = js_join '':'' (map to_hex gs)"

text \<open>\<open>bestStart\<close> starts at -1 in the code and is read only when \<open>bestLen\<close> is at least 2.\<close>

definition formatIp :: "u8 list \<Rightarrow> string" where
  "formatIp ip =
     (if length ip = 4 then js_join ''.'' (map (\<lambda>b. dec_of_nat (unat b)) ip)
      else
        let groups = ip_groups ip; (bestStart, bestLen) = best_run groups 0 0 0 in
        if bestLen < 2 then hex_groups groups
        else hex_groups (take bestStart groups) @ ''::'' @ hex_groups (drop (bestStart + bestLen) groups))"

function ip_rules_loop :: "u8 list \<Rightarrow> nat \<Rightarrow> nat \<Rightarrow> string list \<Rightarrow> geo_error + string list" where
  "ip_rules_loop buf e pos cidrs =
     (if pos \<ge> e then Inr cidrs
      else rbind (reader_key buf e pos) (\<lambda>(field, wire, p).
        if field \<noteq> 2 then rbind (reader_skip buf e p wire pos) (\<lambda>q. ip_rules_loop buf e q cidrs)
        else
          rbind (reader_bytes buf e p) (\<lambda>(s, t).
          rbind (readCidr buf s t) (\<lambda>(ip, prefix).
            ip_rules_loop buf e t (set_add (formatIp ip @ ''/'' @ dec_of_nat prefix) cidrs)))))"
  by pat_completeness auto

termination
  by (relation "measure (\<lambda>(buf, e, pos, cidrs). e - pos)") (auto dest!: reader_pos)

declare ip_rules_loop.simps [simp del]

definition bang :: nat where
  "bang = 33"

definition geoipRuleSet :: "case_map \<Rightarrow> u8 list \<Rightarrow> geo_index \<Rightarrow> jsstr \<Rightarrow> rule_error + rule_set" where
  "geoipRuleSet cm buf idx tag =
     (if gi_kind idx \<noteq> Geoip then Inl WrongKind
      else
        let negated = js_starts_with [bang] tag in
        rbind (findTag cm idx (if negated then drop 1 tag else tag)) (\<lambda>t.
        rbind (lift_dat (ip_rules_loop buf (ge_end t) (ge_start t) [])) (\<lambda>cidrs.
          if negated \<and> cidrs = [] then Inr [no_rule\<lparr>hr_ip_cidr := Some [''0.0.0.0/0'', ''::/0'']\<rparr>]
          else
            let rule = no_rule\<lparr>hr_ip_cidr := (if cidrs = [] then None else Some cidrs),
              hr_invert := (if negated then Some True else None)\<rparr> in
            Inr (ruleSet rule))))"

section \<open>The records of an entry, as a list\<close>

text \<open>The abstract content of a slice: the domains (or the CIDRs) in file order.\<close>

function site_domains :: "case_map \<Rightarrow> u8 list \<Rightarrow> nat \<Rightarrow> nat \<Rightarrow> geo_error + geo_domain list" where
  "site_domains cm buf e pos =
     (if pos \<ge> e then Inr []
      else rbind (reader_key buf e pos) (\<lambda>(field, wire, p).
        if field \<noteq> 2 then rbind (reader_skip buf e p wire pos) (\<lambda>q. site_domains cm buf e q)
        else
          rbind (reader_bytes buf e p) (\<lambda>(s, t).
          rbind (readDomain cm buf s t []) (\<lambda>(d, _).
          rbind (site_domains cm buf e t) (\<lambda>ds. Inr (d # ds))))))"
  by pat_completeness auto

termination
  by (relation "measure (\<lambda>(cm, buf, e, pos). e - pos)") (auto dest!: reader_pos)

function ip_cidrs :: "u8 list \<Rightarrow> nat \<Rightarrow> nat \<Rightarrow> geo_error + (u8 list \<times> nat) list" where
  "ip_cidrs buf e pos =
     (if pos \<ge> e then Inr []
      else rbind (reader_key buf e pos) (\<lambda>(field, wire, p).
        if field \<noteq> 2 then rbind (reader_skip buf e p wire pos) (\<lambda>q. ip_cidrs buf e q)
        else
          rbind (reader_bytes buf e p) (\<lambda>(s, t).
          rbind (readCidr buf s t) (\<lambda>c.
          rbind (ip_cidrs buf e t) (\<lambda>cs. Inr (c # cs))))))"
  by pat_completeness auto

termination
  by (relation "measure (\<lambda>(buf, e, pos). e - pos)") (auto dest!: reader_pos)

declare site_domains.simps [simp del] ip_cidrs.simps [simp del]

lemma readDomain_loop_seen:
  "readDomain_loop cm buf e pos d seen = Inr (d', s') \<Longrightarrow> \<exists>s''. readDomain_loop cm buf e pos d seen2 = Inr (d', s'')"
proof (induction cm buf e pos d seen arbitrary: seen2 rule: readDomain_loop.induct)
  case (1 cm buf e pos d seen)
  note unfold = readDomain_loop.simps [of cm buf e pos]
  show ?case
  proof (cases "pos \<ge> e")
    case True
    then show ?thesis
      using "1.prems" by (simp add: unfold)
  next
    case False
    then obtain field wire p where key: "reader_key buf e pos = Inr (field, wire, p)"
      using "1.prems" by (auto simp: unfold)
    consider "field = 1" | "field = 2" | "field = 3" | "field \<notin> {1, 2, 3}"
      by auto
    then show ?thesis
    proof cases
      case 1
      then show ?thesis
        using "1.prems" False "1.IH"(1) [OF False key refl refl 1] by (fastforce simp: unfold key split: if_splits)
    next
      case 2
      then show ?thesis
        using "1.prems" False "1.IH"(2) [OF False key refl refl _ 2] by (auto simp: unfold key)
    next
      case 3
      then obtain s t k where w: "wire = 2" and bytes: "reader_bytes buf e p = Inr (s, t)"
        and attr: "readAttribute buf s t = Inr k"
        and rest: "readDomain_loop cm buf e t (d\<lparr>d_attrs := d_attrs d @ [k]\<rparr>)
          (if k = toLowerCase cm k then set_add k seen else seen) = Inr (d', s')"
        using "1.prems" False by (auto simp: unfold key)
      show ?thesis
        using False 3 w "1.IH"(3) [OF False key refl refl _ _ 3 _ bytes refl attr rest, of "()"
          "if k = toLowerCase cm k then set_add k seen2 else seen2"]
        by (simp add: unfold key bytes attr)
    next
      case 4
      then show ?thesis
        using "1.prems" False "1.IH"(4) [OF False key refl refl] by (auto simp: unfold key)
    qed
  qed
qed

lemma readDomain_seen:
  "readDomain cm buf s t seen = Inr (d, s') \<Longrightarrow> \<exists>s''. readDomain cm buf s t seen2 = Inr (d, s'')"
  using readDomain_loop_seen [of cm buf t s _ seen d s' seen2] by (fastforce simp: readDomain_def split: if_splits)

lemma readSite_domains:
  "readSite_loop cm buf e pos first into = Inr r \<Longrightarrow>
   \<exists>ds. site_domains cm buf e pos = Inr ds \<and> re_entries r = re_entries into + length ds"
proof (induction cm buf e pos first into rule: readSite_loop.induct)
  case (1 cm buf e pos first into)
  note unfold = readSite_loop.simps [of cm buf e pos] site_domains.simps [of cm buf e pos]
  show ?case
  proof (cases "pos \<ge> e")
    case True
    then show ?thesis
      using "1.prems" by (simp add: unfold)
  next
    case False
    then obtain field wire p where key: "reader_key buf e pos = Inr (field, wire, p)"
      using "1.prems" by (auto simp: unfold)
    consider "field = 1" | "field = 2" | "field \<noteq> 1" "field \<noteq> 2"
      by auto
    then show ?thesis
    proof cases
      case 1
      then obtain s q where str: "reader_string buf e p ''the code of a geosite entry'' = Inr (s, q)" and w: "wire = 2"
        and rest: "readSite_loop cm buf e q False (into\<lparr>re_code := s, re_codeFirst := first\<rparr>) = Inr r"
        using "1.prems" False by (auto simp: unfold key)
      moreover have "reader_skip buf e p 2 pos = Inr q"
        using reader_string_bytes [OF str] by (auto simp: reader_skip_2)
      ultimately show ?thesis
        using False 1 "1.IH"(1) [OF False key refl refl 1] by (auto simp: unfold key)
    next
      case 2
      then obtain s t d seen where bytes: "reader_bytes buf e p = Inr (s, t)"
        and dom: "readDomain cm buf s t (re_attrs into) = Inr (d, seen)" and w: "wire = 2"
        and rest: "readSite_loop cm buf e t False (into\<lparr>re_attrs := seen, re_entries := re_entries into + 1\<rparr>) = Inr r"
        using "1.prems" False by (auto simp: unfold key)
      moreover obtain seen2 where "readDomain cm buf s t [] = Inr (d, seen2)"
        using readDomain_seen [OF dom] by blast
      ultimately show ?thesis
        using False 2 "1.IH"(2) [OF False key refl refl _ 2 _ bytes refl dom refl rest] by (auto simp: unfold key)
    next
      case 3
      then show ?thesis
        using "1.prems" False "1.IH"(3) [OF False key refl refl] by (auto simp: unfold key)
    qed
  qed
qed

lemma readIP_cidrs:
  "readIP_loop buf e pos first into = Inr r \<Longrightarrow>
   \<exists>cs. ip_cidrs buf e pos = Inr cs \<and> re_entries r = re_entries into + length cs"
proof (induction buf e pos first into rule: readIP_loop.induct)
  case (1 buf e pos first into)
  note unfold = readIP_loop.simps [of buf e pos] ip_cidrs.simps [of buf e pos]
  show ?case
  proof (cases "pos \<ge> e")
    case True
    then show ?thesis
      using "1.prems" by (simp add: unfold)
  next
    case False
    then obtain field wire p where key: "reader_key buf e pos = Inr (field, wire, p)"
      using "1.prems" by (auto simp: unfold)
    consider "field = 1" | "field = 2" | "field = 3" | "field \<notin> {1, 2, 3}"
      by auto
    then show ?thesis
    proof cases
      case 1
      then obtain s q where str: "reader_string buf e p ''the code of a geoip entry'' = Inr (s, q)" and w: "wire = 2"
        and rest: "readIP_loop buf e q False (into\<lparr>re_code := s, re_codeFirst := first\<rparr>) = Inr r"
        using "1.prems" False by (auto simp: unfold key)
      moreover have "reader_skip buf e p 2 pos = Inr q"
        using reader_string_bytes [OF str] by (auto simp: reader_skip_2)
      ultimately show ?thesis
        using False 1 "1.IH"(1) [OF False key refl refl 1] by (auto simp: unfold key)
    next
      case 2
      then obtain s t c where bytes: "reader_bytes buf e p = Inr (s, t)"
        and cidr: "readCidr buf s t = Inr c" and w: "wire = 2"
        and rest: "readIP_loop buf e t False (into\<lparr>re_entries := re_entries into + 1\<rparr>) = Inr r"
        using "1.prems" False by (auto simp: unfold key)
      then show ?thesis
        using False 2 "1.IH"(2) [OF False key refl refl _ 2 _ bytes refl cidr rest] by (auto simp: unfold key)
    next
      case 3
      then obtain v q where v: "reader_varint buf e p = Inr (v, q)" and w: "wire = 0"
        and rest: "readIP_loop buf e q False into = Inr r"
        using "1.prems" False by (auto simp: unfold key)
      then show ?thesis
        using False 3 "1.IH"(3) [OF False key refl refl _ _ 3 _ v refl rest]
        by (auto simp: unfold key reader_skip_0)
    next
      case 4
      then show ?thesis
        using "1.prems" False "1.IH"(4) [OF False key refl refl] by (auto simp: unfold key)
    qed
  qed
qed

lemma site_rules_loop_domains:
  "site_domains cm buf e pos = Inr ds \<Longrightarrow> site_rules_loop cm buf e want pos ss = Inr (fold (add_domain want) ds ss)"
proof (induction cm buf e want pos ss arbitrary: ds rule: site_rules_loop.induct)
  case (1 cm buf e want pos ss)
  note unfold = site_rules_loop.simps [of cm buf e want pos] site_domains.simps [of cm buf e pos]
  show ?case
  proof (cases "pos \<ge> e")
    case False
    then obtain field wire p where key: "reader_key buf e pos = Inr (field, wire, p)"
      using "1.prems" by (auto simp: unfold)
    then show ?thesis
      using "1.prems" False "1.IH"(1) [OF False key refl refl] "1.IH"(2) [OF False key refl refl]
      by (cases "field = 2") (fastforce simp: unfold key)+
  qed (use "1.prems" in \<open>simp add: unfold\<close>)
qed

definition cidr_text :: "u8 list \<times> nat \<Rightarrow> string" where
  "cidr_text c = formatIp (fst c) @ ''/'' @ dec_of_nat (snd c)"

lemma ip_rules_loop_cidrs:
  "ip_cidrs buf e pos = Inr cs \<Longrightarrow> ip_rules_loop buf e pos out = Inr (foldl (\<lambda>acc x. set_add x acc) out (map cidr_text cs))"
proof (induction buf e pos out arbitrary: cs rule: ip_rules_loop.induct)
  case (1 buf e pos out)
  note unfold = ip_rules_loop.simps [of buf e pos] ip_cidrs.simps [of buf e pos]
  show ?case
  proof (cases "pos \<ge> e")
    case False
    then obtain field wire p where key: "reader_key buf e pos = Inr (field, wire, p)"
      using "1.prems" by (auto simp: unfold)
    then show ?thesis
      using "1.prems" False "1.IH"(1) [OF False key refl refl] "1.IH"(2) [OF False key refl refl]
      by (cases "field = 2") (auto simp: unfold key cidr_text_def)
  qed (use "1.prems" in \<open>simp add: unfold\<close>)
qed

section \<open>What a rule-set holds\<close>

definition carries :: "jsstr list \<Rightarrow> geo_domain \<Rightarrow> bool" where
  "carries want d \<longleftrightarrow> set want \<subseteq> set (d_attrs d)"

definition keyword_values :: "jsstr list \<Rightarrow> geo_domain set \<Rightarrow> jsstr set" where
  "keyword_values want D = {d_value d | d. d \<in> D \<and> carries want d \<and> d_type d = 0}"

definition regex_values :: "jsstr list \<Rightarrow> geo_domain set \<Rightarrow> jsstr set" where
  "regex_values want D = {d_value d | d. d \<in> D \<and> carries want d \<and> d_type d = 1}"

definition suffix_values :: "jsstr list \<Rightarrow> geo_domain set \<Rightarrow> jsstr set" where
  "suffix_values want D = {dot # d_value d | d. d \<in> D \<and> carries want d \<and> d_type d = 2}"

definition domain_values :: "jsstr list \<Rightarrow> geo_domain set \<Rightarrow> jsstr set" where
  "domain_values want D =
     {d_value d | d. d \<in> D \<and> carries want d \<and> (d_type d = 3 \<or> d_type d = 2 \<and> dot \<in> set (d_value d))}"

lemmas value_defs = keyword_values_def regex_values_def suffix_values_def domain_values_def carries_def

definition list_of_values :: "jsstr set \<Rightarrow> jsstr list option" where
  "list_of_values A = (if A = {} then None else Some (sorted_list_of_set A))"

text \<open>The rule a list of domains stands for.\<close>

definition site_spec :: "jsstr list \<Rightarrow> geo_domain set \<Rightarrow> headless_rule" where
  "site_spec want D = no_rule\<lparr>hr_domain := list_of_values (domain_values want D),
     hr_domain_suffix := list_of_values (suffix_values want D),
     hr_domain_keyword := list_of_values (keyword_values want D),
     hr_domain_regex := list_of_values (regex_values want D)\<rparr>"

definition sets_ok :: "site_sets \<Rightarrow> bool" where
  "sets_ok ss \<longleftrightarrow> distinct (ss_domain ss) \<and> distinct (ss_suffix ss) \<and> distinct (ss_keyword ss) \<and> distinct (ss_regex ss)"

lemma add_domain_ok: "sets_ok ss \<Longrightarrow> sets_ok (add_domain want d ss)"
  by (simp add: sets_ok_def add_domain_def Let_def)

lemma fold_add_domain_ok: "sets_ok ss \<Longrightarrow> sets_ok (fold (add_domain want) ds ss)"
  by (induction ds arbitrary: ss) (simp_all add: add_domain_ok)

lemma add_domain_sets:
  "set (ss_domain (add_domain want d ss)) = set (ss_domain ss) \<union> domain_values want {d}"
  "set (ss_suffix (add_domain want d ss)) = set (ss_suffix ss) \<union> suffix_values want {d}"
  "set (ss_keyword (add_domain want d ss)) = set (ss_keyword ss) \<union> keyword_values want {d}"
  "set (ss_regex (add_domain want d ss)) = set (ss_regex ss) \<union> regex_values want {d}"
  by (auto simp: add_domain_def value_defs Let_def list_all_iff)

lemma values_insert:
  "domain_values want (insert d D) = domain_values want {d} \<union> domain_values want D"
  "suffix_values want (insert d D) = suffix_values want {d} \<union> suffix_values want D"
  "keyword_values want (insert d D) = keyword_values want {d} \<union> keyword_values want D"
  "regex_values want (insert d D) = regex_values want {d} \<union> regex_values want D"
  by (auto simp: value_defs)

lemma values_empty [simp]:
  "domain_values want {} = {}" "suffix_values want {} = {}" "keyword_values want {} = {}" "regex_values want {} = {}"
  by (auto simp: value_defs)

lemma fold_add_domain_sets:
  "set (ss_domain (fold (add_domain want) ds ss)) = set (ss_domain ss) \<union> domain_values want (set ds)"
  "set (ss_suffix (fold (add_domain want) ds ss)) = set (ss_suffix ss) \<union> suffix_values want (set ds)"
  "set (ss_keyword (fold (add_domain want) ds ss)) = set (ss_keyword ss) \<union> keyword_values want (set ds)"
  "set (ss_regex (fold (add_domain want) ds ss)) = set (ss_regex ss) \<union> regex_values want (set ds)"
  by (induction ds arbitrary: ss)
    (simp_all add: add_domain_sets values_insert [of want _ "set _"] Un_assoc)

lemma sorted_set_values: "distinct s \<Longrightarrow> set s = A \<Longrightarrow> sorted_set s = list_of_values A"
  by (auto simp: sorted_set_def list_of_values_def sorted_list_of_set_sort_remdups distinct_remdups_id)

lemma site_rule_fold:
  "site_rule (fold (add_domain want) ds \<lparr>ss_domain = [], ss_suffix = [], ss_keyword = [], ss_regex = []\<rparr>) =
   site_spec want (set ds)"
proof -
  let ?ss = "fold (add_domain want) ds \<lparr>ss_domain = [], ss_suffix = [], ss_keyword = [], ss_regex = []\<rparr>"
  have "sets_ok ?ss"
    by (rule fold_add_domain_ok) (simp add: sets_ok_def)
  then show ?thesis
    unfolding site_rule_def site_spec_def sets_ok_def
    by (simp add: sorted_set_values [OF _ fold_add_domain_sets(1)] sorted_set_values [OF _ fold_add_domain_sets(2)]
        sorted_set_values [OF _ fold_add_domain_sets(3)] sorted_set_values [OF _ fold_add_domain_sets(4)])
qed

section \<open>A parsed tag can be expanded\<close>

lemma read_entry_site:
  assumes "read_entry cm buf Geosite s t = Inr e"
  shows "\<exists>ds. site_domains cm buf t s = Inr ds \<and> re_entries e = length ds"
  using assms readSite_domains by (fastforce simp: read_entry_def readSite_def Let_def split: if_splits)

lemma read_entry_ip:
  assumes "read_entry cm buf Geoip s t = Inr e"
  shows "\<exists>cs. ip_cidrs buf t s = Inr cs \<and> re_entries e = length cs"
  using assms readIP_cidrs by (fastforce simp: read_entry_def readIP_def Let_def split: if_splits)

lemma parsed_tag_entry:
  assumes "parseGeoDat cm buf kind = Inr idx" and "t \<in> set (gi_tags idx)"
  shows "\<exists>e. read_entry cm buf kind (ge_start t) (ge_end t) = Inr e \<and> ge_entries t = re_entries e"
proof -
  obtain raw where raw: "walk cm buf kind = Inr raw" "gi_tags idx = map (tag_of cm) (tagged cm raw [])"
    using parseGeoDat_Inr [OF assms(1)] by metis
  then obtain e where e: "e \<in> set raw" "t = tag_of cm e"
    using assms(2) by (auto dest: tagged_subset)
  then have "entry_ok cm buf kind 0 e"
    using walk_entries(2) [OF raw(1)] by (simp add: list_all_iff)
  then show ?thesis
    by (auto simp: e(2) entry_ok_def tag_of_def)
qed

lemma findTag_Inr: "findTag cm idx name = Inr t \<Longrightarrow> t \<in> set (gi_tags idx) \<and> ge_name t = toLowerCase cm name"
  by (auto simp: findTag_def dest!: find_Some_in split: option.splits)

lemma findTag_listed: "toLowerCase cm name \<in> ge_name ` set (gi_tags idx) \<Longrightarrow> \<exists>t. findTag cm idx name = Inr t"
  by (cases "List.find (\<lambda>x. ge_name x = toLowerCase cm name) (gi_tags idx)") (auto simp: findTag_def find_None_all)

lemma findTag_unlisted:
  "toLowerCase cm name \<notin> ge_name ` set (gi_tags idx) \<Longrightarrow> findTag cm idx name = Inl (GeoTagUnknown name)"
  by (cases "List.find (\<lambda>x. ge_name x = toLowerCase cm name) (gi_tags idx)")
    (auto simp: findTag_def image_iff dest!: find_Some_in)

lemma geositeRuleSet_found:
  assumes "parseGeoDat cm buf Geosite = Inr idx" and "findTag cm idx (hd (js_split at_sign tag)) = Inr t"
  shows "\<exists>ds. site_domains cm buf (ge_end t) (ge_start t) = Inr ds \<and> length ds = ge_entries t \<and>
    geositeRuleSet cm buf idx tag =
      Inr (ruleSet (site_spec (map (toLowerCase cm) (tl (js_split at_sign tag))) (set ds)))"
proof -
  have kind: "gi_kind idx = Geosite"
    using parseGeoDat_Inr [OF assms(1)] by metis
  obtain e where "read_entry cm buf Geosite (ge_start t) (ge_end t) = Inr e" "ge_entries t = re_entries e"
    using parsed_tag_entry [OF assms(1)] findTag_Inr [OF assms(2)] by blast
  then obtain ds where ds: "site_domains cm buf (ge_end t) (ge_start t) = Inr ds" "length ds = ge_entries t"
    using read_entry_site by fastforce
  then show ?thesis
    using assms(2) by (simp add: geositeRuleSet_def kind Let_def lift_dat_def site_rules_loop_domains site_rule_fold)
qed

lemma geoipRuleSet_found:
  fixes tag :: jsstr
  defines "negated \<equiv> js_starts_with [bang] tag"
  assumes "parseGeoDat cm buf Geoip = Inr idx" and "findTag cm idx (if negated then drop 1 tag else tag) = Inr t"
  shows "\<exists>cs. ip_cidrs buf (ge_end t) (ge_start t) = Inr cs \<and> length cs = ge_entries t \<and>
    geoipRuleSet cm buf idx tag = Inr
      (if cs = [] then if negated then [no_rule\<lparr>hr_ip_cidr := Some [''0.0.0.0/0'', ''::/0'']\<rparr>] else []
       else [no_rule\<lparr>hr_ip_cidr := Some (set_from (map cidr_text cs)),
         hr_invert := (if negated then Some True else None)\<rparr>])"
proof -
  have kind: "gi_kind idx = Geoip"
    using parseGeoDat_Inr [OF assms(2)] by metis
  obtain e where "read_entry cm buf Geoip (ge_start t) (ge_end t) = Inr e" "ge_entries t = re_entries e"
    using parsed_tag_entry [OF assms(2)] findTag_Inr [OF assms(3)] by blast
  then obtain cs where cs: "ip_cidrs buf (ge_end t) (ge_start t) = Inr cs" "length cs = ge_entries t"
    using read_entry_ip by fastforce
  have loop: "ip_rules_loop buf (ge_end t) (ge_start t) [] = Inr (set_from (map cidr_text cs))"
    using ip_rules_loop_cidrs [OF cs(1)] by (simp add: set_from_def)
  show ?thesis
    using assms(3) cs unfolding geoipRuleSet_def negated_def
    by (simp add: kind Let_def lift_dat_def loop ruleSet_def no_rule_def)
qed

section \<open>The compressed run of an IPv6 address\<close>

text \<open>\<open>zrun groups a n\<close>: the \<open>n\<close> groups from \<open>a\<close> are all zero.\<close>

definition zrun :: "nat list \<Rightarrow> nat \<Rightarrow> nat \<Rightarrow> bool" where
  "zrun groups a n \<longleftrightarrow> a + n \<le> 8 \<and> (\<forall>k. a \<le> k \<and> k < a + n \<longrightarrow> groups ! k = 0)"

lemma run_end_spec:
  "j \<le> 8 \<Longrightarrow> run_end groups j \<le> 8 \<and> (\<forall>k. j \<le> k \<and> k < run_end groups j \<longrightarrow> groups ! k = 0) \<and>
     (run_end groups j < 8 \<longrightarrow> groups ! run_end groups j \<noteq> 0)"
proof (induction groups j rule: run_end.induct)
  case (1 groups j)
  show ?case
  proof (cases "j < 8 \<and> groups ! j = 0")
    case True
    then have eq: "run_end groups j = run_end groups (j + 1)"
      by (simp add: run_end.simps [of groups j])
    have ih: "run_end groups (j + 1) \<le> 8 \<and> (\<forall>k. j + 1 \<le> k \<and> k < run_end groups (j + 1) \<longrightarrow> groups ! k = 0) \<and>
        (run_end groups (j + 1) < 8 \<longrightarrow> groups ! run_end groups (j + 1) \<noteq> 0)"
      using "1.IH" [OF True] True by simp
    moreover have "groups ! k = 0" if "j \<le> k" "k < run_end groups (j + 1)" for k
      using ih True that by (cases "k = j") auto
    ultimately show ?thesis
      unfolding eq by blast
  next
    case False
    then have "run_end groups j = j"
      by (auto simp: run_end.simps [of groups j])
    then show ?thesis
      using "1.prems" False by auto
  qed
qed

definition best_inv :: "nat list \<Rightarrow> nat \<Rightarrow> nat \<Rightarrow> nat \<Rightarrow> bool" where
  "best_inv groups i bs bl \<longleftrightarrow> i \<le> 8 \<and> zrun groups bs bl \<and> bs + bl \<le> i \<and>
     (\<forall>a n. zrun groups a n \<and> 0 < n \<and> a < i \<longrightarrow> a + n \<le> i \<and> (n < bl \<or> n = bl \<and> bs \<le> a))"

lemma best_inv_skip:
  assumes "best_inv groups i bs bl" and "i < 8" and "groups ! i \<noteq> 0"
  shows "best_inv groups (i + 1) bs bl"
proof -
  have "a + n \<le> i + 1 \<and> (n < bl \<or> n = bl \<and> bs \<le> a)" if "zrun groups a n" "0 < n" "a < i + 1" for a n
  proof -
    have "a \<noteq> i"
      using that assms(3) by (auto simp: zrun_def)
    then show ?thesis
      using that assms(1) by (fastforce simp: best_inv_def)
  qed
  then show ?thesis
    using assms by (auto simp: best_inv_def)
qed

lemma best_inv_run:
  assumes inv: "best_inv groups i bs bl" and i: "i < 8" and j: "j = run_end groups i" and ij: "i < j"
  shows "best_inv groups j (if j - i > bl then i else bs) (if j - i > bl then j - i else bl)"
proof -
  have run: "j \<le> 8" "\<forall>k. i \<le> k \<and> k < j \<longrightarrow> groups ! k = 0" "j < 8 \<longrightarrow> groups ! j \<noteq> 0"
    using run_end_spec [of i groups] i by (auto simp: j)
  have inside: "a + n \<le> j" if "zrun groups a n" "i \<le> a" "a < j" for a n
  proof (rule ccontr)
    assume "\<not> a + n \<le> j"
    then have "j < 8" "groups ! j = 0"
      using that by (auto simp: zrun_def)
    then show False
      using run(3) by blast
  qed
  have old: "a + n \<le> i \<and> (n < bl \<or> n = bl \<and> bs \<le> a)" if "zrun groups a n" "0 < n" "a < i" for a n
    using that inv by (auto simp: best_inv_def)
  show ?thesis
  proof (cases "j - i > bl")
    case True
    have "a + n \<le> j \<and> (n < j - i \<or> n = j - i \<and> i \<le> a)" if "zrun groups a n" "0 < n" "a < j" for a n
      using old [OF that(1,2)] inside [OF that(1) _ that(3)] True ij by (cases "a < i") auto
    then show ?thesis
      using True run ij by (auto simp: best_inv_def zrun_def)
  next
    case False
    have "a + n \<le> j \<and> (n < bl \<or> n = bl \<and> bs \<le> a)" if "zrun groups a n" "0 < n" "a < j" for a n
      using old [OF that(1,2)] inside [OF that(1) _ that(3)] False ij inv
      by (cases "a < i") (auto simp: best_inv_def)
    then show ?thesis
      using False run ij inv by (auto simp: best_inv_def)
  qed
qed

lemma best_run_inv:
  "best_inv groups i bs bl \<Longrightarrow> best_run groups i bs bl = (s, l) \<Longrightarrow> best_inv groups 8 s l"
proof (induction groups i bs bl rule: best_run.induct)
  case (1 groups i bs bl)
  note unfold = best_run.simps [of groups i bs bl]
  consider "i \<ge> 8" | "i < 8" "groups ! i \<noteq> 0" | "i < 8" "groups ! i = 0"
    by linarith
  then show ?case
  proof cases
    case 1
    then show ?thesis
      using "1.prems" unfolding unfold by (auto simp: best_inv_def)
  next
    case 2
    then show ?thesis
      using "1.prems" "1.IH"(1) best_inv_skip by (auto simp: unfold)
  next
    case 3
    define j where j: "j = run_end groups i"
    have inv': "best_inv groups j (if j - i > bl then i else bs) (if j - i > bl then j - i else bl)"
      using best_inv_run [OF "1.prems"(1) 3(1) j] run_end_gt [OF 3] by (simp add: j)
    show ?thesis
      using "1.prems"(2) "1.IH"(2,3) [OF _ _ j] inv' 3 by (cases "j - i > bl") (simp_all add: unfold Let_def j)
  qed
qed

lemma best_run_spec: "best_run groups 0 0 0 = (s, l) \<Longrightarrow> best_inv groups 8 s l"
  by (rule best_run_inv) (auto simp: best_inv_def zrun_def)

section \<open>Reading a printed address back\<close>

definition hex_val :: "char \<Rightarrow> nat" where
  "hex_val c = (let n = of_char c :: nat in if n < 58 then n - 48 else n - 87)"

definition from_hex :: "string \<Rightarrow> nat" where
  "from_hex s = foldl (\<lambda>acc c. acc * 16 + hex_val c) 0 s"

definition read_v6 :: "string \<Rightarrow> nat list" where
  "read_v6 s =
     (let parts = js_split CHR '':'' s in
      if [] \<notin> set parts then map from_hex parts
      else
        let front = takeWhile (\<lambda>p. p \<noteq> []) parts; back = rev (takeWhile (\<lambda>p. p \<noteq> []) (rev parts)) in
        map from_hex front @ replicate (8 - (length front + length back)) 0 @ map from_hex back)"

lemma hex_char_val: "d < 16 \<Longrightarrow> hex_val (hex_char d) = d"
  by (simp add: hex_val_def hex_char_def Let_def)

lemma hex_char_colon: "d < 16 \<Longrightarrow> hex_char d \<noteq> CHR '':''"
proof -
  assume "d < 16"
  then have "of_char (hex_char d) \<noteq> (58 :: nat)"
    by (simp add: hex_char_def)
  then show ?thesis
    by auto
qed

lemma to_hex_facts: "to_hex n \<noteq> [] \<and> CHR '':'' \<notin> set (to_hex n) \<and> from_hex (to_hex n) = n"
proof (induction n rule: to_hex.induct)
  case (1 n)
  show ?case
  proof (cases "n < 16")
    case True
    then show ?thesis
      using hex_char_colon [of n] by (simp add: to_hex.simps [of n] from_hex_def hex_char_val)
  next
    case False
    then show ?thesis
      using "1.IH" hex_char_colon [of "n mod 16"] by (simp add: to_hex.simps [of n] from_hex_def hex_char_val)
  qed
qed

lemma map_from_to_hex [simp]: "map (\<lambda>x. from_hex (to_hex x)) gs = gs"
  by (simp add: to_hex_facts)

lemma to_hex_parts: "p \<in> set (map to_hex gs) \<Longrightarrow> p \<noteq> [] \<and> CHR '':'' \<notin> set p"
  using to_hex_facts by auto

text \<open>The parts around the double colon.\<close>

definition side :: "nat list \<Rightarrow> string list" where
  "side gs = (if gs = [] then [[]] else map to_hex gs)"

lemma split_hex_groups: "js_split CHR '':'' (hex_groups gs) = side gs"
proof (cases "gs = []")
  case False
  then show ?thesis
    unfolding hex_groups_def side_def using to_hex_parts [of _ gs] by (subst js_split_join) auto
qed (simp add: hex_groups_def side_def)

lemma js_split_two: "js_split c (xs @ c # ys) = js_split c xs @ js_split c ys"
  by (induction xs) (auto split: list.splits)

lemma split_compressed:
  "js_split CHR '':'' (hex_groups as @ ''::'' @ hex_groups bs) = side as @ [[]] @ side bs"
  using js_split_two [of "CHR '':''" "hex_groups as" "CHR '':'' # hex_groups bs"] by (simp add: split_hex_groups)

lemma takeWhile_side:
  "takeWhile (\<lambda>p. p \<noteq> []) (side as @ [] # r) = map to_hex as"
  "takeWhile (\<lambda>p. p \<noteq> []) (rev (side as) @ [] # r) = rev (map to_hex as)"
proof -
  have all: "\<forall>p \<in> set (map to_hex as). p \<noteq> []"
    using to_hex_parts by blast
  have go: "takeWhile (\<lambda>p. p \<noteq> []) (ps @ [] # r) = ps" if "\<forall>p \<in> set ps. p \<noteq> []" for ps :: "string list"
    using that by (induction ps) auto
  show "takeWhile (\<lambda>p. p \<noteq> []) (side as @ [] # r) = map to_hex as"
    using go [OF all] by (cases "as = []") (simp_all add: side_def)
  show "takeWhile (\<lambda>p. p \<noteq> []) (rev (side as) @ [] # r) = rev (map to_hex as)"
    using go [of "rev (map to_hex as)"] all by (cases "as = []") (simp_all add: side_def)
qed

lemma read_v6_compressed:
  assumes "length as + n + length bs = 8"
  shows "read_v6 (hex_groups as @ ''::'' @ hex_groups bs) = as @ replicate n 0 @ bs"
proof -
  have n: "8 - (length as + length bs) = n"
    using assms by simp
  show ?thesis
    unfolding read_v6_def split_compressed Let_def
    by (simp add: takeWhile_side [simplified] n rev_map comp_def)
qed

lemma read_v6_plain: "gs \<noteq> [] \<Longrightarrow> read_v6 (hex_groups gs) = gs"
  unfolding read_v6_def split_hex_groups Let_def using to_hex_parts [of "[]" gs]
  by (auto simp: side_def comp_def)

lemma zrun_split:
  assumes "zrun groups s l" and "length groups = 8"
  shows "groups = take s groups @ replicate l 0 @ drop (s + l) groups"
proof -
  have "take l (drop s groups) = replicate l 0"
    using assms by (intro nth_equalityI) (auto simp: zrun_def)
  then show ?thesis
    by (metis add.commute append_take_drop_id drop_drop)
qed

lemma formatIp_v6_groups:
  assumes "length ip = 16"
  shows "read_v6 (formatIp ip) = ip_groups ip"
proof -
  obtain s l where run: "best_run (ip_groups ip) 0 0 0 = (s, l)"
    by fastforce
  have len: "length (ip_groups ip) = 8"
    by (simp add: ip_groups_def)
  have z: "zrun (ip_groups ip) s l"
    using best_run_spec [OF run] by (simp add: best_inv_def)
  then have sl: "s + l \<le> 8"
    by (simp add: zrun_def)
  show ?thesis
  proof (cases "l < 2")
    case True
    then show ?thesis
      using assms run len by (auto simp: formatIp_def Let_def intro!: read_v6_plain)
  next
    case False
    then have "formatIp ip = hex_groups (take s (ip_groups ip)) @ ''::'' @ hex_groups (drop (s + l) (ip_groups ip))"
      using assms run by (simp add: formatIp_def Let_def)
    then show ?thesis
      using sl len zrun_split [OF z len] read_v6_compressed [of "take s (ip_groups ip)" l "drop (s + l) (ip_groups ip)"]
      by simp
  qed
qed

lemma formatIp_v6_run:
  assumes "length ip = 16" and "zrun (ip_groups ip) a n" and "2 \<le> n"
  shows "\<exists>s l. zrun (ip_groups ip) s l \<and> (n < l \<or> n = l \<and> s \<le> a) \<and>
    formatIp ip = hex_groups (take s (ip_groups ip)) @ ''::'' @ hex_groups (drop (s + l) (ip_groups ip))"
proof -
  obtain s l where run: "best_run (ip_groups ip) 0 0 0 = (s, l)"
    by fastforce
  have inv: "best_inv (ip_groups ip) 8 s l"
    using run by (rule best_run_spec)
  have "a < 8"
    using assms(2,3) by (simp add: zrun_def)
  then have le: "n < l \<or> n = l \<and> s \<le> a"
    using inv assms(2,3) unfolding best_inv_def by (metis pos2 less_le_trans)
  then have "formatIp ip = hex_groups (take s (ip_groups ip)) @ ''::'' @ hex_groups (drop (s + l) (ip_groups ip))"
    using assms(1,3) run by (auto simp: formatIp_def Let_def)
  then show ?thesis
    using inv le by (auto simp: best_inv_def)
qed

section \<open>A small geoip file\<close>

text \<open>One entry: code \<open>A\<close>, the network 1.2.3.4/24.\<close>

definition small_ip :: "u8 list" where
  "small_ip = [10, 13, 10, 1, 65, 18, 8, 10, 4, 1, 2, 3, 4, 16, 24]"

lemma small_ip_parse:
  "parseGeoDat ascii_only small_ip Geoip =
     Inr \<lparr>gi_kind = Geoip, gi_tags = [\<lparr>ge_name = [97], ge_start = 2, ge_end = 15, ge_entries = 1, ge_attrs = []\<rparr>],
       gi_unreachable = []\<rparr>"
proof -
  have "walk ascii_only small_ip Geoip =
     Inr [\<lparr>re_code = [65], re_codeFirst = True, re_start = 2, re_end = 15, re_entries = 1, re_attrs = []\<rparr>]"
    by (simp add: walk_def small_ip_def walk_loop.simps read_entry_def readIP_def readIP_loop.simps small_eval
        readCidr_def readCidr_loop.simps)
  then show ?thesis
    unfolding parseGeoDat_def
    by (simp add: Let_def tag_of_def ascii_only_def ascii_upper_def ascii_lower_def index_loop.simps)
qed

section \<open>Properties\<close>

text \<open>C40. A file that parsed expands: whatever rule is asked of it, the only error left is a
  tag the index does not list. No listed tag ever fails on the bytes of its slice.\<close>

theorem parsed_tags_expand:
  assumes "parseGeoDat cm buf Geosite = Inr sites" and "parseGeoDat cm buf2 Geoip = Inr ips"
  shows "(if toLowerCase cm (hd (js_split at_sign tag)) \<in> ge_name ` set (gi_tags sites)
      then \<exists>rs. geositeRuleSet cm buf sites tag = Inr rs
      else geositeRuleSet cm buf sites tag = Inl (GeoTagUnknown (hd (js_split at_sign tag)))) \<and>
    (if toLowerCase cm (if js_starts_with [bang] tag then drop 1 tag else tag) \<in> ge_name ` set (gi_tags ips)
      then \<exists>rs. geoipRuleSet cm buf2 ips tag = Inr rs
      else geoipRuleSet cm buf2 ips tag = Inl (GeoTagUnknown (if js_starts_with [bang] tag then drop 1 tag else tag)))"
proof -
  have kinds: "gi_kind sites = Geosite" "gi_kind ips = Geoip"
    using parseGeoDat_Inr [OF assms(1)] parseGeoDat_Inr [OF assms(2)] by metis+
  have "geositeRuleSet cm buf sites tag = Inl (GeoTagUnknown (hd (js_split at_sign tag)))"
    if "toLowerCase cm (hd (js_split at_sign tag)) \<notin> ge_name ` set (gi_tags sites)"
    using findTag_unlisted [OF that] by (simp add: geositeRuleSet_def kinds Let_def)
  moreover have "geoipRuleSet cm buf2 ips tag = Inl (GeoTagUnknown (if js_starts_with [bang] tag then drop 1 tag else tag))"
    if "toLowerCase cm (if js_starts_with [bang] tag then drop 1 tag else tag) \<notin> ge_name ` set (gi_tags ips)"
    using findTag_unlisted [OF that] by (simp add: geoipRuleSet_def kinds Let_def)
  moreover have "\<exists>rs. geositeRuleSet cm buf sites tag = Inr rs"
    if "toLowerCase cm (hd (js_split at_sign tag)) \<in> ge_name ` set (gi_tags sites)"
    using findTag_listed [OF that] geositeRuleSet_found [OF assms(1), of tag] by blast
  moreover have "\<exists>rs. geoipRuleSet cm buf2 ips tag = Inr rs"
    if "toLowerCase cm (if js_starts_with [bang] tag then drop 1 tag else tag) \<in> ge_name ` set (gi_tags ips)"
    using findTag_listed [OF that] geoipRuleSet_found [OF assms(2), of tag] by blast
  ultimately show ?thesis
    by presburger
qed

theorem parsed_tags_expand_witness:
  "\<exists>sites. parseGeoDat ascii_only small_site Geosite = Inr sites \<and>
     (\<exists>rs. geositeRuleSet ascii_only small_site sites [65] = Inr rs)"
  using parsed_tags_expand [OF small_site_parse small_ip_parse, of "[65]"] small_site_parse
  by (simp add: ascii_only_def ascii_lower_def at_sign_def)

text \<open>The rule-set of a geosite tag is exactly what its domains say: the slice holds as many
  domains as the index counted, and each condition lists, sorted and without repetition, the
  values of the domains of its type that carry every asked attribute (a root domain gives its
  dotted suffix, and itself when it has a dot).\<close>

theorem geositeRuleSet_contents:
  assumes "parseGeoDat cm buf Geosite = Inr idx" and "findTag cm idx (hd (js_split at_sign tag)) = Inr t"
  shows "\<exists>ds. site_domains cm buf (ge_end t) (ge_start t) = Inr ds \<and> length ds = ge_entries t \<and>
    geositeRuleSet cm buf idx tag =
      Inr (ruleSet (site_spec (map (toLowerCase cm) (tl (js_split at_sign tag))) (set ds)))"
  using assms by (rule geositeRuleSet_found)

theorem geositeRuleSet_contents_witness:
  "\<exists>idx t ds. parseGeoDat ascii_only small_site Geosite = Inr idx \<and> findTag ascii_only idx [65] = Inr t \<and>
     site_domains ascii_only small_site (ge_end t) (ge_start t) = Inr ds \<and> length ds = 1 \<and>
     geositeRuleSet ascii_only small_site idx [65] = Inr (ruleSet (site_spec [] (set ds)))"
proof -
  let ?t = "\<lparr>ge_name = [97], ge_start = 2, ge_end = 19, ge_entries = 1, ge_attrs = [[120]]\<rparr>"
  let ?idx = "\<lparr>gi_kind = Geosite, gi_tags = [?t], gi_unreachable = []\<rparr>"
  have split: "js_split at_sign [65] = [[65]]"
    by (simp add: at_sign_def)
  have find: "findTag ascii_only ?idx (hd (js_split at_sign [65])) = Inr ?t"
    unfolding split by (simp add: findTag_def ascii_only_def ascii_lower_def)
  from geositeRuleSet_contents [OF small_site_parse find] small_site_parse find show ?thesis
    unfolding split by auto
qed

text \<open>No rule without conditions is ever written, which would match everything: a rule-set
  has at most one rule, it has a condition, and no condition it has is an empty list.\<close>

theorem rules_have_conditions:
  assumes "geositeRuleSet cm buf idx tag = Inr rs \<or> geoipRuleSet cm buf idx tag = Inr rs"
  shows "length rs \<le> 1 \<and> (\<forall>r \<in> set rs.
    (hr_domain r \<noteq> None \<or> hr_domain_suffix r \<noteq> None \<or> hr_domain_keyword r \<noteq> None \<or> hr_domain_regex r \<noteq> None \<or>
     hr_ip_cidr r \<noteq> None) \<and>
    hr_domain r \<noteq> Some [] \<and> hr_domain_suffix r \<noteq> Some [] \<and> hr_domain_keyword r \<noteq> Some [] \<and>
    hr_domain_regex r \<noteq> Some [] \<and> hr_ip_cidr r \<noteq> Some [])"
proof -
  have sorted: "sorted_set s \<noteq> Some []" for s
    by (auto simp: sorted_set_def) (metis set_empty set_sort)
  from assms show ?thesis
  proof
    assume "geositeRuleSet cm buf idx tag = Inr rs"
    then obtain ss where "rs = ruleSet (site_rule ss)"
      by (auto simp: geositeRuleSet_def Let_def split: if_splits)
    then show ?thesis
      by (auto simp: ruleSet_def site_rule_def no_rule_def sorted Let_def)
  next
    assume "geoipRuleSet cm buf idx tag = Inr rs"
    then show ?thesis
      by (auto simp: geoipRuleSet_def ruleSet_def no_rule_def Let_def split: if_splits)
  qed
qed

theorem rules_have_conditions_witness:
  "\<exists>rs. geoipRuleSet ascii_only small_ip
      \<lparr>gi_kind = Geoip, gi_tags = [\<lparr>ge_name = [97], ge_start = 2, ge_end = 15, ge_entries = 1, ge_attrs = []\<rparr>],
        gi_unreachable = []\<rparr> [33, 65] = Inr rs \<and> length rs \<le> 1 \<and> (\<forall>r \<in> set rs. hr_ip_cidr r \<noteq> Some [])"
proof -
  let ?t = "\<lparr>ge_name = [97], ge_start = 2, ge_end = 15, ge_entries = 1, ge_attrs = []\<rparr>"
  let ?idx = "\<lparr>gi_kind = Geoip, gi_tags = [?t], gi_unreachable = []\<rparr>"
  have "findTag ascii_only ?idx (if js_starts_with [bang] [33, 65] then drop 1 [33, 65] else [33, 65]) = Inr ?t"
    by (simp add: findTag_def ascii_only_def ascii_lower_def js_starts_with_def bang_def)
  from geoipRuleSet_found [OF small_ip_parse this] obtain rs where rs: "geoipRuleSet ascii_only small_ip ?idx [33, 65] = Inr rs"
    by blast
  from rules_have_conditions [OF disjI2, OF rs] rs show ?thesis
    by blast
qed

text \<open>Printed IPv6 addresses are right and canonical: reading the text back gives the eight
  groups of the address, and whenever two or more groups in a row are zero the text
  abbreviates a run of zeros that is the longest, and the first of the longest.\<close>

theorem formatIp_v6:
  assumes "length ip = 16"
  shows "read_v6 (formatIp ip) = ip_groups ip \<and>
    (\<forall>a n. zrun (ip_groups ip) a n \<and> 2 \<le> n \<longrightarrow>
      (\<exists>s l. zrun (ip_groups ip) s l \<and> (n < l \<or> n = l \<and> s \<le> a) \<and>
        formatIp ip = hex_groups (take s (ip_groups ip)) @ ''::'' @ hex_groups (drop (s + l) (ip_groups ip))))"
  using formatIp_v6_groups [OF assms] formatIp_v6_run [OF assms] by blast

theorem formatIp_v6_witness:
  "read_v6 (formatIp (replicate 15 0 @ [1])) = ip_groups (replicate 15 0 @ [1])"
  using formatIp_v6 [of "replicate 15 0 @ [1]"] by simp

end
