(* ===== verification/TrafficStats.thy ===== *)
theory TrafficStats
  imports JsNumber
begin

text \<open>
  The traffic arithmetic of the stats poll (\<open>modules/stats/stats.compute.ts\<close>). Byte counters
  arrive as whole numbers and are summed as BigInts, here \<open>int\<close>; a BigInt division truncates
  towards zero, \<open>Number\<close> of a BigInt rounds to 53 bits, and the consumption multiplier is a
  double (below \<open>2 ^ 1000\<close>, far above the 100 the schema allows).
\<close>

section \<open>Entries\<close>

record stats_user_entry =
  su_userId :: string
  su_bytesIn :: "int option"
  su_bytesOut :: "int option"
  su_cumulative :: "bool option"
  su_protocol :: "string option"
  su_engine :: "string option"

text \<open>\<open>x || 0\<close> and \<open>x ?? ''\<close>.\<close>

definition or0 :: "int option \<Rightarrow> int" where
  "or0 x = (case x of None \<Rightarrow> 0 | Some n \<Rightarrow> n)"

definition or_empty :: "string option \<Rightarrow> string" where
  "or_empty x = (case x of None \<Rightarrow> [] | Some s \<Rightarrow> s)"

definition truthy :: "string option \<Rightarrow> bool" where
  "truthy x \<longleftrightarrow> or_empty x \<noteq> []"

definition snapshotAdapterOf :: "stats_user_entry \<Rightarrow> string \<times> string" where
  "snapshotAdapterOf u =
     (if truthy (su_engine u) then (or_empty (su_protocol u), or_empty (su_engine u)) else ([], []))"

definition snapshotKey :: "string \<Rightarrow> string \<times> string \<Rightarrow> string" where
  "snapshotKey userId a = userId @ ''|'' @ fst a @ ''|'' @ snd a"

section \<open>Deltas of cumulative counters\<close>

record user_group =
  g_userId :: string
  g_protocol :: string
  g_engine :: string
  g_cumIn :: int
  g_cumOut :: int
  g_protocols :: "string option list"

definition new_group :: "stats_user_entry \<Rightarrow> user_group" where
  "new_group u = \<lparr>g_userId = su_userId u, g_protocol = fst (snapshotAdapterOf u), g_engine = snd (snapshotAdapterOf u),
     g_cumIn = 0, g_cumOut = 0, g_protocols = []\<rparr>"

definition add_to_group :: "user_group \<Rightarrow> stats_user_entry \<Rightarrow> user_group" where
  "add_to_group g u = g\<lparr>g_cumIn := g_cumIn g + or0 (su_bytesIn u), g_cumOut := g_cumOut g + or0 (su_bytesOut u),
     g_protocols := set_add (su_protocol u) (g_protocols g)\<rparr>"

definition entry_key :: "stats_user_entry \<Rightarrow> string" where
  "entry_key u = snapshotKey (su_userId u) (snapshotAdapterOf u)"

definition group_users :: "stats_user_entry list \<Rightarrow> (string, user_group) jsmap" where
  "group_users reported = acc_by entry_key new_group add_to_group [] reported"

text \<open>The growth of one counter since its snapshot; none at first sight or after a drop.\<close>

definition counter_delta :: "int option \<Rightarrow> int \<Rightarrow> int" where
  "counter_delta p cum = (case p of None \<Rightarrow> 0 | Some q \<Rightarrow> if cum \<ge> q then cum - q else 0)"

definition js_Number_of_BigInt :: "int \<Rightarrow> int" where
  "js_Number_of_BigInt n = (if n < 0 then - int (dbl (nat (- n))) else int (dbl (nat n)))"

record snapshot_row =
  sn_userId :: string
  sn_protocol :: string
  sn_engine :: string
  sn_cumIn :: int
  sn_cumOut :: int

definition group_delta :: "(string, int \<times> int) jsmap \<Rightarrow> string \<times> user_group \<Rightarrow> stats_user_entry" where
  "group_delta prev kg =
     (let (key, g) = kg; p = map_get prev key in
      \<lparr>su_userId = g_userId g,
        su_bytesIn = Some (js_Number_of_BigInt (counter_delta (map_option fst p) (g_cumIn g))),
        su_bytesOut = Some (js_Number_of_BigInt (counter_delta (map_option snd p) (g_cumOut g))),
        su_cumulative = None,
        su_protocol = (case List.find (\<lambda>x. x \<noteq> None) (g_protocols g) of None \<Rightarrow> None | Some x \<Rightarrow> x),
        su_engine = None\<rparr>)"

definition group_snapshot :: "user_group \<Rightarrow> snapshot_row" where
  "group_snapshot g = \<lparr>sn_userId = g_userId g, sn_protocol = g_protocol g, sn_engine = g_engine g,
     sn_cumIn = g_cumIn g, sn_cumOut = g_cumOut g\<rparr>"

definition computeUserDeltas ::
    "stats_user_entry list \<Rightarrow> (string, int \<times> int) jsmap \<Rightarrow> stats_user_entry list \<times> snapshot_row list" where
  "computeUserDeltas reported prev =
     (let groups = group_users reported in
      (map (group_delta prev) groups, map (\<lambda>(_, g). group_snapshot g) groups))"

section \<open>The node's total, adapter by adapter\<close>

record core_total_entry =
  ct_protocol :: string
  ct_engine :: string
  ct_bytesIn :: int
  ct_bytesOut :: int
  ct_cumulative :: bool
  ct_noData :: bool

record node_totals =
  nt_upload :: int
  nt_download :: int

definition core_key :: "core_total_entry \<Rightarrow> string" where
  "core_key c = ct_protocol c @ ''|'' @ ct_engine c"

primrec core_totals ::
    "(string, int \<times> int) jsmap \<Rightarrow> core_total_entry list \<Rightarrow> node_totals \<Rightarrow> (string, int \<times> int) jsmap \<Rightarrow>
     node_totals \<times> (string, int \<times> int) jsmap" where
  "core_totals prev [] t snaps = (t, snaps)"
| "core_totals prev (c # cs) t snaps =
     (if ct_noData c then core_totals prev cs t snaps
      else if \<not> ct_cumulative c then
        core_totals prev cs (t\<lparr>nt_upload := nt_upload t + ct_bytesIn c, nt_download := nt_download t + ct_bytesOut c\<rparr>) snaps
      else
        let key = core_key c;
            t' = (case map_get prev key of
                    None \<Rightarrow> t
                  | Some p \<Rightarrow> t\<lparr>nt_upload := nt_upload t + (if ct_bytesIn c \<ge> fst p then ct_bytesIn c - fst p else 0),
                      nt_download := nt_download t + (if ct_bytesOut c \<ge> snd p then ct_bytesOut c - snd p else 0)\<rparr>) in
        core_totals prev cs t' (map_set key (ct_bytesIn c, ct_bytesOut c) snaps))"

definition computeNodeTotalsFromCores ::
    "core_total_entry list \<Rightarrow> (string, int \<times> int) jsmap \<Rightarrow> node_totals \<times> (string, int \<times> int) jsmap" where
  "computeNodeTotalsFromCores cores prev = core_totals prev cores \<lparr>nt_upload = 0, nt_download = 0\<rparr> []"

section \<open>What a poll writes\<close>

record node_stats_input =
  ni_users :: "stats_user_entry list"
  ni_multiplier :: js_number
  ni_totalBytesIn :: "int option"
  ni_totalBytesOut :: "int option"
  ni_prevSnapshot :: "(int \<times> int) option"
  ni_maxUserDeltaBytes :: "int option"
  ni_nodeTotalIsCumulative :: bool
  ni_nodeTotals :: "node_totals option"

record node_stats_writes =
  nw_userTrafficRows :: "(string \<times> int) list"
  nw_historyRows :: "(string \<times> int \<times> int) list"
  nw_nodeDownload :: int
  nw_nodeUpload :: int
  nw_newSnapshot :: "(int \<times> int) option"
  nw_clamped :: "(string \<times> int \<times> int) list"

text \<open>\<open>m * 10\<close> as a double, and \<open>Math.round\<close>.\<close>

definition times_ten :: "rat \<Rightarrow> rat" where
  "times_ten r = (let (n, d) = quotient_of r in dbl_quotient (nat (n * 10)) (nat d))"

definition js_round :: "rat \<Rightarrow> int" where
  "js_round r = \<lfloor>r + 1 / 2\<rfloor>"

definition tenths_of :: "js_number \<Rightarrow> int" where
  "tenths_of m = (case m of Fin r \<Rightarrow> if r \<ge> 0 then js_round (times_ten r) else 10 | _ \<Rightarrow> 10)"

definition bigint_div :: "int \<Rightarrow> int \<Rightarrow> int" where
  "bigint_div a b = sgn a * sgn b * (\<bar>a\<bar> div \<bar>b\<bar>)"

definition scale_by :: "int \<Rightarrow> int \<Rightarrow> int" where
  "scale_by tenths v = (if tenths = 10 then v else bigint_div (v * tenths + 5) 10)"

definition in_of :: "stats_user_entry \<Rightarrow> int" where
  "in_of u = or0 (su_bytesIn u)"

definition out_of :: "stats_user_entry \<Rightarrow> int" where
  "out_of u = or0 (su_bytesOut u)"

definition over_ceiling :: "int option \<Rightarrow> stats_user_entry \<Rightarrow> bool" where
  "over_ceiling cap u = (case cap of None \<Rightarrow> False | Some c \<Rightarrow> in_of u > c \<or> out_of u > c)"

record writes_acc =
  wa_used :: "(string, int) jsmap"
  wa_hist :: "(string, int \<times> int) jsmap"
  wa_clamped :: "(string \<times> int \<times> int) list"
  wa_upload :: int
  wa_download :: int

definition bump_used :: "int \<Rightarrow> stats_user_entry \<Rightarrow> (string, int) jsmap \<Rightarrow> (string, int) jsmap" where
  "bump_used tenths u m = map_set (su_userId u)
     ((case map_get m (su_userId u) of Some a \<Rightarrow> a | None \<Rightarrow> 0) + scale_by tenths (in_of u + out_of u)) m"

definition bump_hist :: "int \<Rightarrow> stats_user_entry \<Rightarrow> (string, int \<times> int) jsmap \<Rightarrow> (string, int \<times> int) jsmap" where
  "bump_hist tenths u m =
     (let h = (case map_get m (su_userId u) of Some a \<Rightarrow> a | None \<Rightarrow> (0, 0)) in
      map_set (su_userId u) (fst h + scale_by tenths (in_of u), snd h + scale_by tenths (out_of u)) m)"

definition write_step :: "int \<Rightarrow> int option \<Rightarrow> bool \<Rightarrow> writes_acc \<Rightarrow> stats_user_entry \<Rightarrow> writes_acc" where
  "write_step tenths cap countNode w u =
     (if over_ceiling cap u then w\<lparr>wa_clamped := wa_clamped w @ [(su_userId u, in_of u, out_of u)]\<rparr>
      else
        let w1 = (if countNode then w\<lparr>wa_upload := wa_upload w + in_of u, wa_download := wa_download w + out_of u\<rparr> else w) in
        if in_of u + out_of u = 0 then w1
        else w1\<lparr>wa_used := bump_used tenths u (wa_used w1), wa_hist := bump_hist tenths u (wa_hist w1)\<rparr>)"

definition writes_loop :: "int \<Rightarrow> int option \<Rightarrow> bool \<Rightarrow> stats_user_entry list \<Rightarrow> writes_acc" where
  "writes_loop tenths cap countNode users =
     foldl (write_step tenths cap countNode)
       \<lparr>wa_used = [], wa_hist = [], wa_clamped = [], wa_upload = 0, wa_download = 0\<rparr> users"

text \<open>The delta of the node's own counter: nothing when first seen as a cumulative counter.\<close>

definition total_delta :: "(int \<times> int) option \<Rightarrow> bool \<Rightarrow> int \<times> int \<Rightarrow> int \<times> int" where
  "total_delta prevSnapshot isCumulative cum =
     (let prev = (case prevSnapshot of None \<Rightarrow> (0, 0) | Some p \<Rightarrow> p);
          baselineOnly = (prevSnapshot = None \<and> isCumulative) in
      if baselineOnly then (0, 0)
      else (if fst cum > fst prev then fst cum - fst prev else 0, if snd cum > snd prev then snd cum - snd prev else 0))"

definition computeNodeStatsWrites :: "node_stats_input \<Rightarrow> node_stats_writes" where
  "computeNodeStatsWrites input =
     (let tenths = tenths_of (ni_multiplier input);
          w = writes_loop tenths (ni_maxUserDeltaBytes input)
                (\<not> ni_nodeTotalIsCumulative input \<and> ni_nodeTotals input = None) (ni_users input);
          used = sort_key fst (wa_used w);
          hist = sort_key fst (wa_hist w);
          cum = (or0 (ni_totalBytesIn input), or0 (ni_totalBytesOut input));
          (up, down, snap) =
            (case ni_nodeTotals input of
               Some t \<Rightarrow> (nt_upload t, nt_download t, None)
             | None \<Rightarrow>
                 if (ni_nodeTotalIsCumulative input \<or> wa_download w = 0 \<and> wa_upload w = 0) \<and>
                    (fst cum > 0 \<or> snd cum > 0)
                 then let d = total_delta (ni_prevSnapshot input) (ni_nodeTotalIsCumulative input) cum in
                   (wa_upload w + fst d, wa_download w + snd d, Some cum)
                 else (wa_upload w, wa_download w, None)) in
      \<lparr>nw_userTrafficRows = used, nw_historyRows = hist, nw_nodeDownload = down, nw_nodeUpload = up,
        nw_newSnapshot = snap, nw_clamped = wa_clamped w\<rparr>)"

section \<open>The rows, in closed form\<close>

definition billed :: "int option \<Rightarrow> stats_user_entry \<Rightarrow> bool" where
  "billed cap u \<longleftrightarrow> \<not> over_ceiling cap u \<and> in_of u + out_of u \<noteq> 0"

lemma writes_fold_rows:
  "wa_used (foldl (write_step t cap cn) w us) =
     acc_by su_userId (\<lambda>_. 0) (\<lambda>a u. a + scale_by t (in_of u + out_of u)) (wa_used w) (filter (billed cap) us)"
  "wa_hist (foldl (write_step t cap cn) w us) =
     acc_by su_userId (\<lambda>_. (0, 0)) (\<lambda>a u. (fst a + scale_by t (in_of u), snd a + scale_by t (out_of u)))
       (wa_hist w) (filter (billed cap) us)"
  by (induction us arbitrary: w)
    (simp_all add: write_step_def billed_def bump_used_def bump_hist_def Let_def)

lemma writes_fold_clamped:
  "wa_clamped (foldl (write_step t cap cn) w us) =
     wa_clamped w @ map (\<lambda>u. (su_userId u, in_of u, out_of u)) (filter (over_ceiling cap) us)"
  by (induction us arbitrary: w) (simp_all add: write_step_def Let_def)

lemma writes_fold_totals:
  "wa_upload (foldl (write_step t cap cn) w us) =
     wa_upload w + (if cn then sum_list (map in_of (filter (\<lambda>u. \<not> over_ceiling cap u) us)) else 0)"
  "wa_download (foldl (write_step t cap cn) w us) =
     wa_download w + (if cn then sum_list (map out_of (filter (\<lambda>u. \<not> over_ceiling cap u) us)) else 0)"
  by (induction us arbitrary: w) (simp_all add: write_step_def Let_def)

lemma foldl_plus: "foldl (\<lambda>a u. a + f u) (z :: int) us = z + sum_list (map f us)"
  by (induction us arbitrary: z) simp_all

lemma foldl_plus_pair:
  "foldl (\<lambda>a u. (fst a + f u, snd a + g u)) (z :: int \<times> int) us = (fst z + sum_list (map f us), snd z + sum_list (map g us))"
  by (induction us arbitrary: z) simp_all

text \<open>The entries of one user that count.\<close>

definition entries_of :: "int option \<Rightarrow> string \<Rightarrow> stats_user_entry list \<Rightarrow> stats_user_entry list" where
  "entries_of cap user us = filter (\<lambda>u. billed cap u \<and> su_userId u = user) us"

lemma writes_loop_used:
  "map_get (wa_used (writes_loop t cap cn us)) user =
   (if entries_of cap user us = [] then None
    else Some (sum_list (map (\<lambda>u. scale_by t (in_of u + out_of u)) (entries_of cap user us))))"
  by (auto simp: writes_loop_def writes_fold_rows acc_by_get entries_of_def foldl_plus conj_commute split: list.splits)

lemma writes_loop_hist:
  "map_get (wa_hist (writes_loop t cap cn us)) user =
   (if entries_of cap user us = [] then None
    else Some (sum_list (map (\<lambda>u. scale_by t (in_of u)) (entries_of cap user us)),
      sum_list (map (\<lambda>u. scale_by t (out_of u)) (entries_of cap user us))))"
  by (auto simp: writes_loop_def writes_fold_rows acc_by_get entries_of_def foldl_plus_pair conj_commute split: list.splits)

lemma writes_loop_wf: "map_wf (wa_used (writes_loop t cap cn us))" "map_wf (wa_hist (writes_loop t cap cn us))"
  by (simp_all add: writes_loop_def writes_fold_rows acc_by_wf)

lemma nw_rows:
  "nw_userTrafficRows (computeNodeStatsWrites i) =
     sort_key fst (wa_used (writes_loop (tenths_of (ni_multiplier i)) (ni_maxUserDeltaBytes i)
       (\<not> ni_nodeTotalIsCumulative i \<and> ni_nodeTotals i = None) (ni_users i)))"
  "nw_historyRows (computeNodeStatsWrites i) =
     sort_key fst (wa_hist (writes_loop (tenths_of (ni_multiplier i)) (ni_maxUserDeltaBytes i)
       (\<not> ni_nodeTotalIsCumulative i \<and> ni_nodeTotals i = None) (ni_users i)))"
  by (simp_all add: computeNodeStatsWrites_def Let_def case_prod_unfold)

text \<open>Sorting an association list with distinct keys: same content, strictly ascending keys.\<close>

lemma sort_map_get: "map_wf m \<Longrightarrow> map_of (sort_key fst m) k = map_get m k"
proof -
  assume wf: "map_wf m"
  have "distinct (map fst (sort_key fst m))"
    using wf by (simp add: map_wf_def distinct_map)
  then have "map_of (sort_key fst m) = map_of m"
    using wf by (subst map_of_inject_set) (simp_all add: map_wf_def)
  then show ?thesis
    by simp
qed

lemma sort_strict: "map_wf m \<Longrightarrow> sorted_wrt (<) (map fst (sort_key fst m))"
  by (simp add: map_wf_def distinct_map strict_sorted_iff)

lemma rows_sorted:
  "sorted_wrt (<) (map fst (nw_userTrafficRows (computeNodeStatsWrites i)))"
  "sorted_wrt (<) (map fst (nw_historyRows (computeNodeStatsWrites i)))"
  unfolding nw_rows by (simp_all only: sort_strict writes_loop_wf)

lemma used_row:
  "map_of (nw_userTrafficRows (computeNodeStatsWrites i)) user =
   (let es = entries_of (ni_maxUserDeltaBytes i) user (ni_users i) in
    if es = [] then None
    else Some (sum_list (map (\<lambda>u. scale_by (tenths_of (ni_multiplier i)) (in_of u + out_of u)) es)))"
  by (simp add: nw_rows sort_map_get writes_loop_wf writes_loop_used Let_def)

lemma hist_row:
  "map_of (nw_historyRows (computeNodeStatsWrites i)) user =
   (let es = entries_of (ni_maxUserDeltaBytes i) user (ni_users i) in
    if es = [] then None
    else Some (sum_list (map (\<lambda>u. scale_by (tenths_of (ni_multiplier i)) (in_of u)) es),
      sum_list (map (\<lambda>u. scale_by (tenths_of (ni_multiplier i)) (out_of u)) es)))"
  by (simp add: nw_rows sort_map_get writes_loop_wf writes_loop_hist Let_def)

section \<open>The scale\<close>

lemma scale_by_bounds:
  assumes "0 \<le> t" and "0 \<le> v"
  shows "v * t - 5 < 10 * scale_by t v" and "10 * scale_by t v \<le> v * t + 5"
proof -
  have nn: "0 \<le> v * t"
    using assms by simp
  have eq: "bigint_div (v * t + 5) 10 = (v * t + 5) div 10"
    using nn by (simp add: bigint_div_def sgn_if)
  show "v * t - 5 < 10 * scale_by t v" and "10 * scale_by t v \<le> v * t + 5"
    using nn unfolding scale_by_def eq by (auto simp: mult.commute)
qed

lemma scale_by_ten [simp]: "scale_by 10 v = v"
  by (simp add: scale_by_def)

lemma half_even_error: "0 < d \<Longrightarrow> 2 * d * half_even n d \<le> 2 * n + d \<and> 2 * n \<le> 2 * d * half_even n d + d"
proof -
  assume "0 < d"
  define q r where "q = n div d" and "r = n mod d"
  have n: "n = d * q + r" and r: "r < d"
    using \<open>0 < d\<close> by (simp_all add: q_def r_def)
  have h: "half_even n d = q + 1 \<and> d \<le> 2 * r \<or> half_even n d = q \<and> 2 * r \<le> d"
    by (auto simp: half_even_def Let_def q_def r_def)
  show ?thesis
    using h r by (auto simp: n algebra_simps)
qed

lemma dbl_quotient_error:
  assumes "0 < d"
  shows "\<bar>dbl_quotient n d - of_nat n / of_nat d\<bar> \<le> of_nat n / of_nat d / 2 ^ 53 + 1 / 2 ^ 1075"
proof -
  define P :: nat where "P = 2 ^ 1074"
  define s where "s = n * P"
  define e where "e = nbits (s div d) - 53"
  define h where "h = half_even s (d * 2 ^ e)"
  define x :: rat where "x = of_nat s / of_nat d"
  define y :: rat where "y = of_nat h * 2 ^ e"
  have D: "0 < d * 2 ^ e"
    using assms by simp
  have "2 * (d * 2 ^ e) * h \<le> 2 * s + d * 2 ^ e" and "2 * s \<le> 2 * (d * 2 ^ e) * h + d * 2 ^ e"
    using half_even_error [OF D, of s] by (simp_all add: h_def)
  then have "rat_of_nat (2 * (d * 2 ^ e) * h) \<le> rat_of_nat (2 * s + d * 2 ^ e)"
    and "rat_of_nat (2 * s) \<le> rat_of_nat (2 * (d * 2 ^ e) * h + d * 2 ^ e)"
    by (simp_all only: of_nat_le_iff)
  then have near: "y - x \<le> 2 ^ e / 2" "x - y \<le> 2 ^ e / 2"
    using assms by (simp_all add: x_def y_def field_simps)
  have "(2 ^ e / 2 :: rat) \<le> x / 2 ^ 53 + 1 / 2"
  proof (cases "e = 0")
    case True
    then show ?thesis
      by (simp add: x_def)
  next
    case False
    then have nb: "nbits (s div d) - 1 = e + 52"
      by (simp add: e_def)
    have pos: "0 < s div d"
      using False by (intro gr0I) (simp add: e_def nbits.simps [of 0])
    have "2 ^ (e + 52) \<le> s div d"
      using nbits_lower [OF pos] nb by simp
    then have "2 ^ (e + 52) * d \<le> s"
      using assms by (simp add: less_eq_div_iff_mult_less_eq)
    then have "rat_of_nat (2 ^ (e + 52) * d) \<le> rat_of_nat s"
      by (simp only: of_nat_le_iff)
    then have "(2 :: rat) ^ e * 2 ^ 52 \<le> x"
      using assms by (simp add: x_def field_simps power_add)
    then show ?thesis
      by simp
  qed
  then have abs: "\<bar>y - x\<bar> \<le> x / 2 ^ 53 + 1 / 2"
    using near by linarith
  have P: "0 < (of_nat P :: rat)"
    by (simp add: P_def)
  have xq: "x / of_nat P = of_nat n / of_nat d"
    using P by (simp add: x_def s_def)
  have yq: "y / of_nat P = dbl_quotient n d"
    by (simp add: y_def dbl_quotient_def Let_def h_def e_def s_def P_def)
  have "\<bar>y / of_nat P - x / of_nat P\<bar> = \<bar>y - x\<bar> / of_nat P"
    using P by (simp flip: diff_divide_distrib add: abs_divide)
  also have "\<dots> \<le> (x / 2 ^ 53 + 1 / 2) / of_nat P"
    using abs P by (intro divide_right_mono) simp_all
  also have "\<dots> = x / of_nat P / 2 ^ 53 + 1 / (2 * of_nat P)"
    by (simp add: add_divide_distrib mult.commute)
  also have "2 * of_nat P = (2 ^ 1075 :: rat)"
    by (simp add: P_def)
  finally show ?thesis
    unfolding xq yq .
qed

lemma times_ten_error: "0 \<le> r \<Longrightarrow> \<bar>times_ten r - 10 * r\<bar> \<le> 10 * r / 2 ^ 53 + 1 / 2 ^ 1075"
proof -
  assume r: "0 \<le> r"
  obtain n d where q: "quotient_of r = (n, d)"
    by fastforce
  have d: "0 < d" and rat: "r = of_int n / of_int d"
    using quotient_of_denom_pos [OF q] quotient_of_div [OF q] by simp_all
  then have n: "0 \<le> n"
    using r by (simp add: zero_le_divide_iff)
  have ten: "of_nat (nat (n * 10)) / of_nat (nat d) = 10 * r"
    using n d by (simp add: rat of_nat_nat)
  show ?thesis
    using dbl_quotient_error [of "nat d" "nat (n * 10)"] d unfolding ten by (simp add: times_ten_def q)
qed

lemma tiny: "(1 :: rat) / 2 ^ 1075 \<le> 1 / 100"
  by (rule divide_left_mono) simp_all

lemma tenths_of_quotient:
  assumes "t \<le> 1000"
  shows "tenths_of (Fin (dbl_quotient t 10)) = int t"
proof -
  define m where "m = dbl_quotient t 10"
  define x :: rat where "x = of_nat t"
  have x: "0 \<le> x" "x \<le> 1000"
    using assms by (simp_all add: x_def)
  define eps :: rat where "eps = 1 / 2 ^ 1075"
  have eps: "0 \<le> eps" "eps \<le> 1 / 100"
    using tiny by (simp_all only: eps_def) simp
  have m: "\<bar>m - x / 10\<bar> \<le> x / 10 / 2 ^ 53 + eps"
    using dbl_quotient_error [of 10 t] by (simp only: m_def x_def eps_def) simp
  have pos: "0 \<le> m"
    by (simp add: m_def dbl_quotient_def Let_def)
  have ten: "\<bar>times_ten m - 10 * m\<bar> \<le> 10 * m / 2 ^ 53 + eps"
    using times_ten_error [OF pos] by (simp only: eps_def)
  have "x / 10 / 2 ^ 53 \<le> 1 / 100"
    using x by simp
  then have m': "m - x / 10 \<le> 1 / 50" "x / 10 - m \<le> 1 / 50"
    using m eps by linarith+
  then have "m \<le> 101"
    using x by linarith
  then have "10 * m / 2 ^ 53 \<le> 1 / 100"
    by simp
  then have "times_ten m - 10 * m \<le> 1 / 50" "10 * m - times_ten m \<le> 1 / 50"
    using ten eps by linarith+
  then have "times_ten m + 1 / 2 < x + 1" and "x \<le> times_ten m + 1 / 2"
    using m' by linarith+
  then have "\<lfloor>times_ten m + 1 / 2\<rfloor> = int t"
    by (intro floor_unique) (simp_all add: x_def)
  then show ?thesis
    using pos by (simp add: tenths_of_def js_round_def m_def)
qed

section \<open>The groups\<close>

definition snap_key :: "snapshot_row \<Rightarrow> string" where
  "snap_key s = snapshotKey (sn_userId s) (sn_protocol s, sn_engine s)"

definition key_entries :: "string \<Rightarrow> stats_user_entry list \<Rightarrow> stats_user_entry list" where
  "key_entries k us = filter (\<lambda>u. entry_key u = k) us"

lemma foldl_add_to_group:
  "g_userId (foldl add_to_group g us) = g_userId g \<and> g_protocol (foldl add_to_group g us) = g_protocol g \<and>
   g_engine (foldl add_to_group g us) = g_engine g \<and>
   g_cumIn (foldl add_to_group g us) = g_cumIn g + sum_list (map in_of us) \<and>
   g_cumOut (foldl add_to_group g us) = g_cumOut g + sum_list (map out_of us)"
  by (induction us arbitrary: g) (simp_all add: add_to_group_def in_of_def out_of_def)

lemma group_users_wf: "map_wf (group_users us)"
  by (simp add: group_users_def)

lemma group_users_keys: "set (map_keys (group_users us)) = entry_key ` set us"
  by (simp only: group_users_def acc_by_keys) simp

lemma group_users_entry:
  assumes "(k, g) \<in> set (group_users us)"
  shows "snap_key (group_snapshot g) = k" and "g_cumIn g = sum_list (map in_of (key_entries k us))"
    and "g_cumOut g = sum_list (map out_of (key_entries k us))"
proof -
  have get: "map_get (group_users us) k = Some g"
    using assms group_users_wf by (simp add: map_get_iff_mem)
  then obtain y ys where ys: "key_entries k us = y # ys"
    by (auto simp: group_users_def acc_by_get key_entries_def split: list.splits)
  then have g: "g = foldl add_to_group (new_group y) (y # ys)"
    using get by (simp add: group_users_def acc_by_get key_entries_def)
  have "entry_key y = k"
    using ys by (auto simp: key_entries_def filter_eq_Cons_iff)
  then show "snap_key (group_snapshot g) = k"
    using foldl_add_to_group [of "new_group y" "y # ys"]
    by (simp only: g) (simp add: snap_key_def group_snapshot_def new_group_def entry_key_def)
  show "g_cumIn g = sum_list (map in_of (key_entries k us))" "g_cumOut g = sum_list (map out_of (key_entries k us))"
    using foldl_add_to_group [of "new_group y" "y # ys"] by (simp_all only: g ys) (simp_all add: new_group_def)
qed

lemma snapshots_keys: "map snap_key (snd (computeUserDeltas us prev)) = map_keys (group_users us)"
  using group_users_entry(1) by (fastforce simp: computeUserDeltas_def Let_def)

section \<open>Properties\<close>

text \<open>Cumulative counters become deltas per user and adapter: each (user, adapter) seen gives
  exactly one snapshot (so the upsert never meets a key twice), the snapshot is the sum of the
  entries of that key, and the delta beside it is the growth since the stored snapshot, nothing
  at first sight and nothing after a drop. Adapters that did not report are not touched.\<close>

theorem computeUserDeltas_spec:
  "let (deltas, snaps) = computeUserDeltas us prev in
     length deltas = length snaps \<and>
     distinct (map snap_key snaps) \<and> snap_key ` set snaps = entry_key ` set us \<and>
     (\<forall>(d, s) \<in> set (zip deltas snaps).
        sn_cumIn s = sum_list (map in_of (key_entries (snap_key s) us)) \<and>
        sn_cumOut s = sum_list (map out_of (key_entries (snap_key s) us)) \<and>
        su_userId d = sn_userId s \<and>
        in_of d = js_Number_of_BigInt (counter_delta (map_option fst (map_get prev (snap_key s))) (sn_cumIn s)) \<and>
        out_of d = js_Number_of_BigInt (counter_delta (map_option snd (map_get prev (snap_key s))) (sn_cumOut s)))"
proof -
  obtain deltas snaps where ds: "computeUserDeltas us prev = (deltas, snaps)"
    by fastforce
  then have d: "deltas = map (group_delta prev) (group_users us)" and s: "snaps = map (group_snapshot \<circ> snd) (group_users us)"
    by (auto simp: computeUserDeltas_def Let_def)
  have keys: "map snap_key snaps = map_keys (group_users us)"
    using snapshots_keys [of us prev] by (simp add: ds)
  have "distinct (map snap_key snaps)"
    using group_users_wf [of us] by (simp add: keys map_wf_def)
  moreover have "snap_key ` set snaps = entry_key ` set us"
    using arg_cong [OF keys, of set] group_users_keys [of us] by (metis list.set_map)
  moreover have "\<forall>(d, s) \<in> set (zip deltas snaps).
        sn_cumIn s = sum_list (map in_of (key_entries (snap_key s) us)) \<and>
        sn_cumOut s = sum_list (map out_of (key_entries (snap_key s) us)) \<and>
        su_userId d = sn_userId s \<and>
        in_of d = js_Number_of_BigInt (counter_delta (map_option fst (map_get prev (snap_key s))) (sn_cumIn s)) \<and>
        out_of d = js_Number_of_BigInt (counter_delta (map_option snd (map_get prev (snap_key s))) (sn_cumOut s))"
  proof (clarify)
    fix d' s'
    assume "(d', s') \<in> set (zip deltas snaps)"
    then obtain k g where kg: "(k, g) \<in> set (group_users us)" "d' = group_delta prev (k, g)" "s' = group_snapshot g"
      unfolding d s by (auto simp: zip_map_map zip_same)
    note facts = group_users_entry [OF kg(1)]
    show "sn_cumIn s' = sum_list (map in_of (key_entries (snap_key s') us)) \<and>
        sn_cumOut s' = sum_list (map out_of (key_entries (snap_key s') us)) \<and>
        su_userId d' = sn_userId s' \<and>
        in_of d' = js_Number_of_BigInt (counter_delta (map_option fst (map_get prev (snap_key s'))) (sn_cumIn s')) \<and>
        out_of d' = js_Number_of_BigInt (counter_delta (map_option snd (map_get prev (snap_key s'))) (sn_cumOut s'))"
      unfolding kg(2,3) facts(1)
      using facts by (simp add: group_snapshot_def group_delta_def in_of_def out_of_def or0_def Let_def)
  qed
  ultimately show ?thesis
    by (simp add: ds d s)
qed

theorem computeUserDeltas_spec_witness:
  "snap_key ` set (snd (computeUserDeltas [\<lparr>su_userId = ''u'', su_bytesIn = Some 7, su_bytesOut = None,
      su_cumulative = Some True, su_protocol = None, su_engine = None\<rparr>] [])) = {''u||''}"
proof -
  let ?u = "\<lparr>su_userId = ''u'', su_bytesIn = Some 7, su_bytesOut = None, su_cumulative = Some True,
      su_protocol = None, su_engine = None\<rparr>"
  have "snap_key ` set (snd (computeUserDeltas [?u] [])) = entry_key ` set [?u]"
    using computeUserDeltas_spec [of "[?u]" "[]"] by (simp add: Let_def case_prod_unfold)
  then show ?thesis
    by (simp add: entry_key_def snapshotAdapterOf_def snapshotKey_def truthy_def or_empty_def)
qed

text \<open>The bill is exact: a user has one row in each table, both tables list the same users in
  strictly ascending order (every transaction locks rows in the same order), a user is listed
  exactly when one of their entries moved bytes and stayed under the ceiling, and the row adds
  up the scaled bytes of exactly those entries.\<close>

theorem billing_rows:
  "let w = computeNodeStatsWrites i; t = tenths_of (ni_multiplier i) in
     sorted_wrt (<) (map fst (nw_userTrafficRows w)) \<and>
     map fst (nw_userTrafficRows w) = map fst (nw_historyRows w) \<and>
     (\<forall>user. let es = entries_of (ni_maxUserDeltaBytes i) user (ni_users i) in
        map_of (nw_userTrafficRows w) user =
          (if es = [] then None else Some (sum_list (map (\<lambda>u. scale_by t (in_of u + out_of u)) es))) \<and>
        map_of (nw_historyRows w) user =
          (if es = [] then None
           else Some (sum_list (map (\<lambda>u. scale_by t (in_of u)) es), sum_list (map (\<lambda>u. scale_by t (out_of u)) es))))"
proof -
  let ?w = "computeNodeStatsWrites i"
  have dom: "dom (map_of (nw_userTrafficRows ?w)) = dom (map_of (nw_historyRows ?w))"
    by (auto simp: used_row hist_row Let_def split: if_splits)
  have "set (map fst (nw_userTrafficRows ?w)) = set (map fst (nw_historyRows ?w))"
    using dom by (simp add: dom_map_of_conv_image_fst)
  then have "map fst (nw_userTrafficRows ?w) = map fst (nw_historyRows ?w)"
    using rows_sorted [of i] by (intro strict_sorted_equal) simp_all
  then show ?thesis
    using rows_sorted(1) [of i] by (simp add: used_row hist_row Let_def)
qed

text \<open>The multiplier is applied exactly: for every multiplier the schema admits, \<open>t\<close> tenths
  from 0 to 1000 handed over as the double \<open>t / 10\<close>, a byte count is billed as
  \<open>bytes * t / 10\<close> rounded half up, in spite of the two roundings on the way; a free node bills
  nothing and multiplier 1 bills the bytes themselves.\<close>

theorem multiplier_exact:
  assumes "t \<le> 1000" and "0 \<le> v"
  shows "scale_by (tenths_of (Fin (dbl_quotient t 10))) v = (v * int t + 5) div 10"
proof (cases "t = 10")
  case True
  then show ?thesis
    by (simp add: tenths_of_quotient)
next
  case False
  have "0 \<le> v * int t"
    using assms(2) by simp
  then show ?thesis
    using False assms(1) by (simp add: tenths_of_quotient scale_by_def bigint_div_def sgn_if)
qed

theorem multiplier_exact_witness:
  "scale_by (tenths_of (Fin (dbl_quotient 15 10))) 7 = 11"
  using multiplier_exact [of 15 7] by simp

text \<open>A row of 0 bytes is written: on a free node every user who moved bytes gets a row with
  0 scaled bytes (it refreshes when they were last online), although the row's declaration
  says it is never 0.\<close>

theorem zero_row_written:
  "nw_userTrafficRows (computeNodeStatsWrites \<lparr>ni_users = [\<lparr>su_userId = ''u'', su_bytesIn = Some 1000, su_bytesOut = None,
      su_cumulative = None, su_protocol = None, su_engine = None\<rparr>],
    ni_multiplier = Fin 0, ni_totalBytesIn = None, ni_totalBytesOut = None, ni_prevSnapshot = None,
    ni_maxUserDeltaBytes = None, ni_nodeTotalIsCumulative = False, ni_nodeTotals = None\<rparr>) = [(''u'', 0)]"
proof -
  have "tenths_of (Fin 0) = 0"
    using tenths_of_quotient [of 0] by (simp add: dbl_quotient_def half_even_def Let_def)
  then show ?thesis
    by (simp add: nw_rows writes_loop_def write_step_def over_ceiling_def bump_used_def scale_by_def bigint_div_def
        in_of_def out_of_def or0_def Let_def)
qed

end
