(* ===== verification/Lingering.thy ===== *)
theory Lingering
  imports Prelude "HOL-Library.Product_Lexorder"
begin

text \<open>
  Users taken off a node whose connections are still open (\<open>modules/stats/lingering.ts\<close>): one
  Redis key per node that lives three polls. The store is a map from node to value and expiry
  (milliseconds); writing and reading a value as JSON gives the value back. Users are rows of
  the users table.
\<close>

section \<open>The store\<close>

definition POLL_SECONDS :: nat where
  "POLL_SECONDS = 30"

definition TTL_SECONDS :: nat where
  "TTL_SECONDS = POLL_SECONDS * 3"

text \<open>The agent's answer; \<open>email\<close> is \<open>None\<close> when it is not a string.\<close>

record lingering_user =
  lu_email :: "string option"
  lu_sessions :: int

record stored =
  st_observedAt :: nat
  st_users :: "lingering_user list"

type_synonym linger_store = "(string, nat \<times> stored) jsmap"

definition lingers :: "lingering_user \<Rightarrow> bool" where
  "lingers l \<longleftrightarrow> lu_email l \<noteq> None \<and> lu_email l \<noteq> Some [] \<and> lu_sessions l > 0"

definition storeLingering :: "string \<Rightarrow> lingering_user list option \<Rightarrow> nat \<Rightarrow> linger_store \<Rightarrow> linger_store" where
  "storeLingering nodeId lingering now store =
     (case lingering of
        None \<Rightarrow> store
      | Some ls \<Rightarrow> map_set nodeId (now + TTL_SECONDS * 1000, \<lparr>st_observedAt = now, st_users = filter lingers ls\<rparr>) store)"

definition redis_get :: "nat \<Rightarrow> linger_store \<Rightarrow> string \<Rightarrow> stored option" where
  "redis_get now store nodeId =
     (case map_get store nodeId of
        None \<Rightarrow> None
      | Some (expiry, v) \<Rightarrow> if now < expiry then Some v else None)"

definition readStored :: "string list \<Rightarrow> nat \<Rightarrow> linger_store \<Rightarrow> (string, stored) jsmap" where
  "readStored nodeIds now store =
     foldl (\<lambda>m n. case redis_get now store n of None \<Rightarrow> m | Some v \<Rightarrow> map_set n v m) [] nodeIds"

section \<open>Who the emails are\<close>

record user_row =
  ur_id :: string
  ur_username :: string
  ur_status :: string
  ur_deletedAt :: "nat option"
  ur_createdAt :: nat

definition is_hex :: "char \<Rightarrow> bool" where
  "is_hex c \<longleftrightarrow> (let n = of_char c :: nat in 48 \<le> n \<and> n \<le> 57 \<or> 97 \<le> n \<and> n \<le> 102 \<or> 65 \<le> n \<and> n \<le> 70)"

definition is_uuid :: "string \<Rightarrow> bool" where
  "is_uuid s \<longleftrightarrow> (let parts = js_split CHR ''-'' s in
     map length parts = [8, 4, 4, 4, 12] \<and> list_all (list_all is_hex) parts)"

text \<open>Live users first, then by deletion date, then the newest.\<close>

definition name_order :: "user_row \<Rightarrow> nat \<times> nat \<times> int" where
  "name_order u = (case ur_deletedAt u of None \<Rightarrow> 0 | Some _ \<Rightarrow> 1, case ur_deletedAt u of None \<Rightarrow> 0 | Some d \<Rightarrow> d,
     - int (ur_createdAt u))"

definition usersOf :: "user_row list \<Rightarrow> string list \<Rightarrow> (string, user_row) jsmap" where
  "usersOf db emails =
     (let ids = filter is_uuid emails;
          names = filter (\<lambda>e. \<not> is_uuid e) emails;
          byId = filter (\<lambda>u. ur_id u \<in> set ids) db;
          byName = sort_key name_order (filter (\<lambda>u. ur_username u \<in> set names) db);
          out = foldl (\<lambda>m u. map_set (ur_id u) u m) [] byId in
      foldl (\<lambda>m u. if map_get m (ur_username u) = None then map_set (ur_username u) u m else m) out byName)"

definition STATUSES :: "string list" where
  "STATUSES = [''active'', ''disabled'', ''expired'', ''limited'']"

definition statusOf :: "string option \<Rightarrow> string option" where
  "statusOf s = (case s of None \<Rightarrow> None | Some x \<Rightarrow> if x \<in> set STATUSES then Some x else None)"

record lingering_view =
  lv_userId :: "string option"
  lv_username :: "string option"
  lv_status :: "string option"
  lv_sessions :: int

definition emails_of :: "stored \<Rightarrow> string list" where
  "emails_of s = concat (map (\<lambda>l. case lu_email l of None \<Rightarrow> [] | Some e \<Rightarrow> [e]) (st_users s))"

definition nodeLingering ::
    "user_row list \<Rightarrow> string \<Rightarrow> nat \<Rightarrow> linger_store \<Rightarrow> (nat \<times> lingering_view list) option" where
  "nodeLingering db nodeId now store =
     (case map_get (readStored [nodeId] now store) nodeId of
        None \<Rightarrow> None
      | Some s \<Rightarrow>
          let users = usersOf db (emails_of s) in
          Some (st_observedAt s, map (\<lambda>l.
            let u = (case lu_email l of None \<Rightarrow> None | Some e \<Rightarrow> map_get users e) in
            \<lparr>lv_userId = map_option ur_id u, lv_username = map_option ur_username u,
              lv_status = statusOf (map_option ur_status u), lv_sessions = lu_sessions l\<rparr>) (st_users s)))"

record live_node =
  ln_nodeId :: string
  ln_nodeName :: string
  ln_sessions :: int
  ln_observedAt :: nat

definition sessions_of :: "string \<Rightarrow> string \<Rightarrow> stored \<Rightarrow> int" where
  "sessions_of uid username s =
     foldl (\<lambda>acc l. acc + lu_sessions l) 0
       (filter (\<lambda>l. lu_email l = Some uid \<or> lu_email l = Some username) (st_users s))"

text \<open>\<open>nodes\<close>: the ids and names of the nodes that are not deleted.\<close>

definition userLiveAfterRemoval ::
    "(string \<times> string) list \<Rightarrow> string \<times> string \<Rightarrow> nat \<Rightarrow> linger_store \<Rightarrow> live_node list" where
  "userLiveAfterRemoval nodes user now store =
     (let found = readStored (map fst nodes) now store in
      concat (map (\<lambda>(n, name).
        case map_get found n of
          None \<Rightarrow> []
        | Some s \<Rightarrow>
            let sessions = sessions_of (fst user) (snd user) s in
            if sessions > 0 then [\<lparr>ln_nodeId = n, ln_nodeName = name, ln_sessions = sessions, ln_observedAt = st_observedAt s\<rparr>]
            else []) nodes))"

section \<open>Lemmas\<close>

lemma readStored_fold:
  "map_get (foldl (\<lambda>m n. case redis_get now store n of None \<Rightarrow> m | Some v \<Rightarrow> map_set n v m) m ns) k =
   (if k \<in> set ns \<and> redis_get now store k \<noteq> None then redis_get now store k else map_get m k)"
  by (induction ns arbitrary: m) (auto split: option.splits)

lemma readStored_get: "map_get (readStored ns now store) k = (if k \<in> set ns then redis_get now store k else None)"
  by (auto simp: readStored_def readStored_fold)

lemma redis_get_store:
  "redis_get t (storeLingering n (Some ls) now store) k =
   (if k = n then if t < now + 90000 then Some \<lparr>st_observedAt = now, st_users = filter lingers ls\<rparr> else None
    else redis_get t store k)"
  by (simp add: storeLingering_def redis_get_def TTL_SECONDS_def POLL_SECONDS_def)

lemma usersOf_names_fold:
  "map_get (foldl (\<lambda>m u. if map_get m (ur_username u) = None then map_set (ur_username u) u m else m) m us) k =
   (case map_get m k of Some v \<Rightarrow> Some v | None \<Rightarrow> List.find (\<lambda>u. ur_username u = k) us)"
  by (induction us arbitrary: m) (auto split: option.splits)

lemma sessions_of_sum:
  "sessions_of uid name s =
   sum_list (map lu_sessions (filter (\<lambda>l. lu_email l = Some uid \<or> lu_email l = Some name) (st_users s)))"
proof -
  have "foldl (\<lambda>acc l. acc + lu_sessions l) z ls = z + sum_list (map lu_sessions ls)" for z and ls :: "lingering_user list"
    by (induction ls arbitrary: z) simp_all
  then show ?thesis
    by (simp add: sessions_of_def)
qed

lemma find_sorted_min:
  "List.find P (sort_key f xs) = Some u \<Longrightarrow> v \<in> set xs \<Longrightarrow> P v \<Longrightarrow> f u \<le> f v"
proof -
  have "sorted (map f ys) \<Longrightarrow> List.find P ys = Some u \<Longrightarrow> v \<in> set ys \<Longrightarrow> P v \<Longrightarrow> f u \<le> f v" for ys
    by (induction ys) (auto split: if_splits)
  then show "List.find P (sort_key f xs) = Some u \<Longrightarrow> v \<in> set xs \<Longrightarrow> P v \<Longrightarrow> f u \<le> f v"
    by (metis set_sort sorted_sort_key)
qed

section \<open>Properties\<close>

text \<open>"Not checked" is never shown as "nobody": for the ninety seconds after a poll in which
  the agent answered, the node shows exactly the users it named with open sessions, an empty
  list included; before any answer, and from ninety seconds on, it shows null. Storing one
  node's answer leaves what other nodes show as it was, and a poll whose agent did not say
  changes nothing.\<close>

theorem lingering_view:
  "(case nodeLingering db n t (storeLingering n (Some ls) now store) of
      None \<Rightarrow> now + 90000 \<le> t
    | Some (at0, users) \<Rightarrow> t < now + 90000 \<and> at0 = now \<and> map lv_sessions users = map lu_sessions (filter lingers ls)) \<and>
   (n' \<noteq> n \<longrightarrow> nodeLingering db n' t (storeLingering n (Some ls) now store) = nodeLingering db n' t store) \<and>
   nodeLingering db n t (storeLingering n None now store) = nodeLingering db n t store \<and>
   nodeLingering db n t [] = None"
  by (auto simp: nodeLingering_def readStored_get redis_get_store Let_def comp_def)
    (simp_all add: storeLingering_def redis_get_def)

theorem lingering_view_witness:
  "nodeLingering [] ''b'' 5 (storeLingering ''a'' (Some []) 1 []) = nodeLingering [] ''b'' 5 []"
  using lingering_view [where db = "[]" and n = "''a''" and t = 5 and ls = "[]" and now = 1 and store = "[]" and n' = "''b''"]
  by simp

text \<open>An email is resolved to the right person: an id names the user with that id, and any
  other email the user with that username, a live one whenever a live one has it.\<close>

theorem usersOf_resolves:
  assumes "distinct (map ur_id db)" and "e \<in> set emails"
  shows "if is_uuid e then map_get (usersOf db emails) e = List.find (\<lambda>u. ur_id u = e) db
    else case map_get (usersOf db emails) e of
        None \<Rightarrow> \<forall>u \<in> set db. ur_username u \<noteq> e
      | Some u \<Rightarrow> u \<in> set db \<and> ur_username u = e \<and>
          ((\<exists>v \<in> set db. ur_username v = e \<and> ur_deletedAt v = None) \<longrightarrow> ur_deletedAt u = None)"
proof -
  let ?ids = "filter is_uuid emails" and ?names = "filter (\<lambda>e. \<not> is_uuid e) emails"
  let ?byId = "filter (\<lambda>u. ur_id u \<in> set ?ids) db"
  let ?byName = "filter (\<lambda>u. ur_username u \<in> set ?names) db"
  have dist: "distinct (map ur_id ?byId)"
    using assms(1) by (rule distinct_map_filter)
  have get: "map_get (usersOf db emails) e =
      (case List.find (\<lambda>u. ur_id u = e) ?byId of
         Some u \<Rightarrow> Some u
       | None \<Rightarrow> List.find (\<lambda>u. ur_username u = e) (sort_key name_order ?byName))"
    unfolding usersOf_def Let_def usersOf_names_fold foldl_set_get [OF dist] by (auto split: option.splits)
  have find_filter: "List.find Q (filter R xs) = List.find Q xs" if "\<And>x. Q x \<Longrightarrow> R x" for Q R and xs :: "user_row list"
    using that by (induction xs) auto
  show ?thesis
  proof (cases "is_uuid e")
    case True
    then have "List.find (\<lambda>u. ur_username u = e) (sort_key name_order ?byName) = None"
      by (auto simp: find_None_all)
    moreover have "List.find (\<lambda>u. ur_id u = e) ?byId = List.find (\<lambda>u. ur_id u = e) db"
      using True assms(2) by (intro find_filter) simp
    ultimately show ?thesis
      using True get by (simp split: option.splits)
  next
    case False
    then have "List.find (\<lambda>u. ur_id u = e) ?byId = None"
      by (auto simp: find_None_all)
    then have g: "map_get (usersOf db emails) e = List.find (\<lambda>u. ur_username u = e) (sort_key name_order ?byName)"
      using get by simp
    show ?thesis
    proof (cases "map_get (usersOf db emails) e")
      case None
      then have "List.find (\<lambda>u. ur_username u = e) (sort_key name_order ?byName) = None"
        using g by simp
      then have "\<forall>u \<in> set db. ur_username u \<noteq> e"
        using False assms(2) by (auto simp: find_None_all)
      then show ?thesis
        using False by (simp add: None)
    next
      case (Some u)
      then have find: "List.find (\<lambda>u. ur_username u = e) (sort_key name_order ?byName) = Some u"
        using g by simp
      have live: "ur_deletedAt u = None" if "v \<in> set db" "ur_username v = e" "ur_deletedAt v = None" for v
      proof -
        have "name_order u \<le> name_order v"
          using find_sorted_min [OF find, of v] that False assms(2) by simp
        then show ?thesis
          using that(3) by (auto simp: name_order_def split: option.splits)
      qed
      show ?thesis
        using find_Some_in [OF find] live False by (auto simp: Some)
    qed
  qed
qed

theorem usersOf_resolves_witness:
  "case map_get (usersOf [\<lparr>ur_id = ''1'', ur_username = ''ann'', ur_status = ''active'', ur_deletedAt = Some 3, ur_createdAt = 1\<rparr>,
      \<lparr>ur_id = ''2'', ur_username = ''ann'', ur_status = ''active'', ur_deletedAt = None, ur_createdAt = 2\<rparr>] [''ann'']) ''ann'' of
     None \<Rightarrow> False | Some u \<Rightarrow> ur_deletedAt u = None"
proof -
  have "\<not> is_uuid ''ann''"
    by (simp add: is_uuid_def Let_def)
  then show ?thesis
    using usersOf_resolves [of "[\<lparr>ur_id = ''1'', ur_username = ''ann'', ur_status = ''active'', ur_deletedAt = Some 3, ur_createdAt = 1\<rparr>,
      \<lparr>ur_id = ''2'', ur_username = ''ann'', ur_status = ''active'', ur_deletedAt = None, ur_createdAt = 2\<rparr>]" "''ann''" "[''ann'']"]
    by (auto split: option.splits)
qed

end
