(* ===== verification/TrafficPoll.thy ===== *)
theory TrafficPoll
  imports TrafficStats Lingering
begin

text \<open>
  The stats poll (\<open>modules/stats/stats.cron.ts\<close>) as a state machine: the four tables it writes
  in one transaction, the two snapshots it keeps in memory, the store of lingering users. A poll
  of a node takes what the agent answered (\<open>None\<close>: the request failed) and whether the
  transaction committed. Times are milliseconds since the epoch; the daily bucket is the UTC day
  number, the hourly one the UTC hour number.
\<close>

section \<open>State\<close>

record traffic_row =
  tr_used :: int
  tr_lifetime :: int
  tr_onlineAt :: nat
  tr_firstConnectedAt :: nat
  tr_lastNode :: string

record stats_db =
  db_traffic :: "(string, traffic_row) jsmap"
  db_history :: "(string \<times> nat \<times> string, int \<times> int) jsmap"
  db_usage :: "(string \<times> nat, int \<times> int) jsmap"
  db_snap :: "(string \<times> string \<times> string \<times> string, int \<times> int) jsmap"

record stats_state =
  ss_db :: stats_db
  ss_total :: "(string, int \<times> int) jsmap"
  ss_adapter :: "(string, (string, int \<times> int) jsmap) jsmap"
  ss_linger :: linger_store

record stats_response =
  sr_users :: "stats_user_entry list option"
  sr_cumulative :: bool
  sr_totalBytesIn :: "int option"
  sr_totalBytesOut :: "int option"
  sr_cores :: "core_total_entry list option"
  sr_lingering :: "lingering_user list option"

record poll_target =
  pt_id :: string
  pt_multiplierTenths :: nat

definition NODE_STATS_MAX_USER_DELTA_BYTES :: int where
  "NODE_STATS_MAX_USER_DELTA_BYTES = 1024 ^ 4"

section \<open>The statements of the transaction\<close>

text \<open>\<open>INSERT ... ON CONFLICT (user_id) DO UPDATE\<close>: the first-connected date is set on insert only.\<close>

definition upsert_traffic :: "nat \<Rightarrow> string \<Rightarrow> (string \<times> int) list \<Rightarrow> (string, traffic_row) jsmap \<Rightarrow> (string, traffic_row) jsmap" where
  "upsert_traffic now node rows t =
     foldl (\<lambda>t (uid, amt).
       map_set uid
         (case map_get t uid of
            None \<Rightarrow> \<lparr>tr_used = amt, tr_lifetime = amt, tr_onlineAt = now, tr_firstConnectedAt = now, tr_lastNode = node\<rparr>
          | Some r \<Rightarrow> r\<lparr>tr_used := tr_used r + amt, tr_lifetime := tr_lifetime r + amt, tr_onlineAt := now, tr_lastNode := node\<rparr>) t)
       t rows"

definition upsert_history ::
    "nat \<Rightarrow> string \<Rightarrow> (string \<times> int \<times> int) list \<Rightarrow> (string \<times> nat \<times> string, int \<times> int) jsmap \<Rightarrow>
     (string \<times> nat \<times> string, int \<times> int) jsmap" where
  "upsert_history day node rows h =
     foldl (\<lambda>h (uid, bin, bout).
       let old = (case map_get h (node, day, uid) of None \<Rightarrow> (0, 0) | Some x \<Rightarrow> x) in
       map_set (node, day, uid) (fst old + bin, snd old + bout) h) h rows"

definition upsert_usage :: "nat \<Rightarrow> string \<Rightarrow> int \<times> int \<Rightarrow> (string \<times> nat, int \<times> int) jsmap \<Rightarrow> (string \<times> nat, int \<times> int) jsmap" where
  "upsert_usage hour node amounts m =
     (let old = (case map_get m (node, hour) of None \<Rightarrow> (0, 0) | Some x \<Rightarrow> x) in
      map_set (node, hour) (fst old + fst amounts, snd old + snd amounts) m)"

definition upsert_snapshots ::
    "string \<Rightarrow> snapshot_row list \<Rightarrow> (string \<times> string \<times> string \<times> string, int \<times> int) jsmap \<Rightarrow>
     (string \<times> string \<times> string \<times> string, int \<times> int) jsmap" where
  "upsert_snapshots node rows m =
     foldl (\<lambda>m s. map_set (node, sn_userId s, sn_protocol s, sn_engine s) (sn_cumIn s, sn_cumOut s) m) m
       (sort_key sn_userId rows)"

definition drop_summed ::
    "string \<Rightarrow> string list \<Rightarrow> (string \<times> string \<times> string \<times> string, int \<times> int) jsmap \<Rightarrow>
     (string \<times> string \<times> string \<times> string, int \<times> int) jsmap" where
  "drop_summed node users m = filter (\<lambda>((n, u, p, e), _). \<not> (n = node \<and> p = [] \<and> e = [] \<and> u \<in> set users)) m"

section \<open>One node's poll\<close>

definition prev_snapshots ::
    "string \<Rightarrow> stats_user_entry list \<Rightarrow> (string \<times> string \<times> string \<times> string, int \<times> int) jsmap \<Rightarrow> (string, int \<times> int) jsmap" where
  "prev_snapshots node users m =
     foldl (\<lambda>acc ((n, u, p, e), c). map_set (snapshotKey u (p, e)) c acc) []
       (filter (\<lambda>((n, u, p, e), c). n = node \<and> u \<in> su_userId ` set users) m)"

record poll_plan =
  pp_users :: "stats_user_entry list"
  pp_snapshots :: "snapshot_row list"
  pp_keyed :: "string list"

text \<open>Which entries are cumulative, and the list the bill is made from.\<close>

definition plan_users :: "string \<Rightarrow> stats_response \<Rightarrow> stats_db \<Rightarrow> poll_plan" where
  "plan_users node res db =
     (let userList = (case sr_users res of None \<Rightarrow> [] | Some us \<Rightarrow> us) in
      if sr_cumulative res \<and> userList \<noteq> [] then
        let tagged = list_ex (\<lambda>u. su_cumulative u \<noteq> None) userList;
            cumulativeUsers = (if tagged then filter (\<lambda>u. su_cumulative u = Some True) userList else userList);
            deltaUsers = (if tagged then filter (\<lambda>u. su_cumulative u \<noteq> Some True) userList else []) in
        if cumulativeUsers \<noteq> [] then
          let (deltas, snapshots) = computeUserDeltas cumulativeUsers (prev_snapshots node cumulativeUsers (db_snap db)) in
          \<lparr>pp_users = deltas @ deltaUsers, pp_snapshots = snapshots,
            pp_keyed = set_from (map su_userId (filter (\<lambda>u. truthy (su_engine u)) cumulativeUsers))\<rparr>
        else \<lparr>pp_users = userList, pp_snapshots = [], pp_keyed = []\<rparr>
      else \<lparr>pp_users = userList, pp_snapshots = [], pp_keyed = []\<rparr>)"

definition adapter_totals ::
    "string \<Rightarrow> stats_response \<Rightarrow> stats_state \<Rightarrow> (node_totals \<times> (string, int \<times> int) jsmap) option" where
  "adapter_totals node res st =
     (case sr_cores res of
        None \<Rightarrow> None
      | Some [] \<Rightarrow> None
      | Some cores \<Rightarrow>
          let old = (case map_get (ss_adapter st) node of None \<Rightarrow> [] | Some m \<Rightarrow> m);
              (t, snaps) = computeNodeTotalsFromCores cores old in
          Some (t, foldl (\<lambda>m (k, v). map_set k v m) old snaps))"

definition poll_writes :: "poll_target \<Rightarrow> stats_response \<Rightarrow> stats_state \<Rightarrow> node_stats_writes" where
  "poll_writes node res st = computeNodeStatsWrites
     \<lparr>ni_users = pp_users (plan_users (pt_id node) res (ss_db st)),
       ni_multiplier = Fin (dbl_quotient (pt_multiplierTenths node) 10),
       ni_totalBytesIn = sr_totalBytesIn res, ni_totalBytesOut = sr_totalBytesOut res,
       ni_prevSnapshot = map_get (ss_total st) (pt_id node),
       ni_maxUserDeltaBytes = Some NODE_STATS_MAX_USER_DELTA_BYTES,
       ni_nodeTotalIsCumulative = sr_cumulative res,
       ni_nodeTotals = map_option fst (adapter_totals (pt_id node) res st)\<rparr>"

definition apply_writes :: "nat \<Rightarrow> string \<Rightarrow> node_stats_writes \<Rightarrow> poll_plan \<Rightarrow> stats_db \<Rightarrow> stats_db" where
  "apply_writes now node w plan db =
     \<lparr>db_traffic = upsert_traffic now node (nw_userTrafficRows w) (db_traffic db),
       db_history = upsert_history (now div 86400000) node (nw_historyRows w) (db_history db),
       db_usage = (if nw_nodeDownload w > 0 \<or> nw_nodeUpload w > 0
         then upsert_usage (now div 3600000) node (nw_nodeDownload w, nw_nodeUpload w) (db_usage db) else db_usage db),
       db_snap = drop_summed node (pp_keyed plan) (upsert_snapshots node (pp_snapshots plan) (db_snap db))\<rparr>"

text \<open>With nothing to write there is no transaction, so none that can fail.\<close>

definition no_statements :: "node_stats_writes \<Rightarrow> poll_plan \<Rightarrow> bool" where
  "no_statements w plan \<longleftrightarrow> nw_userTrafficRows w = [] \<and> nw_historyRows w = [] \<and>
     \<not> (nw_nodeDownload w > 0 \<or> nw_nodeUpload w > 0) \<and> pp_snapshots plan = [] \<and> pp_keyed plan = []"

definition poll_node ::
    "nat \<Rightarrow> poll_target \<Rightarrow> stats_response option \<Rightarrow> bool \<Rightarrow> stats_state \<Rightarrow> stats_state \<times> bool" where
  "poll_node now node response commit st =
     (case response of
        None \<Rightarrow> (st, False)
      | Some res \<Rightarrow>
          let st1 = st\<lparr>ss_linger := storeLingering (pt_id node) (sr_lingering res) now (ss_linger st)\<rparr>;
              plan = plan_users (pt_id node) res (ss_db st1);
              w = poll_writes node res st1 in
          if \<not> commit \<and> \<not> no_statements w plan then (st1, False)
          else
            (st1\<lparr>ss_db := apply_writes now (pt_id node) w plan (ss_db st1),
               ss_total := (case nw_newSnapshot w of None \<Rightarrow> ss_total st1 | Some s \<Rightarrow> map_set (pt_id node) s (ss_total st1)),
               ss_adapter := (case adapter_totals (pt_id node) res st1 of
                   None \<Rightarrow> ss_adapter st1
                 | Some (_, m) \<Rightarrow> map_set (pt_id node) m (ss_adapter st1))\<rparr>, True))"

text \<open>All nodes of a tick, in the order their transactions finish: what was answered and whether
  it committed.\<close>

definition pollNodeStats ::
    "nat \<Rightarrow> (poll_target \<times> stats_response option \<times> bool) list \<Rightarrow> stats_state \<Rightarrow> stats_state \<times> nat \<times> nat" where
  "pollNodeStats now polls st =
     foldl (\<lambda>(st, ok, failed) (node, res, commit).
       let (st', good) = poll_node now node res commit st in
       (st', if good then ok + 1 else ok, if good then failed else failed + 1)) (st, 0, 0) polls"

section \<open>Keys\<close>

definition clean :: "string \<Rightarrow> bool" where
  "clean s \<longleftrightarrow> CHR ''|'' \<notin> set s"

lemma snapshotKey_inj:
  assumes "clean u" "clean p" "clean u'" "clean p'"
  shows "snapshotKey u (p, e) = snapshotKey u' (p', e') \<longleftrightarrow> u = u' \<and> p = p' \<and> e = e'"
proof
  assume eq: "snapshotKey u (p, e) = snapshotKey u' (p', e')"
  have split: "js_split CHR ''|'' (snapshotKey v (q, f)) = v # q # js_split CHR ''|'' f" if "clean v" "clean q" for v q f
    using that by (simp add: snapshotKey_def clean_def js_split_append)
  have "u = u' \<and> p = p'"
    using arg_cong [OF eq, of "js_split CHR ''|''"] by (simp add: split assms)
  then show "u = u' \<and> p = p' \<and> e = e'"
    using eq by (simp add: snapshotKey_def)
qed simp

definition row_key :: "string \<Rightarrow> snapshot_row \<Rightarrow> string \<times> string \<times> string \<times> string" where
  "row_key node s = (node, sn_userId s, sn_protocol s, sn_engine s)"

definition snap_ok :: "(string \<times> string \<times> string \<times> string, int \<times> int) jsmap \<Rightarrow> bool" where
  "snap_ok m \<longleftrightarrow> map_wf m \<and> list_all (\<lambda>((n, u, p, e), c). clean u \<and> clean p) m"

lemma prev_snapshots_get:
  assumes ok: "snap_ok m" and X: "clean x" "clean p" "x \<in> su_userId ` set us"
  shows "map_get (prev_snapshots node us m) (snapshotKey x (p, e)) = map_get m (node, x, p, e)"
proof -
  let ?rows = "filter (\<lambda>((n, u, p, e), c). n = node \<and> u \<in> su_userId ` set us) m"
  let ?f = "\<lambda>((n, u, p, e), c). snapshotKey u (p, e)"
  have clean: "clean u \<and> clean q" if "((n, u, q, g), c) \<in> set m" for n u q g c
    using ok that by (auto simp: snap_ok_def list_all_iff)
  have "inj_on ?f (set ?rows)"
  proof (rule inj_onI, clarsimp)
    fix u p e a b u' p' e' a' b'
    assume *: "((node, u, p, e), a, b) \<in> set m" "((node, u', p', e'), a', b') \<in> set m"
      "snapshotKey u (p, e) = snapshotKey u' (p', e')"
    then have "u = u' \<and> p = p' \<and> e = e'"
      using snapshotKey_inj [of u p u' p' e e'] clean [OF *(1)] clean [OF *(2)] by simp
    moreover from this have "(a, b) = (a', b')"
      using * ok eq_key_imp_eq_value [of m "(node, u, p, e)" "(a, b)" "(a', b')"] by (simp add: snap_ok_def map_wf_def)
    ultimately show "u = u' \<and> p = p' \<and> e = e' \<and> a = a' \<and> b = b'"
      by simp
  qed
  moreover have "distinct ?rows"
    using ok by (simp add: snap_ok_def map_wf_def distinct_map)
  ultimately have dist: "distinct (map ?f ?rows)"
    by (simp add: distinct_map)
  have same: "?f r = snapshotKey x (p, e) \<longleftrightarrow> fst r = (node, x, p, e)" if r: "r \<in> set ?rows" for r
  proof -
    obtain n u q g c where eq: "r = ((n, u, q, g), c)"
      by (metis prod.collapse)
    then have "n = node" "clean u" "clean q"
      using r clean [of n u q g c] by auto
    then show ?thesis
      using snapshotKey_inj [of u q x p g e] X by (simp add: eq)
  qed
  have "map_get (prev_snapshots node us m) (snapshotKey x (p, e)) =
      (case List.find (\<lambda>r. ?f r = snapshotKey x (p, e)) ?rows of Some r \<Rightarrow> Some (snd r) | None \<Rightarrow> None)"
    using foldl_set_get [OF dist, of snd "[]"]
    by (simp add: prev_snapshots_def case_prod_unfold cong: option.case_cong)
  also have "\<dots> = map_get m (node, x, p, e)"
  proof (cases "map_get m (node, x, p, e)")
    case None
    have "?f r \<noteq> snapshotKey x (p, e)" if "r \<in> set ?rows" for r
      using None same [OF that] that by (cases r) (auto simp: map_of_eq_None_iff image_iff)
    then have "List.find (\<lambda>r. ?f r = snapshotKey x (p, e)) ?rows = None"
      unfolding find_None_all by blast
    then show ?thesis
      by (simp add: None)
  next
    case (Some c)
    then have mem: "((node, x, p, e), c) \<in> set m"
      by (rule map_of_SomeD)
    then have "((node, x, p, e), c) \<in> set ?rows"
      using X by simp
    then obtain r where r: "List.find (\<lambda>r. ?f r = snapshotKey x (p, e)) ?rows = Some r"
      using find_None_all [of "\<lambda>r. ?f r = snapshotKey x (p, e)" ?rows] by (metis (no_types, lifting) case_prod_conv option.exhaust)
    have in_rows: "r \<in> set ?rows" and "?f r = snapshotKey x (p, e)"
      using find_Some_in [OF r] by blast+
    then have "r \<in> set m" "fst r = (node, x, p, e)"
      using same [OF in_rows] by simp_all
    then have "snd r = c"
      using mem ok by (metis eq_key_imp_eq_value map_wf_def prod.collapse snap_ok_def)
    then show ?thesis
      by (simp add: r Some)
  qed
  finally show ?thesis .
qed

section \<open>What a committed poll does to one user\<close>

definition used_of :: "(string, traffic_row) jsmap \<Rightarrow> string \<Rightarrow> int" where
  "used_of t x = (case map_get t x of None \<Rightarrow> 0 | Some r \<Rightarrow> tr_used r)"

lemma upsert_traffic_used:
  "distinct (map fst rows) \<Longrightarrow>
   used_of (upsert_traffic now node rows t) x = used_of t x + (case map_of rows x of None \<Rightarrow> 0 | Some a \<Rightarrow> a)"
  unfolding upsert_traffic_def
proof (induction rows arbitrary: t)
  case (Cons r rows)
  obtain uid amt where r: "r = (uid, amt)"
    by fastforce
  have "map_of rows uid = None"
    using Cons.prems by (simp add: r map_of_eq_None_iff)
  then show ?case
    using Cons by (auto simp: r used_of_def split: option.splits)
qed (simp add: used_of_def)

lemma upsert_snapshots_get:
  assumes "distinct (map (row_key node) rows)"
  shows "map_get (upsert_snapshots node rows m) k =
    (case List.find (\<lambda>s. row_key node s = k) (sort_key sn_userId rows) of
       Some s \<Rightarrow> Some (sn_cumIn s, sn_cumOut s) | None \<Rightarrow> map_get m k)"
proof -
  have "distinct (map (row_key node) (sort_key sn_userId rows))"
    using assms by (simp add: distinct_map)
  from foldl_set_get [OF this, of "\<lambda>s. (sn_cumIn s, sn_cumOut s)" m k] show ?thesis
    by (simp add: upsert_snapshots_def row_key_def)
qed

lemma drop_summed_get:
  "\<not> (fst k = node \<and> fst (snd (snd k)) = [] \<and> snd (snd (snd k)) = [] \<and> fst (snd k) \<in> set users) \<Longrightarrow>
   map_get (drop_summed node users m) k = map_get m k"
  by (induction m) (auto simp: drop_summed_def split: prod.splits)

lemma row_keys_distinct: "distinct (map snap_key rows) \<Longrightarrow> distinct (map (row_key node) rows)"
proof -
  assume "distinct (map snap_key rows)"
  then have "distinct rows" "inj_on snap_key (set rows)"
    by (simp_all add: distinct_map)
  moreover have "inj_on (row_key node) (set rows)"
    using \<open>inj_on snap_key (set rows)\<close> by (auto simp: inj_on_def row_key_def snap_key_def)
  ultimately show ?thesis
    by (simp add: distinct_map)
qed

text \<open>The user's share of an answer: every entry of the user is cumulative and comes from one
  adapter, and the names in the answer contain no separator (ids are UUIDs).\<close>

definition entries_for :: "string \<Rightarrow> stats_response \<Rightarrow> stats_user_entry list" where
  "entries_for x res = filter (\<lambda>u. su_userId u = x) (case sr_users res of None \<Rightarrow> [] | Some us \<Rightarrow> us)"

definition counters_for :: "string \<Rightarrow> stats_response \<Rightarrow> int \<times> int" where
  "counters_for x res = (sum_list (map in_of (entries_for x res)), sum_list (map out_of (entries_for x res)))"

definition reports :: "string \<Rightarrow> string \<times> string \<Rightarrow> stats_response \<Rightarrow> bool" where
  "reports x a res \<longleftrightarrow> sr_cumulative res \<and> entries_for x res \<noteq> [] \<and>
     list_all (\<lambda>u. su_cumulative u = Some True \<and> snapshotAdapterOf u = a) (entries_for x res) \<and>
     list_all (\<lambda>u. clean (su_userId u) \<and> clean (fst (snapshotAdapterOf u))) (case sr_users res of None \<Rightarrow> [] | Some us \<Rightarrow> us)"

lemma group_users_first:
  assumes "(k, g) \<in> set (group_users us)"
  shows "\<exists>y \<in> set us. entry_key y = k \<and> g_userId g = su_userId y \<and> (g_protocol g, g_engine g) = snapshotAdapterOf y"
proof -
  have get: "map_get (group_users us) k = Some g"
    using assms group_users_wf by (simp add: map_get_iff_mem)
  then obtain y ys where ys: "filter (\<lambda>u. entry_key u = k) us = y # ys"
    by (auto simp: group_users_def acc_by_get split: list.splits)
  then have "g = foldl add_to_group (new_group y) (y # ys)"
    using get by (simp add: group_users_def acc_by_get)
  then have "g_userId g = su_userId y \<and> (g_protocol g, g_engine g) = snapshotAdapterOf y"
    using foldl_add_to_group [of "new_group y" "y # ys"] by (simp add: new_group_def)
  moreover have "y \<in> set (filter (\<lambda>u. entry_key u = k) us)"
    by (simp add: ys)
  ultimately show ?thesis
    by auto
qed

text \<open>The one group of the user, its delta and its snapshot.\<close>

lemma user_group:
  fixes us :: "stats_user_entry list" and x :: string and a :: "string \<times> string"
  defines "k \<equiv> snapshotKey x a"
  assumes x: "x \<in> su_userId ` set us"
    and one: "\<forall>u \<in> set us. su_userId u = x \<longrightarrow> snapshotAdapterOf u = a"
    and clean: "\<forall>u \<in> set us. clean (su_userId u) \<and> clean (fst (snapshotAdapterOf u))"
  shows "\<exists>g. (k, g) \<in> set (group_users us) \<and> g_userId g = x \<and> (g_protocol g, g_engine g) = a \<and>
    g_cumIn g = sum_list (map in_of (filter (\<lambda>u. su_userId u = x) us)) \<and>
    g_cumOut g = sum_list (map out_of (filter (\<lambda>u. su_userId u = x) us)) \<and>
    filter (\<lambda>kg. g_userId (snd kg) = x) (group_users us) = [(k, g)]"
proof -
  obtain y where y: "y \<in> set us" "su_userId y = x"
    using x by auto
  have key: "entry_key u = k \<longleftrightarrow> su_userId u = x" if "u \<in> set us" for u
    using snapshotKey_inj [of "su_userId u" "fst (snapshotAdapterOf u)" x "fst a" "snd (snapshotAdapterOf u)" "snd a"]
      clean that one y by (auto simp: entry_key_def k_def)
  have "k \<in> set (map_keys (group_users us))"
    unfolding group_users_keys using key [OF y(1)] y by (metis image_eqI)
  then obtain g where g: "(k, g) \<in> set (group_users us)"
    by auto
  have entries: "key_entries k us = filter (\<lambda>u. su_userId u = x) us"
    unfolding key_entries_def using key by (intro filter_cong) simp_all
  obtain z where z: "z \<in> set us" "entry_key z = k" "g_userId g = su_userId z" "(g_protocol g, g_engine g) = snapshotAdapterOf z"
    using group_users_first [OF g] by blast
  have "filter (\<lambda>kg. g_userId (snd kg) = x) (group_users us) = filter (\<lambda>kg. fst kg = k) (group_users us)"
  proof (intro filter_cong refl)
    fix kg
    assume "kg \<in> set (group_users us)"
    then obtain w where "w \<in> set us" "entry_key w = fst kg" "g_userId (snd kg) = su_userId w"
      using group_users_first [of "fst kg" "snd kg" us] by auto
    then show "(g_userId (snd kg) = x) = (fst kg = k)"
      using key by metis
  qed
  also have "\<dots> = [(k, g)]"
    using g group_users_wf [of us] by (intro filter_key_single) (simp_all add: map_wf_def)
  finally show ?thesis
    using g z key one group_users_entry(2,3) [OF g] by (intro exI [of _ g]) (simp add: entries)
qed

section \<open>The plan of a poll that reports the user\<close>

definition cumulative_users :: "stats_response \<Rightarrow> stats_user_entry list" where
  "cumulative_users res = filter (\<lambda>u. su_cumulative u = Some True) (case sr_users res of None \<Rightarrow> [] | Some us \<Rightarrow> us)"

lemma reports_users:
  assumes "reports x a res"
  shows "x \<in> su_userId ` set (cumulative_users res)"
    and "\<forall>u \<in> set (cumulative_users res). su_userId u = x \<longrightarrow> snapshotAdapterOf u = a"
    and "\<forall>u \<in> set (cumulative_users res). clean (su_userId u) \<and> clean (fst (snapshotAdapterOf u))"
    and "filter (\<lambda>u. su_userId u = x) (cumulative_users res) = entries_for x res"
    and "\<forall>u \<in> set (case sr_users res of None \<Rightarrow> [] | Some us \<Rightarrow> us). su_userId u = x \<longrightarrow> su_cumulative u = Some True"
proof -
  let ?us = "case sr_users res of None \<Rightarrow> [] | Some us \<Rightarrow> us"
  show all: "\<forall>u \<in> set ?us. su_userId u = x \<longrightarrow> su_cumulative u = Some True"
    using assms by (auto simp: reports_def entries_for_def list_all_iff)
  show eq: "filter (\<lambda>u. su_userId u = x) (cumulative_users res) = entries_for x res"
    unfolding cumulative_users_def entries_for_def filter_filter using all by (intro filter_cong) auto
  have "entries_for x res \<noteq> []"
    using assms by (simp add: reports_def)
  then show "x \<in> su_userId ` set (cumulative_users res)"
    unfolding eq [symmetric] by (auto simp: filter_empty_conv)
  show "\<forall>u \<in> set (cumulative_users res). su_userId u = x \<longrightarrow> snapshotAdapterOf u = a"
    using assms by (auto simp: reports_def entries_for_def cumulative_users_def list_all_iff)
  show "\<forall>u \<in> set (cumulative_users res). clean (su_userId u) \<and> clean (fst (snapshotAdapterOf u))"
    using assms by (auto simp: reports_def cumulative_users_def list_all_iff)
qed

lemma reports_plan:
  assumes "reports x a res"
  defines "cu \<equiv> cumulative_users res"
  shows "plan_users node res db =
    \<lparr>pp_users = fst (computeUserDeltas cu (prev_snapshots node cu (db_snap db))) @
        filter (\<lambda>u. su_cumulative u \<noteq> Some True) (case sr_users res of None \<Rightarrow> [] | Some us \<Rightarrow> us),
      pp_snapshots = snd (computeUserDeltas cu (prev_snapshots node cu (db_snap db))),
      pp_keyed = set_from (map su_userId (filter (\<lambda>u. truthy (su_engine u)) cu))\<rparr>"
proof -
  define us where "us = (case sr_users res of None \<Rightarrow> [] | Some us \<Rightarrow> us)"
  have cu: "filter (\<lambda>u. su_cumulative u = Some True) us = cu"
    by (simp add: cu_def cumulative_users_def us_def)
  have x: "x \<in> su_userId ` set cu"
    using reports_users(1) [OF assms(1)] by (simp add: cu_def)
  then have ne: "cu \<noteq> []"
    by auto
  moreover have "us \<noteq> []" "list_ex (\<lambda>u. su_cumulative u \<noteq> None) us"
    using x by (auto simp: cu [symmetric] list_ex_iff)
  moreover have "sr_cumulative res"
    using assms(1) by (simp add: reports_def)
  ultimately show ?thesis
    unfolding plan_users_def us_def [symmetric] by (simp add: Let_def case_prod_unfold cu)
qed

lemma user_delta:
  assumes rep: "reports x a res"
  defines "cu \<equiv> cumulative_users res"
  shows "\<exists>d. filter (\<lambda>u. su_userId u = x) (fst (computeUserDeltas cu prev)) = [d] \<and>
    in_of d = js_Number_of_BigInt (counter_delta (map_option fst (map_get prev (snapshotKey x a))) (fst (counters_for x res))) \<and>
    out_of d = js_Number_of_BigInt (counter_delta (map_option snd (map_get prev (snapshotKey x a))) (snd (counters_for x res)))"
    and "\<exists>s \<in> set (snd (computeUserDeltas cu prev)). row_key node s = (node, x, a) \<and> (sn_cumIn s, sn_cumOut s) = counters_for x res"
proof -
  obtain g where g: "(snapshotKey x a, g) \<in> set (group_users cu)" "g_userId g = x" "(g_protocol g, g_engine g) = a"
      "(g_cumIn g, g_cumOut g) = counters_for x res"
      "filter (\<lambda>kg. g_userId (snd kg) = x) (group_users cu) = [(snapshotKey x a, g)]"
    using user_group [of x cu a] reports_users [OF rep] by (auto simp: cu_def counters_for_def)
  have "filter (\<lambda>u. su_userId u = x) (fst (computeUserDeltas cu prev)) =
      map (group_delta prev) (filter (\<lambda>kg. g_userId (snd kg) = x) (group_users cu))"
    by (simp add: computeUserDeltas_def Let_def filter_map comp_def group_delta_def case_prod_unfold)
  then have "filter (\<lambda>u. su_userId u = x) (fst (computeUserDeltas cu prev)) = [group_delta prev (snapshotKey x a, g)]"
    by (simp add: g(5))
  then show "\<exists>d. filter (\<lambda>u. su_userId u = x) (fst (computeUserDeltas cu prev)) = [d] \<and>
    in_of d = js_Number_of_BigInt (counter_delta (map_option fst (map_get prev (snapshotKey x a))) (fst (counters_for x res))) \<and>
    out_of d = js_Number_of_BigInt (counter_delta (map_option snd (map_get prev (snapshotKey x a))) (snd (counters_for x res)))"
    by (simp add: g(4) [symmetric] group_delta_def in_of_def out_of_def or0_def Let_def)
  have "group_snapshot g \<in> set (snd (computeUserDeltas cu prev))"
    using g(1) by (force simp: computeUserDeltas_def Let_def)
  then show "\<exists>s \<in> set (snd (computeUserDeltas cu prev)). row_key node s = (node, x, a) \<and> (sn_cumIn s, sn_cumOut s) = counters_for x res"
    using g by (intro bexI [of _ "group_snapshot g"]) (simp_all add: row_key_def group_snapshot_def)
qed

lemma snapshots_distinct: "distinct (map snap_key (snd (computeUserDeltas us prev)))"
  using group_users_wf [of us] by (simp add: snapshots_keys map_wf_def)

lemma snapshots_clean:
  assumes "\<forall>u \<in> set us. clean (su_userId u) \<and> clean (fst (snapshotAdapterOf u))"
    and "s \<in> set (snd (computeUserDeltas us prev))"
  shows "clean (sn_userId s) \<and> clean (sn_protocol s)"
proof -
  obtain k g where "(k, g) \<in> set (group_users us)" "s = group_snapshot g"
    using assms(2) by (auto simp: computeUserDeltas_def Let_def)
  then show ?thesis
    using group_users_first [of k g us] assms(1) by (auto simp: group_snapshot_def) (metis fst_conv)+
qed

lemma snap_ok_poll:
  assumes "snap_ok m" and "\<forall>s \<in> set rows. clean (sn_userId s) \<and> clean (sn_protocol s)"
  shows "snap_ok (drop_summed node users (upsert_snapshots node rows m))"
proof -
  let ?m = "upsert_snapshots node rows m"
  have wf: "map_wf ?m"
    using assms(1) unfolding upsert_snapshots_def by (intro foldl_set_wf) (simp add: snap_ok_def)
  have keys: "set (map_keys ?m) = set (map_keys m) \<union> row_key node ` set rows"
    unfolding upsert_snapshots_def foldl_set_keys by (simp add: row_key_def)
  have "list_all (\<lambda>((n, u, p, e), c). clean u \<and> clean p) ?m"
    unfolding list_all_iff
  proof (clarify)
    fix n u p e c d
    assume "((n, u, p, e), c, d) \<in> set ?m"
    then have "(n, u, p, e) \<in> set (map_keys m) \<union> row_key node ` set rows"
      unfolding keys [symmetric] by force
    then show "clean u \<and> clean p"
      using assms by (auto simp: snap_ok_def list_all_iff row_key_def)
  qed
  moreover have "map_wf (drop_summed node users ?m)"
    using wf by (simp add: map_wf_def drop_summed_def distinct_map_filter)
  ultimately show ?thesis
    by (auto simp: snap_ok_def drop_summed_def list_all_iff)
qed

section \<open>The balance of a user\<close>

lemma billed_delta:
  assumes "filter (\<lambda>u. su_userId u = x) us = [d]" and "in_of d \<le> c" and "out_of d \<le> c" and "0 \<le> in_of d" and "0 \<le> out_of d"
  shows "(case (let es = entries_of (Some c) x us in if es = [] then None
      else Some (sum_list (map (\<lambda>u. scale_by 10 (in_of u + out_of u)) es))) of None \<Rightarrow> 0 | Some a \<Rightarrow> a) = in_of d + out_of d"
proof -
  have "entries_of (Some c) x us = filter (billed (Some c)) (filter (\<lambda>u. su_userId u = x) us)"
    by (simp add: entries_of_def conj_commute)
  also have "\<dots> = (if in_of d + out_of d = 0 then [] else [d])"
    using assms by (simp add: billed_def over_ceiling_def)
  finally show ?thesis
    using assms(4,5) by simp
qed

lemma number_exact: "0 \<le> n \<Longrightarrow> n \<le> 1024 ^ 4 \<Longrightarrow> js_Number_of_BigInt n = n"
proof -
  assume "0 \<le> n" "n \<le> 1024 ^ 4"
  then have "nat n < 2 ^ 53"
    by (simp add: nat_less_iff)
  then show ?thesis
    using \<open>0 \<le> n\<close> by (simp add: js_Number_of_BigInt_def)
qed

definition small_growth :: "int \<times> int \<Rightarrow> int \<times> int \<Rightarrow> bool" where
  "small_growth s c \<longleftrightarrow> fst s \<le> fst c \<and> fst c - fst s \<le> NODE_STATS_MAX_USER_DELTA_BYTES \<and>
     snd s \<le> snd c \<and> snd c - snd s \<le> NODE_STATS_MAX_USER_DELTA_BYTES"

lemma committed_poll:
  assumes tenths: "pt_multiplierTenths node = 10" and ok: "snap_ok (db_snap (ss_db st))"
    and rep: "reports x (p, e) res" and old: "map_get (db_snap (ss_db st)) (pt_id node, x, p, e) = Some s"
    and growth: "small_growth s (counters_for x res)"
  shows "\<exists>st'. poll_node now node (Some res) True st = (st', True) \<and>
    map_get (db_snap (ss_db st')) (pt_id node, x, p, e) = Some (counters_for x res) \<and> snap_ok (db_snap (ss_db st')) \<and>
    used_of (db_traffic (ss_db st')) x = used_of (db_traffic (ss_db st)) x +
      (fst (counters_for x res) - fst s) + (snd (counters_for x res) - snd s)"
proof -
  let ?id = "pt_id node" and ?cu = "cumulative_users res"
  define st1 where "st1 = st\<lparr>ss_linger := storeLingering ?id (sr_lingering res) now (ss_linger st)\<rparr>"
  define plan where "plan = plan_users ?id res (ss_db st1)"
  define w where "w = poll_writes node res st1"
  let ?prev = "prev_snapshots ?id ?cu (db_snap (ss_db st))"
  have db: "ss_db st1 = ss_db st"
    by (simp add: st1_def)
  note users = reports_users [OF rep]
  have cl: "clean x" "clean p"
    using users(1-3) by auto
  have prev: "map_get ?prev (snapshotKey x (p, e)) = Some s"
    using prev_snapshots_get [OF ok cl users(1)] old by simp
  obtain d where d: "filter (\<lambda>u. su_userId u = x) (fst (computeUserDeltas ?cu ?prev)) = [d]"
      "in_of d = fst (counters_for x res) - fst s" "out_of d = snd (counters_for x res) - snd s"
    using user_delta(1) [OF rep, of ?prev] growth
    by (auto simp: prev counter_delta_def small_growth_def NODE_STATS_MAX_USER_DELTA_BYTES_def number_exact)
  have plan: "pp_users plan = fst (computeUserDeltas ?cu ?prev) @
        filter (\<lambda>u. su_cumulative u \<noteq> Some True) (case sr_users res of None \<Rightarrow> [] | Some us \<Rightarrow> us)"
      "pp_snapshots plan = snd (computeUserDeltas ?cu ?prev)"
      "pp_keyed plan = set_from (map su_userId (filter (\<lambda>u. truthy (su_engine u)) ?cu))"
    by (simp_all add: plan_def db reports_plan [OF rep])
  have "filter (\<lambda>u. su_userId u = x) (filter (\<lambda>u. su_cumulative u \<noteq> Some True) (case sr_users res of None \<Rightarrow> [] | Some us \<Rightarrow> us)) = []"
    using users(5) by (auto simp: filter_empty_conv)
  then have only: "filter (\<lambda>u. su_userId u = x) (pp_users plan) = [d]"
    unfolding plan(1) filter_append d(1) by simp
  have "(case map_of (nw_userTrafficRows w) x of None \<Rightarrow> 0 | Some a \<Rightarrow> a) = in_of d + out_of d"
    using billed_delta [OF only, of NODE_STATS_MAX_USER_DELTA_BYTES] d(2,3) growth tenths_of_quotient [of 10]
    by (simp add: w_def poll_writes_def used_row plan_def tenths small_growth_def db Let_def cong: if_cong)
  moreover have "distinct (map fst (nw_userTrafficRows w))"
    unfolding w_def poll_writes_def using rows_sorted(1) strict_sorted_iff by blast
  ultimately have used: "used_of (db_traffic (apply_writes now ?id w plan (ss_db st))) x = used_of (db_traffic (ss_db st)) x +
      (fst (counters_for x res) - fst s) + (snd (counters_for x res) - snd s)"
    by (simp add: apply_writes_def upsert_traffic_used d)
  obtain r where r: "r \<in> set (pp_snapshots plan)" "row_key ?id r = (?id, x, p, e)" "(sn_cumIn r, sn_cumOut r) = counters_for x res"
    using user_delta(2) [OF rep, of ?prev ?id] by (auto simp: plan(2))
  have dist: "distinct (map (row_key ?id) (pp_snapshots plan))"
    by (simp add: plan(2) row_keys_distinct snapshots_distinct)
  have "List.find (\<lambda>t. row_key ?id t = (?id, x, p, e)) (sort_key sn_userId (pp_snapshots plan)) = Some r"
    using r dist by (intro find_unique) (auto simp: distinct_map inj_on_def)
  then have up: "map_get (upsert_snapshots ?id (pp_snapshots plan) (db_snap (ss_db st))) (?id, x, p, e) = Some (counters_for x res)"
    using r(3) by (simp add: upsert_snapshots_get [OF dist])
  have keep: "\<not> (p = [] \<and> e = [] \<and> x \<in> set (pp_keyed plan))"
    using users(2) by (auto simp: plan(3) snapshotAdapterOf_def truthy_def split: if_splits)
  have snap: "map_get (db_snap (apply_writes now ?id w plan (ss_db st))) (?id, x, p, e) = Some (counters_for x res)"
    using up keep by (simp add: apply_writes_def drop_summed_get)
  have ok': "snap_ok (db_snap (apply_writes now ?id w plan (ss_db st)))"
    using snap_ok_poll [OF ok] snapshots_clean [OF users(3)] by (simp add: apply_writes_def plan(2))
  show ?thesis
    using used snap ok' by (simp add: poll_node_def Let_def plan_def w_def st1_def)
qed

lemma failed_poll: "poll_node now node res commit st = (st', False) \<Longrightarrow>
    ss_db st' = ss_db st \<and> ss_total st' = ss_total st \<and> ss_adapter st' = ss_adapter st"
  by (auto simp: poll_node_def Let_def split: option.splits if_splits)

lemma rolled_back_poll:
  assumes "reports x a res"
  shows "\<exists>st'. poll_node now node (Some res) False st = (st', False)"
proof -
  let ?st1 = "st\<lparr>ss_linger := storeLingering (pt_id node) (sr_lingering res) now (ss_linger st)\<rparr>"
  have "pp_snapshots (plan_users (pt_id node) res (ss_db st)) \<noteq> []"
  proof -
    have "set (snd (computeUserDeltas (cumulative_users res) prev)) \<noteq> {}" for prev
      using user_delta(2) [OF assms, of prev "[]"] by fastforce
    then show ?thesis
      by (simp add: reports_plan [OF assms])
  qed
  then show ?thesis
    by (simp add: poll_node_def Let_def no_statements_def)
qed

section \<open>A run of polls of one node\<close>

type_synonym poll_event = "nat \<times> stats_response option \<times> bool"

definition run_polls :: "poll_target \<Rightarrow> poll_event list \<Rightarrow> stats_state \<Rightarrow> stats_state" where
  "run_polls node evs st = foldl (\<lambda>st (now, res, commit). fst (poll_node now node res commit st)) st evs"

text \<open>The agent keeps counting: each answer's counters are at least the last committed ones and
  less than the ceiling above them. Requests may fail and transactions may roll back anywhere.\<close>

fun steady :: "string \<Rightarrow> string \<times> string \<Rightarrow> int \<times> int \<Rightarrow> poll_event list \<Rightarrow> bool" where
  "steady x a s [] = True"
| "steady x a s ((now, None, commit) # evs) = steady x a s evs"
| "steady x a s ((now, Some res, commit) # evs) =
     (reports x a res \<and> small_growth s (counters_for x res) \<and>
      steady x a (if commit then counters_for x res else s) evs)"

fun last_committed :: "string \<Rightarrow> int \<times> int \<Rightarrow> poll_event list \<Rightarrow> int \<times> int" where
  "last_committed x s [] = s"
| "last_committed x s ((now, None, commit) # evs) = last_committed x s evs"
| "last_committed x s ((now, Some res, commit) # evs) =
     last_committed x (if commit then counters_for x res else s) evs"

lemma run_polls_balance:
  assumes "pt_multiplierTenths node = 10"
  shows "steady x a s evs \<Longrightarrow> snap_ok (db_snap (ss_db st)) \<Longrightarrow>
    map_get (db_snap (ss_db st)) (pt_id node, x, a) = Some s \<Longrightarrow>
    (let st' = run_polls node evs st; s' = last_committed x s evs in
     map_get (db_snap (ss_db st')) (pt_id node, x, a) = Some s' \<and>
     used_of (db_traffic (ss_db st')) x = used_of (db_traffic (ss_db st)) x + (fst s' - fst s) + (snd s' - snd s))"
proof (induction x a s evs arbitrary: st rule: steady.induct)
  case (1 x a s)
  then show ?case
    by (simp add: run_polls_def)
next
  case (2 x a s now commit evs)
  have "fst (poll_node now node None commit st) = st"
    by (simp add: poll_node_def)
  then show ?case
    using "2.IH" [of st] "2.prems" by (simp add: run_polls_def)
next
  case (3 x a s now res commit evs)
  have rep: "reports x a res" and growth: "small_growth s (counters_for x res)"
    and rest: "steady x a (if commit then counters_for x res else s) evs"
    using "3.prems"(1) by simp_all
  show ?case
  proof (cases commit)
    case True
    obtain st' where st': "poll_node now node (Some res) True st = (st', True)"
        "map_get (db_snap (ss_db st')) (pt_id node, x, a) = Some (counters_for x res)" "snap_ok (db_snap (ss_db st'))"
        "used_of (db_traffic (ss_db st')) x = used_of (db_traffic (ss_db st)) x +
          (fst (counters_for x res) - fst s) + (snd (counters_for x res) - snd s)"
      using committed_poll [OF assms "3.prems"(2), of x "fst a" "snd a" res s now] rep "3.prems"(3) growth
      by (simp only: prod.collapse) blast
    show ?thesis
      using "3.IH" [of st'] st' rest True by (simp add: run_polls_def Let_def)
  next
    case False
    obtain st' where st': "poll_node now node (Some res) False st = (st', False)"
      using rolled_back_poll [OF rep] by blast
    show ?thesis
      using "3.IH" [of st'] failed_poll [OF st'] rest False "3.prems" st' by (simp add: run_polls_def Let_def)
  qed
qed

section \<open>Properties\<close>

text \<open>C3. No byte is lost and none is billed twice: over any run of polls of a node, with requests
  that fail and transactions that roll back anywhere in it, what a user is billed is exactly
  the growth of their counter from the first stored snapshot to the last committed one. The
  node counts at multiplier 1, the user's entries come from one adapter whose counter does not
  restart, and no single growth passes the 1 TiB ceiling.\<close>

theorem polls_conserve_bytes:
  assumes "pt_multiplierTenths node = 10" and "snap_ok (db_snap (ss_db st))"
    and "map_get (db_snap (ss_db st)) (pt_id node, x, p, e) = Some s" and "steady x (p, e) s evs"
  shows "let st' = run_polls node evs st; s' = last_committed x s evs in
    map_get (db_snap (ss_db st')) (pt_id node, x, p, e) = Some s' \<and>
    used_of (db_traffic (ss_db st')) x = used_of (db_traffic (ss_db st)) x + (fst s' - fst s) + (snd s' - snd s)"
  using assms(4,2,3) by (rule run_polls_balance [OF assms(1)])

definition demo_answer :: "int \<Rightarrow> stats_response" where
  "demo_answer n = \<lparr>sr_users = Some [\<lparr>su_userId = ''u'', su_bytesIn = Some n, su_bytesOut = None, su_cumulative = Some True,
       su_protocol = Some ''vless'', su_engine = Some ''xray''\<rparr>],
     sr_cumulative = True, sr_totalBytesIn = None, sr_totalBytesOut = None, sr_cores = None, sr_lingering = None\<rparr>"

definition demo_state :: stats_state where
  "demo_state = \<lparr>ss_db = \<lparr>db_traffic = [], db_history = [], db_usage = [],
       db_snap = [((''n'', ''u'', ''vless'', ''xray''), (10, 0))]\<rparr>,
     ss_total = [], ss_adapter = [], ss_linger = []\<rparr>"

theorem polls_conserve_bytes_witness:
  "used_of (db_traffic (ss_db (run_polls \<lparr>pt_id = ''n'', pt_multiplierTenths = 10\<rparr>
     [(1, Some (demo_answer 40), False), (2, None, True), (3, Some (demo_answer 100), True)] demo_state))) ''u'' = 90"
proof -
  let ?node = "\<lparr>pt_id = ''n'', pt_multiplierTenths = 10\<rparr>"
  let ?evs = "[(1, Some (demo_answer 40), False), (2, None, True), (3, Some (demo_answer 100), True)]"
  have answer: "reports ''u'' (''vless'', ''xray'') (demo_answer n)" "counters_for ''u'' (demo_answer n) = (n, 0)" for n
    by (simp_all add: reports_def demo_answer_def entries_for_def counters_for_def snapshotAdapterOf_def truthy_def or_empty_def
        clean_def in_of_def out_of_def or0_def)
  have "steady ''u'' (''vless'', ''xray'') (10, 0) ?evs"
    by (simp add: answer small_growth_def NODE_STATS_MAX_USER_DELTA_BYTES_def)
  moreover have "snap_ok (db_snap (ss_db demo_state))"
    by (simp add: snap_ok_def demo_state_def map_wf_def clean_def)
  ultimately show ?thesis
    using polls_conserve_bytes [of ?node demo_state "''u''" "''vless''" "''xray''" "(10, 0)" ?evs]
    by (simp add: answer Let_def) (simp add: demo_state_def used_of_def)
qed

end
