(* ===== verification/CascadeTopology.thy ===== *)
theory CascadeTopology
  imports JsNumber
begin

text \<open>
  The shape rules of a cascade (\<open>modules/cascades/cascade.validation.ts\<close>, the cells of
  \<open>cascade.config.ts\<close> and of \<open>packages/shared/src/transport.ts\<close>): positions, directions, the fold
  into the older hop list and its rules. An absent, null or empty string is falsy in the code
  and \<open>None\<close> or \<open>Some []\<close> here. Refusals are values of an error type, in the order the code
  makes them; a message keeps what it names.
\<close>

section \<open>Cells\<close>

datatype link_cell = Vless | Shadowsocks | Hy2 | Tuic

datatype engine = Singbox | Xray

datatype transport = Tcp | Udp

definition LINK_CELLS :: "(string \<times> link_cell) list" where
  "LINK_CELLS = [(''vless'', Vless), (''shadowsocks'', Shadowsocks), (''hy2'', Hy2), (''tuic'', Tuic)]"

fun LINK_CELL_ENGINES :: "link_cell \<Rightarrow> engine list" where
  "LINK_CELL_ENGINES Vless = [Singbox, Xray]"
| "LINK_CELL_ENGINES Shadowsocks = [Singbox, Xray]"
| "LINK_CELL_ENGINES Hy2 = [Singbox]"
| "LINK_CELL_ENGINES Tuic = [Singbox]"

fun LINK_CELL_TRANSPORTS :: "link_cell \<Rightarrow> transport list" where
  "LINK_CELL_TRANSPORTS Vless = [Tcp]"
| "LINK_CELL_TRANSPORTS Shadowsocks = [Tcp, Udp]"
| "LINK_CELL_TRANSPORTS Hy2 = [Udp]"
| "LINK_CELL_TRANSPORTS Tuic = [Udp]"

definition CHAIN_ENTRY_PROTOCOLS :: "string list" where
  "CHAIN_ENTRY_PROTOCOLS = [''xray'', ''hysteria'', ''amneziawg'']"

definition LEGACY_CELL_ALIASES :: "(string \<times> link_cell) list" where
  "LEGACY_CELL_ALIASES = [(''xray'', Vless)]"

definition falsy :: "string option \<Rightarrow> bool" where
  "falsy p \<longleftrightarrow> p = None \<or> p = Some []"

definition linkCellFor :: "string option \<Rightarrow> link_cell option" where
  "linkCellFor p =
     (case p of
        None \<Rightarrow> Some Vless
      | Some s \<Rightarrow>
          if s = [] then Some Vless
          else (case map_of LINK_CELLS s of Some c \<Rightarrow> Some c | None \<Rightarrow> map_of LEGACY_CELL_ALIASES s))"

definition ENTRIES_ONLY_THROUGH_CHAIN :: "string list" where
  "ENTRIES_ONLY_THROUGH_CHAIN = [''hysteria'', ''amneziawg'']"

definition entryReachesCascadeOnlyThroughChain :: "string option \<Rightarrow> bool" where
  "entryReachesCascadeOnlyThroughChain p =
     (case p of None \<Rightarrow> False | Some s \<Rightarrow> s \<in> set ENTRIES_ONLY_THROUGH_CHAIN)"

section \<open>Limits\<close>

definition MAX_CASCADE_HOPS :: nat where
  "MAX_CASCADE_HOPS = 5"

definition MAX_CASCADE_PATH :: nat where
  "MAX_CASCADE_PATH = 5"

definition MAX_CASCADE_POSITIONS :: nat where
  "MAX_CASCADE_POSITIONS = MAX_CASCADE_PATH - 1"

definition MAX_CASCADE_LINKS :: nat where
  "MAX_CASCADE_LINKS = 64"

lemmas cascade_limits = MAX_CASCADE_HOPS_def MAX_CASCADE_PATH_def MAX_CASCADE_POSITIONS_def MAX_CASCADE_LINKS_def

section \<open>Data\<close>

record leg_params =
  lp_congestion :: "string option"
  lp_underlay :: "string option"

record position_input =
  po_position :: nat
  po_nodeIds :: "string list"
  po_entryProtocol :: "string option"
  po_linkProtocol :: "string option"
  po_linkParams :: "leg_params option"

record resolved_direction =
  rd_id :: "string option"
  rd_tag :: "nat option"
  rd_nodeIds :: "string list"
  rd_outboundId :: "string option"
  rd_countryCode :: "string option"
  rd_linkProtocol :: "string option"
  rd_linkParams :: "leg_params option"

datatype cascade_error =
    NeedsEntry
  | TooManyPositions nat
  | NeedsDirection
  | PathTooLong
  | NotContiguous "nat list"
  | EntryNeedsProtocol
  | EntryNotChainable string
  | EntryProtocolElsewhere nat
  | NeedsLinkProtocol nat
  | NoLinkCell "string option" nat
  | NeedsNode nat
  | SameNodeTwice nat
  | BlindTransit nat nat link_cell
  | DirectionOutboundAndNodes nat "nat option"
  | DirectionEmpty nat "nat option"
  | OutboundTwice string
  | DirectionNodeTwice
  | NodeBehindTwo string "string list"
  | NodeTwice
  | TooManyLinks nat
  | PoolOnPosition nat nat
  | PoolOnDirection nat
  | EmptyDirectionHop
  | TransitsAndDirections
  | ChainOnlyPosition nat
  | ChainOnlyDirection
  | TooFewHops
  | TooManyHops nat
  | ExitHasLink nat

type_synonym check = "cascade_error + unit"

text \<open>\<open>if (c) throw e\<close>, and a loop of checks that stops at the first refusal.\<close>

definition refuse :: "bool \<Rightarrow> cascade_error \<Rightarrow> check" where
  "refuse c e = (if c then Inl e else Inr ())"

fun check_all :: "('a \<Rightarrow> check) \<Rightarrow> 'a list \<Rightarrow> check" where
  "check_all f [] = Inr ()"
| "check_all f (x # xs) = rbind (f x) (\<lambda>_. check_all f xs)"

lemma refuse_Inr [simp]: "refuse c e = Inr u \<longleftrightarrow> \<not> c"
  by (simp add: refuse_def)

lemma check_all_Inr [simp]: "check_all f xs = Inr u \<longleftrightarrow> (\<forall>x \<in> set xs. f x = Inr ())"
  by (induction xs) auto

section \<open>Directions\<close>

definition direction_label :: "nat \<Rightarrow> resolved_direction \<Rightarrow> string" where
  "direction_label i d =
     (if falsy (rd_countryCode d) then ''#'' @ dec_of_nat (i + 1)
      else the (rd_countryCode d) @ '' (#'' @ dec_of_nat (i + 1) @ '')'')"

fun direction_shapes :: "(nat \<times> resolved_direction) list \<Rightarrow> string list \<Rightarrow> check" where
  "direction_shapes [] seen = Inr ()"
| "direction_shapes ((i, d) # ds) seen =
     (if \<not> falsy (rd_outboundId d) \<and> rd_nodeIds d \<noteq> [] then Inl (DirectionOutboundAndNodes i (rd_tag d))
      else if falsy (rd_outboundId d) \<and> rd_nodeIds d = [] then Inl (DirectionEmpty i (rd_tag d))
      else if \<not> falsy (rd_outboundId d) then
        (let o1 = the (rd_outboundId d) in
         if o1 \<in> set seen then Inl (OutboundTwice (direction_label i d))
         else direction_shapes ds (set_add o1 seen))
      else direction_shapes ds seen)"

definition assertDirectionShapes :: "resolved_direction list \<Rightarrow> check" where
  "assertDirectionShapes directions = direction_shapes (enumerate 0 directions) []"

section \<open>Blind transits and the number of links\<close>

text \<open>\<open>a.position - b.position\<close> sorts stably.\<close>

definition sort_positions :: "position_input list \<Rightarrow> position_input list" where
  "sort_positions = sort_key po_position"

fun blind_pairs :: "position_input list \<Rightarrow> (nat \<times> nat \<times> link_cell) list" where
  "blind_pairs (p # q # ps) =
     (case linkCellFor (po_linkProtocol p) of
        Some c \<Rightarrow> if c \<noteq> Vless then [(po_position p, po_position q, c)] else []
      | None \<Rightarrow> []) @ blind_pairs (q # ps)"
| "blind_pairs _ = []"

definition blindTransitSteps :: "position_input list \<Rightarrow> nat \<Rightarrow> (nat \<times> nat \<times> link_cell) list" where
  "blindTransitSteps positions directionCount =
     (if directionCount \<le> 1 then [] else blind_pairs (sort_positions positions))"

fun pair_links :: "position_input list \<Rightarrow> nat" where
  "pair_links (p # q # ps) = length (po_nodeIds p) * length (po_nodeIds q) + pair_links (q # ps)"
| "pair_links _ = 0"

definition countLinks :: "position_input list \<Rightarrow> resolved_direction list \<Rightarrow> nat" where
  "countLinks positions directions =
     pair_links positions +
     (if positions = [] then 0
      else sum_list (map (\<lambda>d. length (po_nodeIds (last positions)) * length (rd_nodeIds d)) directions))"

section \<open>The save\<close>

definition check_position :: "nat \<times> position_input \<Rightarrow> check" where
  "check_position ip =
     (let (i, p) = ip; isEntry = (i = 0) in
      rbind (refuse (isEntry \<and> falsy (po_entryProtocol p)) EntryNeedsProtocol) (\<lambda>_.
      rbind (if isEntry \<and> \<not> falsy (po_entryProtocol p) \<and> the (po_entryProtocol p) \<notin> set CHAIN_ENTRY_PROTOCOLS
             then Inl (EntryNotChainable (the (po_entryProtocol p))) else Inr ()) (\<lambda>_.
      rbind (refuse (\<not> isEntry \<and> \<not> falsy (po_entryProtocol p)) (EntryProtocolElsewhere (po_position p))) (\<lambda>_.
      rbind (refuse (falsy (po_linkProtocol p)) (NeedsLinkProtocol (po_position p))) (\<lambda>_.
      rbind (refuse (linkCellFor (po_linkProtocol p) = None) (NoLinkCell (po_linkProtocol p) (po_position p))) (\<lambda>_.
      rbind (refuse (po_nodeIds p = []) (NeedsNode (po_position p))) (\<lambda>_.
      refuse (length (set_from (po_nodeIds p)) \<noteq> length (po_nodeIds p)) (SameNodeTwice (po_position p)))))))))"

definition holders_of :: "resolved_direction list \<Rightarrow> (string, string list) jsmap" where
  "holders_of directions =
     acc_by fst (\<lambda>_. []) (\<lambda>holders nl. holders @ [snd nl]) []
       (concat (map (\<lambda>(i, d). map (\<lambda>n. (n, direction_label i d)) (rd_nodeIds d)) (enumerate 0 directions)))"

fun check_once :: "string list \<Rightarrow> string list \<Rightarrow> check" where
  "check_once [] seen = Inr ()"
| "check_once (n # ns) seen = (if n \<in> set seen then Inl NodeTwice else check_once ns (set_add n seen))"

record validated_topology =
  vt_positions :: "position_input list"
  vt_directions :: "resolved_direction list"
  vt_linkCount :: nat

definition all_nodes :: "position_input list \<Rightarrow> resolved_direction list \<Rightarrow> string list" where
  "all_nodes positions directions = concat (map po_nodeIds positions) @ concat (map rd_nodeIds directions)"

definition validateCascadeTopology ::
    "position_input list \<Rightarrow> resolved_direction list \<Rightarrow> cascade_error + validated_topology" where
  "validateCascadeTopology positions directions =
     rbind (refuse (length positions < 1) NeedsEntry) (\<lambda>_.
     rbind (refuse (length positions > MAX_CASCADE_POSITIONS) (TooManyPositions (length positions))) (\<lambda>_.
     rbind (refuse (length directions < 1) NeedsDirection) (\<lambda>_.
     rbind (refuse (length positions + 1 > MAX_CASCADE_PATH) PathTooLong) (\<lambda>_.
     let sorted = sort_positions positions in
     rbind (check_all (\<lambda>(i, p). refuse (po_position p \<noteq> i) (NotContiguous (map po_position sorted))) (enumerate 0 sorted)) (\<lambda>_.
     rbind (check_all check_position (enumerate 0 sorted)) (\<lambda>_.
     rbind (case blindTransitSteps sorted (length directions) of
              [] \<Rightarrow> Inr ()
            | (f, t, c) # _ \<Rightarrow> Inl (BlindTransit f t c)) (\<lambda>_.
     rbind (assertDirectionShapes directions) (\<lambda>_.
     rbind (check_all (\<lambda>d. refuse (length (set_from (rd_nodeIds d)) \<noteq> length (rd_nodeIds d)) DirectionNodeTwice) directions) (\<lambda>_.
     rbind (check_all (\<lambda>(n, holders). refuse (length holders > 1) (NodeBehindTwo n holders)) (holders_of directions)) (\<lambda>_.
     rbind (check_once (all_nodes sorted directions) []) (\<lambda>_.
     let linkCount = countLinks sorted directions in
     rbind (refuse (linkCount > MAX_CASCADE_LINKS) (TooManyLinks linkCount)) (\<lambda>_.
     Inr \<lparr>vt_positions = sorted, vt_directions = directions, vt_linkCount = linkCount\<rparr>))))))))))))"

section \<open>The older hop list\<close>

record hop_input =
  hi_nodeId :: string
  hi_position :: nat
  hi_entryProtocol :: "string option"
  hi_linkProtocol :: "string option"

datatype cascade_mode = Chain | Balancer

definition unfoldable :: "string option \<Rightarrow> bool" where
  "unfoldable p = (case linkCellFor p of None \<Rightarrow> False | Some c \<Rightarrow> Xray \<notin> set (LINK_CELL_ENGINES c))"

text \<open>A falsy protocol is left out of the hop.\<close>

definition kept :: "string option \<Rightarrow> string option" where
  "kept p = (if falsy p then None else p)"

definition foldPositionsIntoHops ::
    "position_input list \<Rightarrow> resolved_direction list \<Rightarrow> cascade_error + hop_input list \<times> cascade_mode" where
  "foldPositionsIntoHops positions directions =
     (let sorted = sort_positions positions in
      rbind (check_all (\<lambda>p. refuse (length (po_nodeIds p) > 1) (PoolOnPosition (po_position p) (length (po_nodeIds p)))) sorted) (\<lambda>_.
      rbind (check_all (\<lambda>d. rbind (refuse (length (rd_nodeIds d) > 1) (PoolOnDirection (length (rd_nodeIds d)))) (\<lambda>_.
        refuse (length (rd_nodeIds d) = 0) EmptyDirectionHop)) directions) (\<lambda>_.
      rbind (refuse (length directions > 1 \<and> length sorted > 1) TransitsAndDirections) (\<lambda>_.
      rbind (check_all (\<lambda>p. refuse (unfoldable (po_linkProtocol p)) (ChainOnlyPosition (po_position p))) sorted) (\<lambda>_.
      rbind (check_all (\<lambda>d. refuse (unfoldable (rd_linkProtocol d)) ChainOnlyDirection) directions) (\<lambda>_.
      let mode = (if length directions > 1 then Balancer else Chain);
          entry = hd sorted;
          first = \<lparr>hi_nodeId = hd (po_nodeIds entry), hi_position = 0,
            hi_entryProtocol = kept (po_entryProtocol entry), hi_linkProtocol = kept (po_linkProtocol entry)\<rparr> in
      case mode of
        Balancer \<Rightarrow>
          Inr (first # map (\<lambda>(i, d). \<lparr>hi_nodeId = hd (rd_nodeIds d), hi_position = i, hi_entryProtocol = None,
            hi_linkProtocol = None\<rparr>) (enumerate 1 directions), mode)
      | Chain \<Rightarrow>
          Inr (first # map (\<lambda>(i, p). \<lparr>hi_nodeId = hd (po_nodeIds p), hi_position = i, hi_entryProtocol = None,
              hi_linkProtocol = kept (po_linkProtocol p)\<rparr>) (enumerate 1 (tl sorted)) @
            [\<lparr>hi_nodeId = hd (rd_nodeIds (hd directions)), hi_position = length sorted, hi_entryProtocol = None,
              hi_linkProtocol = None\<rparr>], mode)))))))"

definition check_hop :: "cascade_mode \<Rightarrow> nat \<Rightarrow> nat \<times> hop_input \<Rightarrow> check" where
  "check_hop mode lastIdx ih =
     (let (i, h) = ih; isEntry = (i = 0); isExit = (case mode of Balancer \<Rightarrow> i \<ge> 1 | Chain \<Rightarrow> i = lastIdx);
          carriesLink = (case mode of Balancer \<Rightarrow> isEntry | Chain \<Rightarrow> \<not> isExit) in
      rbind (refuse (isEntry \<and> falsy (hi_entryProtocol h)) EntryNeedsProtocol) (\<lambda>_.
      rbind (if isEntry \<and> \<not> falsy (hi_entryProtocol h) \<and> the (hi_entryProtocol h) \<notin> set CHAIN_ENTRY_PROTOCOLS
             then Inl (EntryNotChainable (the (hi_entryProtocol h))) else Inr ()) (\<lambda>_.
      rbind (refuse (\<not> isEntry \<and> \<not> falsy (hi_entryProtocol h)) (EntryProtocolElsewhere (hi_position h))) (\<lambda>_.
      rbind (refuse (carriesLink \<and> falsy (hi_linkProtocol h)) (NeedsLinkProtocol (hi_position h))) (\<lambda>_.
      rbind (refuse (carriesLink \<and> linkCellFor (hi_linkProtocol h) = None) (NoLinkCell (hi_linkProtocol h) (hi_position h))) (\<lambda>_.
      refuse (\<not> carriesLink \<and> \<not> falsy (hi_linkProtocol h)) (ExitHasLink (hi_position h))))))))"

definition validateCascadeHops :: "hop_input list \<Rightarrow> cascade_mode \<Rightarrow> cascade_error + hop_input list" where
  "validateCascadeHops hops mode =
     rbind (refuse (length hops < 2) TooFewHops) (\<lambda>_.
     rbind (refuse (length hops > MAX_CASCADE_HOPS) (TooManyHops (length hops))) (\<lambda>_.
     let sorted = sort_key hi_position hops in
     rbind (check_all (\<lambda>(i, h). refuse (hi_position h \<noteq> i) (NotContiguous (map hi_position sorted))) (enumerate 0 sorted)) (\<lambda>_.
     rbind (check_all (check_hop mode (length sorted - 1)) (enumerate 0 sorted)) (\<lambda>_.
     let nodeIds = map hi_nodeId sorted in
     rbind (refuse (length (set_from nodeIds) \<noteq> length nodeIds) NodeTwice) (\<lambda>_.
     Inr sorted)))))"

section \<open>What the checks decide\<close>

lemma check_once_Inr [simp]: "check_once ns seen = Inr u \<longleftrightarrow> distinct ns \<and> set ns \<inter> set seen = {}"
  by (induction ns arbitrary: seen) auto

definition outbounds_of :: "resolved_direction list \<Rightarrow> string list" where
  "outbounds_of ds = map (\<lambda>d. the (rd_outboundId d)) (filter (\<lambda>d. \<not> falsy (rd_outboundId d)) ds)"

lemma direction_shapes_Inr:
  "direction_shapes ids seen = Inr u \<longleftrightarrow>
   (\<forall>d \<in> set (map snd ids). falsy (rd_outboundId d) \<longleftrightarrow> rd_nodeIds d \<noteq> []) \<and>
   distinct (outbounds_of (map snd ids)) \<and> set (outbounds_of (map snd ids)) \<inter> set seen = {}"
  by (induction ids seen rule: direction_shapes.induct) (auto simp: outbounds_of_def Let_def)

lemma assertDirectionShapes_Inr:
  "assertDirectionShapes ds = Inr u \<longleftrightarrow>
   (\<forall>d \<in> set ds. falsy (rd_outboundId d) \<longleftrightarrow> rd_nodeIds d \<noteq> []) \<and> distinct (outbounds_of ds)"
  by (simp add: assertDirectionShapes_def direction_shapes_Inr)

lemma enumerate_ball: "(\<forall>ip \<in> set (enumerate n xs). P ip) \<longleftrightarrow> (\<forall>i < length xs. P (n + i, xs ! i))"
  by (simp add: all_set_conv_all_nth nth_enumerate_eq)

lemma contiguous_iff: "(\<forall>i < length xs. f (xs ! i) = i) \<longleftrightarrow> map f xs = [0..<length xs]"
proof
  assume "\<forall>i < length xs. f (xs ! i) = i"
  then show "map f xs = [0..<length xs]"
    by (intro nth_equalityI) simp_all
next
  assume eq: "map f xs = [0..<length xs]"
  have "f (xs ! i) = i" if "i < length xs" for i
    using arg_cong [OF eq, of "\<lambda>l. l ! i"] that by simp
  then show "\<forall>i < length xs. f (xs ! i) = i"
    by blast
qed

lemma blind_pairs_Nil:
  "(\<forall>p \<in> set ps. linkCellFor (po_linkProtocol p) \<noteq> None) \<Longrightarrow>
   blind_pairs ps = [] \<longleftrightarrow> (\<forall>p \<in> set (butlast ps). linkCellFor (po_linkProtocol p) = Some Vless)"
  by (induction ps rule: blind_pairs.induct) (auto split: option.splits)

lemma sort_positions_idem [simp]: "sort_positions (sort_positions ps) = sort_positions ps"
  by (simp add: sort_positions_def sort_key_id_if_sorted)

lemma holders_single:
  assumes "distinct (concat (map rd_nodeIds ds))" and "(n, holders) \<in> set (holders_of ds)"
  shows "length holders \<le> 1"
proof -
  define nls where "nls = concat (map (\<lambda>(i, d). map (\<lambda>n. (n, direction_label i d)) (rd_nodeIds d)) (enumerate 0 ds))"
  have fst: "map fst (concat (map (\<lambda>(i, d). map (\<lambda>n. (n, direction_label i d)) (rd_nodeIds d)) (enumerate k ds))) =
      concat (map rd_nodeIds ds)" for k
    by (induction ds arbitrary: k) (simp_all add: comp_def)
  have keys: "map fst nls = concat (map rd_nodeIds ds)"
    unfolding nls_def by (rule fst)
  have get: "map_get (holders_of ds) n = Some holders"
    using assms(2) by (subst map_get_iff_mem) (simp_all add: holders_of_def)
  have fold: "length (foldl (\<lambda>holders nl. holders @ [snd nl]) h xs) = length h + length xs" for h and xs :: "('b \<times> string) list"
    by (induction xs arbitrary: h) simp_all
  have "length (filter (\<lambda>nl. fst nl = n) nls) \<le> 1"
  proof -
    have "distinct (map fst nls)"
      using assms(1) keys by simp
    then show ?thesis
      by (induction nls) (auto simp: filter_empty_conv image_iff)
  qed
  then show ?thesis
    using get unfolding holders_of_def nls_def [symmetric]
    by (auto simp: acc_by_get fold split: list.splits)
qed

text \<open>The rules of the save, said once.\<close>

definition topology_ok :: "position_input list \<Rightarrow> resolved_direction list \<Rightarrow> bool" where
  "topology_ok s ds \<longleftrightarrow>
     s \<noteq> [] \<and> length s \<le> 4 \<and> ds \<noteq> [] \<and> map po_position s = [0..<length s] \<and>
     \<not> falsy (po_entryProtocol (hd s)) \<and> the (po_entryProtocol (hd s)) \<in> set CHAIN_ENTRY_PROTOCOLS \<and>
     (\<forall>p \<in> set (tl s). falsy (po_entryProtocol p)) \<and>
     (\<forall>p \<in> set s. \<not> falsy (po_linkProtocol p) \<and> linkCellFor (po_linkProtocol p) \<noteq> None \<and> po_nodeIds p \<noteq> []) \<and>
     (length ds \<le> 1 \<or> (\<forall>p \<in> set (butlast s). linkCellFor (po_linkProtocol p) = Some Vless)) \<and>
     (\<forall>d \<in> set ds. falsy (rd_outboundId d) \<longleftrightarrow> rd_nodeIds d \<noteq> []) \<and>
     distinct (outbounds_of ds) \<and> distinct (all_nodes s ds) \<and> countLinks s ds \<le> 64"

lemma check_position_Inr:
  "check_position (i, p) = Inr u \<longleftrightarrow>
   (if i = 0 then \<not> falsy (po_entryProtocol p) \<and> the (po_entryProtocol p) \<in> set CHAIN_ENTRY_PROTOCOLS
    else falsy (po_entryProtocol p)) \<and>
   \<not> falsy (po_linkProtocol p) \<and> linkCellFor (po_linkProtocol p) \<noteq> None \<and> po_nodeIds p \<noteq> [] \<and> distinct (po_nodeIds p)"
  by (auto simp: check_position_def set_from_length_distinct)

lemma check_positions_Inr:
  "check_all check_position (enumerate 0 s) = Inr u \<longleftrightarrow>
   (s \<noteq> [] \<longrightarrow> \<not> falsy (po_entryProtocol (hd s)) \<and> the (po_entryProtocol (hd s)) \<in> set CHAIN_ENTRY_PROTOCOLS) \<and>
   (\<forall>p \<in> set (tl s). falsy (po_entryProtocol p)) \<and>
   (\<forall>p \<in> set s. \<not> falsy (po_linkProtocol p) \<and> linkCellFor (po_linkProtocol p) \<noteq> None \<and> po_nodeIds p \<noteq> [] \<and>
      distinct (po_nodeIds p))"
proof (cases s)
  case (Cons p ps)
  have "(\<forall>ip \<in> set (enumerate 1 ps). check_position ip = Inr ()) \<longleftrightarrow>
      (\<forall>q \<in> set ps. falsy (po_entryProtocol q) \<and> \<not> falsy (po_linkProtocol q) \<and>
         linkCellFor (po_linkProtocol q) \<noteq> None \<and> po_nodeIds q \<noteq> [] \<and> distinct (po_nodeIds q))"
    by (simp add: enumerate_ball all_set_conv_all_nth [of ps] check_position_Inr)
  then show ?thesis
    unfolding Cons check_all_Inr enumerate_simps by (auto simp: check_position_Inr)
qed simp

lemma validate_iff:
  "validateCascadeTopology positions directions = Inr v \<longleftrightarrow>
   topology_ok (sort_positions positions) directions \<and>
   v = \<lparr>vt_positions = sort_positions positions, vt_directions = directions,
     vt_linkCount = countLinks (sort_positions positions) directions\<rparr>"
proof -
  define s where "s = sort_positions positions"
  have len: "length positions = length s"
    by (simp add: s_def sort_positions_def)
  have dist: "distinct (all_nodes s directions) \<Longrightarrow> p \<in> set s \<Longrightarrow> distinct (po_nodeIds p)"
    "distinct (all_nodes s directions) \<Longrightarrow> d \<in> set directions \<Longrightarrow> distinct (rd_nodeIds d)"
    "distinct (all_nodes s directions) \<Longrightarrow> distinct (concat (map rd_nodeIds directions))" for p d
    by (auto simp: all_nodes_def distinct_concat_iff)
  have cont: "check_all (\<lambda>(i, p). refuse (po_position p \<noteq> i) e) (enumerate 0 s) = Inr u \<longleftrightarrow> map po_position s = [0..<length s]" for u e
    unfolding check_all_Inr enumerate_ball by (simp add: contiguous_iff)
  have blind: "(case blindTransitSteps s (length directions) of [] \<Rightarrow> Inr () | (f, t, c) # _ \<Rightarrow> Inl (BlindTransit f t c)) = Inr u \<longleftrightarrow>
      blindTransitSteps s (length directions) = []" for u
    by (auto split: list.splits)
  have blind': "blindTransitSteps s (length directions) = [] \<longleftrightarrow> length directions \<le> 1 \<or>
      (\<forall>p \<in> set (butlast s). linkCellFor (po_linkProtocol p) = Some Vless)"
    if "\<forall>p \<in> set s. linkCellFor (po_linkProtocol p) \<noteq> None"
    using blind_pairs_Nil [OF that] by (simp add: blindTransitSteps_def s_def)
  have hold: "\<forall>x \<in> set (holders_of directions). \<not> Suc 0 < length (snd x)" if "distinct (all_nodes s directions)"
    using holders_single [OF dist(3) [OF that]] by (fastforce simp: not_less)
  show ?thesis
    unfolding validateCascadeTopology_def s_def [symmetric] Let_def topology_ok_def
    apply (simp only: rbind_Inr_iff refuse_Inr cont blind check_positions_Inr assertDirectionShapes_Inr check_once_Inr len)
    apply (rule iffI)
    subgoal
      by (elim exE conjE) (simp add: cascade_limits blind' Suc_le_eq)
    subgoal
      by (elim conjE) (simp add: cascade_limits blind' dist hold Suc_le_eq case_prod_unfold set_from_length_distinct)
    done
qed

section \<open>The hop list of a topology that folds\<close>

lemma check_hop_Inr:
  "check_hop mode n (i, h) = Inr u \<longleftrightarrow>
   (let carriesLink = (case mode of Balancer \<Rightarrow> i = 0 | Chain \<Rightarrow> i \<noteq> n) in
    (if i = 0 then \<not> falsy (hi_entryProtocol h) \<and> the (hi_entryProtocol h) \<in> set CHAIN_ENTRY_PROTOCOLS
     else falsy (hi_entryProtocol h)) \<and>
    (if carriesLink then \<not> falsy (hi_linkProtocol h) \<and> linkCellFor (hi_linkProtocol h) \<noteq> None
     else falsy (hi_linkProtocol h)))"
  by (cases mode) (auto simp: check_hop_def)

lemma validateCascadeHops_Inr:
  assumes pos: "map hi_position hops = [0..<length hops]"
  shows "validateCascadeHops hops mode = Inr r \<longleftrightarrow> r = hops \<and> 2 \<le> length hops \<and> length hops \<le> 5 \<and>
    (\<forall>i < length hops. check_hop mode (length hops - 1) (i, hops ! i) = Inr ()) \<and> distinct (map hi_nodeId hops)"
proof -
  have sorted: "sort_key hi_position hops = hops"
    using pos by (intro sort_key_id_if_sorted) simp
  have cont: "\<forall>i < length hops. hi_position (hops ! i) = i"
    using pos contiguous_iff by blast
  have len: "length (set_from (map hi_nodeId hops)) = length hops \<longleftrightarrow> distinct (map hi_nodeId hops)"
    using set_from_length_distinct [of "map hi_nodeId hops"] by simp
  show ?thesis
    unfolding validateCascadeHops_def Let_def sorted rbind_Inr_iff refuse_Inr check_all_Inr enumerate_ball
    using cont by (auto simp: cascade_limits len)
qed

lemma kept_facts [simp]: "falsy (kept p) = falsy p" "\<not> falsy p \<Longrightarrow> kept p = p"
  by (simp_all add: kept_def falsy_def)

lemma map_hd_concat: "\<forall>x \<in> set xs. length (f x) = 1 \<Longrightarrow> map (\<lambda>x. hd (f x)) xs = concat (map f xs)"
  by (induction xs) (auto simp: length_Suc_conv)

lemma map_snd_enumerate: "map (\<lambda>ix. g (snd ix)) (enumerate k xs) = map g xs"
  by (induction xs arbitrary: k) simp_all

lemma map_fst_enumerate: "map fst (enumerate k xs) = [k..<k + length xs]"
  by (simp add: enumerate_eq_zip)

lemma folded_hops:
  assumes "topology_ok (sort_positions positions) directions"
    and "foldPositionsIntoHops positions directions = Inr (hops, mode)"
  shows "map hi_position hops = [0..<length hops] \<and>
    map hi_nodeId hops = all_nodes (sort_positions positions) directions \<and>
    length hops = length (sort_positions positions) + length directions \<and>
    (\<forall>i < length hops. check_hop mode (length hops - 1) (i, hops ! i) = Inr ())"
proof -
  define s where "s = sort_positions positions"
  obtain p ps where s: "s = p # ps"
    using assms(1) by (cases s) (auto simp: topology_ok_def s_def)
  note ok = assms(1) [folded s_def, unfolded topology_ok_def]
  have one: "length (po_nodeIds q) = 1" if "q \<in> set s" for q
  proof -
    have "\<not> length (po_nodeIds q) > 1" "po_nodeIds q \<noteq> []"
      using assms(2) that ok by (auto simp: foldPositionsIntoHops_def Let_def s_def)
    then show ?thesis
      by (cases "po_nodeIds q") auto
  qed
  have one_d: "length (rd_nodeIds d) = 1" if "d \<in> set directions" for d
  proof -
    have "\<not> length (rd_nodeIds d) > 1" "rd_nodeIds d \<noteq> []"
      using assms(2) that by (auto simp: foldPositionsIntoHops_def Let_def)
    then show ?thesis
      by (cases "rd_nodeIds d") auto
  qed
  have hd_p: "map (\<lambda>q. hd (po_nodeIds q)) s = concat (map po_nodeIds s)"
    by (rule map_hd_concat) (simp add: one)
  have hd_d: "map (\<lambda>d. hd (rd_nodeIds d)) directions = concat (map rd_nodeIds directions)"
    by (rule map_hd_concat) (simp add: one_d)
  obtain n where n: "po_nodeIds p = [n]"
    using one [of p] by (auto simp: s length_Suc_conv)
  show ?thesis
  proof (cases "length directions > 1")
    case True
    then have ps: "ps = []"
      using assms(2) by (auto simp: foldPositionsIntoHops_def Let_def s_def [symmetric] s)
    have hops: "hops = \<lparr>hi_nodeId = hd (po_nodeIds p), hi_position = 0, hi_entryProtocol = kept (po_entryProtocol p),
          hi_linkProtocol = kept (po_linkProtocol p)\<rparr> #
        map (\<lambda>(i, d). \<lparr>hi_nodeId = hd (rd_nodeIds d), hi_position = i, hi_entryProtocol = None, hi_linkProtocol = None\<rparr>)
          (enumerate 1 directions)" and mode: "mode = Balancer"
      using assms(2) True by (auto simp: foldPositionsIntoHops_def Let_def s_def [symmetric] s)
    have "map hi_nodeId hops = all_nodes s directions"
      using hd_d by (simp add: hops all_nodes_def s ps n comp_def case_prod_unfold map_snd_enumerate [of "\<lambda>d. hd (rd_nodeIds d)"])
    moreover have "map hi_position hops = [0..<length hops]"
      by (simp add: hops comp_def case_prod_unfold map_fst_enumerate upt_conv_Cons del: upt_Suc)
    moreover have "check_hop mode (length hops - 1) (i, hops ! i) = Inr ()" if "i < length hops" for i
      using that ok by (cases i) (auto simp: hops mode check_hop_Inr s ps nth_enumerate_eq falsy_def)
    ultimately show ?thesis
      by (simp add: s_def [symmetric]) (simp add: hops s ps)
  next
    case False
    then obtain d where d: "directions = [d]"
      using ok by (cases directions) auto
    have hops: "hops = \<lparr>hi_nodeId = hd (po_nodeIds p), hi_position = 0, hi_entryProtocol = kept (po_entryProtocol p),
          hi_linkProtocol = kept (po_linkProtocol p)\<rparr> #
        map (\<lambda>(i, p). \<lparr>hi_nodeId = hd (po_nodeIds p), hi_position = i, hi_entryProtocol = None,
          hi_linkProtocol = kept (po_linkProtocol p)\<rparr>) (enumerate 1 ps) @
        [\<lparr>hi_nodeId = hd (rd_nodeIds d), hi_position = length s, hi_entryProtocol = None, hi_linkProtocol = None\<rparr>]"
      and mode: "mode = Chain"
      using assms(2) by (auto simp: foldPositionsIntoHops_def Let_def s_def [symmetric] s d)
    have "map hi_nodeId hops = all_nodes s directions"
      using hd_p hd_d
      by (simp add: hops all_nodes_def s d n comp_def case_prod_unfold map_snd_enumerate [of "\<lambda>p. hd (po_nodeIds p)"])
    moreover have "map hi_position hops = [0..<length hops]"
    proof -
      have "[0..<Suc (Suc (length ps))] = 0 # [Suc 0..<Suc (length ps)] @ [Suc (length ps)]"
        unfolding upt_conv_Cons [OF zero_less_Suc] by simp
      then show ?thesis
        by (simp add: hops s comp_def case_prod_unfold map_fst_enumerate del: upt_Suc)
    qed
    moreover have "check_hop mode (length hops - 1) (i, hops ! i) = Inr ()" if "i < length hops" for i
      using that ok by (cases i) (auto simp: hops mode check_hop_Inr s nth_append nth_enumerate_eq falsy_def)
    ultimately show ?thesis
      by (simp add: s_def [symmetric]) (simp add: hops s d)
  qed
qed

section \<open>Properties\<close>

text \<open>C27. The save decides exactly the rules of a cascade: it succeeds if and only if the positions
  are one to four and contiguous from 0, the entry alone names a user protocol and one the chain
  can take, every position has nodes and a leg some engine carries, a transit that carries
  several directions is reached over vless, every direction is either a pool or a named
  outbound, no outbound and no node is used twice anywhere, and the links stay under the cap.
  Then it returns the positions in path order and the number of links.\<close>

theorem validateCascadeTopology_decides:
  "validateCascadeTopology positions directions = Inr v \<longleftrightarrow>
   topology_ok (sort_positions positions) directions \<and>
   v = \<lparr>vt_positions = sort_positions positions, vt_directions = directions,
     vt_linkCount = countLinks (sort_positions positions) directions\<rparr>"
  by (rule validate_iff)

text \<open>The older storage can hold what folds: a topology the save accepted and that folds into
  hops gives hops in path order over exactly its nodes, and the hop rules accept them as they
  are whenever there are at most five. A chain always fits.\<close>

theorem folded_hops_validate:
  assumes "validateCascadeTopology positions directions = Inr v"
    and "foldPositionsIntoHops positions directions = Inr (hops, mode)"
  shows "map hi_nodeId hops = all_nodes (vt_positions v) (vt_directions v) \<and>
    (validateCascadeHops hops mode = Inr hops \<longleftrightarrow> length hops \<le> 5) \<and> (mode = Chain \<longrightarrow> length hops \<le> 5)"
proof -
  have ok: "topology_ok (sort_positions positions) directions"
    and v: "vt_positions v = sort_positions positions" "vt_directions v = directions"
    using assms(1) by (auto simp: validate_iff)
  note f = folded_hops [OF ok assms(2)]
  have two: "2 \<le> length hops"
  proof -
    have "sort_positions positions \<noteq> []" "directions \<noteq> []"
      using ok by (auto simp: topology_ok_def)
    then show ?thesis
      using f by (cases "sort_positions positions"; cases directions) auto
  qed
  have "distinct (map hi_nodeId hops)"
    using f ok by (simp add: topology_ok_def)
  moreover have "length hops \<le> 5" if "mode = Chain"
  proof -
    have "length directions \<le> 1"
      using assms(2) that by (auto simp: foldPositionsIntoHops_def Let_def split: if_splits)
    then show ?thesis
      using f ok by (auto simp: topology_ok_def)
  qed
  ultimately show ?thesis
    using f two v by (auto simp: validateCascadeHops_Inr)
qed

definition demo_positions :: "position_input list" where
  "demo_positions = [\<lparr>po_position = 0, po_nodeIds = [''a''], po_entryProtocol = Some ''xray'', po_linkProtocol = Some ''vless'',
     po_linkParams = None\<rparr>]"

definition demo_directions :: "resolved_direction list" where
  "demo_directions = [\<lparr>rd_id = None, rd_tag = None, rd_nodeIds = [''b''], rd_outboundId = None, rd_countryCode = Some ''NL'',
     rd_linkProtocol = None, rd_linkParams = None\<rparr>]"

lemma demo_validates:
  "validateCascadeTopology demo_positions demo_directions =
     Inr \<lparr>vt_positions = demo_positions, vt_directions = demo_directions, vt_linkCount = 1\<rparr>"
  by (simp add: validate_iff topology_ok_def demo_positions_def demo_directions_def sort_positions_def falsy_def
      CHAIN_ENTRY_PROTOCOLS_def linkCellFor_def LINK_CELLS_def outbounds_of_def all_nodes_def countLinks_def)

theorem folded_hops_validate_witness:
  "\<exists>hops mode. foldPositionsIntoHops demo_positions demo_directions = Inr (hops, mode) \<and> validateCascadeHops hops mode = Inr hops"
proof -
  obtain hops where hops: "foldPositionsIntoHops demo_positions demo_directions = Inr (hops, Chain)"
    by (simp add: foldPositionsIntoHops_def demo_positions_def demo_directions_def sort_positions_def unfoldable_def
        linkCellFor_def LINK_CELLS_def)
  then show ?thesis
    using folded_hops_validate [OF demo_validates hops] by blast
qed

end
