(* ===== verification/CascadeLinks.thy ===== *)
theory CascadeLinks
  imports CascadeTopology
begin

text \<open>
  The legs of a cascade (\<open>modules/cascades/cascade.config.ts\<close>): which legs a topology implies,
  what they are configured with, which ports and cells the receiving nodes get. Secrets come
  from the operating system; here they come from a source that answers the \<open>n\<close>-th draw, and the
  number of draws made so far is threaded through.
\<close>

section \<open>Credentials\<close>

definition LINK_PORT_BASE :: nat where
  "LINK_PORT_BASE = 24000"

definition SS_LINK_METHOD :: string where
  "SS_LINK_METHOD = ''2022-blake3-aes-256-gcm''"

definition DEFAULT_LINK_CONGESTION :: string where
  "DEFAULT_LINK_CONGESTION = ''bbr''"

definition LINK_CAMOUFLAGE_SNI :: string where
  "LINK_CAMOUFLAGE_SNI = ''www.apple.com''"

record reality =
  ry_privateKey :: string
  ry_publicKey :: string
  ry_shortId :: string
  ry_serverName :: string
  ry_dest :: string

text \<open>The TLS pair of a QUIC leg: certificate and key, in PEM.\<close>

type_synonym link_tls = "string \<times> string"

datatype link_cred =
    VlessCred (cred_port: nat) (cred_uuid: string) (cred_reality: "reality option")
  | SsCred (cred_port: nat) (cred_psk: string) (cred_method: string)
  | Hy2Cred (cred_port: nat) (cred_auth: string) (cred_obfs: string) (cred_tls: link_tls)
  | TuicCred (cred_port: nat) (cred_uuid: string) (cred_password: string) (cred_congestion: string) (cred_tls: link_tls)

fun cred_cell :: "link_cred \<Rightarrow> link_cell" where
  "cred_cell (VlessCred _ _ _) = Vless"
| "cred_cell (SsCred _ _ _) = Shadowsocks"
| "cred_cell (Hy2Cred _ _ _ _) = Hy2"
| "cred_cell (TuicCred _ _ _ _ _) = Tuic"

text \<open>The draws: random text, a REALITY key pair, a TLS pair.\<close>

record secrets =
  sc_text :: "nat \<Rightarrow> string"
  sc_keypair :: "nat \<Rightarrow> string \<times> string"
  sc_tls :: "nat \<Rightarrow> link_tls"

definition linkCamouflage :: "reality \<Rightarrow> reality" where
  "linkCamouflage r = r\<lparr>ry_serverName := LINK_CAMOUFLAGE_SNI, ry_dest := LINK_CAMOUFLAGE_SNI @ '':443''\<rparr>"

definition newLinkReality :: "secrets \<Rightarrow> nat \<Rightarrow> reality" where
  "newLinkReality sc n = linkCamouflage
     \<lparr>ry_privateKey = fst (sc_keypair sc n), ry_publicKey = snd (sc_keypair sc n), ry_shortId = sc_text sc n,
       ry_serverName = [], ry_dest = []\<rparr>"

fun newLinkCred :: "secrets \<Rightarrow> nat \<Rightarrow> link_cell \<Rightarrow> nat \<Rightarrow> string option \<Rightarrow> link_cred \<times> nat" where
  "newLinkCred sc n Shadowsocks port congestion = (SsCred port (sc_text sc n) SS_LINK_METHOD, n + 1)"
| "newLinkCred sc n Hy2 port congestion = (Hy2Cred port (sc_text sc n) (sc_text sc (n + 1)) (sc_tls sc n), n + 2)"
| "newLinkCred sc n Tuic port congestion =
     (TuicCred port (sc_text sc n) (sc_text sc (n + 1))
        (case congestion of None \<Rightarrow> DEFAULT_LINK_CONGESTION | Some c \<Rightarrow> c) (sc_tls sc n), n + 2)"
| "newLinkCred sc n Vless port congestion = (VlessCred port (sc_text sc n) (Some (newLinkReality sc (n + 1))), n + 2)"

section \<open>The plan: which legs there are\<close>

datatype link_error = NoCell "string option"

definition normalizeLinkProtocol :: "string option \<Rightarrow> link_error + link_cell" where
  "normalizeLinkProtocol p = (case linkCellFor p of None \<Rightarrow> Inl (NoCell p) | Some c \<Rightarrow> Inr c)"

record topo_direction =
  td_tag :: nat
  td_nodeIds :: "string list"
  td_linkProtocol :: "string option"
  td_linkParams :: "leg_params option"

record leg =
  lg_from :: string
  lg_to :: string
  lg_tag :: nat
  lg_cell :: link_cell
  lg_step :: nat
  lg_congestion :: "string option"

definition congestion_of :: "leg_params option \<Rightarrow> string option" where
  "congestion_of p = (case p of None \<Rightarrow> None | Some l \<Rightarrow> lp_congestion l)"

definition step_legs :: "nat \<Rightarrow> position_input \<Rightarrow> position_input \<Rightarrow> topo_direction list \<Rightarrow> link_cell \<Rightarrow> leg list" where
  "step_legs step p q ds c =
     concat (map (\<lambda>from. concat (map (\<lambda>to0. map (\<lambda>d.
       \<lparr>lg_from = from, lg_to = to0, lg_tag = td_tag d, lg_cell = c, lg_step = step,
         lg_congestion = congestion_of (po_linkParams p)\<rparr>) ds) (po_nodeIds q))) (po_nodeIds p))"

fun position_legs :: "nat \<Rightarrow> position_input list \<Rightarrow> topo_direction list \<Rightarrow> link_error + leg list" where
  "position_legs step (p # q # ps) ds =
     rbind (normalizeLinkProtocol (po_linkProtocol p)) (\<lambda>c.
     rbind (position_legs (Suc step) (q # ps) ds) (\<lambda>rest. Inr (step_legs step p q ds c @ rest)))"
| "position_legs step _ ds = Inr []"

definition direction_legs ::
    "nat \<Rightarrow> position_input \<Rightarrow> link_cell \<Rightarrow> string \<Rightarrow> topo_direction \<Rightarrow> link_error + leg list" where
  "direction_legs step lastp fallback from d =
     rbind (if falsy (td_linkProtocol d) then Inr fallback else normalizeLinkProtocol (td_linkProtocol d)) (\<lambda>c.
       Inr (map (\<lambda>to0. \<lparr>lg_from = from, lg_to = to0, lg_tag = td_tag d, lg_cell = c, lg_step = step,
         lg_congestion = (case congestion_of (td_linkParams d) of Some x \<Rightarrow> Some x | None \<Rightarrow> congestion_of (po_linkParams lastp))\<rparr>)
         (td_nodeIds d)))"

definition last_legs :: "position_input list \<Rightarrow> topo_direction list \<Rightarrow> link_error + leg list" where
  "last_legs ps ds =
     (if ps = [] then Inr []
      else
        rbind (normalizeLinkProtocol (po_linkProtocol (last ps))) (\<lambda>fallback.
        rbind (rmap (\<lambda>from. rmap (direction_legs (length ps - 1) (last ps) fallback from) ds) (po_nodeIds (last ps))) (\<lambda>lss.
          Inr (concat (concat lss)))))"

definition plan_legs :: "position_input list \<Rightarrow> topo_direction list \<Rightarrow> link_error + leg list" where
  "plan_legs ps ds =
     rbind (position_legs 0 ps ds) (\<lambda>a. rbind (last_legs ps ds) (\<lambda>b. Inr (a @ b)))"

section \<open>The links\<close>

definition topologyLinkKey :: "string \<Rightarrow> string \<Rightarrow> nat \<Rightarrow> string" where
  "topologyLinkKey from to0 tag = from @ ''|'' @ to0 @ ''|'' @ dec_of_nat tag"

definition leg_key :: "leg \<Rightarrow> string" where
  "leg_key l = topologyLinkKey (lg_from l) (lg_to l) (lg_tag l)"

definition leg_port :: "leg \<Rightarrow> nat" where
  "leg_port l = LINK_PORT_BASE + lg_step l"

definition reuseLinkCred :: "link_cred option \<Rightarrow> link_cell \<Rightarrow> nat \<Rightarrow> string option \<Rightarrow> link_cred option" where
  "reuseLinkCred stored cell port congestion =
     (case stored of
        None \<Rightarrow> None
      | Some s \<Rightarrow>
          if cred_cell s \<noteq> cell \<or> cred_port s \<noteq> port then None
          else if cred_cell s = Tuic \<and> \<not> falsy congestion \<and> Some (cred_congestion s) \<noteq> congestion
          then Some (TuicCred (cred_port s) (cred_uuid s) (cred_password s) (the congestion) (cred_tls s))
          else Some s)"

type_synonym stored_creds = "(string, link_cred) jsmap"

definition keptFor :: "stored_creds \<Rightarrow> leg \<Rightarrow> link_cred option" where
  "keptFor existing l = reuseLinkCred (map_get existing (leg_key l)) (lg_cell l) (leg_port l) (lg_congestion l)"

definition reality_of :: "link_cred option \<Rightarrow> reality option" where
  "reality_of c = (case c of Some (VlessCred _ _ r) \<Rightarrow> r | _ \<Rightarrow> None)"

text \<open>The REALITY block already stored against a receiving node, if any.\<close>

definition stored_reality :: "stored_creds \<Rightarrow> leg list \<Rightarrow> string \<Rightarrow> reality option" where
  "stored_reality existing plan node =
     (case List.find (\<lambda>c. reality_of c \<noteq> None)
        (map (keptFor existing) (filter (\<lambda>q. lg_to q = node \<and> lg_cell q = Vless) plan)) of
        None \<Rightarrow> None
      | Some c \<Rightarrow> reality_of c)"

fun node_keys ::
    "secrets \<Rightarrow> stored_creds \<Rightarrow> leg list \<Rightarrow> leg list \<Rightarrow> (string, reality) jsmap \<times> nat \<Rightarrow> (string, reality) jsmap \<times> nat" where
  "node_keys sc existing plan [] (keys, n) = (keys, n)"
| "node_keys sc existing plan (p # ps) (keys, n) =
     (if lg_cell p \<noteq> Vless \<or> map_get keys (lg_to p) \<noteq> None then node_keys sc existing plan ps (keys, n)
      else case stored_reality existing plan (lg_to p) of
        Some r \<Rightarrow> node_keys sc existing plan ps (map_set (lg_to p) (linkCamouflage r) keys, n)
      | None \<Rightarrow> node_keys sc existing plan ps (map_set (lg_to p) (newLinkReality sc n) keys, n + 1))"

record topology_link =
  tl_from :: string
  tl_to :: string
  tl_tag :: nat
  tl_cell :: link_cell
  tl_cred :: link_cred

text \<open>The node's pair with this leg's short id; a kept leg with no block draws one.\<close>

definition with_node_key :: "secrets \<Rightarrow> (string, reality) jsmap \<Rightarrow> string \<Rightarrow> link_cred \<Rightarrow> nat \<Rightarrow> link_cred \<times> nat" where
  "with_node_key sc keys node cred n =
     (case cred of
        VlessCred port uuid r \<Rightarrow>
          (let nodeKey = the (map_get keys node);
               (shortId, n') = (case r of Some b \<Rightarrow> (ry_shortId b, n) | None \<Rightarrow> (ry_shortId (newLinkReality sc n), n + 1)) in
           (VlessCred port uuid (Some (nodeKey\<lparr>ry_shortId := shortId\<rparr>)), n'))
      | _ \<Rightarrow> (cred, n))"

fun build_links ::
    "secrets \<Rightarrow> stored_creds \<Rightarrow> (string, reality) jsmap \<Rightarrow> leg list \<Rightarrow> nat \<Rightarrow> topology_link list \<times> nat" where
  "build_links sc existing keys [] n = ([], n)"
| "build_links sc existing keys (p # ps) n =
     (let (c0, n1) = (case keptFor existing p of
                        Some c \<Rightarrow> (c, n)
                      | None \<Rightarrow> newLinkCred sc n (lg_cell p) (leg_port p) (lg_congestion p));
          (cred, n2) = with_node_key sc keys (lg_to p) c0 n1;
          (rest, n3) = build_links sc existing keys ps n2 in
      (\<lparr>tl_from = lg_from p, tl_to = lg_to p, tl_tag = lg_tag p, tl_cell = lg_cell p, tl_cred = cred\<rparr> # rest, n3))"

definition generateTopologyLinks ::
    "secrets \<Rightarrow> nat \<Rightarrow> position_input list \<Rightarrow> topo_direction list \<Rightarrow> stored_creds \<Rightarrow> link_error + topology_link list \<times> nat" where
  "generateTopologyLinks sc n positions directions existing =
     rbind (plan_legs positions directions) (\<lambda>plan.
       let (keys, n1) = node_keys sc existing plan plan ([], n) in
       Inr (build_links sc existing keys plan n1))"

section \<open>Who receives what\<close>

record receiving_leg =
  rl_node :: string
  rl_step :: nat
  rl_cell :: link_cell

definition receive :: "nat \<Rightarrow> link_cell option \<Rightarrow> string list \<Rightarrow> receiving_leg list" where
  "receive step c nodes =
     (case c of None \<Rightarrow> [] | Some cell \<Rightarrow> map (\<lambda>n. \<lparr>rl_node = n, rl_step = step, rl_cell = cell\<rparr>) nodes)"

fun walk_positions :: "nat \<Rightarrow> position_input list \<Rightarrow> receiving_leg list" where
  "walk_positions step (p # q # ps) =
     receive step (linkCellFor (po_linkProtocol p)) (po_nodeIds q) @ walk_positions (Suc step) (q # ps)"
| "walk_positions step _ = []"

definition walkReceivingLegs :: "position_input list \<Rightarrow> topo_direction list \<Rightarrow> receiving_leg list" where
  "walkReceivingLegs positions directions =
     (let ordered = sort_positions positions in
      walk_positions 0 ordered @
      (if ordered = [] then []
       else
         let fallback = linkCellFor (po_linkProtocol (last ordered)) in
         concat (map (\<lambda>d. receive (length ordered - 1)
           (if falsy (td_linkProtocol d) then fallback else linkCellFor (td_linkProtocol d)) (td_nodeIds d)) directions)))"

definition topologyReceivingPorts :: "position_input list \<Rightarrow> topo_direction list \<Rightarrow> (string \<times> nat \<times> transport) list" where
  "topologyReceivingPorts positions directions =
     set_from (concat (map (\<lambda>l. map (\<lambda>t. (rl_node l, LINK_PORT_BASE + rl_step l, t)) (LINK_CELL_TRANSPORTS (rl_cell l)))
       (walkReceivingLegs positions directions)))"

definition topologyReceivingCells :: "position_input list \<Rightarrow> topo_direction list \<Rightarrow> (string \<times> link_cell) list" where
  "topologyReceivingCells positions directions =
     set_from (map (\<lambda>l. (rl_node l, rl_cell l)) (walkReceivingLegs positions directions))"

section \<open>REALITY for the legs stored without it\<close>

definition plain_vless :: "link_cred \<Rightarrow> bool" where
  "plain_vless c = (case c of VlessCred _ _ None \<Rightarrow> True | _ \<Rightarrow> False)"

fun give_reality :: "secrets \<Rightarrow> (string \<times> link_cred) list \<Rightarrow> (string, reality) jsmap \<times> nat \<Rightarrow> link_cred list \<times> nat" where
  "give_reality sc [] (keys, n) = ([], n)"
| "give_reality sc ((to0, c) # ls) (keys, n) =
     (if \<not> plain_vless c then
        let (cs, n') = give_reality sc ls (keys, n) in (c # cs, n')
      else
        let (key, keys', n1) = (case map_get keys to0 of
                                  Some k \<Rightarrow> (k, keys, n)
                                | None \<Rightarrow> (newLinkReality sc n, map_set to0 (newLinkReality sc n) keys, n + 1));
            (cs, n') = give_reality sc ls (keys', n1 + 1) in
        (VlessCred (cred_port c) (cred_uuid c) (Some (key\<lparr>ry_shortId := sc_text sc n1\<rparr>)) # cs, n'))"

definition first_keys :: "(string \<times> link_cred) list \<Rightarrow> (string, reality) jsmap" where
  "first_keys legs =
     foldl (\<lambda>keys (to0, c). case reality_of (Some c) of
        Some r \<Rightarrow> if map_get keys to0 = None then map_set to0 r keys else keys
      | None \<Rightarrow> keys) [] legs"

definition giveRealityToPlainVless :: "secrets \<Rightarrow> nat \<Rightarrow> (string \<times> link_cred) list \<Rightarrow> (link_cred list \<times> nat) option" where
  "giveRealityToPlainVless sc n legs =
     (if \<not> list_ex (\<lambda>(_, c). plain_vless c) legs then None
      else Some (give_reality sc legs (first_keys legs, n)))"

definition generateLinkCreds :: "secrets \<Rightarrow> nat \<Rightarrow> link_cell list \<Rightarrow> string option \<Rightarrow> link_cred list \<times> nat" where
  "generateLinkCreds sc n cells congestion =
     fold (\<lambda>(i, c) (cs, n). let (cred, n') = newLinkCred sc n c (LINK_PORT_BASE + i) congestion in (cs @ [cred], n'))
       (enumerate 0 cells) ([], n)"

section \<open>The plan in closed form\<close>

lemma concat_concat_map: "concat (concat (map (\<lambda>x. map (f x) ys) xs)) = concat (map (\<lambda>x. concat (map (f x) ys)) xs)"
  by (induction xs) simp_all

text \<open>The cell of the leg into a direction.\<close>

definition cell_into :: "position_input \<Rightarrow> topo_direction \<Rightarrow> link_cell option" where
  "cell_into p d = (if falsy (td_linkProtocol d) then linkCellFor (po_linkProtocol p) else linkCellFor (td_linkProtocol d))"

definition legs_into :: "nat \<Rightarrow> position_input \<Rightarrow> string \<Rightarrow> topo_direction \<Rightarrow> leg list" where
  "legs_into step p from d =
     map (\<lambda>to0. \<lparr>lg_from = from, lg_to = to0, lg_tag = td_tag d, lg_cell = the (cell_into p d), lg_step = step,
       lg_congestion = (case congestion_of (td_linkParams d) of Some x \<Rightarrow> Some x | None \<Rightarrow> congestion_of (po_linkParams p))\<rparr>)
       (td_nodeIds d)"

fun between_legs :: "nat \<Rightarrow> position_input list \<Rightarrow> topo_direction list \<Rightarrow> leg list" where
  "between_legs step (p # q # ps) ds =
     step_legs step p q ds (the (linkCellFor (po_linkProtocol p))) @ between_legs (Suc step) (q # ps) ds"
| "between_legs step _ ds = []"

definition out_legs :: "position_input list \<Rightarrow> topo_direction list \<Rightarrow> leg list" where
  "out_legs ps ds = concat (map (\<lambda>from. concat (map (legs_into (length ps - 1) (last ps) from) ds)) (po_nodeIds (last ps)))"

text \<open>Every leg names a cell: what the validators and the schema leave.\<close>

definition cells_ok :: "position_input list \<Rightarrow> topo_direction list \<Rightarrow> bool" where
  "cells_ok ps ds \<longleftrightarrow> ps \<noteq> [] \<and> (\<forall>p \<in> set ps. linkCellFor (po_linkProtocol p) \<noteq> None) \<and>
     (\<forall>d \<in> set ds. falsy (td_linkProtocol d) \<or> linkCellFor (td_linkProtocol d) \<noteq> None)"

lemma normalize_total: "linkCellFor p \<noteq> None \<Longrightarrow> normalizeLinkProtocol p = Inr (the (linkCellFor p))"
  by (auto simp: normalizeLinkProtocol_def)

lemma position_legs_total:
  "(\<forall>p \<in> set ps. linkCellFor (po_linkProtocol p) \<noteq> None) \<Longrightarrow> position_legs step ps ds = Inr (between_legs step ps ds)"
  by (induction step ps ds rule: position_legs.induct) (simp_all add: normalize_total)

lemma direction_legs_total:
  assumes "linkCellFor (po_linkProtocol p) \<noteq> None" and "falsy (td_linkProtocol d) \<or> linkCellFor (td_linkProtocol d) \<noteq> None"
  shows "direction_legs step p (the (linkCellFor (po_linkProtocol p))) from d = Inr (legs_into step p from d)"
  using assms by (auto simp: direction_legs_def legs_into_def cell_into_def normalize_total)

lemma last_legs_total:
  assumes "cells_ok ps ds"
  shows "last_legs ps ds = Inr (out_legs ps ds)"
proof -
  have cell: "linkCellFor (po_linkProtocol (last ps)) \<noteq> None" and ne: "ps \<noteq> []"
    using assms by (auto simp: cells_ok_def)
  have inner: "rmap (direction_legs (length ps - 1) (last ps) (the (linkCellFor (po_linkProtocol (last ps)))) from) ds =
      Inr (map (legs_into (length ps - 1) (last ps) from) ds)" for "from"
    using assms cell by (intro rmap_total direction_legs_total) (auto simp: cells_ok_def)
  have "rmap (\<lambda>from. rmap (direction_legs (length ps - 1) (last ps) (the (linkCellFor (po_linkProtocol (last ps)))) from) ds)
      (po_nodeIds (last ps)) = Inr (map (\<lambda>from. map (legs_into (length ps - 1) (last ps) from) ds) (po_nodeIds (last ps)))"
    by (rule rmap_total) (rule inner)
  then show ?thesis
    using ne by (simp add: last_legs_def normalize_total [OF cell] out_legs_def concat_concat_map)
qed

lemma plan_total: "cells_ok ps ds \<Longrightarrow> plan_legs ps ds = Inr (between_legs 0 ps ds @ out_legs ps ds)"
  by (simp add: plan_legs_def last_legs_total position_legs_total cells_ok_def)

lemma step_legs_length: "length (step_legs step p q ds c) = length ds * (length (po_nodeIds p) * length (po_nodeIds q))"
  by (simp add: step_legs_def length_concat comp_def sum_list_triv)

lemma between_legs_length: "length (between_legs step ps ds) = length ds * pair_links ps"
  by (induction step ps ds rule: between_legs.induct) (simp_all add: step_legs_length distrib_left)

lemma out_legs_length:
  "length (out_legs ps ds) = sum_list (map (\<lambda>d. length (po_nodeIds (last ps)) * length (td_nodeIds d)) ds)"
  by (simp add: out_legs_def legs_into_def length_concat comp_def sum_list_triv sum_list_const_mult)

section \<open>Who receives: one listener per node\<close>

definition landing :: "leg \<Rightarrow> string \<times> nat \<times> link_cell" where
  "landing l = (lg_to l, lg_step l, lg_cell l)"

definition receiving :: "receiving_leg \<Rightarrow> string \<times> nat \<times> link_cell" where
  "receiving r = (rl_node r, rl_step r, rl_cell r)"

lemma receive_set: "receiving ` set (receive step c nodes) = (case c of None \<Rightarrow> {} | Some cell \<Rightarrow> (\<lambda>n. (n, step, cell)) ` set nodes)"
  by (simp add: receive_def receiving_def image_image split: option.split)

lemma legs_into_set:
  "landing ` set (legs_into step p from d) = (\<lambda>n. (n, step, the (cell_into p d))) ` set (td_nodeIds d)"
  by (simp add: legs_into_def landing_def image_image)

lemma step_legs_set:
  "po_nodeIds p \<noteq> [] \<Longrightarrow> ds \<noteq> [] \<Longrightarrow> landing ` set (step_legs step p q ds c) = (\<lambda>n. (n, step, c)) ` set (po_nodeIds q)"
  by (auto simp: step_legs_def landing_def image_UN image_image image_constant_conv)

lemma between_legs_set:
  "(\<forall>p \<in> set ps. po_nodeIds p \<noteq> [] \<and> linkCellFor (po_linkProtocol p) \<noteq> None) \<Longrightarrow> ds \<noteq> [] \<Longrightarrow>
   landing ` set (between_legs step ps ds) = receiving ` set (walk_positions step ps)"
  by (induction step ps ds rule: between_legs.induct) (auto simp: image_Un step_legs_set receive_set split: option.splits)

lemma out_legs_set:
  assumes "cells_ok ps ds" and "po_nodeIds (last ps) \<noteq> []"
  shows "landing ` set (out_legs ps ds) =
    receiving ` set (concat (map (\<lambda>d. receive (length ps - 1) (cell_into (last ps) d) (td_nodeIds d)) ds))"
proof -
  have cell: "cell_into (last ps) d \<noteq> None" if "d \<in> set ds" for d
    using assms(1) that by (auto simp: cells_ok_def cell_into_def)
  have "landing ` set (out_legs ps ds) = (\<Union>d \<in> set ds. (\<lambda>n. (n, length ps - 1, the (cell_into (last ps) d))) ` set (td_nodeIds d))"
    using assms(2) by (simp add: out_legs_def image_UN legs_into_set)
  also have "\<dots> = (\<Union>d \<in> set ds. receiving ` set (receive (length ps - 1) (cell_into (last ps) d) (td_nodeIds d)))"
  proof (intro SUP_cong refl)
    fix d
    assume "d \<in> set ds"
    then obtain c where "cell_into (last ps) d = Some c"
      using cell by blast
    then show "(\<lambda>n. (n, length ps - 1, the (cell_into (last ps) d))) ` set (td_nodeIds d) =
        receiving ` set (receive (length ps - 1) (cell_into (last ps) d) (td_nodeIds d))"
      by (simp add: receive_set)
  qed
  finally show ?thesis
    by (simp add: image_UN)
qed

lemma plan_landings:
  assumes "cells_ok ps ds" and "\<forall>p \<in> set ps. po_nodeIds p \<noteq> []" and "ds \<noteq> []" and "sort_positions ps = ps"
  shows "landing ` set (between_legs 0 ps ds @ out_legs ps ds) = receiving ` set (walkReceivingLegs ps ds)"
proof -
  have ne: "ps \<noteq> []" and cells: "\<forall>p \<in> set ps. po_nodeIds p \<noteq> [] \<and> linkCellFor (po_linkProtocol p) \<noteq> None"
    using assms by (auto simp: cells_ok_def)
  have "po_nodeIds (last ps) \<noteq> []"
    using assms(2) ne by simp
  note out = out_legs_set [OF assms(1) this]
  show ?thesis
    unfolding set_append image_Un out between_legs_set [OF cells assms(3)]
    using ne by (simp add: walkReceivingLegs_def assms(4) Let_def cell_into_def [abs_def] image_Un)
qed

lemma distinct_concat_unique:
  assumes "distinct (concat xss)" and "i < length xss" and "j < length xss" and "n \<in> set (xss ! i)" and "n \<in> set (xss ! j)"
  shows "i = j"
  using assms
proof (induction xss arbitrary: i j)
  case (Cons xs xss)
  have later: "n \<in> set (concat xss)" if "k < length xss" "n \<in> set (xss ! k)" for k
    using that by (auto intro: bexI [of _ "xss ! k"])
  have off: "n \<in> set xs \<Longrightarrow> n \<notin> set (concat xss)"
    using Cons.prems(1) by auto
  show ?case
  proof (cases "i = 0 \<or> j = 0")
    case True
    then show ?thesis
      using Cons.prems off later [of "i - 1"] later [of "j - 1"] by (cases i; cases j) auto
  next
    case False
    then obtain i' j' where "i = Suc i'" "j = Suc j'"
      by (metis not0_implies_Suc)
    then show ?thesis
      using Cons.IH [of i' j'] Cons.prems by auto
  qed
qed simp

lemma walk_positions_at:
  "(n, s, c) \<in> receiving ` set (walk_positions step ps) \<Longrightarrow>
   \<exists>i. s = step + i \<and> Suc i < length ps \<and> n \<in> set (po_nodeIds (ps ! Suc i)) \<and> linkCellFor (po_linkProtocol (ps ! i)) = Some c"
proof (induction step ps rule: walk_positions.induct)
  case (1 step p q ps)
  then consider "(n, s, c) \<in> receiving ` set (receive step (linkCellFor (po_linkProtocol p)) (po_nodeIds q))"
    | "(n, s, c) \<in> receiving ` set (walk_positions (Suc step) (q # ps))"
    by auto
  then show ?case
  proof cases
    case 1
    then show ?thesis
      by (intro exI [of _ 0]) (auto simp: receive_set split: option.splits)
  next
    case 2
    then obtain i where "s = Suc step + i" "Suc i < length (q # ps)" "n \<in> set (po_nodeIds ((q # ps) ! Suc i))"
        "linkCellFor (po_linkProtocol ((q # ps) ! i)) = Some c"
      using "1.IH" by blast
    then show ?thesis
      by (intro exI [of _ "Suc i"]) simp
  qed
qed simp_all

text \<open>No node lands two different legs: the nodes of a cascade are pairwise different.\<close>

lemma one_landing:
  assumes nodes: "distinct (concat (map po_nodeIds ps) @ concat (map td_nodeIds ds))" and sorted: "sort_positions ps = ps"
    and a: "(n, s, c) \<in> receiving ` set (walkReceivingLegs ps ds)" and b: "(n, s', c') \<in> receiving ` set (walkReceivingLegs ps ds)"
  shows "s = s' \<and> c = c'"
proof -
  have walk_set: "receiving ` set (walkReceivingLegs ps ds) = receiving ` set (walk_positions 0 ps) \<union>
      (if ps = [] then {} else \<Union>d \<in> set ds. receiving ` set (receive (length ps - 1) (cell_into (last ps) d) (td_nodeIds d)))"
    by (simp add: walkReceivingLegs_def Let_def sorted cell_into_def [abs_def] image_Un image_UN)
  have cases: "(\<exists>i. s = i \<and> Suc i < length ps \<and> n \<in> set (po_nodeIds (ps ! Suc i)) \<and> linkCellFor (po_linkProtocol (ps ! i)) = Some c) \<or>
      (\<exists>j < length ds. s = length ps - 1 \<and> n \<in> set (td_nodeIds (ds ! j)) \<and> cell_into (last ps) (ds ! j) = Some c)"
    if "(n, s, c) \<in> receiving ` set (walkReceivingLegs ps ds)" for s c
  proof -
    have "(n, s, c) \<in> receiving ` set (walk_positions 0 ps) \<or>
        (\<exists>d \<in> set ds. (n, s, c) \<in> receiving ` set (receive (length ps - 1) (cell_into (last ps) d) (td_nodeIds d)))"
      using that unfolding walk_set by (auto split: if_splits)
    then show ?thesis
    proof
      assume "(n, s, c) \<in> receiving ` set (walk_positions 0 ps)"
      then show ?thesis
        using walk_positions_at [of n s c 0 ps] by simp
    next
      assume "\<exists>d \<in> set ds. (n, s, c) \<in> receiving ` set (receive (length ps - 1) (cell_into (last ps) d) (td_nodeIds d))"
      then obtain j where j: "j < length ds"
          "(n, s, c) \<in> receiving ` set (receive (length ps - 1) (cell_into (last ps) (ds ! j)) (td_nodeIds (ds ! j)))"
        by (metis in_set_conv_nth)
      then show ?thesis
        by (intro disjI2 exI [of _ j]) (auto simp: receive_set split: option.splits)
    qed
  qed
  have apart: "set (po_nodeIds p) \<inter> set (td_nodeIds d) = {}" if "p \<in> set ps" "d \<in> set ds" for p d
    using nodes that by auto
  have pos: "i = j" if "i < length ps" "j < length ps" "n \<in> set (po_nodeIds (ps ! i))" "n \<in> set (po_nodeIds (ps ! j))" for i j
    using nodes that distinct_concat_unique [of "map po_nodeIds ps" i j n] by simp
  have dir: "i = j" if "i < length ds" "j < length ds" "n \<in> set (td_nodeIds (ds ! i))" "n \<in> set (td_nodeIds (ds ! j))" for i j
    using nodes that distinct_concat_unique [of "map td_nodeIds ds" i j n] by simp
  show ?thesis
    using cases [OF a] cases [OF b]
  proof (elim disjE exE conjE)
    fix i j
    assume "s = i" "Suc i < length ps" "n \<in> set (po_nodeIds (ps ! Suc i))" "linkCellFor (po_linkProtocol (ps ! i)) = Some c"
      "s' = j" "Suc j < length ps" "n \<in> set (po_nodeIds (ps ! Suc j))" "linkCellFor (po_linkProtocol (ps ! j)) = Some c'"
    then show ?thesis
      using pos [of "Suc i" "Suc j"] by simp
  next
    fix i j
    assume "Suc i < length ps" "n \<in> set (po_nodeIds (ps ! Suc i))" "j < length ds" "n \<in> set (td_nodeIds (ds ! j))"
    then show ?thesis
      using apart [of "ps ! Suc i" "ds ! j"] by auto
  next
    fix i j
    assume "Suc i < length ps" "n \<in> set (po_nodeIds (ps ! Suc i))" "j < length ds" "n \<in> set (td_nodeIds (ds ! j))"
    then show ?thesis
      using apart [of "ps ! Suc i" "ds ! j"] by auto
  next
    fix i j
    assume "i < length ds" "n \<in> set (td_nodeIds (ds ! i))" "cell_into (last ps) (ds ! i) = Some c" "s = length ps - 1"
      "j < length ds" "n \<in> set (td_nodeIds (ds ! j))" "cell_into (last ps) (ds ! j) = Some c'" "s' = length ps - 1"
    then show ?thesis
      using dir [of i j] by simp
  qed
qed

section \<open>Credentials fit their leg\<close>

definition fits :: "leg \<Rightarrow> link_cred \<Rightarrow> bool" where
  "fits l c \<longleftrightarrow> cred_cell c = lg_cell l \<and> cred_port c = leg_port l \<and>
     (cred_cell c = Tuic \<and> \<not> falsy (lg_congestion l) \<longrightarrow> Some (cred_congestion c) = lg_congestion l)"

lemma keptFor_fits: "keptFor existing l = Some c \<Longrightarrow> fits l c"
  by (auto simp: keptFor_def reuseLinkCred_def fits_def falsy_def split: option.splits if_splits)

lemma newLinkCred_fits: "fits l (fst (newLinkCred sc n (lg_cell l) (leg_port l) (lg_congestion l)))"
  by (cases "lg_cell l") (auto simp: fits_def falsy_def split: option.splits)

lemma keptFor_same: "map_get existing (leg_key l) = Some c \<Longrightarrow> fits l c \<Longrightarrow> keptFor existing l = Some c"
  by (auto simp: keptFor_def reuseLinkCred_def fits_def)

text \<open>What a finished link looks like: the leg it stands for, a credential that fits, and for
  vless the node's pair.\<close>

definition link_of :: "(string, reality) jsmap \<Rightarrow> leg \<Rightarrow> topology_link \<Rightarrow> bool" where
  "link_of keys l t \<longleftrightarrow> tl_from t = lg_from l \<and> tl_to t = lg_to l \<and> tl_tag t = lg_tag l \<and> tl_cell t = lg_cell l \<and>
     fits l (tl_cred t) \<and>
     (lg_cell l = Vless \<longrightarrow> (\<exists>u x. tl_cred t = VlessCred (leg_port l) u (Some ((the (map_get keys (lg_to l)))\<lparr>ry_shortId := x\<rparr>))))"

lemma with_node_key_link:
  assumes "fits l c" and "with_node_key sc keys (lg_to l) c n = (c', n')"
  shows "link_of keys l \<lparr>tl_from = lg_from l, tl_to = lg_to l, tl_tag = lg_tag l, tl_cell = lg_cell l, tl_cred = c'\<rparr>"
  using assms by (cases c) (auto simp: with_node_key_def link_of_def fits_def Let_def split: option.splits)

lemma build_links_spec: "list_all2 (link_of keys) plan (fst (build_links sc existing keys plan n))"
proof (induction plan arbitrary: n)
  case (Cons l plan)
  define c0n where "c0n = (case keptFor existing l of Some c \<Rightarrow> (c, n)
      | None \<Rightarrow> newLinkCred sc n (lg_cell l) (leg_port l) (lg_congestion l))"
  have "fits l (fst c0n)"
    using keptFor_fits [of existing l] newLinkCred_fits [of l sc n] by (auto simp: c0n_def split: option.split)
  then have "link_of keys l \<lparr>tl_from = lg_from l, tl_to = lg_to l, tl_tag = lg_tag l, tl_cell = lg_cell l,
      tl_cred = fst (with_node_key sc keys (lg_to l) (fst c0n) (snd c0n))\<rparr>"
    by (rule with_node_key_link [where n' = "snd (with_node_key sc keys (lg_to l) (fst c0n) (snd c0n))"]) simp
  then show ?case
    using Cons.IH by (simp add: c0n_def [symmetric] case_prod_unfold Let_def)
qed simp

lemma node_keys_keep:
  "map_get keys k = Some r \<Longrightarrow> map_get (fst (node_keys sc existing plan ps (keys, n))) k = Some r"
proof (induction ps arbitrary: keys n)
  case (Cons p ps)
  have "k \<noteq> lg_to p" if "map_get keys (lg_to p) = None"
    using that Cons.prems by auto
  then show ?case
    using Cons by (auto split: option.split)
qed simp

lemma node_keys_domain:
  "p \<in> set ps \<Longrightarrow> lg_cell p = Vless \<Longrightarrow> \<exists>r. map_get (fst (node_keys sc existing plan ps (keys, n))) (lg_to p) = Some r"
proof (induction ps arbitrary: keys n)
  case (Cons q ps)
  show ?case
  proof (cases "p = q")
    case True
    then show ?thesis
      using Cons.prems(2) node_keys_keep by (cases "map_get keys (lg_to q)") (auto split: option.splits)
  next
    case False
    then show ?thesis
      using Cons by (auto split: option.splits)
  qed
qed simp

definition camouflaged :: "(string, reality) jsmap \<Rightarrow> bool" where
  "camouflaged keys \<longleftrightarrow> (\<forall>k r. map_get keys k = Some r \<longrightarrow> linkCamouflage r = r)"

lemma node_keys_camouflage:
  assumes "camouflaged keys"
  shows "camouflaged (fst (node_keys sc existing plan ps (keys, n)))"
  using assms
proof (induction ps arbitrary: keys n)
  case (Cons p ps)
  have idem: "linkCamouflage (linkCamouflage r) = linkCamouflage r" for r
    by (simp add: linkCamouflage_def)
  have step: "camouflaged (map_set k v keys)" if "linkCamouflage v = v" for k v
    using Cons.prems that by (auto simp: camouflaged_def)
  show ?case
  proof (cases "lg_cell p \<noteq> Vless \<or> map_get keys (lg_to p) \<noteq> None")
    case True
    then show ?thesis
      using Cons.IH [OF Cons.prems] by simp
  next
    case False
    have new: "linkCamouflage (newLinkReality sc n) = newLinkReality sc n"
      by (simp add: newLinkReality_def idem)
    show ?thesis
    proof (cases "stored_reality existing plan (lg_to p)")
      case None
      then show ?thesis
        using False Cons.IH [OF step [OF new, of "lg_to p"], of "n + 1"] by simp
    next
      case (Some r)
      then show ?thesis
        using False Cons.IH [OF step [OF idem, of "lg_to p" r], of n] by simp
    qed
  qed
qed simp

section \<open>A save keeps the secrets\<close>

definition stored_of :: "topology_link list \<Rightarrow> stored_creds" where
  "stored_of links = map (\<lambda>t. (topologyLinkKey (tl_from t) (tl_to t) (tl_tag t), tl_cred t)) links"

lemma stored_of_get:
  assumes "list_all2 (link_of keys) plan links" and "distinct (map leg_key plan)"
  shows "list_all2 (\<lambda>l t. map_get (stored_of links) (leg_key l) = Some (tl_cred t)) plan links"
proof -
  have keys: "map fst (stored_of links) = map leg_key plan"
    using assms(1) by (induction rule: list_all2_induct) (auto simp: stored_of_def link_of_def leg_key_def)
  show ?thesis
    unfolding list_all2_conv_all_nth
  proof (intro conjI allI impI)
    show len: "length plan = length links"
      using assms(1) by (rule list_all2_lengthD)
    fix i
    assume i: "i < length plan"
    have "(leg_key (plan ! i), tl_cred (links ! i)) \<in> set (stored_of links)"
      using i len arg_cong [OF keys, of "\<lambda>ks. ks ! i"] by (force simp: stored_of_def in_set_conv_nth)
    then show "map_get (stored_of links) (leg_key (plan ! i)) = Some (tl_cred (links ! i))"
      using assms(2) keys by (simp add: map_of_eq_Some_iff)
  qed
qed

lemma kept_again:
  assumes "list_all2 (link_of keys) plan links" and "distinct (map leg_key plan)"
  shows "list_all2 (\<lambda>l t. keptFor (stored_of links) l = Some (tl_cred t)) plan links"
  using stored_of_get [OF assms] assms(1)
  by (auto simp: list_all2_conv_all_nth link_of_def intro!: keptFor_same)

lemma stored_reality_again:
  assumes links: "list_all2 (link_of keys) plan links" and "distinct (map leg_key plan)"
    and p: "p \<in> set plan" "lg_cell p = Vless"
  shows "\<exists>x. stored_reality (stored_of links) plan (lg_to p) = Some ((the (map_get keys (lg_to p)))\<lparr>ry_shortId := x\<rparr>)"
proof -
  let ?qs = "filter (\<lambda>q. lg_to q = lg_to p \<and> lg_cell q = Vless) plan"
  have each: "\<exists>u x. keptFor (stored_of links) q = Some (VlessCred (leg_port q) u (Some ((the (map_get keys (lg_to q)))\<lparr>ry_shortId := x\<rparr>)))"
    if "q \<in> set plan" "lg_cell q = Vless" for q
    using kept_again [OF assms(1,2)] links that
    by (auto simp: list_all2_conv_all_nth in_set_conv_nth link_of_def)
  obtain q qs where q: "?qs = q # qs"
    using p by (cases ?qs) (auto simp: filter_empty_conv)
  then have "q \<in> set plan" "lg_cell q = Vless" "lg_to q = lg_to p"
    by (metis (mono_tags, lifting) filter_eq_ConsD in_set_conv_decomp)+
  then show ?thesis
    using each [of q] by (auto simp: stored_reality_def q reality_of_def)
qed

definition same_keys :: "(string, reality) jsmap \<Rightarrow> (string, reality) jsmap \<Rightarrow> bool" where
  "same_keys keys ks \<longleftrightarrow> (\<forall>k r. map_get ks k = Some r \<longrightarrow> (\<exists>x. r = (the (map_get keys k))\<lparr>ry_shortId := x\<rparr>))"

lemma node_keys_again:
  assumes links: "list_all2 (link_of keys) plan links" and dist: "distinct (map leg_key plan)" and camo: "camouflaged keys"
    and dom: "\<And>p. p \<in> set plan \<Longrightarrow> lg_cell p = Vless \<Longrightarrow> \<exists>r. map_get keys (lg_to p) = Some r"
  shows "set ps \<subseteq> set plan \<Longrightarrow> same_keys keys ks \<Longrightarrow>
    same_keys keys (fst (node_keys sc (stored_of links) plan ps (ks, n))) \<and> snd (node_keys sc (stored_of links) plan ps (ks, n)) = n"
proof (induction ps arbitrary: ks n)
  case (Cons p ps)
  show ?case
  proof (cases "lg_cell p \<noteq> Vless \<or> map_get ks (lg_to p) \<noteq> None")
    case True
    then show ?thesis
      using Cons by auto
  next
    case False
    then have p: "p \<in> set plan" "lg_cell p = Vless"
      using Cons.prems by auto
    obtain x where x: "stored_reality (stored_of links) plan (lg_to p) = Some ((the (map_get keys (lg_to p)))\<lparr>ry_shortId := x\<rparr>)"
      using stored_reality_again [OF links dist p] by blast
    obtain r where r: "map_get keys (lg_to p) = Some r"
      using dom [OF p] by blast
    have "linkCamouflage r = r"
      using camo r by (simp add: camouflaged_def)
    then have c: "linkCamouflage (r\<lparr>ry_shortId := x\<rparr>) = r\<lparr>ry_shortId := x\<rparr>"
      by (cases r) (simp add: linkCamouflage_def)
    have "same_keys keys (map_set (lg_to p) (r\<lparr>ry_shortId := x\<rparr>) ks)"
      using Cons.prems(2) r by (auto simp: same_keys_def)
    then show ?thesis
      using Cons.IH [of "map_set (lg_to p) (r\<lparr>ry_shortId := x\<rparr>) ks" n] Cons.prems(1) False x r c by simp
  qed
qed simp

lemma with_node_key_again:
  assumes "link_of keys l t" and "lg_cell l = Vless \<longrightarrow> (\<exists>x. map_get ks (lg_to l) = Some ((the (map_get keys (lg_to l)))\<lparr>ry_shortId := x\<rparr>))"
  shows "with_node_key sc ks (lg_to l) (tl_cred t) n = (tl_cred t, n)"
  using assms by (cases "tl_cred t") (auto simp: with_node_key_def link_of_def fits_def)

lemma build_links_again:
  "list_all2 (\<lambda>l t. link_of keys l t \<and> keptFor ex l = Some (tl_cred t) \<and>
     (lg_cell l = Vless \<longrightarrow> (\<exists>x. map_get ks (lg_to l) = Some ((the (map_get keys (lg_to l)))\<lparr>ry_shortId := x\<rparr>)))) plan links \<Longrightarrow>
   build_links sc ex ks plan n = (links, n)"
proof (induction arbitrary: n rule: list_all2_induct)
  case (Cons l plan t links)
  have "t = \<lparr>tl_from = lg_from l, tl_to = lg_to l, tl_tag = lg_tag l, tl_cell = lg_cell l, tl_cred = tl_cred t\<rparr>"
    using Cons.hyps(1) by (simp add: link_of_def)
  then show ?case
    using Cons with_node_key_again [of keys l t ks sc n] by simp
qed simp

lemma regenerate:
  assumes links: "list_all2 (link_of keys) plan links" and dist: "distinct (map leg_key plan)" and camo: "camouflaged keys"
    and dom: "\<And>p. p \<in> set plan \<Longrightarrow> lg_cell p = Vless \<Longrightarrow> \<exists>r. map_get keys (lg_to p) = Some r"
  shows "(let (ks, m) = node_keys sc (stored_of links) plan plan ([], n) in build_links sc (stored_of links) ks plan m) = (links, n)"
proof -
  obtain ks m where nk: "node_keys sc (stored_of links) plan plan ([], n) = (ks, m)"
    by fastforce
  have same: "same_keys keys ks" and m: "m = n"
    using node_keys_again [OF links dist camo dom, of plan "[]" sc n] nk by (auto simp: same_keys_def)
  have have_key: "\<exists>x. map_get ks (lg_to l) = Some ((the (map_get keys (lg_to l)))\<lparr>ry_shortId := x\<rparr>)"
    if "l \<in> set plan" "lg_cell l = Vless" for l
    using node_keys_domain [OF that, of sc "stored_of links" plan "[]" n] same nk by (auto simp: same_keys_def)
  have "list_all2 (\<lambda>l t. link_of keys l t \<and> keptFor (stored_of links) l = Some (tl_cred t) \<and>
     (lg_cell l = Vless \<longrightarrow> (\<exists>x. map_get ks (lg_to l) = Some ((the (map_get keys (lg_to l)))\<lparr>ry_shortId := x\<rparr>)))) plan links"
    using links kept_again [OF links dist] have_key by (auto simp: list_all2_conv_all_nth)
  then show ?thesis
    using build_links_again nk m by simp
qed

section \<open>The keys of the legs are different\<close>

lemma distinct_concat_map:
  "distinct xs \<Longrightarrow> (\<And>x. x \<in> set xs \<Longrightarrow> distinct (g x)) \<Longrightarrow>
   (\<And>x y. x \<in> set xs \<Longrightarrow> y \<in> set xs \<Longrightarrow> x \<noteq> y \<Longrightarrow> set (g x) \<inter> set (g y) = {}) \<Longrightarrow> distinct (concat (map g xs))"
  by (induction xs) fastforce+

definition triple :: "leg \<Rightarrow> string \<times> string \<times> nat" where
  "triple l = (lg_from l, lg_to l, lg_tag l)"

lemma step_legs_triples:
  "map triple (step_legs step p q ds c) =
   concat (map (\<lambda>f. concat (map (\<lambda>t. map (\<lambda>d. (f, t, td_tag d)) ds) (po_nodeIds q))) (po_nodeIds p))"
  by (simp add: step_legs_def map_concat comp_def triple_def)

lemma step_legs_distinct:
  assumes "distinct (po_nodeIds p)" and "distinct (po_nodeIds q)" and "distinct (map td_tag ds)"
  shows "distinct (map triple (step_legs step p q ds c))"
proof -
  have tags: "distinct (map (\<lambda>d. (f, t, td_tag d)) ds)" for f t :: string
    using assms(3) by (induction ds) (auto simp: image_iff)
  show ?thesis
    unfolding step_legs_triples using assms(1,2) tags by (intro distinct_concat_map) auto
qed

lemma step_legs_to: "l \<in> set (step_legs step p q ds c) \<Longrightarrow> lg_to l \<in> set (po_nodeIds q)"
  by (auto simp: step_legs_def)

lemma between_legs_to: "l \<in> set (between_legs step ps ds) \<Longrightarrow> lg_to l \<in> set (concat (map po_nodeIds (tl ps)))"
  by (induction step ps ds rule: between_legs.induct) (auto dest!: step_legs_to)

lemma between_legs_distinct:
  "distinct (concat (map po_nodeIds ps)) \<Longrightarrow> distinct (map td_tag ds) \<Longrightarrow> distinct (map triple (between_legs step ps ds))"
proof (induction step ps ds rule: between_legs.induct)
  case (1 step p q ps ds)
  have nodes: "distinct (po_nodeIds p)" "distinct (po_nodeIds q)" "distinct (concat (map po_nodeIds (q # ps)))"
    "set (po_nodeIds q) \<inter> set (concat (map po_nodeIds ps)) = {}"
    using "1.prems"(1) by auto
  have "set (map triple (step_legs step p q ds c)) \<inter> set (map triple (between_legs (Suc step) (q # ps) ds)) = {}" for c
  proof -
    have "lg_to l \<in> set (concat (map po_nodeIds ps))" if "l \<in> set (between_legs (Suc step) (q # ps) ds)" for l
      using between_legs_to [OF that] by simp
    then show ?thesis
      using nodes(4) by (fastforce simp: triple_def dest: step_legs_to)
  qed
  then show ?case
    using "1.IH" [OF nodes(3) "1.prems"(2)] step_legs_distinct [OF nodes(1,2) "1.prems"(2)] by simp
qed simp_all

lemma out_legs_triples:
  "map triple (out_legs ps ds) =
   concat (map (\<lambda>f. concat (map (\<lambda>d. map (\<lambda>t. (f, t, td_tag d)) (td_nodeIds d)) ds)) (po_nodeIds (last ps)))"
  by (simp add: out_legs_def legs_into_def map_concat comp_def triple_def)

lemma out_legs_distinct:
  assumes "distinct (po_nodeIds (last ps))" and "distinct (concat (map td_nodeIds ds))" and "distinct (map td_tag ds)"
  shows "distinct (map triple (out_legs ps ds))"
proof -
  have nodes: "distinct (td_nodeIds d)" if "d \<in> set ds" for d
    using assms(2) that by (simp add: distinct_concat_iff)
  have inner: "distinct (concat (map (\<lambda>d. map (\<lambda>t. (f, t, td_tag d)) (td_nodeIds d)) ds))" for f :: string
  proof (rule distinct_concat_map)
    show "distinct ds"
      using assms(3) by (simp add: distinct_map)
    show "distinct (map (\<lambda>t. (f, t, td_tag d)) (td_nodeIds d))" if "d \<in> set ds" for d
      using nodes [OF that] by (simp add: distinct_map inj_on_def)
    show "set (map (\<lambda>t. (f, t, td_tag d)) (td_nodeIds d)) \<inter> set (map (\<lambda>t. (f, t, td_tag d')) (td_nodeIds d')) = {}"
      if "d \<in> set ds" "d' \<in> set ds" "d \<noteq> d'" for d d'
      using assms(3) that by (auto simp: distinct_map inj_on_def)
  qed
  show ?thesis
    unfolding out_legs_triples by (rule distinct_concat_map) (use assms(1) inner in auto)
qed

definition no_bar :: "string \<Rightarrow> bool" where
  "no_bar s \<longleftrightarrow> CHR ''|'' \<notin> set s"

lemma topologyLinkKey_inj:
  assumes "no_bar f" "no_bar t" "no_bar f'" "no_bar t'" and eq: "topologyLinkKey f t n = topologyLinkKey f' t' n'"
  shows "f = f' \<and> t = t' \<and> n = n'"
proof -
  have split: "js_split CHR ''|'' (topologyLinkKey g u k) = g # u # js_split CHR ''|'' (dec_of_nat k)" if "no_bar g" "no_bar u" for g u k
    using that by (simp add: topologyLinkKey_def no_bar_def js_split_append)
  have "f = f' \<and> t = t'"
    using arg_cong [OF eq, of "js_split CHR ''|''"] by (simp add: split assms(1-4))
  then show ?thesis
    using eq by (auto simp: topologyLinkKey_def dest: dec_of_nat_inj)
qed

definition names_ok :: "position_input list \<Rightarrow> topo_direction list \<Rightarrow> bool" where
  "names_ok ps ds \<longleftrightarrow> list_all no_bar (concat (map po_nodeIds ps) @ concat (map td_nodeIds ds)) \<and>
     distinct (concat (map po_nodeIds ps) @ concat (map td_nodeIds ds)) \<and> distinct (map td_tag ds)"

lemma legs_ends:
  assumes "l \<in> set (between_legs step ps ds @ out_legs ps ds)" and "ps \<noteq> []"
  shows "lg_from l \<in> set (concat (map po_nodeIds ps)) \<and> lg_to l \<in> set (concat (map po_nodeIds ps) @ concat (map td_nodeIds ds))"
proof -
  have "lg_from l \<in> set (concat (map po_nodeIds ps))" if "l \<in> set (between_legs step ps ds)"
    using that by (induction step ps ds rule: between_legs.induct) (auto simp: step_legs_def)
  moreover have "lg_to l \<in> set (concat (map po_nodeIds ps))" if "l \<in> set (between_legs step ps ds)"
    using between_legs_to [OF that] assms(2) by (cases ps) auto
  moreover have "lg_from l \<in> set (po_nodeIds (last ps)) \<and> lg_to l \<in> set (concat (map td_nodeIds ds))" if "l \<in> set (out_legs ps ds)"
    using that by (auto simp: out_legs_def legs_into_def)
  moreover have "set (po_nodeIds (last ps)) \<subseteq> set (concat (map po_nodeIds ps))"
    using assms(2) by (auto intro!: bexI [of _ "last ps"])
  ultimately show ?thesis
    using assms(1) by auto
qed

lemma plan_keys_distinct:
  assumes "names_ok ps ds" and "ps \<noteq> []"
  shows "distinct (map leg_key (between_legs 0 ps ds @ out_legs ps ds))"
proof -
  let ?plan = "between_legs 0 ps ds @ out_legs ps ds"
  have nodes: "distinct (concat (map po_nodeIds ps))" "distinct (concat (map td_nodeIds ds))" "distinct (map td_tag ds)"
    "set (concat (map po_nodeIds ps)) \<inter> set (concat (map td_nodeIds ds)) = {}"
    using assms(1) by (auto simp: names_ok_def)
  have "distinct (po_nodeIds (last ps))"
    using nodes(1) assms(2) by (simp add: distinct_concat_iff)
  moreover have "set (map triple (between_legs 0 ps ds)) \<inter> set (map triple (out_legs ps ds)) = {}"
  proof -
    have "lg_to l \<in> set (concat (map po_nodeIds ps))" if "l \<in> set (between_legs 0 ps ds)" for l
      using between_legs_to [OF that] assms(2) by (cases ps) auto
    moreover have "lg_to l \<in> set (concat (map td_nodeIds ds))" if "l \<in> set (out_legs ps ds)" for l
      using that by (auto simp: out_legs_def legs_into_def)
    ultimately show ?thesis
      using nodes(4) by (fastforce simp: triple_def)
  qed
  ultimately have "distinct (map triple ?plan)"
    using between_legs_distinct [OF nodes(1,3), of 0] out_legs_distinct [OF _ nodes(2,3)] by simp
  then have plan: "distinct ?plan" "inj_on triple (set ?plan)"
    by (simp_all only: distinct_map)
  have bars: "no_bar (lg_from l) \<and> no_bar (lg_to l)" if "l \<in> set ?plan" for l
    using legs_ends [OF that assms(2)] assms(1) by (auto simp: names_ok_def list_all_iff)
  have "inj_on leg_key (set ?plan)"
  proof (rule inj_onI)
    fix l l'
    assume l: "l \<in> set ?plan" "l' \<in> set ?plan" "leg_key l = leg_key l'"
    then have "triple l = triple l'"
      using topologyLinkKey_inj [of "lg_from l" "lg_to l" "lg_from l'" "lg_to l'"] bars by (simp add: leg_key_def triple_def)
    then show "l = l'"
      using plan(2) l by (simp add: inj_on_def)
  qed
  then show ?thesis
    using plan(1) by (simp only: distinct_map)
qed

text \<open>Generating against what a generation stored gives the same links.\<close>

lemma links_again:
  assumes "cells_ok ps ds" and "names_ok ps ds" and "generateTopologyLinks sc n ps ds existing = Inr (links, n')"
  shows "generateTopologyLinks sc2 m ps ds (stored_of links) = Inr (links, m)"
proof -
  define plan where "plan = between_legs 0 ps ds @ out_legs ps ds"
  have plan: "plan_legs ps ds = Inr plan"
    unfolding plan_def using assms(1) by (rule plan_total)
  obtain keys k where nk: "node_keys sc existing plan plan ([], n) = (keys, k)"
    by fastforce
  have "links = fst (build_links sc existing keys plan k)"
    using assms(3) nk by (simp add: generateTopologyLinks_def plan)
  then have spec: "list_all2 (link_of keys) plan links"
    using build_links_spec by simp
  have "ps \<noteq> []"
    using assms(1) by (simp add: cells_ok_def)
  then have dist: "distinct (map leg_key plan)"
    unfolding plan_def using assms(2) by (intro plan_keys_distinct)
  have camo: "camouflaged keys"
    using node_keys_camouflage [of "[]" sc existing plan plan n] nk by (simp add: camouflaged_def)
  have dom: "\<exists>r. map_get keys (lg_to p) = Some r" if "p \<in> set plan" "lg_cell p = Vless" for p
    using node_keys_domain [OF that, of sc existing plan "[]" n] nk by simp
  show ?thesis
    using regenerate [OF spec dist camo dom, of sc2 m] by (simp add: generateTopologyLinks_def plan case_prod_unfold Let_def)
qed

section \<open>Properties\<close>

text \<open>A direction as the writer hands it over: the resolved one with the tag it was given.\<close>

definition topo_of :: "nat \<Rightarrow> resolved_direction \<Rightarrow> topo_direction" where
  "topo_of tag d = \<lparr>td_tag = tag, td_nodeIds = rd_nodeIds d, td_linkProtocol = rd_linkProtocol d, td_linkParams = rd_linkParams d\<rparr>"

definition direction_cells_ok :: "resolved_direction list \<Rightarrow> bool" where
  "direction_cells_ok ds \<longleftrightarrow> list_all (\<lambda>d. falsy (rd_linkProtocol d) \<or> linkCellFor (rd_linkProtocol d) \<noteq> None) ds"

lemma validated_plan:
  assumes "validateCascadeTopology positions directions = Inr v" and "direction_cells_ok directions"
    and "length tags = length directions"
  defines "ds \<equiv> map2 topo_of tags directions"
  shows "cells_ok (vt_positions v) ds" and "\<forall>p \<in> set (vt_positions v). po_nodeIds p \<noteq> []" and "ds \<noteq> []"
    and "sort_positions (vt_positions v) = vt_positions v"
    and "distinct (concat (map po_nodeIds (vt_positions v)) @ concat (map td_nodeIds ds))"
    and "map td_nodeIds ds = map rd_nodeIds directions" and "map td_tag ds = tags"
proof -
  have ok: "topology_ok (sort_positions positions) directions" and v: "vt_positions v = sort_positions positions"
    using assms(1) by (auto simp: validate_iff)
  show nodes: "map td_nodeIds ds = map rd_nodeIds directions"
    unfolding ds_def using assms(3) by (intro nth_equalityI) (simp_all add: topo_of_def)
  show "map td_tag ds = tags"
    unfolding ds_def using assms(3) by (intro nth_equalityI) (simp_all add: topo_of_def)
  have mem: "\<exists>r \<in> set directions. td_linkProtocol d = rd_linkProtocol r" if "d \<in> set ds" for d
    using that unfolding ds_def by (auto simp: topo_of_def dest: set_zip_rightD)
  show "cells_ok (vt_positions v) ds"
    unfolding cells_ok_def
  proof (intro conjI ballI)
    show "vt_positions v \<noteq> []"
      using ok by (simp add: v topology_ok_def)
    show "linkCellFor (po_linkProtocol p) \<noteq> None" if "p \<in> set (vt_positions v)" for p
      using ok that by (simp add: v topology_ok_def)
    show "falsy (td_linkProtocol d) \<or> linkCellFor (td_linkProtocol d) \<noteq> None" if "d \<in> set ds" for d
      using mem [OF that] assms(2) by (auto simp: direction_cells_ok_def list_all_iff)
  qed
  show "\<forall>p \<in> set (vt_positions v). po_nodeIds p \<noteq> []"
    using ok by (simp add: v topology_ok_def)
  show "sort_positions (vt_positions v) = vt_positions v"
    by (simp add: v)
  have "directions \<noteq> []"
    using ok by (simp add: topology_ok_def)
  then show "ds \<noteq> []"
    unfolding ds_def using assms(3) by (cases tags; cases directions) simp_all
  show "distinct (concat (map po_nodeIds (vt_positions v)) @ concat (map td_nodeIds ds))"
    unfolding nodes v using ok by (simp add: topology_ok_def all_nodes_def)
qed

text \<open>The ports the gates ask about are the ports the planned legs land on.\<close>

lemma receiving_ports_plan:
  assumes "cells_ok ps ds" and "\<forall>p \<in> set ps. po_nodeIds p \<noteq> []" and "ds \<noteq> []" and "sort_positions ps = ps"
  shows "set (topologyReceivingPorts ps ds) =
    {(lg_to l, leg_port l, t) | l t. l \<in> set (between_legs 0 ps ds @ out_legs ps ds) \<and> t \<in> set (LINK_CELL_TRANSPORTS (lg_cell l))}"
proof -
  have "set (topologyReceivingPorts ps ds) =
      (\<Union>(n, s, c) \<in> receiving ` set (walkReceivingLegs ps ds). (\<lambda>t. (n, LINK_PORT_BASE + s, t)) ` set (LINK_CELL_TRANSPORTS c))"
    by (auto simp: topologyReceivingPorts_def receiving_def)
  also have "\<dots> = {(lg_to l, leg_port l, t) | l t. l \<in> set (between_legs 0 ps ds @ out_legs ps ds) \<and> t \<in> set (LINK_CELL_TRANSPORTS (lg_cell l))}"
    unfolding plan_landings [OF assms, symmetric] by (auto simp: landing_def leg_port_def)
  finally show ?thesis .
qed

text \<open>The walk that gates a save and the walk that builds the legs agree: on a validated
  topology every leg can be planned, each node lands legs of one step and one cell only (so one
  listener on one port serves it), and the ports asked for before the save are exactly the ports
  the planned legs listen on. The number of legs is the counted links, those between positions
  once per direction.\<close>

theorem planned_legs_agree:
  assumes "validateCascadeTopology positions directions = Inr v" and "direction_cells_ok directions"
    and "length tags = length directions"
  shows "\<exists>plan. plan_legs (vt_positions v) (map2 topo_of tags directions) = Inr plan \<and>
    (\<forall>l \<in> set plan. \<forall>l' \<in> set plan. lg_to l = lg_to l' \<longrightarrow> lg_step l = lg_step l' \<and> lg_cell l = lg_cell l') \<and>
    set (topologyReceivingPorts (vt_positions v) (map2 topo_of tags directions)) =
      {(lg_to l, leg_port l, t) | l t. l \<in> set plan \<and> t \<in> set (LINK_CELL_TRANSPORTS (lg_cell l))} \<and>
    length plan = vt_linkCount v + (length directions - 1) * pair_links (vt_positions v)"
proof -
  let ?ps = "vt_positions v" and ?ds = "map2 topo_of tags directions"
  note vp = validated_plan [OF assms]
  define plan where "plan = between_legs 0 ?ps ?ds @ out_legs ?ps ?ds"
  have plan: "plan_legs ?ps ?ds = Inr plan"
    unfolding plan_def using vp(1) by (rule plan_total)
  have land: "landing ` set plan = receiving ` set (walkReceivingLegs ?ps ?ds)"
    unfolding plan_def using vp(1-4) by (rule plan_landings)
  have one: "lg_step l = lg_step l' \<and> lg_cell l = lg_cell l'" if "l \<in> set plan" "l' \<in> set plan" "lg_to l = lg_to l'" for l l'
  proof (rule one_landing [OF vp(5,4)])
    show "(lg_to l, lg_step l, lg_cell l) \<in> receiving ` set (walkReceivingLegs ?ps ?ds)"
      using land that(1) by (auto simp: landing_def)
    show "(lg_to l, lg_step l', lg_cell l') \<in> receiving ` set (walkReceivingLegs ?ps ?ds)"
      using land that(2,3) by (auto simp: landing_def)
  qed
  have ports: "set (topologyReceivingPorts ?ps ?ds) =
      {(lg_to l, leg_port l, t) | l t. l \<in> set plan \<and> t \<in> set (LINK_CELL_TRANSPORTS (lg_cell l))}"
    unfolding plan_def by (rule receiving_ports_plan [OF vp(1-4)])
  have "length plan = vt_linkCount v + (length directions - 1) * pair_links ?ps"
  proof -
    have lc: "vt_linkCount v = countLinks ?ps directions" and ne: "?ps \<noteq> []" "directions \<noteq> []"
      using assms(1) by (auto simp: validate_iff topology_ok_def)
    have "map (\<lambda>d. length (po_nodeIds (last ?ps)) * length (td_nodeIds d)) ?ds =
        map (\<lambda>d. length (po_nodeIds (last ?ps)) * length (rd_nodeIds d)) directions"
      using vp(6) assms(3) by (intro nth_equalityI) (simp_all add: topo_of_def)
    then have "length plan = length directions * pair_links ?ps +
        sum_list (map (\<lambda>d. length (po_nodeIds (last ?ps)) * length (rd_nodeIds d)) directions)"
      using assms(3) by (simp add: plan_def between_legs_length out_legs_length del: map_map)
    moreover have "length directions * pair_links ?ps = pair_links ?ps + (length directions - 1) * pair_links ?ps"
      using ne(2) by (cases directions) simp_all
    ultimately show ?thesis
      using ne by (simp add: lc countLinks_def)
  qed
  then show ?thesis
    using plan one ports by blast
qed

theorem planned_legs_agree_witness:
  "\<exists>plan. plan_legs demo_positions (map2 topo_of [1] demo_directions) = Inr plan \<and> length plan = 1"
  using planned_legs_agree [OF demo_validates, of "[1]"]
  by (auto simp: direction_cells_ok_def demo_directions_def falsy_def)

text \<open>Every leg into a node holds that node's key: the links of a cascade have credentials of
  their own cell and port, and all vless legs that land on one node carry the same REALITY key
  pair and camouflage target, whatever was stored before.\<close>

theorem one_key_per_node:
  assumes "generateTopologyLinks sc n ps ds existing = Inr (links, n')"
  shows "(\<forall>t \<in> set links. cred_cell (tl_cred t) = tl_cell t) \<and>
    (\<forall>t \<in> set links. \<forall>t' \<in> set links. tl_cell t = Vless \<and> tl_cell t' = Vless \<and> tl_to t = tl_to t' \<longrightarrow>
      (\<exists>r r'. cred_reality (tl_cred t) = Some r \<and> cred_reality (tl_cred t') = Some r' \<and>
        r\<lparr>ry_shortId := []\<rparr> = r'\<lparr>ry_shortId := []\<rparr>))"
proof -
  obtain plan keys m where "links = fst (build_links sc existing keys plan m)"
    using assms by (auto simp: generateTopologyLinks_def case_prod_unfold Let_def) (metis fst_conv)
  then have spec: "list_all2 (link_of keys) plan links"
    using build_links_spec by simp
  have link: "\<exists>l. link_of keys l t" if "t \<in> set links" for t
    using spec that by (auto simp: list_all2_conv_all_nth in_set_conv_nth)
  show ?thesis
  proof (intro conjI ballI impI)
    fix t
    assume "t \<in> set links"
    then show "cred_cell (tl_cred t) = tl_cell t"
      using link by (fastforce simp: link_of_def fits_def)
  next
    fix t t'
    assume t: "t \<in> set links" "t' \<in> set links" "tl_cell t = Vless \<and> tl_cell t' = Vless \<and> tl_to t = tl_to t'"
    obtain l l' where "link_of keys l t" "link_of keys l' t'"
      using link t by blast
    then show "\<exists>r r'. cred_reality (tl_cred t) = Some r \<and> cred_reality (tl_cred t') = Some r' \<and>
        r\<lparr>ry_shortId := []\<rparr> = r'\<lparr>ry_shortId := []\<rparr>"
      using t(3) by (auto simp: link_of_def)
  qed
qed

text \<open>Saving again keeps every secret: generating the links of a topology against the
  credentials a save stored gives back exactly those links and draws nothing, so an edit that
  does not touch a leg never rotates it.\<close>

theorem resave_keeps_secrets:
  assumes "cells_ok ps ds" and "names_ok ps ds" and "generateTopologyLinks sc n ps ds existing = Inr (links, n')"
  shows "generateTopologyLinks sc2 m ps ds (stored_of links) = Inr (links, m)"
  using assms by (rule links_again)

definition demo_secrets :: secrets where
  "demo_secrets = \<lparr>sc_text = dec_of_nat, sc_keypair = (\<lambda>n. (dec_of_nat n, dec_of_nat n)), sc_tls = (\<lambda>n. (dec_of_nat n, dec_of_nat n))\<rparr>"

lemma demo_links:
  "\<exists>links n'. generateTopologyLinks demo_secrets 0 demo_positions (map2 topo_of [1] demo_directions) [] = Inr (links, n') \<and> length links = 1"
  by (simp add: generateTopologyLinks_def plan_legs_def last_legs_def demo_positions_def demo_directions_def topo_of_def
      normalizeLinkProtocol_def linkCellFor_def LINK_CELLS_def direction_legs_def falsy_def keptFor_def reuseLinkCred_def
      stored_reality_def reality_of_def with_node_key_def Let_def)

theorem one_key_per_node_witness:
  "\<exists>links n'. generateTopologyLinks demo_secrets 0 demo_positions (map2 topo_of [1] demo_directions) [] = Inr (links, n') \<and>
     (\<forall>t \<in> set links. cred_cell (tl_cred t) = tl_cell t)"
  using demo_links one_key_per_node [of demo_secrets 0 demo_positions "map2 topo_of [1] demo_directions" "[]"] by blast

theorem resave_keeps_secrets_witness:
  "\<exists>links n'. generateTopologyLinks demo_secrets 0 demo_positions (map2 topo_of [1] demo_directions) [] = Inr (links, n') \<and>
     generateTopologyLinks demo_secrets 7 demo_positions (map2 topo_of [1] demo_directions) (stored_of links) = Inr (links, 7)"
proof -
  have "cells_ok demo_positions (map2 topo_of [1] demo_directions)"
    by (simp add: cells_ok_def demo_positions_def demo_directions_def topo_of_def falsy_def linkCellFor_def LINK_CELLS_def)
  moreover have "names_ok demo_positions (map2 topo_of [1] demo_directions)"
    by (simp add: names_ok_def demo_positions_def demo_directions_def topo_of_def no_bar_def)
  ultimately show ?thesis
    using demo_links resave_keeps_secrets by blast
qed

end
