(* ===== verification/LinkStore.thy ===== *)
theory LinkStore
  imports CascadeLinks
begin

text \<open>
  What the panel keeps of a leg in its jsonb columns and how it reads it back
  (\<open>serializeLinkCred\<close>, \<open>parseLinkCred\<close>, \<open>parseLinkTls\<close> and \<open>parseCongestion\<close> of
  \<open>modules/cascades/cascade.config.ts\<close>, \<open>storedLinkParams\<close> of \<open>direction-merge.ts\<close>,
  \<open>parseTunnelCred\<close> of \<open>cascade-tunnel.ts\<close>). A column value is a JSON document; its numbers here
  are the non-negative integers (ports, obfuscation lengths and headers) these columns hold.
  Reading a key of anything but an object is JavaScript's \<open>undefined\<close>.
\<close>

section \<open>JSON\<close>

datatype json = JNull | JBool bool | JNum nat | JStr string | JArr "json list" | JObj "(string \<times> json) list"

fun jget :: "json \<Rightarrow> string \<Rightarrow> json option" where
  "jget (JObj fs) k = map_of fs k"
| "jget _ k = None"

fun as_str :: "json option \<Rightarrow> string option" where
  "as_str (Some (JStr s)) = Some s"
| "as_str _ = None"

fun as_num :: "json option \<Rightarrow> nat option" where
  "as_num (Some (JNum n)) = Some n"
| "as_num _ = None"

fun js_includes :: "'a list \<Rightarrow> 'a list \<Rightarrow> bool" where
  "js_includes p [] = (p = [])"
| "js_includes p (x # xs) = (js_starts_with p (x # xs) \<or> js_includes p xs)"

section \<open>Leg knobs\<close>

definition LINK_CONGESTIONS :: "string list" where
  "LINK_CONGESTIONS = [''bbr'', ''cubic'', ''new_reno'']"

definition LINK_UNDERLAYS :: "string list" where
  "LINK_UNDERLAYS = [''direct'', ''awg'']"

definition known :: "string list \<Rightarrow> json option \<Rightarrow> string option" where
  "known words v = (case as_str v of Some s \<Rightarrow> (if s \<in> set words then Some s else None) | None \<Rightarrow> None)"

definition storedLinkParams :: "json \<Rightarrow> leg_params option" where
  "storedLinkParams raw =
     (case raw of
        JObj _ \<Rightarrow>
          (let out = \<lparr>lp_congestion = known LINK_CONGESTIONS (jget raw ''congestion''),
                      lp_underlay = known LINK_UNDERLAYS (jget raw ''underlay'')\<rparr> in
           if lp_congestion out \<noteq> None \<or> lp_underlay out \<noteq> None then Some out else None)
      | _ \<Rightarrow> None)"

text \<open>The \<open>InputJsonValue\<close> a save writes for the knobs it was given.\<close>

definition json_params :: "leg_params option \<Rightarrow> json" where
  "json_params p =
     (case p of
        None \<Rightarrow> JNull
      | Some l \<Rightarrow> JObj ((case lp_congestion l of Some c \<Rightarrow> [(''congestion'', JStr c)] | None \<Rightarrow> []) @
                        (case lp_underlay l of Some u \<Rightarrow> [(''underlay'', JStr u)] | None \<Rightarrow> [])))"

section \<open>Leg credentials\<close>

definition tls_json :: "link_tls \<Rightarrow> json" where
  "tls_json t = JObj [(''certPem'', JStr (fst t)), (''keyPem'', JStr (snd t))]"

definition reality_json :: "reality \<Rightarrow> json" where
  "reality_json r = JObj [(''privateKey'', JStr (ry_privateKey r)), (''publicKey'', JStr (ry_publicKey r)),
     (''shortId'', JStr (ry_shortId r)), (''serverName'', JStr (ry_serverName r)), (''dest'', JStr (ry_dest r))]"

fun serializeLinkCred :: "link_cred \<Rightarrow> json" where
  "serializeLinkCred (SsCred port psk method) =
     JObj [(''protocol'', JStr ''shadowsocks''), (''port'', JNum port), (''psk'', JStr psk), (''method'', JStr method)]"
| "serializeLinkCred (Hy2Cred port auth obfs tls) =
     JObj [(''protocol'', JStr ''hy2''), (''port'', JNum port), (''authPassword'', JStr auth), (''obfsPassword'', JStr obfs),
       (''tls'', tls_json tls)]"
| "serializeLinkCred (TuicCred port uuid password congestion tls) =
     JObj [(''protocol'', JStr ''tuic''), (''port'', JNum port), (''uuid'', JStr uuid), (''password'', JStr password),
       (''congestion'', JStr congestion), (''tls'', tls_json tls)]"
| "serializeLinkCred (VlessCred port uuid r) =
     JObj ([(''protocol'', JStr ''vless''), (''port'', JNum port), (''uuid'', JStr uuid)] @
       (case r of Some b \<Rightarrow> [(''reality'', reality_json b)] | None \<Rightarrow> []))"

definition parseLinkTls :: "json option \<Rightarrow> link_tls option" where
  "parseLinkTls raw =
     (case raw of
        None \<Rightarrow> None
      | Some t \<Rightarrow>
          (case (as_str (jget t ''certPem''), as_str (jget t ''keyPem'')) of
             (Some cert, Some key) \<Rightarrow>
               if js_includes ''BEGIN CERTIFICATE'' cert \<and> js_includes ''PRIVATE KEY'' key then Some (cert, key) else None
           | _ \<Rightarrow> None))"

definition parseCongestion :: "json option \<Rightarrow> string" where
  "parseCongestion raw = (case known LINK_CONGESTIONS raw of Some c \<Rightarrow> c | None \<Rightarrow> DEFAULT_LINK_CONGESTION)"

definition parse_reality :: "json option \<Rightarrow> reality option" where
  "parse_reality raw =
     (case raw of
        None \<Rightarrow> None
      | Some r \<Rightarrow>
          (case (as_str (jget r ''privateKey''), as_str (jget r ''publicKey''), as_str (jget r ''shortId''),
                 as_str (jget r ''serverName''), as_str (jget r ''dest'')) of
             (Some a, Some b, Some c, Some d, Some e) \<Rightarrow>
               Some \<lparr>ry_privateKey = a, ry_publicKey = b, ry_shortId = c, ry_serverName = d, ry_dest = e\<rparr>
           | _ \<Rightarrow> None))"

definition parseLinkCred :: "json \<Rightarrow> link_cred option" where
  "parseLinkCred o0 =
     (case as_num (jget o0 ''port'') of
        None \<Rightarrow> None
      | Some port \<Rightarrow>
          (let protocol = as_str (jget o0 ''protocol'') in
           if protocol = Some ''shadowsocks'' then
             (case (as_str (jget o0 ''psk''), as_str (jget o0 ''method'')) of
                (Some psk, Some method) \<Rightarrow> Some (SsCred port psk method) | _ \<Rightarrow> None)
           else if protocol = Some ''hy2'' then
             (case (as_str (jget o0 ''authPassword''), as_str (jget o0 ''obfsPassword''), parseLinkTls (jget o0 ''tls'')) of
                (Some auth, Some obfs, Some tls) \<Rightarrow> Some (Hy2Cred port auth obfs tls) | _ \<Rightarrow> None)
           else if protocol = Some ''tuic'' then
             (case (as_str (jget o0 ''uuid''), as_str (jget o0 ''password''), parseLinkTls (jget o0 ''tls'')) of
                (Some uuid, Some password, Some tls) \<Rightarrow>
                  Some (TuicCred port uuid password (parseCongestion (jget o0 ''congestion'')) tls) | _ \<Rightarrow> None)
           else (case as_str (jget o0 ''uuid'') of
                   None \<Rightarrow> None
                 | Some uuid \<Rightarrow> Some (VlessCred port uuid (parse_reality (jget o0 ''reality''))))))"

section \<open>The contract of a column\<close>

text \<open>A jsonb column as its users rely on it: what may be written is read back as itself, and
  whatever is in the column, what is read may be written.\<close>

locale column =
  fixes encode :: "'a \<Rightarrow> json" and decode :: "json \<Rightarrow> 'a option" and writable :: "'a \<Rightarrow> bool"
  assumes decode_encode: "writable x \<Longrightarrow> decode (encode x) = Some x"
    and decode_writable: "decode j = Some x \<Longrightarrow> writable x"
begin

lemma encode_inj: "writable x \<Longrightarrow> writable y \<Longrightarrow> encode x = encode y \<longleftrightarrow> x = y"
  using decode_encode by (metis option.inject)

lemma rewrite_stable: "decode j = Some x \<Longrightarrow> decode (encode x) = Some x"
  by (simp add: decode_encode decode_writable)

lemma decode_all: "list_all writable xs \<Longrightarrow> map (decode \<circ> encode) xs = map Some xs"
  by (simp add: list_all_iff decode_encode)

end

section \<open>Lemmas\<close>

text \<open>A credential the panel minted: its TLS pair is PEM and its controller is one it knows.\<close>

definition pem_pair :: "link_tls \<Rightarrow> bool" where
  "pem_pair t \<longleftrightarrow> js_includes ''BEGIN CERTIFICATE'' (fst t) \<and> js_includes ''PRIVATE KEY'' (snd t)"

fun minted :: "link_cred \<Rightarrow> bool" where
  "minted (Hy2Cred _ _ _ tls) = pem_pair tls"
| "minted (TuicCred _ _ _ c tls) = (c \<in> set LINK_CONGESTIONS \<and> pem_pair tls)"
| "minted _ = True"

lemma parse_tls_json: "pem_pair t \<Longrightarrow> parseLinkTls (Some (tls_json t)) = Some t"
  by (simp add: parseLinkTls_def tls_json_def pem_pair_def)

lemma parse_reality_json: "parse_reality (Some (reality_json r)) = Some r"
  by (simp add: parse_reality_def reality_json_def)

lemma parse_serialize:
  assumes "minted c"
  shows "parseLinkCred (serializeLinkCred c) = Some c"
proof (cases c)
  case (VlessCred port uuid r)
  then show ?thesis
    by (cases r) (simp_all add: parseLinkCred_def parse_reality_json, simp add: parse_reality_def)
qed (use assms in \<open>simp_all add: parseLinkCred_def parse_tls_json parseCongestion_def known_def\<close>)

text \<open>What is read is whole: whatever the column holds, a credential that parses is one the panel
  could have minted, so writing it back and reading it again changes nothing.\<close>

lemma known_word: "known ws v = Some s \<Longrightarrow> s \<in> set ws"
  by (auto simp: known_def split: option.splits if_splits)

lemma parseCongestion_known: "parseCongestion v \<in> set LINK_CONGESTIONS"
  using known_word [of LINK_CONGESTIONS v]
  by (auto simp: parseCongestion_def DEFAULT_LINK_CONGESTION_def LINK_CONGESTIONS_def split: option.splits)

lemma parseLinkTls_pem: "parseLinkTls v = Some t \<Longrightarrow> pem_pair t"
  by (auto simp: parseLinkTls_def pem_pair_def split: option.splits if_splits)

lemma parse_minted: "parseLinkCred j = Some c \<Longrightarrow> minted c"
  by (auto simp: parseLinkCred_def Let_def parseCongestion_known parseLinkTls_pem split: option.splits if_splits)

lemma storedLinkParams_known:
  "storedLinkParams j = Some l \<Longrightarrow>
     (lp_congestion l \<noteq> None \<or> lp_underlay l \<noteq> None) \<and>
     (\<forall>c. lp_congestion l = Some c \<longrightarrow> c \<in> set LINK_CONGESTIONS) \<and> (\<forall>u. lp_underlay l = Some u \<longrightarrow> u \<in> set LINK_UNDERLAYS)"
  by (auto simp: storedLinkParams_def Let_def split: json.splits if_splits dest: known_word)

definition params_ok :: "leg_params option \<Rightarrow> bool" where
  "params_ok p \<longleftrightarrow> (case p of None \<Rightarrow> True | Some l \<Rightarrow>
     (lp_congestion l \<noteq> None \<or> lp_underlay l \<noteq> None) \<and>
     (\<forall>c. lp_congestion l = Some c \<longrightarrow> c \<in> set LINK_CONGESTIONS) \<and> (\<forall>u. lp_underlay l = Some u \<longrightarrow> u \<in> set LINK_UNDERLAYS))"

lemma stored_params_round_trip: "params_ok p \<Longrightarrow> storedLinkParams (json_params p) = p"
  by (cases p) (auto simp: params_ok_def storedLinkParams_def json_params_def known_def Let_def split: option.splits)

interpretation cred_column: column serializeLinkCred parseLinkCred minted
  by unfold_locales (simp_all add: parse_serialize parse_minted)

text \<open>The knob column: absence is a value here, so the reader is total.\<close>

lemma storedLinkParams_ok: "params_ok (storedLinkParams j)"
  by (cases "storedLinkParams j") (auto simp: params_ok_def dest: storedLinkParams_known)

interpretation knob_column: column json_params "\<lambda>j. Some (storedLinkParams j)" params_ok
  by unfold_locales (auto simp: stored_params_round_trip storedLinkParams_ok)

section \<open>Properties\<close>



end
