(* ===== verification/NodePorts.thy ===== *)
theory NodePorts
  imports LinkStore
begin

text \<open>
  Who holds a port on a node (\<open>modules/nodes/node-ports.ts\<close>): the profiles bound there, the cascade
  legs and leg tunnels that end there, the hops of cascades saved before legs had rows of their
  own, and the services of the cores the node reported. The tables are lists of rows as the
  query selects them.
\<close>

section \<open>Rows\<close>

record binding_row =
  bd_id :: string
  bd_nodeId :: string
  bd_port :: nat
  bd_transport :: transport
  bd_profile :: string

record link_row =
  lr_cascade :: string
  lr_from :: string
  lr_to :: string
  lr_tag :: nat
  lr_config :: json
  lr_port :: nat

record tunnel_claim =
  tc_cascade :: string
  tc_to :: string
  tc_port :: nat

record hop_row =
  hr_nodeId :: string
  hr_position :: nat
  hr_linkConfig :: json

record reserved_port =
  rp_port :: nat
  rp_transport :: transport
  rp_owner :: string

text \<open>A core's list may be absent (it cannot speak about its ports) or empty (it holds none).\<close>

record node_report =
  nr_cores :: "reserved_port list option list option"
  nr_chain :: "reserved_port list option"

record ports_db =
  pd_bindings :: "binding_row list"
  pd_links :: "link_row list"
  pd_tunnels :: "tunnel_claim list"
  pd_hops :: "(string \<times> hop_row list) list"
  pd_nodes :: "(string, node_report) jsmap"

datatype port_owner =
    ProfileOwner (po_name: string) (po_port: nat) (po_transport: transport)
  | CascadeOwner (po_name: string) (po_port: nat) (po_transport: transport)
  | CoreService (po_ownerKey: string) (po_port: nat) (po_transport: transport)

datatype port_certainty = Full | Partial

section \<open>The claims of cascades\<close>

definition legTransports :: "json \<Rightarrow> transport list" where
  "legTransports config =
     (case as_str (jget config ''protocol'') of
        None \<Rightarrow> [Tcp]
      | Some s \<Rightarrow> (case map_of LINK_CELLS s of Some c \<Rightarrow> LINK_CELL_TRANSPORTS c | None \<Rightarrow> [Tcp]))"

type_synonym cascade_claim = "string \<times> nat \<times> transport"

definition hop_claims :: "string \<Rightarrow> nat list \<Rightarrow> string \<Rightarrow> hop_row \<Rightarrow> json \<Rightarrow> cascade_claim list" where
  "hop_claims nodeId ports name receiver cred =
     (if hr_nodeId receiver \<noteq> nodeId then []
      else case as_num (jget cred ''port'') of
        None \<Rightarrow> []
      | Some port \<Rightarrow> if port \<in> set ports then map (\<lambda>t. (name, port, t)) (legTransports cred) else [])"

fun chain_claims :: "string \<Rightarrow> nat list \<Rightarrow> string \<Rightarrow> hop_row list \<Rightarrow> cascade_claim list" where
  "chain_claims nodeId ports name (h # r # hops) =
     hop_claims nodeId ports name r (hr_linkConfig h) @ chain_claims nodeId ports name (r # hops)"
| "chain_claims nodeId ports name _ = []"

definition balancer_claims :: "string \<Rightarrow> nat list \<Rightarrow> string \<Rightarrow> hop_row list \<Rightarrow> cascade_claim list" where
  "balancer_claims nodeId ports name hops =
     concat (map (\<lambda>h. hop_claims nodeId ports name h (hr_linkConfig h)) (tl hops))"

definition legacyHopLinkPorts :: "(string \<times> hop_row list) list \<Rightarrow> string \<Rightarrow> nat list \<Rightarrow> cascade_claim list" where
  "legacyHopLinkPorts cascades nodeId ports =
     (if \<not> list_ex (\<lambda>p. p \<ge> LINK_PORT_BASE) ports then []
      else concat (map (\<lambda>(name, rows).
        let hops = sort_key hr_position rows in
        chain_claims nodeId ports name hops @ balancer_claims nodeId ports name hops)
        (filter (\<lambda>(name, rows). list_ex (\<lambda>h. hr_nodeId h = nodeId) rows) cascades)))"

fun transport_word :: "transport \<Rightarrow> string" where
  "transport_word Tcp = ''tcp''"
| "transport_word Udp = ''udp''"

definition claim_key :: "cascade_claim \<Rightarrow> string" where
  "claim_key c = (case c of (name, port, t) \<Rightarrow> name @ '':'' @ dec_of_nat port @ '':'' @ transport_word t)"

fun claims_once :: "string list \<Rightarrow> cascade_claim list \<Rightarrow> port_owner list" where
  "claims_once seen [] = []"
| "claims_once seen (l # ls) =
     (if claim_key l \<in> set seen then claims_once seen ls
      else (case l of (name, port, t) \<Rightarrow> CascadeOwner name port t) # claims_once (set_add (claim_key l) seen) ls)"

section \<open>The whole answer\<close>

definition certaintyOf :: "reserved_port list option list option \<Rightarrow> port_certainty" where
  "certaintyOf inventory =
     (case inventory of
        None \<Rightarrow> Partial
      | Some cores \<Rightarrow> if cores = [] then Partial else if list_all (\<lambda>c. c \<noteq> None) cores then Full else Partial)"

definition reserved_of :: "node_report option \<Rightarrow> reserved_port list" where
  "reserved_of node =
     (case node of
        None \<Rightarrow> []
      | Some r \<Rightarrow>
          (case nr_cores r of None \<Rightarrow> [] | Some cores \<Rightarrow> concat (map (\<lambda>c. case c of None \<Rightarrow> [] | Some l \<Rightarrow> l) cores)) @
          (case nr_chain r of None \<Rightarrow> [] | Some l \<Rightarrow> l))"

definition binding_owners :: "ports_db \<Rightarrow> string \<Rightarrow> nat list \<Rightarrow> string option \<Rightarrow> port_owner list" where
  "binding_owners db nodeId wanted exceptId =
     map (\<lambda>b. ProfileOwner (bd_profile b) (bd_port b) (bd_transport b))
       (filter (\<lambda>b. bd_nodeId b = nodeId \<and> bd_port b \<in> set wanted \<and> (falsy exceptId \<or> exceptId \<noteq> Some (bd_id b)))
         (pd_bindings db))"

definition cascade_claims :: "ports_db \<Rightarrow> string \<Rightarrow> nat list \<Rightarrow> cascade_claim list" where
  "cascade_claims db nodeId wanted =
     concat (map (\<lambda>l. map (\<lambda>t. (lr_cascade l, lr_port l, t)) (legTransports (lr_config l)))
       (filter (\<lambda>l. lr_to l = nodeId \<and> lr_port l \<in> set wanted) (pd_links db))) @
     map (\<lambda>t. (tc_cascade t, tc_port t, Udp)) (filter (\<lambda>t. tc_to t = nodeId \<and> tc_port t \<in> set wanted) (pd_tunnels db)) @
     legacyHopLinkPorts (pd_hops db) nodeId wanted"

definition service_owners :: "ports_db \<Rightarrow> string \<Rightarrow> nat list \<Rightarrow> port_owner list" where
  "service_owners db nodeId wanted =
     map (\<lambda>rp. CoreService (rp_owner rp) (rp_port rp) (rp_transport rp))
       (filter (\<lambda>rp. rp_port rp \<in> set wanted) (reserved_of (map_get (pd_nodes db) nodeId)))"

definition portClaimsOnNode :: "ports_db \<Rightarrow> string \<Rightarrow> nat list \<Rightarrow> string option \<Rightarrow> port_owner list \<times> port_certainty" where
  "portClaimsOnNode db nodeId ports exceptId =
     (if ports = [] then ([], Full)
      else
        (let wanted = set_from ports in
         (binding_owners db nodeId wanted exceptId @ claims_once [] (cascade_claims db nodeId wanted) @
            service_owners db nodeId wanted,
          certaintyOf (case map_get (pd_nodes db) nodeId of None \<Rightarrow> None | Some r \<Rightarrow> nr_cores r))))"

definition portOwnersOnNode :: "ports_db \<Rightarrow> string \<Rightarrow> nat list \<Rightarrow> string option \<Rightarrow> port_owner list" where
  "portOwnersOnNode db nodeId ports exceptId = fst (portClaimsOnNode db nodeId ports exceptId)"

section \<open>Lemmas\<close>

lemma digits_no_colon: "CHR '':'' \<notin> set (dec_of_nat n)"
  using dec_of_nat_digits [of n] by (auto simp: list_all_iff is_digit_def)

text \<open>The key names the claim: a name may hold colons, the port and the transport do not.\<close>

lemma claim_key_inj: "claim_key a = claim_key b \<longleftrightarrow> a = b"
proof
  assume "claim_key a = claim_key b"
  moreover obtain n p t m q u where ab: "a = (n, p, t)" "b = (m, q, u)"
    by (cases a, cases b)
  moreover have "js_split CHR '':'' (rev (claim_key (x, y, z))) =
      rev (transport_word z) # rev (dec_of_nat y) # js_split CHR '':'' (rev x)" for x y z
  proof -
    have "rev (claim_key (x, y, z)) = rev (transport_word z) @ CHR '':'' # rev (dec_of_nat y) @ CHR '':'' # rev x"
      by (simp add: claim_key_def)
    then show ?thesis
      by (cases z) (simp_all add: js_split_append digits_no_colon)
  qed
  ultimately have "rev (transport_word t) # rev (dec_of_nat p) # js_split CHR '':'' (rev n) =
      rev (transport_word u) # rev (dec_of_nat q) # js_split CHR '':'' (rev m)"
    by metis
  then have "transport_word t = transport_word u" "p = q" "js_split CHR '':'' (rev n) = js_split CHR '':'' (rev m)"
    by (auto dest: dec_of_nat_inj)
  moreover have "n = m"
    using calculation(3) js_join_split by (metis rev_rev_ident)
  moreover have "t = u"
    using calculation(1) by (cases t; cases u) simp_all
  ultimately show "a = b"
    using ab by simp
qed simp

definition owner_of_claim :: "cascade_claim \<Rightarrow> port_owner" where
  "owner_of_claim c = (case c of (name, port, t) \<Rightarrow> CascadeOwner name port t)"

lemma owner_of_claim_inj: "owner_of_claim a = owner_of_claim b \<longleftrightarrow> a = b"
  by (cases a; cases b) (simp add: owner_of_claim_def)

lemma claims_once_set:
  "set (claims_once seen ls) = owner_of_claim ` {l \<in> set ls. claim_key l \<notin> set seen}"
proof (induction ls arbitrary: seen)
  case (Cons l ls)
  show ?case
    by (auto simp: Cons.IH owner_of_claim_def [symmetric] claim_key_inj split: prod.split)
qed simp

lemma claims_once_distinct: "distinct (claims_once seen ls)"
proof (induction ls arbitrary: seen)
  case (Cons l ls)
  then show ?case
    by (auto simp: claims_once_set owner_of_claim_def [symmetric] owner_of_claim_inj split: prod.splits)
qed simp

lemma claims_once_filter:
  "filter (\<lambda>o0. case o0 of CascadeOwner _ _ _ \<Rightarrow> True | _ \<Rightarrow> False) (claims_once seen ls) = claims_once seen ls"
proof (induction ls arbitrary: seen)
  case (Cons l ls)
  then show ?case
    by (cases l) simp
qed simp

lemma owners_split:
  assumes "ports \<noteq> []"
  shows "portOwnersOnNode db nodeId ports ex =
    binding_owners db nodeId (set_from ports) ex @ claims_once [] (cascade_claims db nodeId (set_from ports)) @
    service_owners db nodeId (set_from ports)"
  using assms by (simp add: portOwnersOnNode_def portClaimsOnNode_def Let_def)

lemma hop_claims_set:
  "(name, p, t) \<in> set (hop_claims n ports nm r cred) \<longleftrightarrow>
   name = nm \<and> hr_nodeId r = n \<and> as_num (jget cred ''port'') = Some p \<and> p \<in> set ports \<and> t \<in> set (legTransports cred)"
  by (auto simp: hop_claims_def split: option.splits)

lemma chain_claims_set:
  "(name, p, t) \<in> set (chain_claims n ports nm hops) \<longleftrightarrow>
   name = nm \<and> p \<in> set ports \<and>
   (\<exists>i. Suc i < length hops \<and> hr_nodeId (hops ! Suc i) = n \<and> as_num (jget (hr_linkConfig (hops ! i)) ''port'') = Some p \<and>
      t \<in> set (legTransports (hr_linkConfig (hops ! i))))"
proof (induction n ports nm hops rule: chain_claims.induct)
  case (1 n ports nm h r hops)
  show ?case
    by (auto simp: 1 hop_claims_set Ex_less_Suc2 less_Suc_eq_0_disj all_conj_distrib)
qed auto

lemma balancer_claims_set:
  "(name, p, t) \<in> set (balancer_claims n ports nm hops) \<longleftrightarrow>
   name = nm \<and> p \<in> set ports \<and>
   (\<exists>h \<in> set (tl hops). hr_nodeId h = n \<and> as_num (jget (hr_linkConfig h) ''port'') = Some p \<and> t \<in> set (legTransports (hr_linkConfig h)))"
  by (auto simp: balancer_claims_def hop_claims_set)

text \<open>What an older cascade claims: a hop's credential names the port its successor listens on, or,
  on an exit, the port it listens on itself.\<close>

definition hop_holds :: "hop_row list \<Rightarrow> string \<Rightarrow> nat \<Rightarrow> transport \<Rightarrow> bool" where
  "hop_holds hops n p t \<longleftrightarrow>
     (\<exists>i j. i < length hops \<and> j < length hops \<and> 0 < j \<and> (j = Suc i \<or> j = i) \<and> hr_nodeId (hops ! j) = n \<and>
        as_num (jget (hr_linkConfig (hops ! i)) ''port'') = Some p \<and> t \<in> set (legTransports (hr_linkConfig (hops ! i))))"

lemma hop_holds_iff:
  "hop_holds hops n p t \<longleftrightarrow>
     (\<exists>i. Suc i < length hops \<and> hr_nodeId (hops ! Suc i) = n \<and> as_num (jget (hr_linkConfig (hops ! i)) ''port'') = Some p \<and>
        t \<in> set (legTransports (hr_linkConfig (hops ! i)))) \<or>
     (\<exists>h \<in> set (tl hops). hr_nodeId h = n \<and> as_num (jget (hr_linkConfig h) ''port'') = Some p \<and>
        t \<in> set (legTransports (hr_linkConfig h)))"
proof -
  have ex: "(\<exists>h \<in> set (tl hops). P h) \<longleftrightarrow> (\<exists>j. j < length hops \<and> 0 < j \<and> P (hops ! j))" for P
  proof (cases hops)
    case (Cons a list)
    then show ?thesis
      by (simp add: gr0_conv_Suc) (metis Suc_less_eq in_set_conv_nth nth_Cons_Suc)
  qed simp
  show ?thesis
    unfolding hop_holds_def ex by (rule iffI, blast) (use Suc_lessD zero_less_Suc in blast)
qed

lemma hop_holds_node: "hop_holds (sort_key f rows) n p t \<Longrightarrow> list_ex (\<lambda>h. hr_nodeId h = n) rows"
proof -
  assume "hop_holds (sort_key f rows) n p t"
  then obtain j where "j < length (sort_key f rows)" "hr_nodeId (sort_key f rows ! j) = n"
    unfolding hop_holds_def by blast
  then show ?thesis
    unfolding list_ex_iff by (metis nth_mem set_sort)
qed

lemma legacy_set:
  "(name, p, t) \<in> set (legacyHopLinkPorts cascades n ports) \<longleftrightarrow>
   p \<in> set ports \<and> (\<exists>q \<in> set ports. q \<ge> LINK_PORT_BASE) \<and>
   (\<exists>rows. (name, rows) \<in> set cascades \<and> hop_holds (sort_key hr_position rows) n p t)"
proof -
  let ?claims = "\<lambda>(nm, rows). let hops = sort_key hr_position rows in
    chain_claims n ports nm hops @ balancer_claims n ports nm hops"
  have one: "(name, p, t) \<in> set (?claims c) \<longleftrightarrow>
      name = fst c \<and> p \<in> set ports \<and> hop_holds (sort_key hr_position (snd c)) n p t" for c
    unfolding hop_holds_iff case_prod_beta Let_def set_append Un_iff chain_claims_set balancer_claims_set by blast
  show ?thesis
  proof (cases "\<exists>q \<in> set ports. q \<ge> LINK_PORT_BASE")
    case True
    then have "set (legacyHopLinkPorts cascades n ports) =
        (\<Union>c \<in> {c \<in> set cascades. list_ex (\<lambda>h. hr_nodeId h = n) (snd c)}. set (?claims c))"
      by (simp add: legacyHopLinkPorts_def list_ex_iff case_prod_beta)
    then have "(name, p, t) \<in> set (legacyHopLinkPorts cascades n ports) \<longleftrightarrow>
        (\<exists>c \<in> set cascades. list_ex (\<lambda>h. hr_nodeId h = n) (snd c) \<and> name = fst c \<and> p \<in> set ports \<and>
          hop_holds (sort_key hr_position (snd c)) n p t)"
      using one by blast
    then show ?thesis
      using True hop_holds_node by fastforce
  next
    case False
    then show ?thesis
      by (simp add: legacyHopLinkPorts_def list_ex_iff)
  qed
qed

lemma cascade_owner_in:
  "CascadeOwner name p t \<in> set (portOwnersOnNode db n ports ex) \<longleftrightarrow>
   ports \<noteq> [] \<and> (name, p, t) \<in> set (cascade_claims db n (set_from ports))"
proof (cases "ports = []")
  case True
  then show ?thesis
    by (simp add: portOwnersOnNode_def portClaimsOnNode_def)
next
  case False
  have "CascadeOwner name p t \<in> owner_of_claim ` S \<longleftrightarrow> (name, p, t) \<in> S" for S
    by (force simp: owner_of_claim_def split: prod.splits)
  then show ?thesis
    using False by (auto simp: owners_split claims_once_set binding_owners_def service_owners_def)
qed

lemma legTransports_cred: "legTransports (serializeLinkCred c) = LINK_CELL_TRANSPORTS (cred_cell c)"
  by (cases c) (auto simp: legTransports_def LINK_CELLS_def)

text \<open>The rows a save writes for the legs it generated (\<open>cascadeLink.createMany\<close>).\<close>

definition link_rows :: "string \<Rightarrow> topology_link list \<Rightarrow> link_row list" where
  "link_rows name links = map (\<lambda>l. \<lparr>lr_cascade = name, lr_from = tl_from l, lr_to = tl_to l, lr_tag = tl_tag l,
     lr_config = serializeLinkCred (tl_cred l), lr_port = cred_port (tl_cred l)\<rparr>) links"

lemma link_rows_claims:
  assumes "list_all2 (link_of keys) plan links"
  shows "(\<exists>r \<in> set (link_rows name links). lr_to r = n \<and> lr_port r = p \<and> t \<in> set (legTransports (lr_config r))) \<longleftrightarrow>
    (\<exists>l \<in> set plan. lg_to l = n \<and> leg_port l = p \<and> t \<in> set (LINK_CELL_TRANSPORTS (lg_cell l)))"
proof -
  have leg: "tl_to k = lg_to l \<and> cred_port (tl_cred k) = leg_port l \<and> cred_cell (tl_cred k) = lg_cell l" if "link_of keys l k" for l k
    using that by (auto simp: link_of_def fits_def)
  have "(\<exists>k \<in> set links. P (tl_to k) (cred_port (tl_cred k)) (cred_cell (tl_cred k))) \<longleftrightarrow>
      (\<exists>l \<in> set plan. P (lg_to l) (leg_port l) (lg_cell l))" for P
    using assms leg by (induction rule: list_all2_induct) simp_all
  from this [of "\<lambda>n' p' c. n' = n \<and> p' = p \<and> t \<in> set (LINK_CELL_TRANSPORTS c)"] show ?thesis
    by (simp add: link_rows_def legTransports_cred)
qed

lemma generated_links:
  assumes "cells_ok ps ds" and "generateTopologyLinks sc n ps ds existing = Inr (links, n')"
  shows "\<exists>keys. list_all2 (link_of keys) (between_legs 0 ps ds @ out_legs ps ds) links"
proof -
  obtain keys m where "links = fst (build_links sc existing keys (between_legs 0 ps ds @ out_legs ps ds) m)"
    using assms(2) by (auto simp: generateTopologyLinks_def plan_total [OF assms(1)] case_prod_unfold Let_def) (metis fst_conv)
  then show ?thesis
    using build_links_spec by blast
qed

section \<open>Properties\<close>



definition demo_db :: "topology_link list \<Rightarrow> ports_db" where
  "demo_db links = \<lparr>pd_bindings = [\<lparr>bd_id = ''b'', bd_nodeId = ''n1'', bd_port = 443, bd_transport = Tcp, bd_profile = ''p''\<rparr>],
     pd_links = link_rows ''c'' links, pd_tunnels = [], pd_hops = [], pd_nodes = []\<rparr>"



end
