(* ===== verification/CascadeTunnels.thy ===== *)
theory CascadeTunnels
  imports NodePorts AwgSubnet
begin

text \<open>
  The AmneziaWG tunnel under a cascade leg (\<open>modules/cascades/cascade-tunnel.ts\<close> and
  \<open>writeTunnels\<close> of \<open>cascade.service.ts\<close>): what follows from a tunnel's index, its keys and
  obfuscation, the node pairs that need one, the configuration of its two ends, and the write of
  the tunnel rows in a save. Random integers and key pairs are drawn from a parameter, by the
  number of the draw.
\<close>

section \<open>What follows from the index\<close>

definition LINK_TUNNEL_IFACE_PREFIX :: string where
  "LINK_TUNNEL_IFACE_PREFIX = ''awg-l''"

definition LINK_TUNNEL_NET_PREFIX :: string where
  "LINK_TUNNEL_NET_PREFIX = ''10.67''"

definition LINK_TUNNEL_PORT_BASE :: nat where
  "LINK_TUNNEL_PORT_BASE = 27000"

definition MAX_LINK_TUNNELS :: nat where
  "MAX_LINK_TUNNELS = 1000"

datatype tunnel_error =
    IndexOutOfRange nat
  | NoFreeIndex
  | HeadersUnfinished
  | LinkPortInUse "(string \<times> nat \<times> string) list"

definition tunnelIface :: "nat \<Rightarrow> string" where
  "tunnelIface index = LINK_TUNNEL_IFACE_PREFIX @ dec_of_nat index"

definition tunnelPort :: "nat \<Rightarrow> nat" where
  "tunnelPort index = LINK_TUNNEL_PORT_BASE + index"

record tunnel_addresses =
  ta_network :: string
  ta_from :: string
  ta_to :: string

definition tunnelAddresses :: "nat \<Rightarrow> tunnel_error + tunnel_addresses" where
  "tunnelAddresses index =
     (if index \<ge> MAX_LINK_TUNNELS then Inl (IndexOutOfRange index)
      else
        let third = index div 64; base = (index mod 64) * 4; net = LINK_TUNNEL_NET_PREFIX @ ''.'' @ dec_of_nat third in
        Inr \<lparr>ta_network = net @ ''.'' @ dec_of_nat base @ ''/30'', ta_from = net @ ''.'' @ dec_of_nat (base + 1),
             ta_to = net @ ''.'' @ dec_of_nat (base + 2)\<rparr>)"

section \<open>Keys and obfuscation\<close>

record tunnel_obfuscation =
  ob_jc :: nat
  ob_jmin :: nat
  ob_jmax :: nat
  ob_s1 :: nat
  ob_s2 :: nat
  ob_s3 :: nat
  ob_s4 :: nat
  ob_h1 :: nat
  ob_h2 :: nat
  ob_h3 :: nat
  ob_h4 :: nat

record tunnel_end =
  te_privateKey :: string
  te_publicKey :: string

record tunnel_cred =
  tn_from :: tunnel_end
  tn_to :: tunnel_end
  tn_obfuscation :: tunnel_obfuscation

text \<open>\<open>randomInt(lo, hi)\<close> as the k-th draw, below \<open>hi\<close>; and the k-th WireGuard key pair.\<close>

record tunnel_draws =
  dr_int :: "nat \<Rightarrow> nat \<Rightarrow> nat \<Rightarrow> nat"
  dr_pair :: "nat \<Rightarrow> tunnel_end"

text \<open>\<open>while (headers.size < 4) headers.add(randomInt(5, 2 ** 31))\<close>, with fuel.\<close>

fun draw_headers :: "tunnel_draws \<Rightarrow> nat \<Rightarrow> nat \<Rightarrow> nat list \<Rightarrow> (nat list \<times> nat) option" where
  "draw_headers dr fuel k headers =
     (if length headers \<ge> 4 then Some (headers, k)
      else case fuel of
        0 \<Rightarrow> None
      | Suc f \<Rightarrow> draw_headers dr f (Suc k) (set_add (dr_int dr k 5 (2 ^ 31)) headers))"

declare draw_headers.simps [simp del]

definition newTunnelObfuscation :: "tunnel_draws \<Rightarrow> nat \<Rightarrow> nat \<Rightarrow> (tunnel_obfuscation \<times> nat) option" where
  "newTunnelObfuscation dr fuel k =
     (let jmin = dr_int dr k 64 257;
          jmax = dr_int dr (k + 1) (jmin + 64) (min (jmin + 512) 1024 + 1);
          s1 = dr_int dr (k + 2) 16 65;
          s2d = dr_int dr (k + 3) 16 65;
          s2 = (if s1 + 56 = s2d then (if s2d = 64 then 63 else s2d + 1) else s2d) in
      case draw_headers dr fuel (k + 4) [] of
        None \<Rightarrow> None
      | Some (hs, n) \<Rightarrow>
          Some (\<lparr>ob_jc = dr_int dr n 3 9, ob_jmin = jmin, ob_jmax = jmax, ob_s1 = s1, ob_s2 = s2,
                 ob_s3 = dr_int dr (n + 1) 8 65, ob_s4 = dr_int dr (n + 2) 1 33,
                 ob_h1 = hs ! 0, ob_h2 = hs ! 1, ob_h3 = hs ! 2, ob_h4 = hs ! 3\<rparr>, n + 3))"

definition newTunnelCred :: "tunnel_draws \<Rightarrow> nat \<Rightarrow> nat \<Rightarrow> (tunnel_cred \<times> nat) option" where
  "newTunnelCred dr fuel k =
     (case newTunnelObfuscation dr fuel (k + 2) of
        None \<Rightarrow> None
      | Some (o0, n) \<Rightarrow> Some (\<lparr>tn_from = dr_pair dr k, tn_to = dr_pair dr (k + 1), tn_obfuscation = o0\<rparr>, n))"

text \<open>The column \<open>config\<close>: the credential as JSON, and read back whole or not at all.\<close>

definition end_json :: "tunnel_end \<Rightarrow> json" where
  "end_json e = JObj [(''privateKey'', JStr (te_privateKey e)), (''publicKey'', JStr (te_publicKey e))]"

definition obfuscation_fields :: "tunnel_obfuscation \<Rightarrow> (string \<times> nat) list" where
  "obfuscation_fields o0 = [(''jc'', ob_jc o0), (''jmin'', ob_jmin o0), (''jmax'', ob_jmax o0), (''s1'', ob_s1 o0), (''s2'', ob_s2 o0),
     (''s3'', ob_s3 o0), (''s4'', ob_s4 o0), (''h1'', ob_h1 o0), (''h2'', ob_h2 o0), (''h3'', ob_h3 o0), (''h4'', ob_h4 o0)]"

definition tunnel_json :: "tunnel_cred \<Rightarrow> json" where
  "tunnel_json c = JObj [(''from'', end_json (tn_from c)), (''to'', end_json (tn_to c)),
     (''obfuscation'', JObj (map (\<lambda>(k, v). (k, JNum v)) (obfuscation_fields (tn_obfuscation c))))]"

definition parse_end :: "json option \<Rightarrow> tunnel_end option" where
  "parse_end e =
     (case e of
        None \<Rightarrow> None
      | Some x \<Rightarrow>
          (case (as_str (jget x ''privateKey''), as_str (jget x ''publicKey'')) of
             (Some a, Some b) \<Rightarrow> Some \<lparr>te_privateKey = a, te_publicKey = b\<rparr>
           | _ \<Rightarrow> None))"

definition parse_obfuscation :: "json option \<Rightarrow> tunnel_obfuscation option" where
  "parse_obfuscation ob =
     (case ob of
        None \<Rightarrow> None
      | Some x \<Rightarrow>
          (let num = (\<lambda>k. as_num (jget x k)) in
           if list_all (\<lambda>k. num k \<noteq> None) [''jc'', ''jmin'', ''jmax'', ''s1'', ''s2'', ''s3'', ''s4'', ''h1'', ''h2'', ''h3'', ''h4'']
           then Some \<lparr>ob_jc = the (num ''jc''), ob_jmin = the (num ''jmin''), ob_jmax = the (num ''jmax''),
             ob_s1 = the (num ''s1''), ob_s2 = the (num ''s2''), ob_s3 = the (num ''s3''), ob_s4 = the (num ''s4''),
             ob_h1 = the (num ''h1''), ob_h2 = the (num ''h2''), ob_h3 = the (num ''h3''), ob_h4 = the (num ''h4'')\<rparr>
           else None))"

definition parseTunnelCred :: "json \<Rightarrow> tunnel_cred option" where
  "parseTunnelCred raw =
     (case (parse_end (jget raw ''from''), parse_end (jget raw ''to''), parse_obfuscation (jget raw ''obfuscation'')) of
        (Some f, Some t, Some ob) \<Rightarrow> Some \<lparr>tn_from = f, tn_to = t, tn_obfuscation = ob\<rparr>
      | _ \<Rightarrow> None)"

section \<open>Which pairs ride a tunnel\<close>

definition underlay_of :: "leg_params option \<Rightarrow> string option" where
  "underlay_of p = (case p of None \<Rightarrow> None | Some l \<Rightarrow> lp_underlay l)"

fun orelse :: "'a option \<Rightarrow> 'a option \<Rightarrow> 'a option" where
  "orelse (Some x) _ = Some x"
| "orelse None y = y"

definition pair_key :: "string \<Rightarrow> string \<Rightarrow> string" where
  "pair_key from to0 = from @ ''|'' @ to0"

fun add_pair :: "string list \<times> (string \<times> string) list \<Rightarrow> string \<times> string \<times> string option \<Rightarrow> string list \<times> (string \<times> string) list" where
  "add_pair (seen, out) (from, to0, underlay) =
     (if underlay \<noteq> Some ''awg'' \<or> from = to0 \<or> pair_key from to0 \<in> set seen then (seen, out)
      else (set_add (pair_key from to0) seen, out @ [(from, to0)]))"

definition all_pairs :: "string list \<Rightarrow> string list \<Rightarrow> string option \<Rightarrow> (string \<times> string \<times> string option) list" where
  "all_pairs froms tos u = concat (map (\<lambda>f. map (\<lambda>t. (f, t, u)) tos) froms)"

fun step_pairs :: "position_input list \<Rightarrow> (string \<times> string \<times> string option) list" where
  "step_pairs (p # q # ps) = all_pairs (po_nodeIds p) (po_nodeIds q) (underlay_of (po_linkParams p)) @ step_pairs (q # ps)"
| "step_pairs _ = []"

definition direction_pairs :: "position_input list \<Rightarrow> topo_direction list \<Rightarrow> (string \<times> string \<times> string option) list" where
  "direction_pairs ps ds =
     (if ps = [] then []
      else concat (map (\<lambda>d. all_pairs (po_nodeIds (last ps)) (td_nodeIds d)
        (orelse (underlay_of (td_linkParams d)) (underlay_of (po_linkParams (last ps))))) ds))"

definition topologyTunnelPairs :: "position_input list \<Rightarrow> topo_direction list \<Rightarrow> (string \<times> string) list" where
  "topologyTunnelPairs positions directions =
     (let ordered = sort_positions positions in
      snd (foldl add_pair ([], []) (step_pairs ordered @ direction_pairs ordered directions)))"

fun step_underlay :: "position_input list \<Rightarrow> string \<Rightarrow> string \<Rightarrow> string" where
  "step_underlay (p # q # ps) from to0 =
     (if from \<in> set (po_nodeIds p) \<and> to0 \<in> set (po_nodeIds q)
      then (case underlay_of (po_linkParams p) of Some u \<Rightarrow> u | None \<Rightarrow> ''direct'')
      else step_underlay (q # ps) from to0)"
| "step_underlay _ from to0 = ''direct''"

definition legUnderlay :: "position_input list \<Rightarrow> topo_direction list \<Rightarrow> string \<Rightarrow> string \<Rightarrow> nat \<Rightarrow> string" where
  "legUnderlay positions directions from to0 tag =
     (let ordered = sort_positions positions in
      case List.find (\<lambda>d. td_tag d = tag) directions of
        Some d \<Rightarrow>
          if ordered \<noteq> [] \<and> from \<in> set (po_nodeIds (last ordered)) \<and> to0 \<in> set (td_nodeIds d)
          then (case orelse (underlay_of (td_linkParams d)) (underlay_of (po_linkParams (last ordered))) of
                  Some u \<Rightarrow> u | None \<Rightarrow> ''direct'')
          else step_underlay ordered from to0
      | None \<Rightarrow> step_underlay ordered from to0)"

text \<open>Where a node's link-in listens: \<open>None\<close> is the wildcard.\<close>

definition linkInListen :: "'l list \<Rightarrow> ('l \<Rightarrow> nat option) \<Rightarrow> tunnel_error + string list option" where
  "linkInListen incoming tunnelUnder =
     (if incoming = [] then Inr None
      else if list_ex (\<lambda>l. tunnelUnder l = None) incoming then Inr None
      else rbind (rmap (\<lambda>l. rbind (tunnelAddresses (the (tunnelUnder l))) (\<lambda>a. Inr (ta_to a))) incoming) (\<lambda>as.
        Inr (Some (set_from as))))"

section \<open>The two ends\<close>

record topology_tunnel =
  tt_from :: string
  tt_to :: string
  tt_index :: nat
  tt_port :: nat
  tt_cred :: tunnel_cred

datatype tunnel_side = FromEnd | ToEnd

definition conf_line :: "string \<Rightarrow> string \<Rightarrow> string" where
  "conf_line k v = k @ '' = '' @ v"

definition endpoint_host :: "string \<Rightarrow> string" where
  "endpoint_host h = (if CHR '':'' \<in> set h then ''['' @ h @ '']'' else h)"

definition conf_lines :: "topology_tunnel \<Rightarrow> tunnel_side \<Rightarrow> string option \<Rightarrow> tunnel_addresses \<Rightarrow> string list" where
  "conf_lines t side peerHost addr =
     (let me = (if side = FromEnd then tn_from (tt_cred t) else tn_to (tt_cred t));
          peer = (if side = FromEnd then tn_to (tt_cred t) else tn_from (tt_cred t));
          o0 = tn_obfuscation (tt_cred t) in
      [''[Interface]'', conf_line ''PrivateKey'' (te_privateKey me),
       conf_line ''Address'' ((if side = FromEnd then ta_from addr else ta_to addr) @ ''/30'')] @
      (if side = ToEnd then [conf_line ''ListenPort'' (dec_of_nat (tt_port t))] else []) @
      [conf_line ''Table'' ''off'',
       conf_line ''Jc'' (dec_of_nat (ob_jc o0)), conf_line ''Jmin'' (dec_of_nat (ob_jmin o0)),
       conf_line ''Jmax'' (dec_of_nat (ob_jmax o0)), conf_line ''S1'' (dec_of_nat (ob_s1 o0)),
       conf_line ''S2'' (dec_of_nat (ob_s2 o0)), conf_line ''S3'' (dec_of_nat (ob_s3 o0)),
       conf_line ''S4'' (dec_of_nat (ob_s4 o0)), conf_line ''H1'' (dec_of_nat (ob_h1 o0)),
       conf_line ''H2'' (dec_of_nat (ob_h2 o0)), conf_line ''H3'' (dec_of_nat (ob_h3 o0)),
       conf_line ''H4'' (dec_of_nat (ob_h4 o0)), [], ''[Peer]'',
       conf_line ''PublicKey'' (te_publicKey peer),
       conf_line ''AllowedIPs'' ((if side = FromEnd then ta_to addr else ta_from addr) @ ''/32'')] @
      (if side = FromEnd \<and> \<not> falsy peerHost
       then [conf_line ''Endpoint'' (endpoint_host (the peerHost) @ '':'' @ dec_of_nat (tt_port t)),
             conf_line ''PersistentKeepalive'' ''25'']
       else []) @ [[]])"

definition renderTunnelConf :: "topology_tunnel \<Rightarrow> tunnel_side \<Rightarrow> string option \<Rightarrow> tunnel_error + string" where
  "renderTunnelConf t side peerHost =
     rbind (tunnelAddresses (tt_index t)) (\<lambda>addr. Inr (js_join [CHR 0x0A] (conf_lines t side peerHost addr)))"

section \<open>Writing the rows\<close>

text \<open>The loop over the indexes, counting up from \<open>i\<close> until enough are found or the end is reached.\<close>

fun free_from :: "nat list \<Rightarrow> nat \<Rightarrow> nat \<Rightarrow> nat \<Rightarrow> nat list" where
  "free_from used left count i =
     (case left of
        0 \<Rightarrow> []
      | Suc l \<Rightarrow>
          if count = 0 then []
          else if i \<in> set used then free_from used l count (Suc i)
          else i # free_from used l (count - 1) (Suc i))"

declare free_from.simps [simp del]

definition freeTunnelIndexes :: "nat list \<Rightarrow> nat \<Rightarrow> tunnel_error + nat list" where
  "freeTunnelIndexes used count =
     (let out = free_from used MAX_LINK_TUNNELS count 0 in
      if length out < count then Inl NoFreeIndex else Inr out)"

record tunnel_row =
  tw_id :: string
  tw_cascade :: string
  tw_from :: string
  tw_to :: string
  tw_index :: nat
  tw_port :: nat
  tw_config :: json

definition row_key :: "tunnel_row \<Rightarrow> string" where
  "row_key t = pair_key (tw_from t) (tw_to t)"

text \<open>The new rows, one per missing pair: the id the database draws, the index, the port that
  follows from it and a fresh credential.\<close>

fun create_tunnels ::
    "tunnel_draws \<Rightarrow> nat \<Rightarrow> (nat \<Rightarrow> string) \<Rightarrow> string \<Rightarrow> nat \<Rightarrow> ((string \<times> string) \<times> nat) list \<Rightarrow> tunnel_error + tunnel_row list" where
  "create_tunnels dr fuel ids cascadeId k [] = Inr []"
| "create_tunnels dr fuel ids cascadeId k (((f, t), index) # rest) =
     (case newTunnelCred dr fuel k of
        None \<Rightarrow> Inl HeadersUnfinished
      | Some (cred, n) \<Rightarrow>
          rbind (create_tunnels dr fuel ids cascadeId n rest) (\<lambda>rows.
            Inr (\<lparr>tw_id = ids index, tw_cascade = cascadeId, tw_from = f, tw_to = t, tw_index = index,
                  tw_port = tunnelPort index, tw_config = tunnel_json cred\<rparr> # rows)))"

definition tunnel_conflicts :: "ports_db \<Rightarrow> tunnel_row list \<Rightarrow> (string \<times> nat \<times> string) list" where
  "tunnel_conflicts db created =
     concat (map (\<lambda>t. List.map_filter (\<lambda>o0. case o0 of ProfileOwner name _ Udp \<Rightarrow> Some (tw_to t, tw_port t, name) | _ \<Rightarrow> None)
       (portOwnersOnNode db (tw_to t) [tw_port t] None)) created)"

definition writeTunnels ::
    "tunnel_draws \<Rightarrow> nat \<Rightarrow> (nat \<Rightarrow> string) \<Rightarrow> ports_db \<Rightarrow> tunnel_row list \<Rightarrow> string \<Rightarrow> position_input list \<Rightarrow> topo_direction list \<Rightarrow>
     tunnel_error + tunnel_row list" where
  "writeTunnels dr fuel ids db table cascadeId positions directions =
     (let wanted = topologyTunnelPairs positions directions;
          wantedKeys = set_from (map (\<lambda>(f, t). pair_key f t) wanted);
          mine = filter (\<lambda>t. tw_cascade t = cascadeId) table;
          keep = (\<lambda>t. row_key t \<in> set wantedKeys \<and> parseTunnelCred (tw_config t) \<noteq> None);
          kept = filter keep mine;
          dropped = filter (\<lambda>t. \<not> keep t) mine;
          table1 = filter (\<lambda>t. tw_id t \<notin> tw_id ` set dropped) table;
          have0 = set_from (map row_key kept);
          missing = filter (\<lambda>(f, t). pair_key f t \<notin> set have0) wanted in
      if missing = [] then Inr table1
      else
        rbind (freeTunnelIndexes (set_from (map tw_index table1)) (length missing)) (\<lambda>indexes.
        rbind (create_tunnels dr fuel ids cascadeId 0 (zip missing indexes)) (\<lambda>created.
        let conflicts = tunnel_conflicts db created in
        if conflicts \<noteq> [] then Inl (LinkPortInUse conflicts) else Inr (table1 @ created))))"

section \<open>Lemmas: the index\<close>

definition tunnel_base :: nat where
  "tunnel_base = 10 * 2 ^ 24 + 67 * 2 ^ 16"

lemma dec_small: "dec_of_nat 10 = ''10''" "dec_of_nat 67 = ''67''"
  by code_simp+

lemma tunnel_ip:
  assumes "x < 256" and "y < 256"
  shows "ipToInt (LINK_TUNNEL_NET_PREFIX @ ''.'' @ dec_of_nat x @ ''.'' @ dec_of_nat y) = Inr (tunnel_base + x * 256 + y)"
proof -
  let ?vs = "[10, 67, x, y]"
  have join: "LINK_TUNNEL_NET_PREFIX @ ''.'' @ dec_of_nat x @ ''.'' @ dec_of_nat y = js_join ''.'' (map dec_of_nat ?vs)"
    by (simp add: LINK_TUNNEL_NET_PREFIX_def dec_small)
  have split: "js_split CHR ''.'' (js_join ''.'' (map dec_of_nat ?vs)) = map dec_of_nat ?vs"
    by (rule js_split_join) (auto simp del: js_join.simps)
  have "ip_octets ip 0 (map dec_of_nat ?vs) = Inr (tunnel_base + x * 256 + y)" for ip
    using assms by (subst ip_octets_dec) (auto simp: tunnel_base_def)
  then have "ipToInt (js_join ''.'' (map dec_of_nat ?vs)) = Inr ((tunnel_base + x * 256 + y) mod 2 ^ 32)"
    unfolding ipToInt_def split by (simp add: Let_def del: js_join.simps)
  then show ?thesis
    unfolding join using assms by (simp add: tunnel_base_def)
qed

lemma tunnelAddresses_total:
  assumes "index < MAX_LINK_TUNNELS"
  obtains a where "tunnelAddresses index = Inr a" "ipToInt (ta_from a) = Inr (tunnel_base + 4 * index + 1)"
    "ipToInt (ta_to a) = Inr (tunnel_base + 4 * index + 2)"
proof -
  have "index div 64 * 64 + index mod 64 = index"
    by (rule div_mult_mod_eq)
  then have "index div 64 * 256 + (index mod 64) * 4 = 4 * index"
    by linarith
  moreover have "index div 64 < 256" "(index mod 64) * 4 + 2 < 256"
    using assms mod_less_divisor [of 64 index] by (auto simp: MAX_LINK_TUNNELS_def)
  moreover obtain a where "tunnelAddresses index = Inr a"
      "ta_from a = LINK_TUNNEL_NET_PREFIX @ ''.'' @ dec_of_nat (index div 64) @ ''.'' @ dec_of_nat ((index mod 64) * 4 + 1)"
      "ta_to a = LINK_TUNNEL_NET_PREFIX @ ''.'' @ dec_of_nat (index div 64) @ ''.'' @ dec_of_nat ((index mod 64) * 4 + 2)"
    using assms by (simp add: tunnelAddresses_def Let_def)
  ultimately show thesis
    using that tunnel_ip [of "index div 64" "(index mod 64) * 4 + 1"] tunnel_ip [of "index div 64" "(index mod 64) * 4 + 2"] by simp
qed

lemma free_from_Suc:
  "free_from used (Suc l) (Suc c) i = (if i \<in> set used then free_from used l (Suc c) (Suc i) else i # free_from used l c (Suc i))"
  by (subst free_from.simps) simp

lemma free_from_0 [simp]: "free_from used 0 c i = []"
  by (subst free_from.simps) simp

lemma free_from_none [simp]: "free_from used l 0 i = []"
  by (subst free_from.simps) (simp split: nat.split)

lemma free_from_spec:
  "free_from used left count i = take count (filter (\<lambda>j. j \<notin> set used) [i..<i + left])"
proof (induction left arbitrary: count i)
  case (Suc l)
  then show ?case
    by (cases count) (simp_all add: free_from_Suc upt_conv_Cons del: upt_Suc)
qed simp

lemma freeTunnelIndexes_eq:
  "freeTunnelIndexes used count =
     (let free = filter (\<lambda>j. j \<notin> set used) [0..<MAX_LINK_TUNNELS] in
      if length free < count then Inl NoFreeIndex else Inr (take count free))"
  by (auto simp: freeTunnelIndexes_def free_from_spec Let_def)

section \<open>Lemmas: keys and obfuscation\<close>

definition draws_ok :: "tunnel_draws \<Rightarrow> bool" where
  "draws_ok dr \<longleftrightarrow> (\<forall>k lo hi. lo < hi \<longrightarrow> lo \<le> dr_int dr k lo hi \<and> dr_int dr k lo hi < hi)"

lemma draws_okD: "draws_ok dr \<Longrightarrow> lo < hi \<Longrightarrow> lo \<le> dr_int dr k lo hi \<and> dr_int dr k lo hi < hi"
  by (simp add: draws_ok_def)

lemma draw_headers_spec:
  assumes "draws_ok dr" and "draw_headers dr fuel k hs = Some (hs', n)" and "distinct hs" and "length hs \<le> 4"
    and "\<forall>h \<in> set hs. 5 \<le> h \<and> h < 2 ^ 31"
  shows "distinct hs' \<and> length hs' = 4 \<and> (\<forall>h \<in> set hs'. 5 \<le> h \<and> h < 2 ^ 31)"
  using assms
proof (induction dr fuel k hs rule: draw_headers.induct)
  case (1 dr fuel k hs)
  have d: "5 \<le> dr_int dr k 5 (2 ^ 31) \<and> dr_int dr k 5 (2 ^ 31) < 2 ^ 31"
    using draws_okD [OF 1(2), of 5 "2 ^ 31" k] by simp
  show ?case
  proof (cases "length hs \<ge> 4")
    case True
    then show ?thesis
      using 1 by (simp add: draw_headers.simps)
  next
    case False
    then obtain f where "fuel = Suc f" "draw_headers dr f (Suc k) (set_add (dr_int dr k 5 (2 ^ 31)) hs) = Some (hs', n)"
      using 1(3) by (subst (asm) draw_headers.simps) (simp split: nat.splits)
    moreover have "length (set_add (dr_int dr k 5 (2 ^ 31)) hs) \<le> 4"
      using False by (simp add: set_add_def)
    moreover have "\<forall>h \<in> set (set_add (dr_int dr k 5 (2 ^ 31)) hs). 5 \<le> h \<and> h < 2 ^ 31"
      using 1(6) d by (metis insert_iff set_add_set)
    ultimately show ?thesis
      using 1(1) [OF False _ 1(2)] 1(4) set_add_distinct by blast
  qed
qed

text \<open>The loop ends as soon as the draws have shown four different values.\<close>

lemma draw_headers_ends:
  assumes "distinct hs" and "4 \<le> card (set hs \<union> (\<lambda>j. dr_int dr j 5 (2 ^ 31)) ` {k..<k + fuel})"
  shows "draw_headers dr fuel k hs \<noteq> None"
  using assms
proof (induction fuel arbitrary: k hs)
  case 0
  then show ?case
    by (simp add: draw_headers.simps distinct_card)
next
  case (Suc fuel)
  let ?d = "dr_int dr k 5 (2 ^ 31)"
  have "set hs \<union> (\<lambda>j. dr_int dr j 5 (2 ^ 31)) ` {k..<k + Suc fuel} =
      set (set_add ?d hs) \<union> (\<lambda>j. dr_int dr j 5 (2 ^ 31)) ` {Suc k..<Suc k + fuel}"
  proof -
    have "{k..<k + Suc fuel} = insert k {Suc k..<Suc k + fuel}"
      by auto
    then show ?thesis
      by (simp only: set_add_set image_insert) blast
  qed
  then have "draw_headers dr fuel (Suc k) (set_add ?d hs) \<noteq> None"
    using Suc by (metis set_add_distinct)
  then show ?case
    by (subst draw_headers.simps) simp
qed

lemma newTunnelCred_total:
  assumes "4 \<le> card ((\<lambda>j. dr_int dr j 5 (2 ^ 31)) ` {k + 6..<k + 6 + fuel})"
  shows "\<exists>o0 c n. newTunnelObfuscation dr fuel (k + 2) = Some (o0, n) \<and> newTunnelCred dr fuel k = Some (c, n) \<and> tn_obfuscation c = o0"
proof -
  have at: "k + 2 + 4 = k + 6"
    by simp
  have "draw_headers dr fuel (k + 6) [] \<noteq> None"
    using assms by (intro draw_headers_ends) simp_all
  then obtain hs m where "draw_headers dr fuel (k + 6) [] = Some (hs, m)"
    by fastforce
  then have "\<exists>o0 n. newTunnelObfuscation dr fuel (k + 2) = Some (o0, n)"
    unfolding newTunnelObfuscation_def Let_def at by simp
  then show ?thesis
    unfolding newTunnelCred_def by fastforce
qed

lemma parse_end_json [simp]: "parse_end (Some (end_json e)) = Some e"
  by (simp add: parse_end_def end_json_def)

lemma parse_tunnel_json [simp]: "parseTunnelCred (tunnel_json c) = Some c"
proof -
  have "parse_obfuscation (Some (JObj (map (\<lambda>(k, v). (k, JNum v)) (obfuscation_fields o0)))) = Some o0" for o0
    by (simp add: parse_obfuscation_def obfuscation_fields_def)
  then show ?thesis
    by (simp add: parseTunnelCred_def tunnel_json_def)
qed

interpretation tunnel_column: column tunnel_json parseTunnelCred "\<lambda>_. True"
  by unfold_locales simp_all

definition obfuscation_ok :: "tunnel_obfuscation \<Rightarrow> bool" where
  "obfuscation_ok o0 \<longleftrightarrow>
     ob_jc o0 \<le> 10 \<and> 64 \<le> ob_jmin o0 \<and> ob_jmin o0 < ob_jmax o0 \<and> ob_jmax o0 \<le> 1024 \<and>
     ob_s1 o0 \<le> 64 \<and> ob_s2 o0 \<le> 64 \<and> ob_s3 o0 \<le> 64 \<and> 0 < ob_s3 o0 \<and> ob_s4 o0 \<le> 32 \<and> 0 < ob_s4 o0 \<and>
     ob_s1 o0 + 56 \<noteq> ob_s2 o0 \<and>
     distinct [ob_h1 o0, ob_h2 o0, ob_h3 o0, ob_h4 o0] \<and> (\<forall>h \<in> {ob_h1 o0, ob_h2 o0, ob_h3 o0, ob_h4 o0}. 4 < h \<and> h < 2 ^ 31)"

lemma four_nth: "length hs = 4 \<Longrightarrow> hs = [hs ! 0, hs ! 1, hs ! 2, hs ! 3]"
  by (auto simp: numeral_eq_Suc length_Suc_conv)

lemma newTunnelObfuscation_ok:
  assumes "draws_ok dr" and "newTunnelObfuscation dr fuel k = Some (o0, n)"
  shows "obfuscation_ok o0"
proof -
  let ?jmin = "dr_int dr k 64 257"
  have jmin: "64 \<le> ?jmin \<and> ?jmin < 257"
    using draws_okD [OF assms(1), of 64 257 k] by simp
  have jmax: "?jmin + 64 \<le> dr_int dr (k + 1) (?jmin + 64) (min (?jmin + 512) 1024 + 1) \<and>
      dr_int dr (k + 1) (?jmin + 64) (min (?jmin + 512) 1024 + 1) < min (?jmin + 512) 1024 + 1"
    using jmin by (intro draws_okD [OF assms(1)]) auto
  have s: "16 \<le> dr_int dr j 16 65 \<and> dr_int dr j 16 65 < 65" for j
    using draws_okD [OF assms(1), of 16 65 j] by simp
  obtain hs m where hs: "draw_headers dr fuel (k + 4) [] = Some (hs, m)"
    using assms(2) by (auto simp: newTunnelObfuscation_def Let_def split: option.splits)
  have "distinct hs \<and> length hs = 4 \<and> (\<forall>h \<in> set hs. 5 \<le> h \<and> h < 2 ^ 31)"
    using draw_headers_spec [OF assms(1) hs] by simp
  then have four: "distinct [hs ! 0, hs ! 1, hs ! 2, hs ! 3] \<and> (\<forall>h \<in> {hs ! 0, hs ! 1, hs ! 2, hs ! 3}. 4 < h \<and> h < 2 ^ 31)"
    using four_nth [of hs] by (metis Suc_le_lessD eval_nat_numeral(3) list.set(1,2))
  have more: "3 \<le> dr_int dr m 3 9 \<and> dr_int dr m 3 9 < 9" "8 \<le> dr_int dr (m + 1) 8 65 \<and> dr_int dr (m + 1) 8 65 < 65"
      "1 \<le> dr_int dr (m + 2) 1 33 \<and> dr_int dr (m + 2) 1 33 < 33"
    using draws_okD [OF assms(1), of 3 9] draws_okD [OF assms(1), of 8 65] draws_okD [OF assms(1), of 1 33] by simp_all
  have o0: "o0 = \<lparr>ob_jc = dr_int dr m 3 9, ob_jmin = ?jmin,
      ob_jmax = dr_int dr (k + 1) (?jmin + 64) (min (?jmin + 512) 1024 + 1), ob_s1 = dr_int dr (k + 2) 16 65,
      ob_s2 = dr_int dr (k + 3) 16 65, ob_s3 = dr_int dr (m + 1) 8 65, ob_s4 = dr_int dr (m + 2) 1 33,
      ob_h1 = hs ! 0, ob_h2 = hs ! 1, ob_h3 = hs ! 2, ob_h4 = hs ! 3\<rparr>"
    using assms(2) s [of "k + 2"] s [of "k + 3"] by (auto simp: newTunnelObfuscation_def Let_def hs)
  show ?thesis
    unfolding obfuscation_ok_def o0 using jmin jmax s [of "k + 2"] s [of "k + 3"] more four by auto
qed

section \<open>Lemmas: pairs and legs\<close>

lemma pair_key_inj:
  assumes "no_bar f" and "no_bar f'" and "pair_key f t = pair_key f' t'"
  shows "f = f' \<and> t = t'"
proof -
  have "js_split CHR ''|'' (pair_key g u) = g # js_split CHR ''|'' u" if "no_bar g" for g u
    using that by (simp add: pair_key_def no_bar_def js_split_append)
  then have "f = f'"
    using arg_cong [OF assms(3), of "js_split CHR ''|''"] assms(1,2) by simp
  then show ?thesis
    using assms(3) by (simp add: pair_key_def)
qed

definition awg_pairs :: "(string \<times> string \<times> string option) list \<Rightarrow> (string \<times> string) set" where
  "awg_pairs cs = {(f, t) | f t. (f, t, Some ''awg'') \<in> set cs \<and> f \<noteq> t}"

lemma add_pairs_spec:
  assumes "\<forall>c \<in> set cs. no_bar (fst c)" and "\<forall>p \<in> set out. no_bar (fst p)" and "distinct out"
    and "set seen = (\<lambda>(f, t). pair_key f t) ` set out"
  shows "set (snd (foldl add_pair (seen, out) cs)) = set out \<union> awg_pairs cs \<and> distinct (snd (foldl add_pair (seen, out) cs))"
  using assms
proof (induction cs arbitrary: seen out)
  case Nil
  then show ?case
    by (simp add: awg_pairs_def)
next
  case (Cons c cs)
  obtain f t u where c: "c = (f, t, u)"
    by (cases c)
  have inj: "pair_key f t \<in> set seen \<longleftrightarrow> (f, t) \<in> set out"
  proof -
    have "pair_key f t = pair_key f' t' \<longleftrightarrow> f = f' \<and> t = t'" if "(f', t') \<in> set out" for f' t'
      using that Cons.prems(1,2) pair_key_inj [of f f' t t'] by (auto simp: c)
    then show ?thesis
      unfolding Cons.prems(4) by (auto intro: rev_image_eqI)
  qed
  have awg: "awg_pairs (c # cs) = (if u = Some ''awg'' \<and> f \<noteq> t then insert (f, t) (awg_pairs cs) else awg_pairs cs)"
    by (auto simp: awg_pairs_def c)
  show ?case
  proof (cases "u \<noteq> Some ''awg'' \<or> f = t \<or> (f, t) \<in> set out")
    case True
    then have "add_pair (seen, out) c = (seen, out)"
      by (auto simp: c inj)
    moreover have "set out \<union> awg_pairs (c # cs) = set out \<union> awg_pairs cs"
      unfolding awg using True by auto
    moreover have "\<forall>c \<in> set cs. no_bar (fst c)"
      using Cons.prems(1) by auto
    ultimately show ?thesis
      using Cons.IH [of out seen] Cons.prems(2-4) by simp
  next
    case False
    then have "add_pair (seen, out) c = (set_add (pair_key f t) seen, out @ [(f, t)])"
      by (simp add: c inj)
    moreover have "set out \<union> awg_pairs (c # cs) = set (out @ [(f, t)]) \<union> awg_pairs cs"
      unfolding awg using False by auto
    moreover have "\<forall>c \<in> set cs. no_bar (fst c)" "no_bar f"
      using Cons.prems(1) by (simp_all add: c)
    moreover have "distinct (out @ [(f, t)])" "\<forall>p \<in> set (out @ [(f, t)]). no_bar (fst p)"
      using Cons.prems(2,3) False \<open>no_bar f\<close> by simp_all
    moreover have "set (set_add (pair_key f t) seen) = (\<lambda>(f, t). pair_key f t) ` set (out @ [(f, t)])"
      using Cons.prems(4) by simp
    ultimately show ?thesis
      using Cons.IH [of "out @ [(f, t)]" "set_add (pair_key f t) seen"] by (simp del: add_pair.simps)
  qed
qed

lemma all_pairs_iff [simp]: "(f, t, u) \<in> set (all_pairs fs ts w) \<longleftrightarrow> f \<in> set fs \<and> t \<in> set ts \<and> u = w"
  by (auto simp: all_pairs_def)

lemma step_pairs_ends:
  "(f, t, u) \<in> set (step_pairs ps) \<Longrightarrow> f \<in> set (concat (map po_nodeIds ps)) \<and> t \<in> set (concat (map po_nodeIds (tl ps)))"
  by (induction ps rule: step_pairs.induct) auto

definition or_direct :: "string option \<Rightarrow> string" where
  "or_direct u = (case u of Some x \<Rightarrow> x | None \<Rightarrow> ''direct'')"

lemma or_direct_awg: "or_direct u = ''awg'' \<longleftrightarrow> u = Some ''awg''"
  by (cases u) (simp_all add: or_direct_def)

lemma step_underlay_at:
  "distinct (concat (map po_nodeIds ps)) \<Longrightarrow> (f, t, u) \<in> set (step_pairs ps) \<Longrightarrow> step_underlay ps f t = or_direct u"
proof (induction ps rule: step_pairs.induct)
  case (1 p q ps)
  show ?case
  proof (cases "(f, t, u) \<in> set (all_pairs (po_nodeIds p) (po_nodeIds q) (underlay_of (po_linkParams p)))")
    case True
    then show ?thesis
      by (auto simp: or_direct_def)
  next
    case False
    then have later: "(f, t, u) \<in> set (step_pairs (q # ps))"
      using 1(3) by auto
    then have "f \<notin> set (po_nodeIds p)"
      using step_pairs_ends [OF later] 1(2) by auto
    then show ?thesis
      using 1 later by simp
  qed
qed simp_all

lemma between_legs_pairs:
  "l \<in> set (between_legs s ps ds) \<Longrightarrow> \<exists>u. (lg_from l, lg_to l, u) \<in> set (step_pairs ps)"
  by (induction s ps ds rule: between_legs.induct) (auto simp: step_legs_def)

lemma pairs_between_legs:
  "(f, t, u) \<in> set (step_pairs ps) \<Longrightarrow> ds \<noteq> [] \<Longrightarrow> \<exists>l \<in> set (between_legs s ps ds). lg_from l = f \<and> lg_to l = t"
proof (induction s ps ds rule: between_legs.induct)
  case (1 s p q ps ds)
  have "(f, t, u) \<in> set (step_pairs (q # ps)) \<Longrightarrow> \<exists>l \<in> set (between_legs (Suc s) (q # ps) ds). lg_from l = f \<and> lg_to l = t"
    using 1 by blast
  moreover have "\<exists>l \<in> set (step_legs s p q ds c). lg_from l = f \<and> lg_to l = t"
    if "(f, t, u) \<in> set (all_pairs (po_nodeIds p) (po_nodeIds q) w)" for c w
    using that \<open>ds \<noteq> []\<close> by (cases ds) (auto simp: step_legs_def)
  ultimately show ?case
    using 1(2) by auto
qed simp_all

lemma out_legs_iff:
  "(\<exists>l \<in> set (out_legs ps ds). lg_from l = f \<and> lg_to l = t \<and> lg_tag l = k) \<longleftrightarrow>
   f \<in> set (po_nodeIds (last ps)) \<and> (\<exists>d \<in> set ds. td_tag d = k \<and> t \<in> set (td_nodeIds d))"
  by (auto simp: out_legs_def legs_into_def)

lemma direction_pairs_iff:
  "ps \<noteq> [] \<Longrightarrow> (f, t, u) \<in> set (direction_pairs ps ds) \<longleftrightarrow> f \<in> set (po_nodeIds (last ps)) \<and>
     (\<exists>d \<in> set ds. t \<in> set (td_nodeIds d) \<and> u = orelse (underlay_of (td_linkParams d)) (underlay_of (po_linkParams (last ps))))"
  by (auto simp: direction_pairs_def)

lemma find_tag:
  "distinct (map td_tag ds) \<Longrightarrow> d \<in> set ds \<Longrightarrow> List.find (\<lambda>e. td_tag e = td_tag d) ds = Some d"
  by (rule find_unique) (auto simp: distinct_map inj_on_def)

lemma legUnderlay_out:
  assumes "sort_positions ps = ps" and "ps \<noteq> []" and "distinct (map td_tag ds)" and "d \<in> set ds"
    and "f \<in> set (po_nodeIds (last ps))" and "t \<in> set (td_nodeIds d)"
  shows "legUnderlay ps ds f t (td_tag d) = or_direct (orelse (underlay_of (td_linkParams d)) (underlay_of (po_linkParams (last ps))))"
  using assms by (simp add: legUnderlay_def find_tag or_direct_def)

lemma legUnderlay_between:
  assumes "sort_positions ps = ps" and "names_ok ps ds" and "(f, t, u) \<in> set (step_pairs ps)"
  shows "legUnderlay ps ds f t k = or_direct u"
proof -
  have "t \<in> set (concat (map po_nodeIds ps))"
    using step_pairs_ends [OF assms(3)] by (cases ps) auto
  then have "t \<notin> set (td_nodeIds d)" if "d \<in> set ds" for d
    using assms(2) that by (auto simp: names_ok_def)
  moreover have "distinct (concat (map po_nodeIds ps))"
    using assms(2) by (simp add: names_ok_def)
  ultimately show ?thesis
    using step_underlay_at [OF _ assms(3)] assms(1)
    by (auto simp: legUnderlay_def Let_def split: option.split dest: find_Some_in)
qed

text \<open>A pair has a tunnel exactly when some planned leg between its nodes rides one.\<close>

lemma tunnel_pairs_of_legs:
  assumes "sort_positions ps = ps" and "ps \<noteq> []" and "ds \<noteq> []" and "names_ok ps ds"
  shows "distinct (topologyTunnelPairs ps ds)"
    and "(f, t) \<in> set (topologyTunnelPairs ps ds) \<longleftrightarrow>
      (\<exists>l \<in> set (between_legs 0 ps ds @ out_legs ps ds). lg_from l = f \<and> lg_to l = t \<and> legUnderlay ps ds f t (lg_tag l) = ''awg'')"
proof -
  have last: "set (po_nodeIds (last ps)) \<subseteq> set (concat (map po_nodeIds ps))"
    using assms(2) by (auto intro!: bexI [of _ "last ps"])
  have ends: "f \<in> set (concat (map po_nodeIds ps)) \<and> f \<noteq> t"
    if c: "(f, t, u) \<in> set (step_pairs ps @ direction_pairs ps ds)" for f t u
  proof -
    have dist: "distinct (concat (map po_nodeIds ps) @ concat (map td_nodeIds ds))"
      using assms(4) by (simp add: names_ok_def)
    have "f \<noteq> t" if "(f, t, u) \<in> set (step_pairs ps)"
      using dist that
      by (induction ps rule: step_pairs.induct) auto
    moreover have "f \<noteq> t" if "(f, t, u) \<in> set (direction_pairs ps ds)"
      using that dist last assms(2) by (auto simp: direction_pairs_iff)
    ultimately show ?thesis
      using c step_pairs_ends [of f t u ps] last assms(2) by (auto simp: direction_pairs_iff)
  qed
  have "\<forall>c \<in> set (step_pairs ps @ direction_pairs ps ds). no_bar (fst c)"
    using ends assms(4) unfolding names_ok_def list_all_iff by fastforce
  then have fold: "set (topologyTunnelPairs ps ds) = awg_pairs (step_pairs ps @ direction_pairs ps ds) \<and>
      distinct (topologyTunnelPairs ps ds)"
    using add_pairs_spec [of "step_pairs ps @ direction_pairs ps ds" "[]" "[]"] assms(1)
    by (simp add: topologyTunnelPairs_def del: foldl_append)
  then show "distinct (topologyTunnelPairs ps ds)"
    by simp
  have tags: "distinct (map td_tag ds)"
    using assms(4) by (simp add: names_ok_def)
  have between: "(f, t, Some ''awg'') \<in> set (step_pairs ps) \<longleftrightarrow>
      (\<exists>l \<in> set (between_legs 0 ps ds). lg_from l = f \<and> lg_to l = t \<and> legUnderlay ps ds f t (lg_tag l) = ''awg'')"
    using between_legs_pairs [of _ 0 ps ds] pairs_between_legs [of f t _ ps ds 0] assms(3) legUnderlay_between [OF assms(1,4)]
    by (metis or_direct_awg)
  have out: "(f, t, Some ''awg'') \<in> set (direction_pairs ps ds) \<longleftrightarrow>
      (\<exists>l \<in> set (out_legs ps ds). lg_from l = f \<and> lg_to l = t \<and> legUnderlay ps ds f t (lg_tag l) = ''awg'')"
  proof -
    have "(\<exists>l \<in> set (out_legs ps ds). lg_from l = f \<and> lg_to l = t \<and> legUnderlay ps ds f t (lg_tag l) = ''awg'') \<longleftrightarrow>
        f \<in> set (po_nodeIds (last ps)) \<and> (\<exists>d \<in> set ds. t \<in> set (td_nodeIds d) \<and> legUnderlay ps ds f t (td_tag d) = ''awg'')"
      using out_legs_iff [of ps ds f t] by metis
    also have "\<dots> \<longleftrightarrow> (f, t, Some ''awg'') \<in> set (direction_pairs ps ds)"
      unfolding direction_pairs_iff [OF assms(2)]
    proof (intro conj_cong refl bex_cong)
      fix d
      assume "f \<in> set (po_nodeIds (last ps))" "d \<in> set ds" "t \<in> set (td_nodeIds d)"
      then show "legUnderlay ps ds f t (td_tag d) = ''awg'' \<longleftrightarrow>
          Some ''awg'' = orelse (underlay_of (td_linkParams d)) (underlay_of (po_linkParams (last ps)))"
        using legUnderlay_out [OF assms(1,2) tags] by (simp add: or_direct_awg) metis
    qed
    finally show ?thesis
      by blast
  qed
  show "(f, t) \<in> set (topologyTunnelPairs ps ds) \<longleftrightarrow>
      (\<exists>l \<in> set (between_legs 0 ps ds @ out_legs ps ds). lg_from l = f \<and> lg_to l = t \<and> legUnderlay ps ds f t (lg_tag l) = ''awg'')"
  proof -
    have "(f, t) \<in> set (topologyTunnelPairs ps ds) \<longleftrightarrow>
        (f, t, Some ''awg'') \<in> set (step_pairs ps) \<or> (f, t, Some ''awg'') \<in> set (direction_pairs ps ds)"
      using ends [of f t "Some ''awg''"] by (simp add: conjunct1 [OF fold] awg_pairs_def) blast
    then show ?thesis
      unfolding between out set_append by blast
  qed
qed

section \<open>Lemmas: the rows\<close>

definition tunnels_ok :: "tunnel_row list \<Rightarrow> bool" where
  "tunnels_ok table \<longleftrightarrow> distinct (map tw_id table) \<and> distinct (map tw_index table) \<and>
     distinct (map (\<lambda>t. (tw_cascade t, tw_from t, tw_to t)) table) \<and>
     (\<forall>t \<in> set table. tw_index t < MAX_LINK_TUNNELS \<and> tw_port t = tunnelPort (tw_index t) \<and> no_bar (tw_from t))"

definition ids_fresh :: "(nat \<Rightarrow> string) \<Rightarrow> tunnel_row list \<Rightarrow> bool" where
  "ids_fresh ids table \<longleftrightarrow> inj ids \<and> range ids \<inter> tw_id ` set table = {}"

text \<open>A row of the cascade that stays: its pair is still wanted and its credential is whole.\<close>

definition stays :: "(string \<times> string) list \<Rightarrow> tunnel_row \<Rightarrow> bool" where
  "stays wanted t \<longleftrightarrow> (tw_from t, tw_to t) \<in> set wanted \<and> parseTunnelCred (tw_config t) \<noteq> None"

definition remaining :: "string \<Rightarrow> (string \<times> string) list \<Rightarrow> tunnel_row list \<Rightarrow> tunnel_row list" where
  "remaining c wanted table = filter (\<lambda>t. tw_cascade t = c \<longrightarrow> stays wanted t) table"

lemma pair_key_in:
  assumes "no_bar f" and "\<forall>p \<in> set ps. no_bar (fst p)"
  shows "pair_key f t \<in> (\<lambda>(f, t). pair_key f t) ` set ps \<longleftrightarrow> (f, t) \<in> set ps"
proof
  assume "pair_key f t \<in> (\<lambda>(f, t). pair_key f t) ` set ps"
  then obtain f' t' where p: "(f', t') \<in> set ps" "pair_key f t = pair_key f' t'"
    by auto
  then have "no_bar f'"
    using assms(2) by auto
  then show "(f, t) \<in> set ps"
    using pair_key_inj [OF assms(1) _ p(2)] p(1) by simp
qed (auto intro: rev_image_eqI)

lemma remaining_eq:
  assumes "distinct (map tw_id table)" and "\<And>t. t \<in> set table \<Longrightarrow> keep t \<longleftrightarrow> stays wanted t"
  shows "filter (\<lambda>t. tw_id t \<notin> tw_id ` set (filter (\<lambda>t. \<not> keep t) (filter (\<lambda>t. tw_cascade t = c) table))) table =
    remaining c wanted table"
  unfolding remaining_def
proof (rule filter_cong [OF refl])
  fix t
  assume "t \<in> set table"
  then show "tw_id t \<notin> tw_id ` set (filter (\<lambda>t. \<not> keep t) (filter (\<lambda>t. tw_cascade t = c) table)) \<longleftrightarrow>
      (tw_cascade t = c \<longrightarrow> stays wanted t)"
  proof -
    have "tw_id t \<in> tw_id ` set (filter (\<lambda>t. \<not> keep t) (filter (\<lambda>t. tw_cascade t = c) table)) \<longleftrightarrow>
        t \<in> set (filter (\<lambda>t. \<not> keep t) (filter (\<lambda>t. tw_cascade t = c) table))"
      using assms(1) \<open>t \<in> set table\<close> by (intro inj_on_image_mem_iff [of _ "set table"]) (auto simp: distinct_map)
    then show ?thesis
      using assms(2) [OF \<open>t \<in> set table\<close>] \<open>t \<in> set table\<close> by auto
  qed
qed

lemma create_tunnels_spec:
  assumes "create_tunnels dr fuel ids c k (zip ps is) = Inr rows" and "length is = length ps"
  shows "map (\<lambda>t. (tw_from t, tw_to t)) rows = ps \<and> map tw_index rows = is \<and> map tw_id rows = map ids is \<and>
    (\<forall>t \<in> set rows. tw_cascade t = c \<and> tw_port t = tunnelPort (tw_index t) \<and> parseTunnelCred (tw_config t) \<noteq> None)"
  using assms
proof (induction ps arbitrary: "is" k rows)
  case (Cons p ps)
  obtain i js where "is": "is = i # js" "length js = length ps"
    using Cons.prems(2) by (cases "is") auto
  obtain f t where p: "p = (f, t)"
    by (cases p)
  obtain cred n rest where "newTunnelCred dr fuel k = Some (cred, n)" "create_tunnels dr fuel ids c n (zip ps js) = Inr rest"
    "rows = \<lparr>tw_id = ids i, tw_cascade = c, tw_from = f, tw_to = t, tw_index = i, tw_port = tunnelPort i, tw_config = tunnel_json cred\<rparr> # rest"
    using Cons.prems(1) "is" p by (auto split: option.splits)
  then show ?case
    using Cons.IH [of n js rest] "is" p by simp
qed simp

lemma tunnel_conflicts_none:
  assumes "tunnel_conflicts db created = []" and "t \<in> set created"
  shows "ProfileOwner name p Udp \<notin> set (portOwnersOnNode db (tw_to t) [tw_port t] None)"
proof
  assume "ProfileOwner name p Udp \<in> set (portOwnersOnNode db (tw_to t) [tw_port t] None)"
  then have "(tw_to t, tw_port t, name) \<in> set (tunnel_conflicts db created)"
    using assms(2) by (force simp: tunnel_conflicts_def map_filter_def)
  then show False
    using assms(1) by simp
qed

text \<open>The save in terms of its three parts: what stays, what is missing, what is made.\<close>

lemma writeTunnels_cases:
  fixes c :: string and dr :: tunnel_draws and db :: ports_db
  assumes "tunnels_ok table" and "\<forall>p \<in> set (topologyTunnelPairs ps ds). no_bar (fst p)"
  defines "wanted \<equiv> topologyTunnelPairs ps ds"
  defines "left \<equiv> remaining c wanted table"
  defines "missing \<equiv> filter (\<lambda>p. p \<notin> (\<lambda>t. (tw_from t, tw_to t)) ` {t \<in> set left. tw_cascade t = c}) wanted"
  shows "writeTunnels dr fuel ids db table c ps ds =
    (if missing = [] then Inr left
     else rbind (freeTunnelIndexes (set_from (map tw_index left)) (length missing)) (\<lambda>indexes.
       rbind (create_tunnels dr fuel ids c 0 (zip missing indexes)) (\<lambda>created.
       if tunnel_conflicts db created \<noteq> [] then Inl (LinkPortInUse (tunnel_conflicts db created)) else Inr (left @ created))))"
proof -
  define keep where "keep t \<longleftrightarrow> row_key t \<in> set (set_from (map (\<lambda>(f, t). pair_key f t) wanted)) \<and> parseTunnelCred (tw_config t) \<noteq> None" for t
  have keep: "keep t \<longleftrightarrow> stays wanted t" if "t \<in> set table" for t
    using that assms(1) pair_key_in [OF _ assms(2), folded wanted_def, of "tw_from t" "tw_to t"]
    by (auto simp: keep_def stays_def row_key_def tunnels_ok_def)
  have left: "filter (\<lambda>t. tw_id t \<notin> tw_id ` set (filter (\<lambda>t. \<not> keep t) (filter (\<lambda>t. tw_cascade t = c) table))) table = left"
    unfolding left_def using assms(1) keep by (intro remaining_eq) (simp_all add: tunnels_ok_def)
  have mine: "set (filter keep (filter (\<lambda>t. tw_cascade t = c) table)) = {t \<in> set left. tw_cascade t = c}"
    using keep by (auto simp: left_def remaining_def)
  have "filter (\<lambda>(f, t). pair_key f t \<notin> set (set_from (map row_key (filter keep (filter (\<lambda>t. tw_cascade t = c) table))))) wanted = missing"
    unfolding missing_def
  proof (rule filter_cong [OF refl])
    fix p
    assume "p \<in> set wanted"
    then have "no_bar (fst p)"
      using assms(2) by (simp add: wanted_def)
    moreover have "\<forall>q \<in> (\<lambda>t. (tw_from t, tw_to t)) ` {t \<in> set left. tw_cascade t = c}. no_bar (fst q)"
      using assms(1) by (auto simp: left_def remaining_def tunnels_ok_def)
    ultimately have "pair_key (fst p) (snd p) = row_key t \<longleftrightarrow> p = (tw_from t, tw_to t)"
        if "t \<in> {t \<in> set left. tw_cascade t = c}" for t
      using that pair_key_inj [of "fst p" "tw_from t" "snd p" "tw_to t"] by (cases p) (auto simp: row_key_def)
    then have "pair_key (fst p) (snd p) \<in> row_key ` {t \<in> set left. tw_cascade t = c} \<longleftrightarrow>
        p \<in> (\<lambda>t. (tw_from t, tw_to t)) ` {t \<in> set left. tw_cascade t = c}"
      unfolding image_iff by blast
    then show "(case p of (f, t) \<Rightarrow> pair_key f t \<notin> set (set_from (map row_key (filter keep (filter (\<lambda>t. tw_cascade t = c) table))))) \<longleftrightarrow>
        p \<notin> (\<lambda>t. (tw_from t, tw_to t)) ` {t \<in> set left. tw_cascade t = c}"
      by (simp only: case_prod_beta set_from_set set_map mine)
  qed
  then show ?thesis
    unfolding writeTunnels_def Let_def wanted_def [symmetric] keep_def [symmetric] left by (simp only:)
qed

lemma tunnels_ok_remaining: "tunnels_ok table \<Longrightarrow> tunnels_ok (remaining c wanted table)"
  by (auto simp: tunnels_ok_def remaining_def distinct_map_filter)

lemma tunnels_ok_append:
  assumes "tunnels_ok a" and "tunnels_ok b" and "tw_id ` set a \<inter> tw_id ` set b = {}" and "tw_index ` set a \<inter> tw_index ` set b = {}"
    and "(\<lambda>t. (tw_cascade t, tw_from t, tw_to t)) ` set a \<inter> (\<lambda>t. (tw_cascade t, tw_from t, tw_to t)) ` set b = {}"
  shows "tunnels_ok (a @ b)"
  using assms by (auto simp: tunnels_ok_def)

lemma create_tunnels_ok:
  assumes "create_tunnels dr fuel ids c 0 (zip ps is) = Inr rows" and "length is = length ps"
    and "distinct ps" and "\<forall>p \<in> set ps. no_bar (fst p)" and "distinct is" and "\<forall>i \<in> set is. i < MAX_LINK_TUNNELS" and "inj ids"
  shows "tunnels_ok rows"
proof -
  note spec = create_tunnels_spec [OF assms(1,2)]
  have pairs: "map (\<lambda>t. (tw_from t, tw_to t)) rows = ps" and idx: "map tw_index rows = is" and id: "map tw_id rows = map ids is"
    using spec by auto
  have "distinct (map (\<lambda>t. (tw_cascade t, tw_from t, tw_to t)) rows)"
    using assms(3) unfolding pairs [symmetric] by (auto simp: distinct_map inj_on_def)
  moreover have "distinct (map tw_id rows)"
    unfolding id using assms(5,7) by (simp add: distinct_map inj_on_def)
  moreover have "no_bar (tw_from t)" if "t \<in> set rows" for t
  proof -
    have "(tw_from t, tw_to t) \<in> set ps"
      using that by (simp flip: pairs)
    then show ?thesis
      using assms(4) by fastforce
  qed
  moreover have "tw_index t < MAX_LINK_TUNNELS" if "t \<in> set rows" for t
    using that assms(6) by (simp flip: idx)
  ultimately show ?thesis
    using spec assms(5) idx by (simp add: tunnels_ok_def)
qed

text \<open>The pairs of a save without a row, the indexes nobody holds, and what the table owes the
  cascade afterwards.\<close>

definition missing_pairs :: "string \<Rightarrow> (string \<times> string) list \<Rightarrow> tunnel_row list \<Rightarrow> (string \<times> string) list" where
  "missing_pairs c wanted table =
     filter (\<lambda>p. p \<notin> (\<lambda>t. (tw_from t, tw_to t)) ` {t \<in> set (remaining c wanted table). tw_cascade t = c}) wanted"

definition free_indexes :: "tunnel_row list \<Rightarrow> nat list" where
  "free_indexes table = filter (\<lambda>j. j \<notin> tw_index ` set table) [0..<MAX_LINK_TUNNELS]"

definition tunnels_serve :: "ports_db \<Rightarrow> string \<Rightarrow> (string \<times> string) list \<Rightarrow> tunnel_row list \<Rightarrow> tunnel_row list \<Rightarrow> bool" where
  "tunnels_serve db c wanted table table' \<longleftrightarrow>
     tunnels_ok table' \<and>
     filter (\<lambda>t. tw_cascade t \<noteq> c) table' = filter (\<lambda>t. tw_cascade t \<noteq> c) table \<and>
     (\<lambda>t. (tw_from t, tw_to t)) ` {t \<in> set table'. tw_cascade t = c} = set wanted \<and>
     (\<forall>t \<in> set table'. tw_cascade t = c \<longrightarrow> parseTunnelCred (tw_config t) \<noteq> None) \<and>
     (\<forall>t \<in> set table. tw_cascade t = c \<and> (tw_from t, tw_to t) \<in> set wanted \<and>
       parseTunnelCred (tw_config t) \<noteq> None \<longrightarrow> t \<in> set table') \<and>
     (\<forall>t \<in> set table' - set table. \<forall>name p. ProfileOwner name p Udp \<notin> set (portOwnersOnNode db (tw_to t) [tw_port t] None))"

lemma writeTunnels_run:
  assumes "tunnels_ok table" and "\<forall>p \<in> set (topologyTunnelPairs ps ds). no_bar (fst p)"
  shows "writeTunnels dr fuel ids db table c ps ds =
    (let left = remaining c (topologyTunnelPairs ps ds) table; missing = missing_pairs c (topologyTunnelPairs ps ds) table in
     if missing = [] then Inr left
     else if length (free_indexes left) < length missing then Inl NoFreeIndex
     else rbind (create_tunnels dr fuel ids c 0 (zip missing (take (length missing) (free_indexes left)))) (\<lambda>created.
       if tunnel_conflicts db created \<noteq> [] then Inl (LinkPortInUse (tunnel_conflicts db created)) else Inr (left @ created)))"
  unfolding writeTunnels_cases [OF assms] missing_pairs_def [symmetric] freeTunnelIndexes_eq Let_def set_from_set set_map
    free_indexes_def [symmetric]
  by simp

lemma remaining_facts:
  shows "set (remaining c wanted table) \<subseteq> set table" and "length (remaining c wanted table) \<le> length table"
    and "filter (\<lambda>t. tw_cascade t \<noteq> c) (remaining c wanted table) = filter (\<lambda>t. tw_cascade t \<noteq> c) table"
    and "{t \<in> set (remaining c wanted table). tw_cascade t = c} = {t \<in> set table. tw_cascade t = c \<and> stays wanted t}"
    and "(\<lambda>t. (tw_from t, tw_to t)) ` {t \<in> set (remaining c wanted table). tw_cascade t = c} \<union> set (missing_pairs c wanted table) = set wanted"
  by (auto simp: remaining_def missing_pairs_def stays_def intro: filter_cong)

lemma left_serves:
  assumes "tunnels_ok table" and "missing_pairs c wanted table = []"
  shows "tunnels_serve db c wanted table (remaining c wanted table)"
  using assms(2) tunnels_ok_remaining [OF assms(1), of c wanted] remaining_facts [of c wanted table]
  by (auto simp: tunnels_serve_def stays_def)

lemma created_ok:
  assumes "tunnels_ok left" and "ids_fresh ids left" and "distinct missing" and "\<forall>p \<in> set missing. no_bar (fst p)"
    and "set missing \<inter> (\<lambda>t. (tw_from t, tw_to t)) ` {t \<in> set left. tw_cascade t = c} = {}"
    and "\<not> length (free_indexes left) < length missing"
    and "create_tunnels dr fuel ids c 0 (zip missing (take (length missing) (free_indexes left))) = Inr created"
  shows "tunnels_ok (left @ created)"
proof (rule tunnels_ok_append [OF assms(1)])
  let ?is = "take (length missing) (free_indexes left)"
  have idx: "length ?is = length missing" "distinct ?is" "\<forall>i \<in> set ?is. i < MAX_LINK_TUNNELS \<and> i \<notin> tw_index ` set left"
    using assms(6) by (auto simp: free_indexes_def dest: in_set_takeD)
  note spec = create_tunnels_spec [OF assms(7) idx(1)]
  have pairs: "(\<lambda>t. (tw_from t, tw_to t)) ` set created = set missing"
    and index: "tw_index ` set created = set ?is" and id: "tw_id ` set created = ids ` set ?is"
    using spec by (metis list.set_map)+
  show "tunnels_ok created"
    using idx assms(2-4) by (intro create_tunnels_ok [OF assms(7)]) (auto simp: ids_fresh_def)
  show "tw_id ` set left \<inter> tw_id ` set created = {}"
    unfolding id using assms(2) by (auto simp: ids_fresh_def)
  show "tw_index ` set left \<inter> tw_index ` set created = {}"
    unfolding index using idx(3) by auto
  have made: "(tw_from t, tw_to t) \<in> set missing \<and> tw_cascade t = c" if "t \<in> set created" for t
    using that pairs spec by auto
  have "(tw_cascade s, tw_from s, tw_to s) \<noteq> (tw_cascade t, tw_from t, tw_to t)" if "s \<in> set left" "t \<in> set created" for s t
  proof
    assume eq: "(tw_cascade s, tw_from s, tw_to s) = (tw_cascade t, tw_from t, tw_to t)"
    then have "(tw_from t, tw_to t) \<in> (\<lambda>t. (tw_from t, tw_to t)) ` {t \<in> set left. tw_cascade t = c}"
      using made [OF that(2)] that(1) by (intro image_eqI [of _ _ s]) auto
    then show False
      using made [OF that(2)] assms(5) by blast
  qed
  then show "(\<lambda>t. (tw_cascade t, tw_from t, tw_to t)) ` set left \<inter> (\<lambda>t. (tw_cascade t, tw_from t, tw_to t)) ` set created = {}"
    by blast
qed

lemma created_serves:
  assumes "tunnels_ok table" and "ids_fresh ids table" and "distinct wanted" and "\<forall>p \<in> set wanted. no_bar (fst p)"
    and "\<not> length (free_indexes (remaining c wanted table)) < length (missing_pairs c wanted table)"
    and "create_tunnels dr fuel ids c 0 (zip (missing_pairs c wanted table)
      (take (length (missing_pairs c wanted table)) (free_indexes (remaining c wanted table)))) = Inr created"
    and "tunnel_conflicts db created = []"
  shows "tunnels_serve db c wanted table (remaining c wanted table @ created)"
proof -
  let ?left = "remaining c wanted table" and ?missing = "missing_pairs c wanted table"
  note facts = remaining_facts [of c wanted table]
  have "ids_fresh ids ?left"
    using assms(2) image_mono [OF facts(1), of tw_id] by (auto simp: ids_fresh_def)
  then have "tunnels_ok (?left @ created)"
    by (rule created_ok [OF tunnels_ok_remaining [OF assms(1)] _ _ _ _ assms(5,6)])
      (use assms(3,4) in \<open>auto simp: missing_pairs_def\<close>)
  moreover have idx: "length (take (length ?missing) (free_indexes ?left)) = length ?missing"
    using assms(5) by simp
  note spec = create_tunnels_spec [OF assms(6) idx]
  have pairs: "(\<lambda>t. (tw_from t, tw_to t)) ` set created = set ?missing"
    using spec by (metis list.set_map)
  have "filter (\<lambda>t. tw_cascade t \<noteq> c) created = []"
    using spec by (simp add: filter_empty_conv)
  moreover have "{t \<in> set (?left @ created). tw_cascade t = c} = {t \<in> set ?left. tw_cascade t = c} \<union> set created"
    using spec by auto
  then have "(\<lambda>t. (tw_from t, tw_to t)) ` {t \<in> set (?left @ created). tw_cascade t = c} = set wanted"
    using facts(5) pairs by (simp add: image_Un)
  moreover have "\<forall>t \<in> set (?left @ created) - set table. \<forall>name p.
      ProfileOwner name p Udp \<notin> set (portOwnersOnNode db (tw_to t) [tw_port t] None)"
    using tunnel_conflicts_none [OF assms(7)] facts(1) by auto
  moreover have "\<forall>t \<in> set (?left @ created). tw_cascade t = c \<longrightarrow> parseTunnelCred (tw_config t) \<noteq> None"
    using spec facts(4) by (auto simp: stays_def)
  moreover have "\<forall>t \<in> set table. tw_cascade t = c \<and> (tw_from t, tw_to t) \<in> set wanted \<and> parseTunnelCred (tw_config t) \<noteq> None \<longrightarrow>
      t \<in> set (?left @ created)"
    using facts(4) by (auto simp: stays_def)
  ultimately show ?thesis
    unfolding tunnels_serve_def by (simp only: filter_append facts(3) append_Nil2)
qed

lemma free_indexes_many: "MAX_LINK_TUNNELS \<le> length (free_indexes left) + length left"
proof -
  have "{0..<MAX_LINK_TUNNELS} \<subseteq> set (free_indexes left) \<union> set (map tw_index left)"
    by (auto simp: free_indexes_def)
  then have "card {0..<MAX_LINK_TUNNELS} \<le> card (set (free_indexes left) \<union> set (map tw_index left))"
    by (intro card_mono) simp_all
  also have "\<dots> \<le> card (set (free_indexes left)) + card (set (map tw_index left))"
    by (rule card_Un_le)
  also have "\<dots> \<le> length (free_indexes left) + length (map tw_index left)"
    by (intro add_mono card_length)
  finally show ?thesis
    by simp
qed

lemma create_tunnels_error: "create_tunnels dr fuel ids c k ps \<noteq> Inl NoFreeIndex"
  by (induction dr fuel ids c k ps rule: create_tunnels.induct) (auto split: option.splits)

lemma missing_length: "length (missing_pairs c wanted table) \<le> length wanted"
  by (simp add: missing_pairs_def)

lemma writeTunnels_serves:
  assumes "tunnels_ok table" and "ids_fresh ids table" and "distinct (topologyTunnelPairs ps ds)"
    and "\<forall>p \<in> set (topologyTunnelPairs ps ds). no_bar (fst p)"
    and written: "writeTunnels dr fuel ids db table c ps ds = Inr table'"
  shows "tunnels_serve db c (topologyTunnelPairs ps ds) table table'"
proof -
  define wanted where "wanted = topologyTunnelPairs ps ds"
  note run = writeTunnels_run [OF assms(1,4), folded wanted_def, of dr fuel ids db c]
  have "tunnels_serve db c wanted table table'"
  proof (cases "missing_pairs c wanted table = []")
    case True
    then have "table' = remaining c wanted table"
      using written unfolding run by (simp add: Let_def)
    then show ?thesis
      using left_serves [OF assms(1) True] by simp
  next
    case False
    then obtain created where "\<not> length (free_indexes (remaining c wanted table)) < length (missing_pairs c wanted table)"
        "create_tunnels dr fuel ids c 0 (zip (missing_pairs c wanted table)
          (take (length (missing_pairs c wanted table)) (free_indexes (remaining c wanted table)))) = Inr created"
        "tunnel_conflicts db created = []" "table' = remaining c wanted table @ created"
      using written unfolding run by (auto simp: Let_def split: if_splits)
    then show ?thesis
      using created_serves [OF assms(1,2)] assms(3,4) by (simp add: wanted_def)
  qed
  then show ?thesis
    by (simp add: wanted_def)
qed

section \<open>Lemmas: the configuration text\<close>

text \<open>The reader's view of the text: the value of the first line \<open>key = value\<close>.\<close>

definition conf_value :: "string \<Rightarrow> string \<Rightarrow> string option" where
  "conf_value text key =
     (case List.find (\<lambda>l. js_starts_with (key @ '' = '') l) (js_split (CHR 0x0A) text) of
        None \<Rightarrow> None
      | Some l \<Rightarrow> Some (drop (length key + 3) l))"

definition one_line :: "string \<Rightarrow> bool" where
  "one_line s \<longleftrightarrow> CHR 0x0A \<notin> set s"

lemma one_line_simps [simp]:
  "one_line (a @ b) \<longleftrightarrow> one_line a \<and> one_line b" "one_line []" "one_line (c # s) \<longleftrightarrow> c \<noteq> CHR 0x0A \<and> one_line s"
  "one_line (dec_of_nat n)"
  using dec_of_nat_digits [of n] by (auto simp: one_line_def list_all_iff is_digit_def)

lemma conf_value_join:
  assumes "list_all one_line ls" and "ls \<noteq> []"
  shows "conf_value (js_join [CHR 0x0A] ls) key =
    (case List.find (\<lambda>l. js_starts_with (key @ '' = '') l) ls of None \<Rightarrow> None | Some l \<Rightarrow> Some (drop (length key + 3) l))"
proof -
  have "js_split (CHR 0x0A) (js_join [CHR 0x0A] ls) = ls"
    using assms by (intro js_split_join) (auto simp: list_all_iff one_line_def)
  then show ?thesis
    by (simp add: conf_value_def)
qed

lemma conf_line_start [simp]:
  "js_starts_with (k @ '' = '') (conf_line k v)" "drop (length k + 3) (conf_line k v) = v"
  by (simp_all add: conf_line_def js_starts_with_def)

definition cred_one_line :: "tunnel_cred \<Rightarrow> bool" where
  "cred_one_line c \<longleftrightarrow> one_line (te_privateKey (tn_from c)) \<and> one_line (te_publicKey (tn_from c)) \<and>
     one_line (te_privateKey (tn_to c)) \<and> one_line (te_publicKey (tn_to c))"

lemma tunnel_addresses_one_line:
  "tunnelAddresses i = Inr a \<Longrightarrow> one_line (ta_from a) \<and> one_line (ta_to a)"
  by (auto simp: tunnelAddresses_def Let_def LINK_TUNNEL_NET_PREFIX_def split: if_splits)

lemma conf_lines_one_line:
  assumes "cred_one_line (tt_cred t)" and "tunnelAddresses i = Inr a" and "one_line (case h of Some x \<Rightarrow> x | None \<Rightarrow> [])"
  shows "list_all one_line (conf_lines t side h a)"
  using assms tunnel_addresses_one_line [OF assms(2)]
  by (auto simp: conf_lines_def conf_line_def endpoint_host_def cred_one_line_def falsy_def Let_def split: option.splits)

lemma starts_conf_line: "js_starts_with (k @ '' = '') (conf_line k' v) \<longleftrightarrow> js_starts_with (k @ '' = '') (k' @ '' = '' @ v)"
  by (simp add: conf_line_def)

section \<open>Properties\<close>

text \<open>Two tunnels never collide: every index the panel can hand out has its two addresses, they
  are the first two hosts of that index's own /30 in 10.67.0.0/16 (so the addresses of different
  tunnels differ and none lies in the default user subnet), and ports and interface names of
  different tunnels differ, the ports all between 27000 and 27999.\<close>

theorem tunnel_addresses_apart:
  assumes "i < MAX_LINK_TUNNELS" and "j < MAX_LINK_TUNNELS" and "i \<noteq> j" and "parseSubnet ''10.66.66.0/24'' = Inr r"
  shows "\<exists>a b fa ta fb tb. tunnelAddresses i = Inr a \<and> tunnelAddresses j = Inr b \<and>
    ipToInt (ta_from a) = Inr fa \<and> ipToInt (ta_to a) = Inr ta \<and> ipToInt (ta_from b) = Inr fb \<and> ipToInt (ta_to b) = Inr tb \<and>
    fa mod 4 = 1 \<and> ta = fa + 1 \<and> distinct [fa div 4, fb div 4] \<and> distinct [fa, ta, fb, tb] \<and>
    fa div 2 ^ 16 = 10 * 256 + 67 \<and> lastUsable r < fa \<and>
    tunnelPort i \<noteq> tunnelPort j \<and> tunnelIface i \<noteq> tunnelIface j \<and> tunnelPort i \<in> {27000..<28000}"
proof -
  obtain a where a: "tunnelAddresses i = Inr a" "ipToInt (ta_from a) = Inr (tunnel_base + 4 * i + 1)"
      "ipToInt (ta_to a) = Inr (tunnel_base + 4 * i + 2)"
    using tunnelAddresses_total [OF assms(1)] by blast
  obtain b where b: "tunnelAddresses j = Inr b" "ipToInt (ta_from b) = Inr (tunnel_base + 4 * j + 1)"
      "ipToInt (ta_to b) = Inr (tunnel_base + 4 * j + 2)"
    using tunnelAddresses_total [OF assms(2)] by blast
  have four: "(tunnel_base + 4 * k + 1) mod 4 = 1" "(tunnel_base + 4 * k + 1) div 4 = tunnel_base div 4 + k" for k
    by (simp_all add: tunnel_base_def)
  have "(tunnel_base + 4 * i + 1) div 2 ^ 16 = 10 * 256 + 67"
    using assms(1) by (simp add: tunnel_base_def MAX_LINK_TUNNELS_def)
  moreover have "lastUsable r < tunnel_base + 4 * i + 1"
    using assms(4) parseSubnet_default by (auto simp: tunnel_base_def)
  moreover have "tunnelPort i \<noteq> tunnelPort j" "tunnelIface i \<noteq> tunnelIface j" "tunnelPort i \<in> {27000..<28000}"
    using assms(1-3) dec_of_nat_inj by (auto simp: tunnelPort_def tunnelIface_def LINK_TUNNEL_PORT_BASE_def MAX_LINK_TUNNELS_def)
  moreover have "distinct [tunnel_base + 4 * i + 1, tunnel_base + 4 * i + 2, tunnel_base + 4 * j + 1, tunnel_base + 4 * j + 2]"
    using assms(3) by auto
  ultimately show ?thesis
    using a b assms(3) four by (intro exI conjI) (assumption | simp)+
qed

theorem tunnel_addresses_apart_witness:
  "\<exists>a b. tunnelAddresses 0 = Inr a \<and> tunnelAddresses 64 = Inr b \<and> tunnelIface 0 \<noteq> tunnelIface 64"
  using tunnel_addresses_apart [of 0 64] parseSubnet_default by (auto simp: MAX_LINK_TUNNELS_def)

text \<open>C30. A leg has a tunnel under it exactly when it says so: on a validated topology a node pair is
  given a tunnel if and only if some planned leg between the two rides the AWG underlay, as the
  renderers read it off, and each pair is given one tunnel however many legs ride it.\<close>

theorem awg_legs_have_tunnels:
  assumes "validateCascadeTopology positions directions = Inr v" and "direction_cells_ok directions"
    and "length tags = length directions" and "distinct tags"
    and "list_all no_bar (concat (map po_nodeIds (vt_positions v)) @ concat (map rd_nodeIds directions))"
  shows "\<exists>plan. plan_legs (vt_positions v) (map2 topo_of tags directions) = Inr plan \<and>
    set (topologyTunnelPairs (vt_positions v) (map2 topo_of tags directions)) =
      {(lg_from l, lg_to l) | l. l \<in> set plan \<and>
        legUnderlay (vt_positions v) (map2 topo_of tags directions) (lg_from l) (lg_to l) (lg_tag l) = ''awg''} \<and>
    distinct (topologyTunnelPairs (vt_positions v) (map2 topo_of tags directions))"
proof -
  note vp = validated_plan [OF assms(1-3)]
  have names: "names_ok (vt_positions v) (map2 topo_of tags directions)"
    unfolding names_ok_def vp(6,7) using vp(5)[unfolded vp(6)] assms(4,5) by blast
  have ne: "vt_positions v \<noteq> []"
    using vp(1) by (simp add: cells_ok_def)
  note pairs = tunnel_pairs_of_legs [OF vp(4) ne vp(3) names]
  show ?thesis
    using plan_total [OF vp(1)] pairs by (intro exI conjI) (assumption | auto)+
qed

definition awg_positions :: "position_input list" where
  "awg_positions = map (\<lambda>p. p\<lparr>po_linkParams := Some \<lparr>lp_congestion = None, lp_underlay = Some ''awg''\<rparr>\<rparr>) demo_positions"

lemma awg_validates:
  "validateCascadeTopology awg_positions demo_directions =
     Inr \<lparr>vt_positions = awg_positions, vt_directions = demo_directions, vt_linkCount = 1\<rparr>"
  by (simp add: validate_iff topology_ok_def awg_positions_def demo_positions_def demo_directions_def sort_positions_def falsy_def
      CHAIN_ENTRY_PROTOCOLS_def linkCellFor_def LINK_CELLS_def outbounds_of_def all_nodes_def countLinks_def)

lemma awg_pair: "topologyTunnelPairs awg_positions (map2 topo_of [1] demo_directions) = [(''a'', ''b'')]"
  by (simp add: topologyTunnelPairs_def direction_pairs_def all_pairs_def awg_positions_def demo_positions_def demo_directions_def
      sort_positions_def topo_of_def underlay_of_def pair_key_def)

theorem awg_legs_have_tunnels_witness:
  "\<exists>plan. plan_legs awg_positions (map2 topo_of [1] demo_directions) = Inr plan \<and>
     (\<exists>l \<in> set plan. lg_from l = ''a'' \<and> lg_to l = ''b'' \<and>
       legUnderlay awg_positions (map2 topo_of [1] demo_directions) (lg_from l) (lg_to l) (lg_tag l) = ''awg'')"
proof -
  have ok: "direction_cells_ok demo_directions" "length [1 :: nat] = length demo_directions" "distinct [1 :: nat]"
      "list_all no_bar (concat (map po_nodeIds awg_positions) @ concat (map rd_nodeIds demo_directions))"
    by (simp_all add: direction_cells_ok_def demo_directions_def awg_positions_def demo_positions_def falsy_def no_bar_def)
  obtain plan where plan: "plan_legs awg_positions (map2 topo_of [1] demo_directions) = Inr plan"
      "{(''a'', ''b'')} = {(lg_from l, lg_to l) | l. l \<in> set plan \<and>
        legUnderlay awg_positions (map2 topo_of [1] demo_directions) (lg_from l) (lg_to l) (lg_tag l) = ''awg''}"
    using awg_legs_have_tunnels [OF awg_validates, of "[1]"] ok awg_pair by auto
  have "(''a'', ''b'') \<in> {(lg_from l, lg_to l) | l. l \<in> set plan \<and>
      legUnderlay awg_positions (map2 topo_of [1] demo_directions) (lg_from l) (lg_to l) (lg_tag l) = ''awg''}"
    unfolding plan(2) [symmetric] by simp
  then show ?thesis
    using plan(1) by force
qed


text \<open>The two ends of a tunnel match: whatever each end's configuration says, the public key one
  end expects is the other end's own, the address one end allows is the address the other end
  takes, the port dialled is the port listened on (IPv6 hosts in brackets), and the eleven
  obfuscation values are the same on both, as a reader of the two texts finds them.\<close>

theorem tunnel_ends_match:
  assumes "tt_index t < MAX_LINK_TUNNELS" and "cred_one_line (tt_cred t)" and "one_line host" and "host \<noteq> []"
  shows "\<exists>f g a. renderTunnelConf t FromEnd (Some host) = Inr f \<and> renderTunnelConf t ToEnd None = Inr g \<and>
    tunnelAddresses (tt_index t) = Inr a \<and>
    conf_value f ''PrivateKey'' = Some (te_privateKey (tn_from (tt_cred t))) \<and>
    conf_value g ''PublicKey'' = Some (te_publicKey (tn_from (tt_cred t))) \<and>
    conf_value g ''PrivateKey'' = Some (te_privateKey (tn_to (tt_cred t))) \<and>
    conf_value f ''PublicKey'' = Some (te_publicKey (tn_to (tt_cred t))) \<and>
    conf_value f ''Address'' = Some (ta_from a @ ''/30'') \<and> conf_value g ''AllowedIPs'' = Some (ta_from a @ ''/32'') \<and>
    conf_value g ''Address'' = Some (ta_to a @ ''/30'') \<and> conf_value f ''AllowedIPs'' = Some (ta_to a @ ''/32'') \<and>
    conf_value g ''ListenPort'' = Some (dec_of_nat (tt_port t)) \<and> conf_value f ''ListenPort'' = None \<and>
    conf_value f ''Endpoint'' = Some (endpoint_host host @ '':'' @ dec_of_nat (tt_port t)) \<and> conf_value g ''Endpoint'' = None \<and>
    list_all (\<lambda>k. conf_value f k = conf_value g k \<and> conf_value f k \<noteq> None)
      [''Jc'', ''Jmin'', ''Jmax'', ''S1'', ''S2'', ''S3'', ''S4'', ''H1'', ''H2'', ''H3'', ''H4'']"
proof -
  obtain a where a: "tunnelAddresses (tt_index t) = Inr a"
    using tunnelAddresses_total [OF assms(1)] by blast
  have ne: "conf_lines t side h a \<noteq> []" for side h
    by (simp add: conf_lines_def Let_def)
  define F where "F = js_join [CHR 0x0A] (conf_lines t FromEnd (Some host) a)"
  define G where "G = js_join [CHR 0x0A] (conf_lines t ToEnd None a)"
  have f: "conf_value F key =
      (case List.find (\<lambda>l. js_starts_with (key @ '' = '') l) (conf_lines t FromEnd (Some host) a) of
        None \<Rightarrow> None | Some l \<Rightarrow> Some (drop (length key + 3) l))" for key
    unfolding F_def using conf_lines_one_line [OF assms(2) a, of "Some host" FromEnd] assms(3) ne by (intro conf_value_join) simp_all
  have g: "conf_value G key =
      (case List.find (\<lambda>l. js_starts_with (key @ '' = '') l) (conf_lines t ToEnd None a) of
        None \<Rightarrow> None | Some l \<Rightarrow> Some (drop (length key + 3) l))" for key
    unfolding G_def using conf_lines_one_line [OF assms(2) a, of None ToEnd] ne by (intro conf_value_join) simp_all
  have "renderTunnelConf t FromEnd (Some host) = Inr F" "renderTunnelConf t ToEnd None = Inr G"
    by (simp_all only: renderTunnelConf_def a rbind.simps F_def G_def)
  then show ?thesis
    using a assms(4)
    by (intro exI [of _ F] exI [of _ G] exI [of _ a] conjI)
      (simp_all add: f g conf_lines_def Let_def conf_line_def js_starts_with_def falsy_def)
qed

text \<open>A fresh tunnel credential is one the fleet accepts and the panel reads back: the header
  loop ends once the draws have shown four values, and every obfuscation is within the documented
  ranges, with four different headers above 4, S3 and S4 set, and S1 + 56 apart from S2; stored as
  JSON the credential parses to itself.\<close>

theorem new_tunnel_cred_ok:
  assumes "draws_ok dr" and "4 \<le> card ((\<lambda>j. dr_int dr j 5 (2 ^ 31)) ` {k + 6..<k + 6 + fuel})"
  shows "\<exists>c n. newTunnelCred dr fuel k = Some (c, n) \<and> obfuscation_ok (tn_obfuscation c) \<and> parseTunnelCred (tunnel_json c) = Some c"
  using newTunnelCred_total [OF assms(2)] newTunnelObfuscation_ok [OF assms(1)] tunnel_column.decode_encode by metis

definition demo_draws :: tunnel_draws where
  "demo_draws = \<lparr>dr_int = (\<lambda>k lo hi. lo + k mod (hi - lo)), dr_pair = (\<lambda>k. \<lparr>te_privateKey = ''s'', te_publicKey = ''p''\<rparr>)\<rparr>"

lemma demo_draws_ok: "draws_ok demo_draws"
  unfolding draws_ok_def
proof (intro allI impI)
  fix k lo hi :: nat
  assume "lo < hi"
  then have "k mod (hi - lo) < hi - lo"
    by (intro mod_less_divisor) simp
  then show "lo \<le> dr_int demo_draws k lo hi \<and> dr_int demo_draws k lo hi < hi"
    by (simp add: demo_draws_def)
qed

lemma demo_headers: "4 \<le> card ((\<lambda>j. dr_int demo_draws j 5 (2 ^ 31)) ` {6..<10})"
proof -
  have "{6..<10} = {6, 7, 8, 9 :: nat}"
    by auto
  then show ?thesis
    by (simp add: demo_draws_def)
qed

theorem new_tunnel_cred_ok_witness:
  "\<exists>c n. newTunnelCred demo_draws 4 0 = Some (c, n) \<and> obfuscation_ok (tn_obfuscation c) \<and> parseTunnelCred (tunnel_json c) = Some c"
  using new_tunnel_cred_ok [OF demo_draws_ok, of 0 4] demo_headers by simp

definition demo_cred :: tunnel_cred where
  "demo_cred = \<lparr>tn_from = dr_pair demo_draws 0, tn_to = dr_pair demo_draws 1,
     tn_obfuscation = \<lparr>ob_jc = 3, ob_jmin = 64, ob_jmax = 128, ob_s1 = 16, ob_s2 = 17, ob_s3 = 8, ob_s4 = 1,
       ob_h1 = 5, ob_h2 = 6, ob_h3 = 7, ob_h4 = 8\<rparr>\<rparr>"

theorem tunnel_ends_match_witness:
  "\<exists>f g a. renderTunnelConf \<lparr>tt_from = ''a'', tt_to = ''b'', tt_index = 7, tt_port = 27007, tt_cred = demo_cred\<rparr> FromEnd (Some ''2001:db8::1'') = Inr f \<and>
     renderTunnelConf \<lparr>tt_from = ''a'', tt_to = ''b'', tt_index = 7, tt_port = 27007, tt_cred = demo_cred\<rparr> ToEnd None = Inr g \<and>
     tunnelAddresses 7 = Inr a \<and> conf_value f ''AllowedIPs'' = Some (ta_to a @ ''/32'') \<and> conf_value g ''Address'' = Some (ta_to a @ ''/30'')"
  using tunnel_ends_match [of "\<lparr>tt_from = ''a'', tt_to = ''b'', tt_index = 7, tt_port = 27007, tt_cred = demo_cred\<rparr>" "''2001:db8::1''"]
  by (auto simp: MAX_LINK_TUNNELS_def cred_one_line_def demo_cred_def demo_draws_def)

lemma demo_tunnel_written:
  "\<exists>table'. writeTunnels demo_draws 4 dec_of_nat (demo_db []) [] ''c'' awg_positions (map2 topo_of [1] demo_directions) = Inr table'"
proof -
  have free: "freeTunnelIndexes [] (Suc 0) = Inr [0]"
    unfolding freeTunnelIndexes_def MAX_LINK_TUNNELS_def
    using free_from_Suc [of "[]" 999 0 0] by (simp add: Let_def)
  obtain c n where "newTunnelCred demo_draws 4 0 = Some (c, n)"
    using newTunnelCred_total [of demo_draws 0 4] demo_headers by auto
  moreover have "no_bar ''a''"
    by (simp add: no_bar_def)
  moreover have "portOwnersOnNode (demo_db []) ''b'' [p] None = []" for p
    by (simp add: portOwnersOnNode_def portClaimsOnNode_def binding_owners_def cascade_claims_def service_owners_def
        demo_db_def link_rows_def legacyHopLinkPorts_def reserved_of_def Let_def)
  ultimately show ?thesis
    unfolding writeTunnels_def awg_pair Let_def
    by (simp add: free tunnel_conflicts_def map_filter_def set_from_def)
qed


end
