(* ===== verification/CascadeDirections.thy ===== *)
theory CascadeDirections
  imports LinkStore
begin

text \<open>
  Which stored direction an incoming one is, and what a save fills in from storage
  (\<open>modules/cascades/direction-merge.ts\<close>; \<open>directionsForSave\<close>, \<open>positionsForSave\<close> and
  \<open>storedTopologyForGates\<close> of \<open>cascade.service.ts\<close>). A key of the request body is absent, null or
  has a value; JSON has no other state. In a resolved direction an absent and a null field are
  both \<open>None\<close>, as every reader of it takes them.
\<close>

section \<open>Data\<close>

datatype 'a slot = Absent | Null | Val 'a

fun slot_opt :: "'a slot \<Rightarrow> 'a option" where
  "slot_opt (Val x) = Some x"
| "slot_opt _ = None"

record stored_direction =
  sd_id :: string
  sd_tag :: nat
  sd_outboundId :: "string option"
  sd_countryCode :: "string option"
  sd_linkProtocol :: "string option"
  sd_linkParams :: json
  sd_linkPort :: "nat option"
  sd_nodes :: "string list"

record incoming_direction =
  in_id :: "string option"
  in_nodeIds :: "string list option"
  in_outboundId :: "string slot"
  in_countryCode :: "string slot"
  in_linkProtocol :: "string slot"
  in_linkParams :: "leg_params slot"

section \<open>Matching\<close>

text \<open>The three fields the match reads, of an incoming direction and of a resolved one.\<close>

record direction_ask =
  ask_id :: "string option"
  ask_nodeIds :: "string list option"
  ask_outboundId :: "string option"

definition ask_incoming :: "incoming_direction \<Rightarrow> direction_ask" where
  "ask_incoming d = \<lparr>ask_id = in_id d, ask_nodeIds = in_nodeIds d, ask_outboundId = slot_opt (in_outboundId d)\<rparr>"

definition ask_resolved :: "resolved_direction \<Rightarrow> direction_ask" where
  "ask_resolved d = \<lparr>ask_id = rd_id d, ask_nodeIds = Some (rd_nodeIds d), ask_outboundId = rd_outboundId d\<rparr>"

definition has_pool :: "direction_ask \<Rightarrow> bool" where
  "has_pool d = (case ask_nodeIds d of None \<Rightarrow> False | Some ns \<Rightarrow> ns \<noteq> [])"

definition by_id :: "stored_direction list \<Rightarrow> (string, stored_direction) jsmap" where
  "by_id stored = foldl (\<lambda>m s. map_set (sd_id s) s m) [] stored"

definition pool_match :: "string list \<Rightarrow> string list \<Rightarrow> stored_direction \<Rightarrow> bool" where
  "pool_match unclaimed nodeIds s =
     (let want = set_from nodeIds in
      sd_id s \<in> set unclaimed \<and> length (sd_nodes s) = length want \<and> list_all (\<lambda>n. n \<in> set want) (sd_nodes s))"

definition outbound_match :: "string list \<Rightarrow> string option \<Rightarrow> stored_direction \<Rightarrow> bool" where
  "outbound_match unclaimed outboundId s \<longleftrightarrow> sd_id s \<in> set unclaimed \<and> sd_nodes s = [] \<and> sd_outboundId s = outboundId"

definition find_match :: "stored_direction list \<Rightarrow> string list \<Rightarrow> direction_ask \<Rightarrow> stored_direction option" where
  "find_match stored unclaimed d =
     (let m1 = (if falsy (ask_id d) then None else map_get (by_id stored) (the (ask_id d)));
          m2 = (if m1 = None \<and> has_pool d then List.find (pool_match unclaimed (the (ask_nodeIds d))) stored else m1) in
      if m2 = None \<and> \<not> falsy (ask_outboundId d) \<and> \<not> has_pool d
      then List.find (outbound_match unclaimed (ask_outboundId d)) stored else m2)"

fun match_loop :: "stored_direction list \<Rightarrow> string list \<Rightarrow> direction_ask list \<Rightarrow> stored_direction option list" where
  "match_loop stored unclaimed [] = []"
| "match_loop stored unclaimed (d # ds) =
     (case find_match stored unclaimed d of
        Some s \<Rightarrow>
          if sd_id s \<in> set unclaimed then Some s # match_loop stored (removeAll (sd_id s) unclaimed) ds
          else None # match_loop stored unclaimed ds
      | None \<Rightarrow> None # match_loop stored unclaimed ds)"

definition matchStoredDirections :: "stored_direction list \<Rightarrow> direction_ask list \<Rightarrow> stored_direction option list" where
  "matchStoredDirections stored incoming = match_loop stored (set_from (map sd_id stored)) incoming"

section \<open>Filling in\<close>

text \<open>What a caller reads off a stored row.\<close>

record kept_fields =
  kf_tag :: "nat option"
  kf_outboundId :: "string option"
  kf_countryCode :: "string option"
  kf_linkProtocol :: "string option"
  kf_linkParams :: "leg_params option"

definition no_kept :: kept_fields where
  "no_kept = \<lparr>kf_tag = None, kf_outboundId = None, kf_countryCode = None, kf_linkProtocol = None, kf_linkParams = None\<rparr>"

definition carry :: "'a slot \<Rightarrow> 'a option \<Rightarrow> 'a option" where
  "carry s stored = (case s of Absent \<Rightarrow> stored | _ \<Rightarrow> slot_opt s)"

definition resolve_one :: "(stored_direction \<Rightarrow> kept_fields) \<Rightarrow> incoming_direction \<Rightarrow> stored_direction option \<Rightarrow> resolved_direction" where
  "resolve_one read d m =
     (let kf = (case m of Some s \<Rightarrow> read s | None \<Rightarrow> no_kept) in
      \<lparr>rd_id = (case m of Some s \<Rightarrow> Some (sd_id s) | None \<Rightarrow> if falsy (in_id d) then None else in_id d),
       rd_tag = kf_tag kf,
       rd_nodeIds = (case in_nodeIds d of Some ns \<Rightarrow> ns | None \<Rightarrow> (case m of Some s \<Rightarrow> sd_nodes s | None \<Rightarrow> [])),
       rd_outboundId = carry (in_outboundId d) (kf_outboundId kf),
       rd_countryCode = carry (in_countryCode d) (kf_countryCode kf),
       rd_linkProtocol = carry (in_linkProtocol d) (kf_linkProtocol kf),
       rd_linkParams = carry (in_linkParams d) (kf_linkParams kf)\<rparr>)"

definition resolveDirections ::
    "stored_direction list \<Rightarrow> incoming_direction list \<Rightarrow> (stored_direction \<Rightarrow> kept_fields) \<Rightarrow> resolved_direction list" where
  "resolveDirections stored incoming read =
     map2 (resolve_one read) incoming (matchStoredDirections stored (map ask_incoming incoming))"

definition read_row :: "stored_direction \<Rightarrow> kept_fields" where
  "read_row s = \<lparr>kf_tag = Some (sd_tag s), kf_outboundId = sd_outboundId s, kf_countryCode = sd_countryCode s,
     kf_linkProtocol = sd_linkProtocol s, kf_linkParams = storedLinkParams (sd_linkParams s)\<rparr>"

definition directionsForSave :: "stored_direction list \<Rightarrow> incoming_direction list option \<Rightarrow> resolved_direction list option" where
  "directionsForSave stored incoming = map_option (\<lambda>ds. resolveDirections stored ds read_row) incoming"

section \<open>Positions\<close>

record position_row =
  pr_position :: nat
  pr_entryProtocol :: "string option"
  pr_linkProtocol :: "string option"
  pr_linkParams :: json
  pr_nodes :: "string list"

record incoming_position =
  ip_position :: nat
  ip_nodeIds :: "string list"
  ip_entryProtocol :: "string option"
  ip_linkProtocol :: "string option"
  ip_linkParams :: "leg_params slot"

datatype position_error = PositionMoved nat nat

definition pool_key :: "string list \<Rightarrow> string" where
  "pool_key ids = js_join '','' (sort ids)"

fun moved_check :: "(string, nat) jsmap \<Rightarrow> incoming_position list \<Rightarrow> position_error + unit" where
  "moved_check storedAt [] = Inr ()"
| "moved_check storedAt (p # ps) =
     (if ip_linkParams p \<noteq> Absent then moved_check storedAt ps
      else case map_get storedAt (pool_key (ip_nodeIds p)) of
        Some was \<Rightarrow> if was \<noteq> ip_position p then Inl (PositionMoved (ip_position p) was) else moved_check storedAt ps
      | None \<Rightarrow> moved_check storedAt ps)"

definition position_of :: "incoming_position \<Rightarrow> leg_params option \<Rightarrow> position_input" where
  "position_of p lp = \<lparr>po_position = ip_position p, po_nodeIds = ip_nodeIds p, po_entryProtocol = ip_entryProtocol p,
     po_linkProtocol = ip_linkProtocol p, po_linkParams = lp\<rparr>"

definition fill_position :: "(nat, position_row) jsmap \<Rightarrow> incoming_position \<Rightarrow> position_input" where
  "fill_position byIndex p =
     position_of p (case ip_linkParams p of
        Absent \<Rightarrow> (case map_get byIndex (ip_position p) of Some r \<Rightarrow> storedLinkParams (pr_linkParams r) | None \<Rightarrow> None)
      | s \<Rightarrow> slot_opt s)"

definition positionsForSave :: "position_row list option \<Rightarrow> incoming_position list \<Rightarrow> position_error + position_input list" where
  "positionsForSave stored incoming =
     (case stored of
        None \<Rightarrow> Inr (map (\<lambda>p. position_of p (slot_opt (ip_linkParams p))) incoming)
      | Some rows \<Rightarrow>
          (let byIndex = foldl (\<lambda>m p. map_set (pr_position p) p m) [] rows;
               storedAt = foldl (\<lambda>m p. map_set (pool_key (pr_nodes p)) (pr_position p) m) [] rows in
           rbind (moved_check storedAt incoming) (\<lambda>_. Inr (map (fill_position byIndex) incoming))))"

text \<open>The stored topology in the shape a save sends: a direction as its id alone.\<close>

definition bare_direction :: "stored_direction \<Rightarrow> incoming_direction" where
  "bare_direction s = \<lparr>in_id = Some (sd_id s), in_nodeIds = None, in_outboundId = Absent, in_countryCode = Absent,
     in_linkProtocol = Absent, in_linkParams = Absent\<rparr>"

definition bare_position :: "position_row \<Rightarrow> incoming_position" where
  "bare_position p = \<lparr>ip_position = pr_position p, ip_nodeIds = pr_nodes p,
     ip_entryProtocol = (if falsy (pr_entryProtocol p) then None else pr_entryProtocol p),
     ip_linkProtocol = (if falsy (pr_linkProtocol p) then None else pr_linkProtocol p), ip_linkParams = Absent\<rparr>"

definition storedTopologyForGates ::
    "position_row list \<Rightarrow> stored_direction list \<Rightarrow> (incoming_position list \<times> incoming_direction list) option" where
  "storedTopologyForGates positions directions =
     (if positions = [] \<and> directions = [] then None
      else Some (map bare_position (sort_key pr_position positions), map bare_direction directions))"

section \<open>Lemmas\<close>

definition stored_ok :: "stored_direction list \<Rightarrow> bool" where
  "stored_ok stored \<longleftrightarrow> distinct (map sd_id stored) \<and> [] \<notin> sd_id ` set stored"

lemma by_id_get: "stored_ok stored \<Longrightarrow> map_get (by_id stored) i = List.find (\<lambda>s. sd_id s = i) stored"
  unfolding by_id_def stored_ok_def by (subst foldl_set_get) (auto split: option.split)

lemma find_match_in: "stored_ok stored \<Longrightarrow> find_match stored un d = Some s \<Longrightarrow> s \<in> set stored"
  by (auto simp: find_match_def Let_def by_id_get split: if_splits dest: find_Some_in)

lemma find_match_id:
  assumes "stored_ok stored" and "s \<in> set stored" and "ask_id d = Some (sd_id s)"
  shows "find_match stored un d = Some s"
proof -
  have "List.find (\<lambda>x. sd_id x = sd_id s) stored = Some s"
    using assms by (intro find_unique) (auto simp: stored_ok_def distinct_map inj_on_def)
  moreover have "\<not> falsy (ask_id d)"
    using assms by (auto simp: falsy_def stored_ok_def image_iff)
  ultimately show ?thesis
    using assms(1,3) by (simp add: find_match_def Let_def by_id_get)
qed

lemma match_loop_length [simp]: "length (match_loop stored un ds) = length ds"
  by (induction stored un ds rule: match_loop.induct) (auto split: option.splits)

lemma match_loop_claims:
  assumes "stored_ok stored"
  shows "set (List.map_filter (\<lambda>m. m) (match_loop stored un ds)) \<subseteq> {s \<in> set stored. sd_id s \<in> set un} \<and>
    distinct (map sd_id (List.map_filter (\<lambda>m. m) (match_loop stored un ds)))"
  using assms
proof (induction stored un ds rule: match_loop.induct)
  case (2 stored un d ds)
  show ?case
  proof (cases "find_match stored un d")
    case None
    then show ?thesis
      using 2 by (simp add: map_filter_simps)
  next
    case (Some s)
    then show ?thesis
      using 2 find_match_in [OF 2(4) Some] by (cases "sd_id s \<in> set un") (auto simp: map_filter_simps)
  qed
qed (simp add: map_filter_simps)

text \<open>A direction nothing matched asks the same question after the merge as before it.\<close>

lemma find_match_unmatched:
  "find_match stored un (ask_resolved (resolve_one read d None)) = find_match stored un (ask_incoming d)"
proof -
  have "carry (in_outboundId d) None = slot_opt (in_outboundId d)"
    by (cases "in_outboundId d") (simp_all add: carry_def)
  then show ?thesis
    by (cases "in_nodeIds d") (auto simp: find_match_def Let_def ask_resolved_def ask_incoming_def resolve_one_def has_pool_def no_kept_def falsy_def)
qed

lemma match_again:
  assumes "stored_ok stored"
  shows "match_loop stored un (map ask_resolved (map2 (resolve_one read) ds (match_loop stored un (map ask_incoming ds)))) =
    match_loop stored un (map ask_incoming ds)"
  using assms
proof (induction ds arbitrary: un)
  case (Cons d ds)
  show ?case
  proof (cases "find_match stored un (ask_incoming d)")
    case None
    then show ?thesis
      using Cons find_match_unmatched [of stored un read d] by simp
  next
    case (Some s)
    have "find_match stored un (ask_resolved (resolve_one read d (Some s))) = Some s"
      using find_match_in [OF Cons.prems Some]
      by (intro find_match_id [OF Cons.prems]) (simp_all add: ask_resolved_def resolve_one_def Let_def)
    then show ?thesis
      using Cons Some find_match_unmatched [of stored un read d] by (cases "sd_id s \<in> set un") simp_all
  qed
qed simp

text \<open>Rows asked for by their ids, each once, are all found.\<close>

lemma match_all_ids:
  assumes "stored_ok stored" and "map ask_id asks = map (\<lambda>s. Some (sd_id s)) rows" and "set rows \<subseteq> set stored"
    and "distinct (map sd_id rows)" and "sd_id ` set rows \<subseteq> set un"
  shows "match_loop stored un asks = map Some rows"
  using assms(2-5)
proof (induction rows arbitrary: asks un)
  case (Cons s rows)
  obtain a as where asks: "asks = a # as" "ask_id a = Some (sd_id s)" "map ask_id as = map (\<lambda>s. Some (sd_id s)) rows"
    using Cons.prems(1) by (cases asks) auto
  have "find_match stored un a = Some s"
    using Cons.prems(2) asks(2) by (intro find_match_id [OF assms(1)]) simp_all
  moreover have "match_loop stored (removeAll (sd_id s) un) as = map Some rows"
  proof (rule Cons.IH [OF asks(3)])
    have "sd_id s \<notin> sd_id ` set rows"
      using Cons.prems(3) by simp
    then show "sd_id ` set rows \<subseteq> set (removeAll (sd_id s) un)"
      using Cons.prems(4) by (simp only: set_removeAll list.set image_insert) blast
  qed (use Cons.prems in simp_all)
  ultimately show ?case
    using Cons.prems(4) asks(1) by simp
qed simp

lemma moved_check_ok:
  "moved_check at0 ps = Inr u \<longleftrightarrow> (\<forall>p \<in> set ps. ip_linkParams p = Absent \<longrightarrow>
     (\<forall>was. map_get at0 (pool_key (ip_nodeIds p)) = Some was \<longrightarrow> was = ip_position p))"
  by (induction ps) (auto split: option.splits)

section \<open>Properties\<close>

text \<open>C26. The merge and the writer see the same rows: matching the directions a save resolved finds
  for each of them exactly the stored row the merge filled it in from, and no row is claimed
  twice, so a leg is never written onto a row the merge read another one from.\<close>

theorem merge_and_writer_agree:
  assumes "stored_ok stored"
  shows "matchStoredDirections stored (map ask_resolved (resolveDirections stored incoming read)) =
      matchStoredDirections stored (map ask_incoming incoming) \<and>
    distinct (map sd_id (List.map_filter (\<lambda>m. m) (matchStoredDirections stored (map ask_incoming incoming)))) \<and>
    set (List.map_filter (\<lambda>m. m) (matchStoredDirections stored (map ask_incoming incoming))) \<subseteq> set stored"
  using match_again [OF assms] match_loop_claims [OF assms]
  by (simp add: matchStoredDirections_def resolveDirections_def) blast

text \<open>What a client did not send is left alone: sending every stored direction as its id alone
  resolves to exactly what is stored (pool, outbound, country, cell and knobs, with the row's id
  and tag), while a null edits the field to nothing and a value to that value.\<close>

theorem absent_is_kept:
  assumes "stored_ok stored" and "s \<in> set stored"
  shows "resolveDirections stored (map bare_direction stored) read_row =
      map (\<lambda>s. \<lparr>rd_id = Some (sd_id s), rd_tag = Some (sd_tag s), rd_nodeIds = sd_nodes s, rd_outboundId = sd_outboundId s,
        rd_countryCode = sd_countryCode s, rd_linkProtocol = sd_linkProtocol s, rd_linkParams = storedLinkParams (sd_linkParams s)\<rparr>) stored \<and>
    resolveDirections stored [(bare_direction s)\<lparr>in_linkProtocol := Null, in_countryCode := Val cc\<rparr>] read_row =
      [\<lparr>rd_id = Some (sd_id s), rd_tag = Some (sd_tag s), rd_nodeIds = sd_nodes s, rd_outboundId = sd_outboundId s,
        rd_countryCode = Some cc, rd_linkProtocol = None, rd_linkParams = storedLinkParams (sd_linkParams s)\<rparr>]"
proof -
  have all: "matchStoredDirections stored (map ask_incoming (map bare_direction stored)) = map Some stored"
    unfolding matchStoredDirections_def using assms(1)
    by (intro match_all_ids) (auto simp: ask_incoming_def bare_direction_def stored_ok_def)
  have one: "matchStoredDirections stored
      (map ask_incoming [(bare_direction s)\<lparr>in_linkProtocol := Null, in_countryCode := Val cc\<rparr>]) = map Some [s]"
    unfolding matchStoredDirections_def using assms
    by (intro match_all_ids) (auto simp: ask_incoming_def bare_direction_def)
  show ?thesis
    unfolding resolveDirections_def all one
    by (simp add: map2_map_map resolve_one_def bare_direction_def carry_def read_row_def Let_def)
qed

definition demo_rows :: "stored_direction list" where
  "demo_rows = [\<lparr>sd_id = ''d1'', sd_tag = 1, sd_outboundId = None, sd_countryCode = Some ''NL'', sd_linkProtocol = Some ''hy2'',
     sd_linkParams = JNull, sd_linkPort = Some 24000, sd_nodes = [''b'']\<rparr>]"

lemma demo_rows_ok: "stored_ok demo_rows"
  by (simp add: stored_ok_def demo_rows_def)

theorem merge_and_writer_agree_witness:
  "matchStoredDirections demo_rows (map ask_resolved (resolveDirections demo_rows [bare_direction (hd demo_rows)] read_row)) =
     matchStoredDirections demo_rows (map ask_incoming [bare_direction (hd demo_rows)])"
  using merge_and_writer_agree [OF demo_rows_ok] by blast

theorem absent_is_kept_witness:
  "map rd_linkProtocol (resolveDirections demo_rows (map bare_direction demo_rows) read_row) = [Some ''hy2''] \<and>
   map rd_linkProtocol (resolveDirections demo_rows
     [(bare_direction (hd demo_rows))\<lparr>in_linkProtocol := Null, in_countryCode := Val ''DE''\<rparr>] read_row) = [None]"
  using absent_is_kept [OF demo_rows_ok, of "hd demo_rows" "''DE''"] by (simp add: demo_rows_def)

end
