(* ===== verification/CascadeSave.thy ===== *)
theory CascadeSave
  imports CascadeTunnels CascadeDirections
begin

text \<open>
  The write of a cascade's topology (\<open>writeTopologyV4\<close> of \<open>modules/cascades/cascade.service.ts\<close>):
  tags, direction rows, position rows, legs, tunnels and the tag counter, inside one transaction,
  so a refusal at any point leaves the state as it was. The rows of one cascade are the state, with
  the panel-wide tunnel table, the node-policy rules that route out through a direction, and the
  committed rows the port check reads. The ids the database draws are a parameter, by tag.
\<close>

section \<open>State\<close>

record cascade_db =
  cd_id :: string
  cd_name :: string
  cd_next :: nat
  cd_directions :: "stored_direction list"
  cd_positions :: "position_row list"
  cd_links :: "link_row list"
  cd_tunnels :: "tunnel_row list"
  cd_rules :: "(string \<times> string) list"

datatype save_error =
    TagsExhausted nat nat
  | DirectionInUse "string list"
  | SaveLink link_error
  | SaveTunnel tunnel_error

definition MAX_DIRECTION_TAG :: nat where
  "MAX_DIRECTION_TAG = 255"

record save_env =
  se_secrets :: secrets
  se_drawn :: nat
  se_draws :: tunnel_draws
  se_fuel :: nat
  se_tunnelIds :: "nat \<Rightarrow> string"
  se_directionIds :: "nat \<Rightarrow> string"
  se_ports :: ports_db

section \<open>Tags\<close>

text \<open>Each direction with its tag and, when it is a stored one, the id it keeps.\<close>

record tagged_direction =
  tg_direction :: resolved_direction
  tg_tag :: nat
  tg_keepId :: "string option"

fun tag_loop :: "nat \<Rightarrow> (resolved_direction \<times> stored_direction option) list \<Rightarrow> tagged_direction list \<times> nat" where
  "tag_loop next [] = ([], next)"
| "tag_loop next ((d, Some s) # rest) =
     (let (ts, n) = tag_loop next rest in (\<lparr>tg_direction = d, tg_tag = sd_tag s, tg_keepId = Some (sd_id s)\<rparr> # ts, n))"
| "tag_loop next ((d, None) # rest) =
     (let (ts, n) = tag_loop (Suc next) rest in (\<lparr>tg_direction = d, tg_tag = next, tg_keepId = None\<rparr> # ts, n))"

definition leg_direction :: "tagged_direction \<Rightarrow> topo_direction" where
  "leg_direction t = topo_of (tg_tag t) (tg_direction t)"

section \<open>Rows\<close>

definition stored_links :: "link_row list \<Rightarrow> stored_creds" where
  "stored_links rows =
     foldl (\<lambda>m l. case parseLinkCred (lr_config l) of
        Some cred \<Rightarrow> map_set (topologyLinkKey (lr_from l) (lr_to l) (lr_tag l)) cred m
      | None \<Rightarrow> m) [] rows"

definition position_rows :: "position_input list \<Rightarrow> position_row list" where
  "position_rows ps = map (\<lambda>p. \<lparr>pr_position = po_position p, pr_entryProtocol = po_entryProtocol p,
     pr_linkProtocol = po_linkProtocol p, pr_linkParams = json_params (po_linkParams p), pr_nodes = po_nodeIds p\<rparr>) ps"

definition direction_row :: "(nat \<Rightarrow> string) \<Rightarrow> nat \<Rightarrow> tagged_direction \<Rightarrow> stored_direction" where
  "direction_row ids linkPort t =
     (let d = tg_direction t; onOutbound = \<not> falsy (rd_outboundId d) in
      \<lparr>sd_id = (case tg_keepId t of Some i \<Rightarrow> i | None \<Rightarrow> ids (tg_tag t)), sd_tag = tg_tag t,
       sd_outboundId = (if onOutbound then rd_outboundId d else None),
       sd_countryCode = rd_countryCode d,
       sd_linkProtocol = (if onOutbound then None else rd_linkProtocol d),
       sd_linkParams = (if onOutbound then JNull else json_params (rd_linkParams d)),
       sd_linkPort = (if onOutbound then None else Some linkPort),
       sd_nodes = rd_nodeIds d\<rparr>)"

text \<open>An update in place of the row that is kept, or a new row at the end.\<close>

definition write_direction :: "(nat \<Rightarrow> string) \<Rightarrow> nat \<Rightarrow> stored_direction list \<Rightarrow> tagged_direction \<Rightarrow> stored_direction list" where
  "write_direction ids linkPort rows t =
     (case tg_keepId t of
        Some i \<Rightarrow> map (\<lambda>s. if sd_id s = i then (direction_row ids linkPort t)\<lparr>sd_tag := sd_tag s\<rparr> else s) rows
      | None \<Rightarrow> rows @ [direction_row ids linkPort t])"

definition writeTopologyV4 ::
    "save_env \<Rightarrow> cascade_db \<Rightarrow> position_input list \<Rightarrow> resolved_direction list \<Rightarrow> save_error + cascade_db" where
  "writeTopologyV4 env st positions directions =
     (let matches = matchStoredDirections (cd_directions st) (map ask_resolved directions);
          (resolved, nextTag) = tag_loop (cd_next st) (zip directions matches);
          unclaimed = filter (\<lambda>i. i \<notin> sd_id ` set (List.map_filter (\<lambda>m. m) matches)) (set_from (map sd_id (cd_directions st))) in
      if nextTag - 1 > MAX_DIRECTION_TAG
      then Inl (TagsExhausted (nextTag - cd_next st) (MAX_DIRECTION_TAG + 1 - cd_next st))
      else
        let storedLinks = stored_links (cd_links st);
            blocking = filter (\<lambda>r. snd r \<in> set unclaimed) (cd_rules st) in
        if unclaimed \<noteq> [] \<and> blocking \<noteq> [] then Inl (DirectionInUse (set_from (map fst blocking)))
        else
          let kept = filter (\<lambda>s. sd_id s \<notin> set unclaimed) (cd_directions st);
              linkPort = LINK_PORT_BASE + (length positions - 1);
              rows = foldl (write_direction (se_directionIds env) linkPort) kept resolved in
          case generateTopologyLinks (se_secrets env) (se_drawn env) positions (map leg_direction resolved) storedLinks of
            Inl e \<Rightarrow> Inl (SaveLink e)
          | Inr (links, _) \<Rightarrow>
              (case writeTunnels (se_draws env) (se_fuel env) (se_tunnelIds env) (se_ports env) (cd_tunnels st) (cd_id st)
                 positions (map leg_direction resolved) of
                 Inl e \<Rightarrow> Inl (SaveTunnel e)
               | Inr tunnels \<Rightarrow>
                   Inr (st\<lparr>cd_next := nextTag, cd_directions := rows, cd_positions := position_rows positions,
                     cd_links := link_rows (cd_name st) links, cd_tunnels := tunnels\<rparr>)))"

section \<open>Lemmas: tags and rows\<close>

definition cascade_ok :: "cascade_db \<Rightarrow> bool" where
  "cascade_ok st \<longleftrightarrow> stored_ok (cd_directions st) \<and> distinct (map sd_tag (cd_directions st)) \<and>
     (\<forall>s \<in> set (cd_directions st). sd_tag s < cd_next st)"

definition row_ids_fresh :: "(nat \<Rightarrow> string) \<Rightarrow> stored_direction list \<Rightarrow> bool" where
  "row_ids_fresh ids rows \<longleftrightarrow> inj ids \<and> range ids \<inter> sd_id ` set rows = {} \<and> [] \<notin> range ids"

definition tag_pair :: "stored_direction \<Rightarrow> string \<times> nat" where
  "tag_pair s = (sd_id s, sd_tag s)"

definition is_new :: "tagged_direction \<Rightarrow> bool" where
  "is_new t \<longleftrightarrow> tg_keepId t = None"

lemma write_directions_pairs:
  "map tag_pair (foldl (write_direction ids port) rows ts) =
   map tag_pair rows @ map (\<lambda>t. (ids (tg_tag t), tg_tag t)) (filter is_new ts)"
proof (induction ts arbitrary: rows)
  case (Cons t ts)
  have "map tag_pair (write_direction ids port rows t) =
      map tag_pair rows @ (if is_new t then [(ids (tg_tag t), tg_tag t)] else [])"
    by (auto simp: write_direction_def tag_pair_def is_new_def direction_row_def Let_def split: option.split)
  then show ?case
    using Cons.IH by simp
qed simp

text \<open>The tags of a run of the loop: stored ones stay, new ones count up from the counter.\<close>

lemma tag_loop_spec:
  assumes "tag_loop n (zip ds ms) = (ts, n')" and "length ms = length ds"
  shows "map tg_direction ts = ds \<and> map tg_keepId ts = map (map_option sd_id) ms \<and> n \<le> n' \<and>
    map tg_tag (filter is_new ts) = [n..<n'] \<and>
    list_all2 (\<lambda>t m. \<forall>s. m = Some s \<longrightarrow> tg_tag t = sd_tag s) ts ms"
  using assms
proof (induction ds arbitrary: ms n ts)
  case (Cons d ds)
  obtain m ms' where ms: "ms = m # ms'" "length ms' = length ds"
    using Cons.prems(2) by (cases ms) auto
  show ?case
  proof (cases m)
    case None
    obtain ts' where "tag_loop (Suc n) (zip ds ms') = (ts', n')" "ts = \<lparr>tg_direction = d, tg_tag = n, tg_keepId = None\<rparr> # ts'"
      using Cons.prems(1) ms None by (auto split: prod.splits)
    then show ?thesis
      using Cons.IH [of "Suc n" ms' ts'] ms None by (auto simp: is_new_def upt_conv_Cons)
  next
    case (Some s)
    obtain ts' where "tag_loop n (zip ds ms') = (ts', n')"
        "ts = \<lparr>tg_direction = d, tg_tag = sd_tag s, tg_keepId = Some (sd_id s)\<rparr> # ts'"
      using Cons.prems(1) ms Some by (auto split: prod.splits)
    then show ?thesis
      using Cons.IH [of n ms' ts'] ms Some by (auto simp: is_new_def)
  qed
qed simp

lemma tag_loop_count:
  "tag_loop n (zip ds ms) = (ts, n') \<Longrightarrow> length ms = length ds \<Longrightarrow> n' = n + length (filter (\<lambda>m. m = None) ms)"
proof (induction ds arbitrary: ms n ts)
  case (Cons d ds)
  obtain m ms' where ms: "ms = m # ms'" "length ms' = length ds"
    using Cons.prems(2) by (cases ms) auto
  then show ?case
    using Cons.prems(1) Cons.IH [of _ ms'] by (cases m) (fastforce split: prod.splits)+
qed simp

text \<open>A successful save, taken apart.\<close>

lemma writeTopologyV4_parts:
  assumes "writeTopologyV4 env st ps ds = Inr st'"
  obtains ms ts n' un links k tunnels where
    "ms = matchStoredDirections (cd_directions st) (map ask_resolved ds)"
    "tag_loop (cd_next st) (zip ds ms) = (ts, n')" "n' - 1 \<le> MAX_DIRECTION_TAG"
    "un = filter (\<lambda>i. i \<notin> sd_id ` set (List.map_filter (\<lambda>m. m) ms)) (set_from (map sd_id (cd_directions st)))"
    "generateTopologyLinks (se_secrets env) (se_drawn env) ps (map leg_direction ts) (stored_links (cd_links st)) = Inr (links, k)"
    "writeTunnels (se_draws env) (se_fuel env) (se_tunnelIds env) (se_ports env) (cd_tunnels st) (cd_id st) ps (map leg_direction ts) = Inr tunnels"
    "st' = st\<lparr>cd_next := n', cd_directions := foldl (write_direction (se_directionIds env) (LINK_PORT_BASE + (length ps - 1)))
        (filter (\<lambda>s. sd_id s \<notin> set un) (cd_directions st)) ts,
      cd_positions := position_rows ps, cd_links := link_rows (cd_name st) links, cd_tunnels := tunnels\<rparr>"
    "\<not> (\<exists>r \<in> set (cd_rules st). snd r \<in> set un)"
proof -
  let ?ms = "matchStoredDirections (cd_directions st) (map ask_resolved ds)"
  obtain ts n' where tl: "tag_loop (cd_next st) (zip ds ?ms) = (ts, n')"
    by fastforce
  let ?un = "filter (\<lambda>i. i \<notin> sd_id ` set (List.map_filter (\<lambda>m. m) ?ms)) (set_from (map sd_id (cd_directions st)))"
  let ?rules = "filter (\<lambda>r. snd r \<in> set ?un) (cd_rules st)"
  note run = assms [unfolded writeTopologyV4_def Let_def tl prod.case]
  have tags: "n' - 1 \<le> MAX_DIRECTION_TAG" and rules: "?un = [] \<or> ?rules = []"
    using run by (auto split: if_splits)
  have "\<not> (\<exists>r \<in> set (cd_rules st). snd r \<in> set ?un)"
    using rules by (auto simp: filter_empty_conv)
  moreover obtain links k where links: "generateTopologyLinks (se_secrets env) (se_drawn env) ps (map leg_direction ts)
      (stored_links (cd_links st)) = Inr (links, k)"
    using run by (auto split: if_splits sum.splits)
  moreover obtain tunnels where "writeTunnels (se_draws env) (se_fuel env) (se_tunnelIds env) (se_ports env) (cd_tunnels st) (cd_id st)
      ps (map leg_direction ts) = Inr tunnels"
    using run links by (auto split: if_splits sum.splits)
  ultimately show thesis
    using that [OF refl tl tags refl] run by (auto split: if_splits)
qed

lemma match_length [simp]: "length (matchStoredDirections rows asks) = length asks"
  by (simp add: matchStoredDirections_def)

lemma matched_rows:
  "stored_ok rows \<Longrightarrow> set (List.map_filter (\<lambda>m. m) (matchStoredDirections rows asks)) \<subseteq> set rows \<and>
     distinct (map sd_id (List.map_filter (\<lambda>m. m) (matchStoredDirections rows asks)))"
  using match_loop_claims [of rows "set_from (map sd_id rows)" asks] by (auto simp: matchStoredDirections_def)

text \<open>The rows a save leaves: the matched ones, with their ids and tags, and the new ones.\<close>

lemma save_pairs:
  assumes "writeTopologyV4 env st ps ds = Inr st'" and "stored_ok (cd_directions st)"
  defines "claimed \<equiv> sd_id ` set (List.map_filter (\<lambda>m. m) (matchStoredDirections (cd_directions st) (map ask_resolved ds)))"
  shows "map tag_pair (cd_directions st') =
      map tag_pair (filter (\<lambda>s. sd_id s \<in> claimed) (cd_directions st)) @
      map (\<lambda>n. (se_directionIds env n, n)) [cd_next st..<cd_next st']"
    and "cd_next st \<le> cd_next st'" and "cd_next st' - 1 \<le> MAX_DIRECTION_TAG" and "cd_rules st' = cd_rules st"
    and "\<forall>r \<in> set (cd_rules st). \<forall>s \<in> set (cd_directions st). sd_id s = snd r \<longrightarrow> snd r \<in> claimed"
proof -
  obtain ms ts n' un links k tunnels where parts:
    "ms = matchStoredDirections (cd_directions st) (map ask_resolved ds)"
    "tag_loop (cd_next st) (zip ds ms) = (ts, n')" "n' - 1 \<le> MAX_DIRECTION_TAG"
    "un = filter (\<lambda>i. i \<notin> sd_id ` set (List.map_filter (\<lambda>m. m) ms)) (set_from (map sd_id (cd_directions st)))"
    "st' = st\<lparr>cd_next := n', cd_directions := foldl (write_direction (se_directionIds env) (LINK_PORT_BASE + (length ps - 1)))
        (filter (\<lambda>s. sd_id s \<notin> set un) (cd_directions st)) ts,
      cd_positions := position_rows ps, cd_links := link_rows (cd_name st) links, cd_tunnels := tunnels\<rparr>"
    "\<not> (\<exists>r \<in> set (cd_rules st). snd r \<in> set un)"
    using writeTopologyV4_parts [OF assms(1)] by metis
  have claimed: "claimed = sd_id ` set (List.map_filter (\<lambda>m. m) ms)"
    by (simp add: claimed_def parts(1))
  have kept: "filter (\<lambda>s. sd_id s \<notin> set un) (cd_directions st) = filter (\<lambda>s. sd_id s \<in> claimed) (cd_directions st)"
    unfolding parts(4) claimed [symmetric] by (rule filter_cong [OF refl]) simp
  have "length ms = length ds"
    by (simp add: parts(1))
  note tags = tag_loop_spec [OF parts(2) this]
  have news: "map (\<lambda>t. (se_directionIds env (tg_tag t), tg_tag t)) (filter is_new ts) =
      map (\<lambda>n. (se_directionIds env n, n)) (map tg_tag (filter is_new ts))"
    by simp
  have handed: "map tg_tag (filter is_new ts) = [cd_next st..<n']"
    using tags by simp
  show "map tag_pair (cd_directions st') =
      map tag_pair (filter (\<lambda>s. sd_id s \<in> claimed) (cd_directions st)) @
      map (\<lambda>n. (se_directionIds env n, n)) [cd_next st..<cd_next st']"
    using write_directions_pairs [of "se_directionIds env" "LINK_PORT_BASE + (length ps - 1)"
        "filter (\<lambda>s. sd_id s \<in> claimed) (cd_directions st)" ts, unfolded news handed]
    by (simp add: parts(5) kept)
  show "cd_next st \<le> cd_next st'" "cd_next st' - 1 \<le> MAX_DIRECTION_TAG" "cd_rules st' = cd_rules st"
    using tags parts(3,5) by simp_all
  show "\<forall>r \<in> set (cd_rules st). \<forall>s \<in> set (cd_directions st). sd_id s = snd r \<longrightarrow> snd r \<in> claimed"
    using parts(6) unfolding parts(4) claimed [symmetric] by fastforce
qed

lemma pairs_fst_snd: "map fst (map tag_pair rows) = map sd_id rows" "map snd (map tag_pair rows) = map sd_tag rows"
  by (simp_all add: tag_pair_def)

lemma save_keeps_ok:
  assumes "writeTopologyV4 env st ps ds = Inr st'" and "cascade_ok st" and "row_ids_fresh (se_directionIds env) (cd_directions st)"
  shows "cascade_ok st'"
proof -
  have ok: "stored_ok (cd_directions st)" "distinct (map sd_tag (cd_directions st))" "\<forall>s \<in> set (cd_directions st). sd_tag s < cd_next st"
    using assms(2) by (simp_all add: cascade_ok_def)
  note pairs = save_pairs(1) [OF assms(1) ok(1)]
  let ?kept = "filter (\<lambda>s. sd_id s \<in> sd_id ` set (List.map_filter (\<lambda>m. m)
    (matchStoredDirections (cd_directions st) (map ask_resolved ds)))) (cd_directions st)"
  have ids: "map sd_id (cd_directions st') = map sd_id ?kept @ map (se_directionIds env) [cd_next st..<cd_next st']"
    using arg_cong [OF pairs, of "map fst"] by (simp add: tag_pair_def comp_def)
  have tags: "map sd_tag (cd_directions st') = map sd_tag ?kept @ [cd_next st..<cd_next st']"
    using arg_cong [OF pairs, of "map snd"] by (simp add: tag_pair_def comp_def)
  have "distinct (map sd_id (cd_directions st'))"
    unfolding ids distinct_append
  proof (intro conjI)
    show "distinct (map sd_id ?kept)"
      using ok(1) by (simp add: stored_ok_def distinct_map_filter)
    show "distinct (map (se_directionIds env) [cd_next st..<cd_next st'])"
      using assms(3) by (simp add: row_ids_fresh_def distinct_map inj_on_def)
    show "set (map sd_id ?kept) \<inter> set (map (se_directionIds env) [cd_next st..<cd_next st']) = {}"
      using assms(3) unfolding row_ids_fresh_def by fastforce
  qed
  moreover have "[] \<notin> sd_id ` set (cd_directions st')"
    using arg_cong [OF ids, of set] ok(1) assms(3) by (auto simp: stored_ok_def row_ids_fresh_def)
  moreover have "distinct (map sd_tag (cd_directions st'))"
    unfolding tags using ok(2,3) by (fastforce simp: distinct_map_filter)
  moreover have "sd_tag s < cd_next st'" if "s \<in> set (cd_directions st')" for s
  proof -
    have "sd_tag s \<in> set (map sd_tag (cd_directions st'))"
      using that by simp
    then show ?thesis
      unfolding tags using ok(3) save_pairs(2) [OF assms(1) ok(1)] by auto
  qed
  ultimately show ?thesis
    by (simp add: cascade_ok_def stored_ok_def)
qed

section \<open>A ledger of numbers\<close>

text \<open>What handing out numbers from a counter promises: a step keeps the invariant, the counter
  never goes back, a holder of a number seen after a step held it before or took one at or above
  the counter, and in a state a number below the counter has one holder.\<close>

locale ledger =
  fixes step :: "'s \<Rightarrow> 's \<Rightarrow> bool" and inv0 :: "'s \<Rightarrow> bool" and counter :: "'s \<Rightarrow> nat" and held :: "'s \<Rightarrow> ('i \<times> nat) set"
  assumes step_inv: "step s s' \<Longrightarrow> inv0 s \<Longrightarrow> inv0 s'"
    and step_counter: "step s s' \<Longrightarrow> inv0 s \<Longrightarrow> counter s \<le> counter s'"
    and step_held: "step s s' \<Longrightarrow> inv0 s \<Longrightarrow> held s' \<subseteq> held s \<union> {(i, n). counter s \<le> n}"
    and held_below: "inv0 s \<Longrightarrow> (i, n) \<in> held s \<Longrightarrow> n < counter s"
    and one_holder: "inv0 s \<Longrightarrow> (i, n) \<in> held s \<Longrightarrow> (j, n) \<in> held s \<Longrightarrow> i = j"
begin

lemma run_inv: "step\<^sup>*\<^sup>* s s' \<Longrightarrow> inv0 s \<Longrightarrow> inv0 s'"
  by (induction rule: rtranclp_induct) (auto intro: step_inv)

lemma run_counter: "step\<^sup>*\<^sup>* s s' \<Longrightarrow> inv0 s \<Longrightarrow> counter s \<le> counter s'"
proof (induction rule: rtranclp_induct)
  case (step y z)
  then show ?case
    using step_counter [OF step(2)] run_inv [OF step(1)] by fastforce
qed simp

lemma run_held: "step\<^sup>*\<^sup>* s s' \<Longrightarrow> inv0 s \<Longrightarrow> held s' \<subseteq> held s \<union> {(i, n). counter s \<le> n}"
proof (induction rule: rtranclp_induct)
  case (step y z)
  have y: "inv0 y" "counter s \<le> counter y"
    using run_inv [OF step(1,4)] run_counter [OF step(1,4)] by simp_all
  have "held z \<subseteq> held y \<union> {(i, n). counter y \<le> n}"
    using step_held [OF step(2) y(1)] .
  also have "\<dots> \<subseteq> held s \<union> {(i, n). counter s \<le> n}"
    using step y(2) by fastforce
  finally show ?case .
qed auto

lemma never_reused:
  assumes "inv0 s" and "step\<^sup>*\<^sup>* s s'" and "(i, n) \<in> held s" and "(j, n) \<in> held s'"
  shows "i = j"
proof -
  have "n < counter s"
    using held_below [OF assms(1,3)] .
  then have "(j, n) \<in> held s"
    using run_held [OF assms(2,1)] assms(4) by auto
  then show ?thesis
    using one_holder [OF assms(1,3)] by simp
qed

end

section \<open>Runs of saves\<close>

text \<open>What happens to a cascade between two looks at it: a save, or what others change of the rules
  and of the tunnel table.\<close>

inductive saved :: "cascade_db \<Rightarrow> cascade_db \<Rightarrow> bool" where
  save: "row_ids_fresh (se_directionIds env) (cd_directions st) \<Longrightarrow> writeTopologyV4 env st ps ds = Inr st' \<Longrightarrow> saved st st'"
| others: "saved st (st\<lparr>cd_rules := rules, cd_tunnels := tunnels\<rparr>)"

inductive_cases savedE: "saved st st'"

lemma saved_step:
  assumes "saved st st'" and "cascade_ok st"
  shows "cascade_ok st'" and "cd_next st \<le> cd_next st'"
    and "cd_next st' \<le> max (cd_next st) (MAX_DIRECTION_TAG + 1)"
    and "\<forall>s' \<in> set (cd_directions st'). cd_next st \<le> sd_tag s' \<or> tag_pair s' \<in> tag_pair ` set (cd_directions st)"
proof -
  have ok: "stored_ok (cd_directions st)"
    using assms(2) by (simp add: cascade_ok_def)
  show "cascade_ok st'"
    using assms by (elim savedE) (auto simp: cascade_ok_def dest: save_keeps_ok)
  show "cd_next st \<le> cd_next st'"
    using assms(1) ok by (elim savedE) (auto dest: save_pairs(2))
  show "cd_next st' \<le> max (cd_next st) (MAX_DIRECTION_TAG + 1)"
    using assms(1) ok by (elim savedE) (auto dest!: save_pairs(3))
  show "\<forall>s' \<in> set (cd_directions st'). cd_next st \<le> sd_tag s' \<or> tag_pair s' \<in> tag_pair ` set (cd_directions st)"
  proof
    fix s'
    assume s': "s' \<in> set (cd_directions st')"
    have "tag_pair s' \<in> set (map tag_pair (cd_directions st'))"
      using s' by simp
    moreover have "set (map tag_pair (cd_directions st')) \<subseteq> tag_pair ` set (cd_directions st) \<union> {(i, n) | i n. cd_next st \<le> n}"
    proof -
      consider env ps ds where "writeTopologyV4 env st ps ds = Inr st'" | "cd_directions st' = cd_directions st"
        using assms(1) by (elim savedE) auto
      then show ?thesis
      proof cases
        case 1
        then show ?thesis
          unfolding save_pairs(1) [OF 1 ok] by auto
      qed auto
    qed
    ultimately show "cd_next st \<le> sd_tag s' \<or> tag_pair s' \<in> tag_pair ` set (cd_directions st)"
      by (auto simp: tag_pair_def)
  qed
qed

interpretation tags: ledger saved cascade_ok cd_next "\<lambda>st. tag_pair ` set (cd_directions st)"
proof
  fix st st'
  assume st: "saved st st'" "cascade_ok st"
  note facts = saved_step [OF st]
  show "cascade_ok st'" "cd_next st \<le> cd_next st'"
    by (rule facts)+
  show "tag_pair ` set (cd_directions st') \<subseteq> tag_pair ` set (cd_directions st) \<union> {(i, n). cd_next st \<le> n}"
    using facts(4) by (auto simp: tag_pair_def)
next
  fix st i j n
  assume "cascade_ok st" "(i, n) \<in> tag_pair ` set (cd_directions st)"
  then show "n < cd_next st" "(j, n) \<in> tag_pair ` set (cd_directions st) \<Longrightarrow> i = j"
    by (auto simp: cascade_ok_def tag_pair_def distinct_map inj_on_def)
qed

lemma saved_bound:
  assumes "saved\<^sup>*\<^sup>* st st'" and "cascade_ok st" and "cd_next st \<le> MAX_DIRECTION_TAG + 1"
  shows "cd_next st' \<le> MAX_DIRECTION_TAG + 1"
  using assms
proof (induction rule: rtranclp_induct)
  case (step y z)
  then have "cascade_ok y"
    using tags.run_inv by blast
  then show ?case
    using saved_step(3) [OF step(2)] step by fastforce
qed simp

section \<open>Saving the same again\<close>

lemma foldl_set_append:
  "distinct (map fst m @ map k ls) \<Longrightarrow> foldl (\<lambda>m l. map_set (k l) (v l) m) m ls = m @ map (\<lambda>l. (k l, v l)) ls"
proof (induction ls arbitrary: m)
  case (Cons l ls)
  have "map_set (k l) (v l) m = m @ [(k l, v l)]"
    using Cons.prems by (induction m) auto
  then show ?case
    using Cons.IH [of "m @ [(k l, v l)]"] Cons.prems by simp
qed simp

lemma stored_links_rows:
  assumes "\<forall>t \<in> set links. minted (tl_cred t)" and "distinct (map (\<lambda>t. topologyLinkKey (tl_from t) (tl_to t) (tl_tag t)) links)"
  shows "stored_links (link_rows name links) = stored_of links"
proof -
  have "stored_links (link_rows name links) =
      foldl (\<lambda>m t. map_set (topologyLinkKey (tl_from t) (tl_to t) (tl_tag t)) (tl_cred t) m) [] links"
    unfolding stored_links_def link_rows_def foldl_map
    using assms(1) by (intro foldl_cong refl) (simp add: parse_serialize)
  then show ?thesis
    using foldl_set_append [of "[]" _ links tl_cred] assms(2) by (simp add: stored_of_def)
qed

lemma stored_links_minted: "map_get (stored_links rows) k = Some c \<Longrightarrow> minted c"
proof -
  have "map_get (foldl (\<lambda>m l. case parseLinkCred (lr_config l) of
        Some cred \<Rightarrow> map_set (topologyLinkKey (lr_from l) (lr_to l) (lr_tag l)) cred m | None \<Rightarrow> m) m rows) k = Some c \<Longrightarrow>
      (\<And>k c. map_get m k = Some c \<Longrightarrow> minted c) \<Longrightarrow> minted c" for m
  proof (induction rows arbitrary: m)
    case (Cons l rows)
    show ?case
    proof (rule Cons.IH)
      show "map_get (foldl (\<lambda>m l. case parseLinkCred (lr_config l) of
          Some cred \<Rightarrow> map_set (topologyLinkKey (lr_from l) (lr_to l) (lr_tag l)) cred m | None \<Rightarrow> m)
          (case parseLinkCred (lr_config l) of
            Some cred \<Rightarrow> map_set (topologyLinkKey (lr_from l) (lr_to l) (lr_tag l)) cred m | None \<Rightarrow> m) rows) k = Some c"
        using Cons.prems(1) by simp
      show "minted c" if "map_get (case parseLinkCred (lr_config l) of
          Some cred \<Rightarrow> map_set (topologyLinkKey (lr_from l) (lr_to l) (lr_tag l)) cred m | None \<Rightarrow> m) k = Some c" for k c
        using that Cons.prems(2) parse_minted by (auto split: option.splits if_splits)
    qed
  qed auto
  from this [of "[]"] show "map_get (stored_links rows) k = Some c \<Longrightarrow> minted c"
    by (simp add: stored_links_def)
qed

definition pem_secrets :: "secrets \<Rightarrow> bool" where
  "pem_secrets sc \<longleftrightarrow> (\<forall>n. pem_pair (sc_tls sc n))"

definition known_congestion :: "leg \<Rightarrow> bool" where
  "known_congestion l \<longleftrightarrow> (case lg_congestion l of None \<Rightarrow> True | Some c \<Rightarrow> c \<in> set LINK_CONGESTIONS)"

lemma keptFor_minted:
  assumes "keptFor existing l = Some c" and "\<And>k c. map_get existing k = Some c \<Longrightarrow> minted c" and "known_congestion l"
  shows "minted c"
proof -
  obtain s where s: "map_get existing (leg_key l) = Some s" "minted s"
    using assms(1,2) by (auto simp: keptFor_def reuseLinkCred_def split: option.splits)
  then show ?thesis
    using assms(1,3) by (cases s) (auto simp: keptFor_def reuseLinkCred_def known_congestion_def falsy_def split: if_splits option.splits)
qed

lemma newLinkCred_minted:
  "pem_secrets sc \<Longrightarrow> known_congestion l \<Longrightarrow> minted (fst (newLinkCred sc n (lg_cell l) p (lg_congestion l)))"
  by (cases "lg_cell l")
    (auto simp: pem_secrets_def known_congestion_def DEFAULT_LINK_CONGESTION_def LINK_CONGESTIONS_def split: option.splits)

lemma with_node_key_minted: "minted c \<Longrightarrow> minted (fst (with_node_key sc keys node c n))"
  by (cases c) (auto simp: with_node_key_def Let_def split: option.splits)

lemma build_links_minted:
  assumes "pem_secrets sc" and "\<And>k c. map_get existing k = Some c \<Longrightarrow> minted c" and "\<forall>l \<in> set plan. known_congestion l"
  shows "\<forall>t \<in> set (fst (build_links sc existing keys plan n)). minted (tl_cred t)"
  using assms(3)
proof (induction plan arbitrary: n)
  case (Cons l plan)
  define c0 where "c0 = (case keptFor existing l of Some c \<Rightarrow> (c, n) | None \<Rightarrow> newLinkCred sc n (lg_cell l) (leg_port l) (lg_congestion l))"
  define c1 where "c1 = with_node_key sc keys (lg_to l) (fst c0) (snd c0)"
  have "minted (fst c0)"
    using keptFor_minted [OF _ assms(2)] newLinkCred_minted [OF assms(1)] Cons.prems by (auto simp: c0_def split: option.splits)
  then have "minted (fst c1)"
    unfolding c1_def by (rule with_node_key_minted)
  moreover have "fst (build_links sc existing keys (l # plan) n) =
      \<lparr>tl_from = lg_from l, tl_to = lg_to l, tl_tag = lg_tag l, tl_cell = lg_cell l, tl_cred = fst c1\<rparr> #
      fst (build_links sc existing keys plan (snd c1))"
    by (simp add: c1_def c0_def case_prod_unfold Let_def)
  ultimately show ?case
    using Cons by simp
qed simp

lemma plan_congestions:
  assumes "\<forall>p \<in> set ps. params_ok (po_linkParams p)" and "\<forall>d \<in> set ds. params_ok (td_linkParams d)" and "ps \<noteq> []"
    and "l \<in> set (between_legs k ps ds @ out_legs ps ds)"
  shows "known_congestion l"
proof -
  have known: "known_congestion l" if "lg_congestion l = congestion_of p" "params_ok p" for p
    using that by (auto simp: known_congestion_def congestion_of_def params_ok_def split: option.splits)
  have "\<exists>p. params_ok p \<and> lg_congestion l = congestion_of p" if "l \<in> set (between_legs k ps ds)"
    using that assms(1) by (induction k ps ds rule: between_legs.induct) (auto simp: step_legs_def)
  moreover have "\<exists>p. params_ok p \<and> lg_congestion l = congestion_of p" if "l \<in> set (out_legs ps ds)"
    using that assms(1-3) by (fastforce simp: out_legs_def legs_into_def split: option.splits)
  ultimately show ?thesis
    using known assms(4) by auto
qed

lemma tunnels_again:
  assumes "tunnels_serve db0 c (topologyTunnelPairs ps ds) table0 table" and "\<forall>p \<in> set (topologyTunnelPairs ps ds). no_bar (fst p)"
  shows "writeTunnels dr fuel ids db table c ps ds = Inr table"
proof -
  have ok: "tunnels_ok table" and pairs: "(\<lambda>t. (tw_from t, tw_to t)) ` {t \<in> set table. tw_cascade t = c} = set (topologyTunnelPairs ps ds)"
    and whole: "\<forall>t \<in> set table. tw_cascade t = c \<longrightarrow> parseTunnelCred (tw_config t) \<noteq> None"
    using assms(1) by (simp_all add: tunnels_serve_def)
  have left: "remaining c (topologyTunnelPairs ps ds) table = table"
    unfolding remaining_def filter_id_conv using whole pairs by (auto simp: stays_def)
  then have "missing_pairs c (topologyTunnelPairs ps ds) table = []"
    unfolding missing_pairs_def left pairs by simp
  then show ?thesis
    unfolding writeTunnels_run [OF ok assms(2)] Let_def left by simp
qed

text \<open>Rows: every direction of a save has the row it was written as.\<close>

definition row_id :: "(nat \<Rightarrow> string) \<Rightarrow> tagged_direction \<Rightarrow> string" where
  "row_id ids t = (case tg_keepId t of Some i \<Rightarrow> i | None \<Rightarrow> ids (tg_tag t))"

lemma direction_row_fields [simp]: "sd_id (direction_row ids port t) = row_id ids t" "sd_tag (direction_row ids port t) = tg_tag t"
  by (simp_all add: direction_row_def row_id_def Let_def)

lemma write_directions_keep:
  "r \<in> set rows \<Longrightarrow> Some (sd_id r) \<notin> tg_keepId ` set ts \<Longrightarrow> r \<in> set (foldl (write_direction ids port) rows ts)"
proof (induction ts arbitrary: rows)
  case (Cons t ts)
  then have "r \<in> set (write_direction ids port rows t)"
    by (auto simp: write_direction_def split: option.split)
  then show ?case
    using Cons by simp
qed simp

lemma write_directions_rows:
  assumes "distinct (map (row_id ids) ts)"
    and "\<forall>t \<in> set ts. \<forall>i. tg_keepId t = Some i \<longrightarrow> (\<exists>s \<in> set rows. sd_id s = i \<and> sd_tag s = tg_tag t)"
  shows "direction_row ids port ` set ts \<subseteq> set (foldl (write_direction ids port) rows ts)"
  using assms
proof (induction ts arbitrary: rows)
  case (Cons t ts)
  let ?rows = "write_direction ids port rows t"
  have "direction_row ids port t \<in> set ?rows"
  proof (cases "tg_keepId t")
    case None
    then show ?thesis
      by (simp add: write_direction_def)
  next
    case (Some i)
    then obtain s where s: "s \<in> set rows" "sd_id s = i" "sd_tag s = tg_tag t"
      using Cons.prems(2) by auto
    then have "(direction_row ids port t)\<lparr>sd_tag := sd_tag s\<rparr> = direction_row ids port t"
      by (simp add: direction_row_def Let_def)
    then show ?thesis
      using s Some by (force simp: write_direction_def image_iff)
  qed
  moreover have "Some (row_id ids t) \<notin> tg_keepId ` set ts"
  proof
    assume "Some (row_id ids t) \<in> tg_keepId ` set ts"
    then obtain u where u: "u \<in> set ts" "tg_keepId u = Some (row_id ids t)"
      by force
    then have "row_id ids u = row_id ids t"
      by (simp add: row_id_def)
    then show False
      using u(1)
      using Cons.prems(1) by (simp add: rev_image_eqI)
  qed
  ultimately have "direction_row ids port t \<in> set (foldl (write_direction ids port) ?rows ts)"
    by (intro write_directions_keep) simp_all
  moreover have "direction_row ids port ` set ts \<subseteq> set (foldl (write_direction ids port) ?rows ts)"
  proof (rule Cons.IH)
    show "\<forall>u \<in> set ts. \<forall>i. tg_keepId u = Some i \<longrightarrow> (\<exists>s \<in> set ?rows. sd_id s = i \<and> sd_tag s = tg_tag u)"
    proof (intro ballI allI impI)
      fix u i
      assume "u \<in> set ts" "tg_keepId u = Some i"
      then obtain s where "s \<in> set rows" "sd_id s = i" "sd_tag s = tg_tag u"
        using Cons.prems(2) by (meson list.set_intros(2))
      then have "tag_pair s \<in> set (map tag_pair ?rows)" "tag_pair s = (i, tg_tag u)"
        using write_directions_pairs [of ids port rows "[t]"] by (auto simp: tag_pair_def)
      then show "\<exists>s \<in> set ?rows. sd_id s = i \<and> sd_tag s = tg_tag u"
        by (auto simp: tag_pair_def)
    qed
  qed (use Cons.prems in simp)
  ultimately show ?case
    by simp
qed simp

text \<open>Writing over rows that already hold what is written changes nothing.\<close>

lemma write_directions_same:
  assumes "\<forall>t \<in> set ts. \<exists>i. tg_keepId t = Some i \<and> (\<forall>s \<in> set rows. sd_id s = i \<longrightarrow> (direction_row ids port t)\<lparr>sd_tag := sd_tag s\<rparr> = s)"
  shows "foldl (write_direction ids port) rows ts = rows"
  using assms
proof (induction ts)
  case (Cons t ts)
  then obtain i where "tg_keepId t = Some i" "\<forall>s \<in> set rows. sd_id s = i \<longrightarrow> (direction_row ids port t)\<lparr>sd_tag := sd_tag s\<rparr> = s"
    by auto
  then have "write_direction ids port rows t = rows"
    unfolding write_direction_def by (simp add: map_idI)
  then show ?case
    using Cons by simp
qed simp

lemma tag_loop_all:
  "tag_loop n (zip ds (map Some rows)) =
     (map (\<lambda>(d, s). \<lparr>tg_direction = d, tg_tag = sd_tag s, tg_keepId = Some (sd_id s)\<rparr>) (zip ds rows), n)"
proof (induction ds arbitrary: rows)
  case (Cons d ds)
  then show ?case
    by (cases rows) auto
qed simp

text \<open>The payload as the panel sends it back after a save: every direction under the id of its row.\<close>

definition resent :: "save_env \<Rightarrow> cascade_db \<Rightarrow> resolved_direction list \<Rightarrow> resolved_direction list" where
  "resent env st ds =
     map (\<lambda>t. (tg_direction t)\<lparr>rd_id := Some (row_id (se_directionIds env) t), rd_tag := Some (tg_tag t)\<rparr>)
       (fst (tag_loop (cd_next st) (zip ds (matchStoredDirections (cd_directions st) (map ask_resolved ds)))))"

lemma keep_ids:
  assumes "tag_loop n (zip ds ms) = (ts, n')" and "length ms = length ds"
  shows "map the (filter (\<lambda>i. i \<noteq> None) (map tg_keepId ts)) = map sd_id (List.map_filter (\<lambda>m. m) ms)"
proof -
  have "map tg_keepId ts = map (map_option sd_id) ms"
    using tag_loop_spec [OF assms] by simp
  moreover have "map the (filter (\<lambda>i. i \<noteq> None) (map (map_option sd_id) ms)) = map sd_id (List.map_filter (\<lambda>m. m) ms)"
    by (induction ms) (auto simp: map_filter_simps split: option.split)
  ultimately show ?thesis
    by simp
qed

lemma distinct_map_partition:
  "distinct (map f (filter P xs)) \<Longrightarrow> distinct (map f (filter (\<lambda>x. \<not> P x) xs)) \<Longrightarrow>
   f ` {x \<in> set xs. P x} \<inter> f ` {x \<in> set xs. \<not> P x} = {} \<Longrightarrow> distinct (map f xs)"
proof (induction xs)
  case (Cons x xs)
  then have "distinct (map f xs)"
    by (auto split: if_splits)
  moreover have "f x \<notin> f ` set xs"
    using Cons.prems by (auto split: if_splits)
  ultimately show ?case
    by simp
qed simp

lemma kept_ids_of:
  assumes "tag_loop n (zip ds ms) = (ts, n')" and "length ms = length ds"
  shows "map (row_id ids) (filter (\<lambda>t. \<not> is_new t) ts) = map sd_id (List.map_filter (\<lambda>m. m) ms)"
    and "map (row_id ids) (filter is_new ts) = map ids [n..<n']"
    and "\<forall>t \<in> set ts. \<forall>i. tg_keepId t = Some i \<longrightarrow>
      (\<exists>s \<in> set (List.map_filter (\<lambda>m. m) ms). sd_id s = i \<and> sd_tag s = tg_tag t)"
proof -
  have "map (row_id ids) (filter (\<lambda>t. \<not> is_new t) us) = map the (filter (\<lambda>i. i \<noteq> None) (map tg_keepId us))" for us
    by (induction us) (auto simp: row_id_def is_new_def)
  then show "map (row_id ids) (filter (\<lambda>t. \<not> is_new t) ts) = map sd_id (List.map_filter (\<lambda>m. m) ms)"
    using keep_ids [OF assms] by simp
  have new: "map (row_id ids) (filter is_new us) = map ids (map tg_tag (filter is_new us))" for us
    by (induction us) (auto simp: row_id_def is_new_def)
  have handed: "map tg_tag (filter is_new ts) = [n..<n']"
    using tag_loop_spec [OF assms] by simp
  show "map (row_id ids) (filter is_new ts) = map ids [n..<n']"
    unfolding new handed ..
  have "list_all2 (\<lambda>t m. tg_keepId t = map_option sd_id m \<and> (\<forall>s. m = Some s \<longrightarrow> tg_tag t = sd_tag s)) ts ms"
    using tag_loop_spec [OF assms] by (auto simp: list_all2_conv_all_nth) (metis length_map nth_map)
  then show "\<forall>t \<in> set ts. \<forall>i. tg_keepId t = Some i \<longrightarrow>
      (\<exists>s \<in> set (List.map_filter (\<lambda>m. m) ms). sd_id s = i \<and> sd_tag s = tg_tag t)"
    by (induction rule: list_all2_induct) (auto simp: map_filter_simps split: option.splits)
qed

lemma saved_directions:
  assumes "writeTopologyV4 env st ps ds = Inr st'"
    and "tag_loop (cd_next st) (zip ds (matchStoredDirections (cd_directions st) (map ask_resolved ds))) = (ts, n')"
  shows "cd_directions st' = foldl (write_direction (se_directionIds env) (LINK_PORT_BASE + (length ps - 1)))
      (filter (\<lambda>s. sd_id s \<in> sd_id ` set (List.map_filter (\<lambda>m. m) (matchStoredDirections (cd_directions st) (map ask_resolved ds))))
        (cd_directions st)) ts"
proof (rule writeTopologyV4_parts [OF assms(1)])
  fix ms us k un links j tunnels
  assume parts: "ms = matchStoredDirections (cd_directions st) (map ask_resolved ds)"
    "tag_loop (cd_next st) (zip ds ms) = (us, k)"
    "un = filter (\<lambda>i. i \<notin> sd_id ` set (List.map_filter (\<lambda>m. m) ms)) (set_from (map sd_id (cd_directions st)))"
    "st' = st\<lparr>cd_next := k, cd_directions := foldl (write_direction (se_directionIds env) (LINK_PORT_BASE + (length ps - 1)))
        (filter (\<lambda>s. sd_id s \<notin> set un) (cd_directions st)) us,
      cd_positions := position_rows ps, cd_links := link_rows (cd_name st) links, cd_tunnels := tunnels\<rparr>"
  have "filter (\<lambda>s. sd_id s \<notin> set un) (cd_directions st) =
      filter (\<lambda>s. sd_id s \<in> sd_id ` set (List.map_filter (\<lambda>m. m) ms)) (cd_directions st)"
    unfolding parts(3) by (rule filter_cong [OF refl]) simp
  then show ?thesis
    using assms(2) parts(1,2,4) by simp
qed

lemma saved_counter:
  assumes "writeTopologyV4 env st ps ds = Inr st'"
    and "tag_loop (cd_next st) (zip ds (matchStoredDirections (cd_directions st) (map ask_resolved ds))) = (ts, n')"
  shows "cd_next st' = n'"
  using assms by (elim writeTopologyV4_parts) simp

text \<open>After a save the rows are those of its directions, each under an id of its own.\<close>

lemma saved_rows:
  assumes "writeTopologyV4 env st ps ds = Inr st'" and "cascade_ok st" and "row_ids_fresh (se_directionIds env) (cd_directions st)"
    and "tag_loop (cd_next st) (zip ds (matchStoredDirections (cd_directions st) (map ask_resolved ds))) = (ts, n')"
  shows "distinct (map (row_id (se_directionIds env)) ts)" (is ?dist)
    and "set (cd_directions st') = direction_row (se_directionIds env) (LINK_PORT_BASE + (length ps - 1)) ` set ts"
proof -
  let ?ms = "matchStoredDirections (cd_directions st) (map ask_resolved ds)"
  let ?ids = "se_directionIds env" and ?port = "LINK_PORT_BASE + (length ps - 1)"
  let ?claimed = "sd_id ` set (List.map_filter (\<lambda>m. m) ?ms)"
  have ok: "stored_ok (cd_directions st)"
    using assms(2) by (simp add: cascade_ok_def)
  note matched = matched_rows [OF ok, of "map ask_resolved ds"]
  note ids = kept_ids_of [OF assms(4), simplified]
  have olds: "row_id ?ids ` {t \<in> set ts. \<not> is_new t} = ?claimed"
    using arg_cong [OF ids(1) [of ?ids], of set] by simp
  have news: "row_id ?ids ` {t \<in> set ts. is_new t} = ?ids ` {cd_next st..<n'}"
    using arg_cong [OF ids(2) [of ?ids], of set] by simp
  show dist: ?dist
  proof (rule distinct_map_partition [of _ is_new])
    show "distinct (map (row_id ?ids) (filter is_new ts))"
      unfolding ids(2) using assms(3) by (simp add: row_ids_fresh_def distinct_map inj_on_def)
    show "distinct (map (row_id ?ids) (filter (\<lambda>t. \<not> is_new t) ts))"
      unfolding ids(1) using matched by simp
    show "row_id ?ids ` {t \<in> set ts. is_new t} \<inter> row_id ?ids ` {t \<in> set ts. \<not> is_new t} = {}"
      unfolding olds news using matched assms(3) by (auto simp: row_ids_fresh_def)
  qed
  have rows: "cd_directions st' = foldl (write_direction ?ids ?port) (filter (\<lambda>s. sd_id s \<in> ?claimed) (cd_directions st)) ts"
    by (rule saved_directions [OF assms(1,4)])
  have keep: "\<forall>t \<in> set ts. \<forall>i. tg_keepId t = Some i \<longrightarrow>
      (\<exists>s \<in> set (filter (\<lambda>s. sd_id s \<in> ?claimed) (cd_directions st)). sd_id s = i \<and> sd_tag s = tg_tag t)"
    using ids(3) matched by fastforce
  note written = write_directions_rows [OF dist keep, of ?port, folded rows]
  have all: "sd_id ` set (cd_directions st') = row_id ?ids ` set ts"
  proof -
    have "sd_id ` set (cd_directions st') = ?claimed \<union> ?ids ` {cd_next st..<cd_next st'}"
    proof -
      have "map sd_id (cd_directions st') = map sd_id (filter (\<lambda>s. sd_id s \<in> ?claimed) (cd_directions st)) @
          map ?ids [cd_next st..<cd_next st']"
        using arg_cong [OF save_pairs(1) [OF assms(1) ok], of "map fst"] by (simp add: tag_pair_def comp_def)
      from arg_cong [OF this, of set]
      have "sd_id ` set (cd_directions st') = sd_id ` {s \<in> set (cd_directions st). sd_id s \<in> ?claimed} \<union> ?ids ` {cd_next st..<cd_next st'}"
        by simp
      moreover have "sd_id ` {s \<in> set (cd_directions st). sd_id s \<in> ?claimed} = ?claimed"
        using matched by auto
      ultimately show ?thesis
        by simp
    qed
    moreover have "cd_next st' = n'"
      using saved_counter [OF assms(1,4)] .
    moreover have "row_id ?ids ` set ts = row_id ?ids ` {t \<in> set ts. \<not> is_new t} \<union> row_id ?ids ` {t \<in> set ts. is_new t}"
      by auto
    ultimately show ?thesis
      unfolding olds news by simp
  qed
  show "set (cd_directions st') = direction_row ?ids ?port ` set ts"
  proof
    show "set (cd_directions st') \<subseteq> direction_row ?ids ?port ` set ts"
    proof
      fix r
      assume r: "r \<in> set (cd_directions st')"
      then obtain t where t: "t \<in> set ts" "sd_id r = row_id ?ids t"
        using all by (metis imageE imageI)
      have "inj_on sd_id (set (cd_directions st'))"
        using save_keeps_ok [OF assms(1-3)] by (simp add: cascade_ok_def stored_ok_def distinct_map)
      moreover have "direction_row ?ids ?port t \<in> set (cd_directions st')"
        using written t(1) by blast
      ultimately have "r = direction_row ?ids ?port t"
        using r t(2) by (simp add: inj_on_def)
      then show "r \<in> direction_row ?ids ?port ` set ts"
        using t(1) by simp
    qed
  qed (rule written)
qed

text \<open>The second run of a save, on its directions.\<close>

lemma resent_run:
  assumes "writeTopologyV4 env st ps ds = Inr st'" and "cascade_ok st" and "row_ids_fresh (se_directionIds env) (cd_directions st)"
    and "tag_loop (cd_next st) (zip ds (matchStoredDirections (cd_directions st) (map ask_resolved ds))) = (ts, n')"
  defines "rows \<equiv> map (direction_row (se_directionIds env) (LINK_PORT_BASE + (length ps - 1))) ts"
  shows "matchStoredDirections (cd_directions st') (map ask_resolved (resent env st ds)) = map Some rows"
    and "tag_loop (cd_next st') (zip (resent env st ds) (map Some rows)) =
      (map (\<lambda>t. \<lparr>tg_direction = (tg_direction t)\<lparr>rd_id := Some (row_id (se_directionIds env) t), rd_tag := Some (tg_tag t)\<rparr>,
        tg_tag = tg_tag t, tg_keepId = Some (row_id (se_directionIds env) t)\<rparr>) ts, cd_next st')"
    and "set rows = set (cd_directions st')"
proof -
  note rows_of = saved_rows [OF assms(1-4)]
  show set: "set rows = set (cd_directions st')"
    using rows_of(2) by (simp add: rows_def)
  have again: "resent env st ds =
      map (\<lambda>t. (tg_direction t)\<lparr>rd_id := Some (row_id (se_directionIds env) t), rd_tag := Some (tg_tag t)\<rparr>) ts"
    by (simp add: resent_def assms(4))
  have "stored_ok (cd_directions st')"
    using save_keeps_ok [OF assms(1-3)] by (simp add: cascade_ok_def)
  moreover have "distinct (map sd_id rows)"
    using rows_of(1) by (simp add: rows_def comp_def)
  ultimately show "matchStoredDirections (cd_directions st') (map ask_resolved (resent env st ds)) = map Some rows"
    unfolding matchStoredDirections_def using set
    by (intro match_all_ids) (auto simp: again rows_def ask_resolved_def)
  show "tag_loop (cd_next st') (zip (resent env st ds) (map Some rows)) =
      (map (\<lambda>t. \<lparr>tg_direction = (tg_direction t)\<lparr>rd_id := Some (row_id (se_directionIds env) t), rd_tag := Some (tg_tag t)\<rparr>,
        tg_tag = tg_tag t, tg_keepId = Some (row_id (se_directionIds env) t)\<rparr>) ts, cd_next st')"
    unfolding tag_loop_all again by (simp add: rows_def zip_map_map map2_map_map comp_def zip_same_conv_map)
qed

lemma resent_rows_same:
  assumes "set (cd_directions st') = direction_row ids port ` set ts" and "stored_ok (cd_directions st')"
  shows "foldl (write_direction ids2 port) (cd_directions st')
    (map (\<lambda>t. \<lparr>tg_direction = (tg_direction t)\<lparr>rd_id := Some (row_id ids t), rd_tag := Some (tg_tag t)\<rparr>,
      tg_tag = tg_tag t, tg_keepId = Some (row_id ids t)\<rparr>) ts) = cd_directions st'"
proof (rule write_directions_same, simp, intro ballI impI)
  fix t s
  assume t: "t \<in> set ts" and s: "s \<in> set (cd_directions st')" "sd_id s = row_id ids t"
  have "direction_row ids port t \<in> set (cd_directions st')"
    using assms(1) t by simp
  then have "s = direction_row ids port t"
    using s assms(2) by (auto simp: stored_ok_def distinct_map inj_on_def)
  then show "(direction_row ids2 port \<lparr>tg_direction = (tg_direction t)\<lparr>rd_id := Some (row_id ids t), rd_tag := Some (tg_tag t)\<rparr>,
      tg_tag = tg_tag t, tg_keepId = Some (row_id ids t)\<rparr>)\<lparr>sd_tag := sd_tag s\<rparr> = s"
    by (simp add: direction_row_def row_id_def Let_def)
qed

lemma resent_legs:
  "map leg_direction (map (\<lambda>t. \<lparr>tg_direction = (tg_direction t)\<lparr>rd_id := i t, rd_tag := k t\<rparr>, tg_tag = tg_tag t, tg_keepId = j t\<rparr>) ts) =
   map leg_direction ts"
  by (simp add: leg_direction_def topo_of_def comp_def)

lemma saved_tags_distinct:
  assumes "writeTopologyV4 env st ps ds = Inr st'" and "cascade_ok st" and "row_ids_fresh (se_directionIds env) (cd_directions st)"
    and "tag_loop (cd_next st) (zip ds (matchStoredDirections (cd_directions st) (map ask_resolved ds))) = (ts, n')"
  shows "distinct (map tg_tag ts)"
proof -
  let ?row = "direction_row (se_directionIds env) (LINK_PORT_BASE + (length ps - 1))"
  note rows = saved_rows [OF assms]
  have "distinct (map sd_id (map ?row ts))"
    using rows(1) by (simp add: comp_def)
  then have "distinct (map ?row ts)"
    by (simp only: distinct_map [of sd_id "map ?row ts"])
  moreover have "inj_on sd_tag (set (map ?row ts))"
    using save_keeps_ok [OF assms(1-3)] rows(2) by (simp add: cascade_ok_def distinct_map)
  ultimately have "distinct (map sd_tag (map ?row ts))"
    by (simp only: distinct_map)
  then show ?thesis
    by (simp add: comp_def)
qed

text \<open>What a validated topology gives the legs and tunnels of its save.\<close>

lemma validated_legs:
  assumes "validateCascadeTopology positions ds = Inr v" and "direction_cells_ok ds"
    and "list_all no_bar (concat (map po_nodeIds (vt_positions v)) @ concat (map rd_nodeIds ds))"
    and "map tg_direction ts = ds" and "distinct (map tg_tag ts)"
  shows "cells_ok (vt_positions v) (map leg_direction ts)" and "names_ok (vt_positions v) (map leg_direction ts)"
    and "distinct (topologyTunnelPairs (vt_positions v) (map leg_direction ts))"
    and "\<forall>p \<in> set (topologyTunnelPairs (vt_positions v) (map leg_direction ts)). no_bar (fst p)"
proof -
  have legs: "map leg_direction ts = map2 topo_of (map tg_tag ts) ds"
    unfolding assms(4) [symmetric] by (simp add: map2_map_map leg_direction_def)
  have "length (map tg_tag ts) = length ds"
    using arg_cong [OF assms(4), of length] by simp
  note vp = validated_plan [OF assms(1,2) this, folded legs]
  show "cells_ok (vt_positions v) (map leg_direction ts)"
    by (rule vp(1))
  show names: "names_ok (vt_positions v) (map leg_direction ts)"
    unfolding names_ok_def vp(6,7) using vp(5) [unfolded vp(6)] assms(3,5) by blast
  have ne: "vt_positions v \<noteq> []"
    using vp(1) by (simp add: cells_ok_def)
  note pairs = tunnel_pairs_of_legs [OF vp(4) ne vp(3) names]
  show "distinct (topologyTunnelPairs (vt_positions v) (map leg_direction ts))"
    by (rule pairs(1))
  show "\<forall>p \<in> set (topologyTunnelPairs (vt_positions v) (map leg_direction ts)). no_bar (fst p)"
  proof
    fix p
    assume p: "p \<in> set (topologyTunnelPairs (vt_positions v) (map leg_direction ts))"
    then obtain l where "l \<in> set (between_legs 0 (vt_positions v) (map leg_direction ts) @ out_legs (vt_positions v) (map leg_direction ts))"
        "lg_from l = fst p"
      using pairs(2) [of "fst p" "snd p"] by auto
    then show "no_bar (fst p)"
      using legs_ends [OF _ ne] assms(3) by (fastforce simp: list_all_iff)
  qed
qed

lemma generated_again:
  assumes "cells_ok ps ds" and "names_ok ps ds" and "generateTopologyLinks sc n ps ds (stored_links old) = Inr (links, k)"
    and "pem_secrets sc" and "\<forall>p \<in> set ps. params_ok (po_linkParams p)" and "\<forall>d \<in> set ds. params_ok (td_linkParams d)"
  shows "generateTopologyLinks sc2 m ps ds (stored_links (link_rows name links)) = Inr (links, m)"
proof -
  let ?plan = "between_legs 0 ps ds @ out_legs ps ds"
  have ne: "ps \<noteq> []"
    using assms(1) by (simp add: cells_ok_def)
  obtain keys j where links: "links = fst (build_links sc (stored_links old) keys ?plan j)"
    using assms(3) by (auto simp: generateTopologyLinks_def plan_total [OF assms(1)] case_prod_unfold Let_def) (metis fst_conv)
  have "\<forall>l \<in> set ?plan. known_congestion l"
    using plan_congestions [OF assms(5,6) ne] by blast
  then have "\<forall>t \<in> set links. minted (tl_cred t)"
    unfolding links using assms(4) stored_links_minted by (intro build_links_minted)
  moreover have "map (\<lambda>t. topologyLinkKey (tl_from t) (tl_to t) (tl_tag t)) links = map leg_key ?plan"
  proof -
    have "list_all2 (link_of keys) ?plan links"
      unfolding links by (rule build_links_spec)
    then show ?thesis
      by (induction rule: list_all2_induct) (auto simp: link_of_def leg_key_def)
  qed
  ultimately have "stored_links (link_rows name links) = stored_of links"
    using plan_keys_distinct [OF assms(2) ne] by (intro stored_links_rows) simp_all
  then show ?thesis
    using links_again [OF assms(1-3)] by simp
qed

section \<open>Properties\<close>

text \<open>C2. A tag names one direction for the life of a cascade: over any run of saves from a new
  cascade, with any edits by others in between, a direction seen at one time and a direction seen
  later with the same tag are the same row, and no tag ever leaves the byte it is packed into. A
  deleted direction's tag is therefore never handed to another, and clients that carry it are
  never sent elsewhere.\<close>

theorem tags_never_reused:
  assumes "cd_directions st0 = []" and "cd_next st0 = 1" and "saved\<^sup>*\<^sup>* st0 st" and "saved\<^sup>*\<^sup>* st st'"
    and "s \<in> set (cd_directions st)" and "s' \<in> set (cd_directions st')" and "sd_tag s = sd_tag s'"
  shows "sd_id s = sd_id s' \<and> 0 < sd_tag s \<and> sd_tag s \<le> MAX_DIRECTION_TAG"
proof -
  have new: "cascade_ok st0" "cd_next st0 \<le> MAX_DIRECTION_TAG + 1"
    using assms(1,2) by (simp_all add: cascade_ok_def stored_ok_def MAX_DIRECTION_TAG_def)
  have ok: "cascade_ok st"
    using tags.run_inv [OF assms(3) new(1)] .
  have held: "(sd_id s, sd_tag s) \<in> tag_pair ` set (cd_directions st)" "(sd_id s', sd_tag s) \<in> tag_pair ` set (cd_directions st')"
    using assms(5-7) by (force simp: tag_pair_def)+
  have "sd_id s = sd_id s'"
    using tags.never_reused [OF ok assms(4) held] .
  moreover have "0 < sd_tag s"
    using tags.run_held [OF assms(3) new(1)] held(1) assms(1,2) by auto
  moreover have "sd_tag s \<le> MAX_DIRECTION_TAG"
    using tags.held_below [OF ok held(1)] saved_bound [OF assms(3) new] by simp
  ultimately show ?thesis
    by simp
qed

text \<open>C25. A save keeps the rows it recognises: afterwards the directions are exactly the stored
  rows the payload matched, under their ids and tags, followed by the new ones, which take the
  next tags of the counter in order; a direction a node policy routes through is never dropped (the
  save is refused instead), and when the tags run out nothing is written.\<close>

theorem save_keeps_rows:
  fixes ds :: "resolved_direction list"
  assumes "cascade_ok st" and "row_ids_fresh (se_directionIds env) (cd_directions st)"
  defines "claimed \<equiv> sd_id ` set (List.map_filter (\<lambda>m. m) (matchStoredDirections (cd_directions st) (map ask_resolved ds)))"
  shows "(writeTopologyV4 env st ps ds = Inr st' \<longrightarrow>
      cascade_ok st' \<and>
      map tag_pair (cd_directions st') =
        map tag_pair (filter (\<lambda>s. sd_id s \<in> claimed) (cd_directions st)) @
        map (\<lambda>n. (se_directionIds env n, n)) [cd_next st..<cd_next st'] \<and>
      (\<forall>r \<in> set (cd_rules st). snd r \<in> sd_id ` set (cd_directions st) \<longrightarrow> snd r \<in> sd_id ` set (cd_directions st'))) \<and>
    (MAX_DIRECTION_TAG + 1 < cd_next st + length (filter (\<lambda>m. m = None) (matchStoredDirections (cd_directions st) (map ask_resolved ds))) \<longrightarrow>
      (\<exists>needed available. writeTopologyV4 env st ps ds = Inl (TagsExhausted needed available)))"
proof -
  have ok: "stored_ok (cd_directions st)"
    using assms(1) by (simp add: cascade_ok_def)
  have rules: "snd r \<in> sd_id ` set (cd_directions st')"
    if run: "writeTopologyV4 env st ps ds = Inr st'" and r: "r \<in> set (cd_rules st)" "snd r \<in> sd_id ` set (cd_directions st)" for r
  proof -
    obtain s where s: "s \<in> set (cd_directions st)" "sd_id s = snd r"
      using r(2) by auto
    then have "snd r \<in> claimed"
      using save_pairs(5) [OF run ok] r(1) unfolding claimed_def by blast
    then have "tag_pair s \<in> set (map tag_pair (cd_directions st'))"
      unfolding save_pairs(1) [OF run ok] using s by (auto simp: claimed_def)
    then show ?thesis
      using s(2) by (auto simp: tag_pair_def image_iff)
  qed
  have full: "\<exists>needed available. writeTopologyV4 env st ps ds = Inl (TagsExhausted needed available)"
    if "MAX_DIRECTION_TAG + 1 < cd_next st + length (filter (\<lambda>m. m = None) (matchStoredDirections (cd_directions st) (map ask_resolved ds)))"
  proof -
    obtain ts n' where tl: "tag_loop (cd_next st) (zip ds (matchStoredDirections (cd_directions st) (map ask_resolved ds))) = (ts, n')"
      by fastforce
    have "MAX_DIRECTION_TAG < n' - 1"
      using that tag_loop_count [OF tl] by (simp add: MAX_DIRECTION_TAG_def)
    then show ?thesis
      unfolding writeTopologyV4_def Let_def tl prod.case by simp
  qed
  show ?thesis
    using save_pairs(1) [OF _ ok] save_keeps_ok [OF _ assms(1,2)] rules full unfolding claimed_def by blast
qed

text \<open>C1. Saving the same again changes nothing at all: after a save of a validated topology, sending
  it back with every direction under its row's id succeeds and leaves the very same state, row for
  row: no tag is drawn, no leg gets a new secret, no tunnel a new key, index or port.\<close>

theorem save_again_changes_nothing:
  assumes "writeTopologyV4 env st (vt_positions v) ds = Inr st'" and "cascade_ok st"
    and "row_ids_fresh (se_directionIds env) (cd_directions st)" and "tunnels_ok (cd_tunnels st)" and "ids_fresh (se_tunnelIds env) (cd_tunnels st)"
    and "validateCascadeTopology positions ds = Inr v" and "direction_cells_ok ds"
    and "list_all no_bar (concat (map po_nodeIds (vt_positions v)) @ concat (map rd_nodeIds ds))"
    and "pem_secrets (se_secrets env)" and "\<forall>p \<in> set (vt_positions v). params_ok (po_linkParams p)"
    and "\<forall>d \<in> set ds. params_ok (rd_linkParams d)"
  shows "writeTopologyV4 env2 st' (vt_positions v) (resent env st ds) = Inr st'"
proof (rule writeTopologyV4_parts [OF assms(1)])
  fix ms ts n' un links k tunnels
  assume ms: "ms = matchStoredDirections (cd_directions st) (map ask_resolved ds)"
    and tl: "tag_loop (cd_next st) (zip ds ms) = (ts, n')" and top: "n' - 1 \<le> MAX_DIRECTION_TAG"
    and links: "generateTopologyLinks (se_secrets env) (se_drawn env) (vt_positions v) (map leg_direction ts) (stored_links (cd_links st)) = Inr (links, k)"
    and tunnels: "writeTunnels (se_draws env) (se_fuel env) (se_tunnelIds env) (se_ports env) (cd_tunnels st) (cd_id st) (vt_positions v)
      (map leg_direction ts) = Inr tunnels"
    and st': "st' = st\<lparr>cd_next := n', cd_directions := foldl (write_direction (se_directionIds env) (LINK_PORT_BASE + (length (vt_positions v) - 1)))
        (filter (\<lambda>s. sd_id s \<notin> set un) (cd_directions st)) ts,
      cd_positions := position_rows (vt_positions v), cd_links := link_rows (cd_name st) links, cd_tunnels := tunnels\<rparr>"
  note tl' = tl [unfolded ms]
  note again = resent_run [OF assms(1-3) tl']
  have ds: "map tg_direction ts = ds"
    using tag_loop_spec [OF tl'] by simp
  note legs = validated_legs [OF assms(6-8) ds saved_tags_distinct [OF assms(1-3) tl']]
  have "\<forall>d \<in> set (map leg_direction ts). params_ok (td_linkParams d)"
    using assms(11) unfolding ds [symmetric] by (simp add: leg_direction_def topo_of_def)
  note links2 = generated_again [OF legs(1,2) links assms(9,10) this, of "se_secrets env2" "se_drawn env2" "cd_name st"]
  note tunnels2 = tunnels_again [OF writeTunnels_serves [OF assms(4,5) legs(3,4) tunnels] legs(4)]
  have ok: "stored_ok (cd_directions st')"
    using save_keeps_ok [OF assms(1-3)] by (simp add: cascade_ok_def)
  note rows2 = resent_rows_same [OF saved_rows(2) [OF assms(1-3) tl'] ok, of "se_directionIds env2"]
  have somes: "List.map_filter (\<lambda>m. m) (map Some xs) = xs" for xs :: "stored_direction list"
    by (induction xs) (simp_all add: map_filter_simps)
  have none: "filter (\<lambda>i. i \<notin> sd_id ` set (List.map_filter (\<lambda>m. m) (matchStoredDirections (cd_directions st')
      (map ask_resolved (resent env st ds))))) (set_from (map sd_id (cd_directions st'))) = []"
    unfolding again(1) somes again(3) filter_empty_conv by simp
  have n': "cd_next st' = n'" "cd_links st' = link_rows (cd_name st) links" "cd_tunnels st' = tunnels" "cd_name st' = cd_name st"
      "cd_id st' = cd_id st" "cd_positions st' = position_rows (vt_positions v)"
    by (simp_all add: st')
  show ?thesis
    unfolding writeTopologyV4_def Let_def none
    unfolding again(1)
    unfolding again(2) prod.case resent_legs n'(2-5) links2 tunnels2
    using top rows2 n' by simp
qed

section \<open>A concrete save\<close>

definition demo_env :: save_env where
  "demo_env = \<lparr>se_secrets = demo_secrets\<lparr>sc_tls := (\<lambda>n. (''BEGIN CERTIFICATE'', ''PRIVATE KEY''))\<rparr>, se_drawn = 0, se_draws = demo_draws,
     se_fuel = 4, se_tunnelIds = dec_of_nat, se_directionIds = (\<lambda>n. ''d'' @ dec_of_nat n), se_ports = demo_db []\<rparr>"

definition demo_cascade :: cascade_db where
  "demo_cascade = \<lparr>cd_id = ''c'', cd_name = ''n'', cd_next = 1, cd_directions = [], cd_positions = [], cd_links = [], cd_tunnels = [], cd_rules = []\<rparr>"

lemma generate_total: "cells_ok ps ds \<Longrightarrow> \<exists>links k. generateTopologyLinks sc n ps ds ex = Inr (links, k)"
  by (auto simp: generateTopologyLinks_def plan_total case_prod_unfold Let_def)

lemma demo_ids_fresh: "row_ids_fresh (se_directionIds demo_env) []" "ids_fresh (se_tunnelIds demo_env) []"
  by (auto simp: row_ids_fresh_def ids_fresh_def demo_env_def inj_on_def dest: dec_of_nat_inj)

lemma demo_cascade_ok: "cascade_ok demo_cascade"
  by (simp add: cascade_ok_def stored_ok_def demo_cascade_def)

lemma demo_saved:
  "\<exists>st. writeTopologyV4 demo_env demo_cascade demo_positions demo_directions = Inr st \<and> map tag_pair (cd_directions st) = [(''d1'', 1)]"
proof -
  have match: "matchStoredDirections (cd_directions demo_cascade) (map ask_resolved demo_directions) = [None]"
    by (simp add: matchStoredDirections_def demo_cascade_def demo_directions_def find_match_def by_id_def ask_resolved_def falsy_def Let_def)
  have tags: "tag_loop (cd_next demo_cascade) (zip demo_directions [None]) =
      ([\<lparr>tg_direction = hd demo_directions, tg_tag = 1, tg_keepId = None\<rparr>], 2)"
    by (simp add: demo_cascade_def demo_directions_def)
  let ?legs = "map leg_direction [\<lparr>tg_direction = hd demo_directions, tg_tag = 1, tg_keepId = None\<rparr>]"
  have "cells_ok demo_positions ?legs"
    by (simp add: cells_ok_def demo_positions_def demo_directions_def leg_direction_def topo_of_def falsy_def linkCellFor_def LINK_CELLS_def)
  then obtain links k where links: "generateTopologyLinks (se_secrets demo_env) (se_drawn demo_env) demo_positions ?legs
      (stored_links (cd_links demo_cascade)) = Inr (links, k)"
    using generate_total by blast
  have "topologyTunnelPairs demo_positions ?legs = []"
    by (simp add: topologyTunnelPairs_def direction_pairs_def all_pairs_def demo_positions_def demo_directions_def
      sort_positions_def leg_direction_def topo_of_def underlay_of_def)
  then have tunnels: "writeTunnels dr fuel ids db (cd_tunnels demo_cascade) c demo_positions ?legs = Inr []" for dr fuel ids db c
    by (simp add: writeTunnels_def demo_cascade_def Let_def)
  have none: "filter (\<lambda>i. i \<notin> X) (set_from (map sd_id (cd_directions demo_cascade))) = []" for X
    by (simp add: demo_cascade_def)
  have "dec_of_nat 1 = ''1''"
    by code_simp
  then show ?thesis
    unfolding writeTopologyV4_def Let_def match
    unfolding tags prod.case none links tunnels
    by (simp add: MAX_DIRECTION_TAG_def write_direction_def tag_pair_def row_id_def demo_env_def demo_cascade_def)
qed

theorem tags_never_reused_witness:
  "\<exists>st s. saved\<^sup>*\<^sup>* demo_cascade st \<and> s \<in> set (cd_directions st) \<and> 0 < sd_tag s \<and> sd_tag s \<le> MAX_DIRECTION_TAG"
proof -
  obtain st where st: "writeTopologyV4 demo_env demo_cascade demo_positions demo_directions = Inr st \<and> map tag_pair (cd_directions st) = [(''d1'', 1)]"
    using demo_saved ..
  have "cd_directions st \<noteq> []"
    using conjunct2 [OF st] by auto
  then obtain s where s: "s \<in> set (cd_directions st)"
    using last_in_set by blast
  have "cd_directions demo_cascade = []" "cd_next demo_cascade = 1"
    by (simp_all add: demo_cascade_def)
  moreover have "saved demo_cascade st"
    using demo_ids_fresh(1) by (intro saved.save [OF _ conjunct1 [OF st]]) (simp add: demo_cascade_def)
  ultimately show ?thesis
    using tags_never_reused [of demo_cascade st st s s] s by blast
qed

theorem save_keeps_rows_witness:
  "\<exists>st. writeTopologyV4 demo_env demo_cascade demo_positions demo_directions = Inr st \<and> cascade_ok st"
proof -
  have "row_ids_fresh (se_directionIds demo_env) (cd_directions demo_cascade)"
    using demo_ids_fresh(1) by (simp add: demo_cascade_def)
  then show ?thesis
    using demo_saved save_keeps_rows [OF demo_cascade_ok, of demo_env demo_positions demo_directions] by blast
qed

theorem save_again_changes_nothing_witness:
  "\<exists>st. writeTopologyV4 demo_env demo_cascade demo_positions demo_directions = Inr st \<and>
     writeTopologyV4 demo_env st demo_positions (resent demo_env demo_cascade demo_directions) = Inr st"
proof -
  obtain st where st: "writeTopologyV4 demo_env demo_cascade (vt_positions \<lparr>vt_positions = demo_positions, vt_directions = demo_directions, vt_linkCount = 1\<rparr>)
      demo_directions = Inr st"
    using demo_saved by auto
  have "direction_cells_ok demo_directions" "pem_secrets (se_secrets demo_env)"
      "list_all no_bar (concat (map po_nodeIds demo_positions) @ concat (map rd_nodeIds demo_directions))"
      "\<forall>p \<in> set demo_positions. params_ok (po_linkParams p)" "\<forall>d \<in> set demo_directions. params_ok (rd_linkParams d)"
    by (simp_all add: direction_cells_ok_def demo_directions_def demo_positions_def falsy_def pem_secrets_def demo_env_def pem_pair_def
        js_starts_with_def no_bar_def params_ok_def)
  then show ?thesis
    using save_again_changes_nothing [OF st demo_cascade_ok _ _ _ demo_validates, of demo_env] demo_ids_fresh st
    by (auto simp: demo_cascade_def tunnels_ok_def)
qed

end
