(* ===== verification/Totp.thy ===== *)
theory Totp
  imports JsNumber "HOL-Library.Word"
begin

text \<open>
  The second factor (\<open>lib/auth/totp.ts\<close>): base32 of a secret, the one-time code of a time step
  and its verification. The 32-bit integers the bit operators of the language work on are
  \<open>32 word\<close>s, a \<open>Buffer\<close> is a list of \<open>8 word\<close>s. HMAC-SHA1 is a parameter: a function of the
  key and the message. A secret that is not base32 is not an error in the code, its foreign
  characters are dropped; the one exception that can leave the module is the \<open>RangeError\<close> of
  writing a counter that does not fit eight bytes.
\<close>

unbundle bit_operations_syntax

section \<open>Base32\<close>

definition BASE32_ALPHABET :: string where
  "BASE32_ALPHABET = ''ABCDEFGHIJKLMNOPQRSTUVWXYZ234567''"

definition PERIOD_SECONDS :: int where
  "PERIOD_SECONDS = 30"

definition DIGITS :: nat where
  "DIGITS = 6"

text \<open>\<open>BASE32_ALPHABET[i]\<close> of a five-bit value.\<close>

definition b32_char :: "32 word \<Rightarrow> char" where
  "b32_char w = BASE32_ALPHABET ! unat w"

text \<open>The inner loop: as long as five bits are pending, one character.\<close>

fun enc_drain :: "32 word \<Rightarrow> nat \<Rightarrow> string \<Rightarrow> nat \<times> string" where
  "enc_drain value bits out =
     (if 5 \<le> bits then enc_drain value (bits - 5) (out @ [b32_char (drop_bit (bits - 5) value AND 31)])
      else (bits, out))"

declare enc_drain.simps [simp del]

fun enc_byte :: "nat \<times> 32 word \<times> string \<Rightarrow> 8 word \<Rightarrow> nat \<times> 32 word \<times> string" where
  "enc_byte (bits, value, out) byte =
     (let value' = push_bit 8 value OR ucast byte;
          (bits', out') = enc_drain value' (bits + 8) out
      in (bits', value', out'))"

definition base32Encode :: "8 word list \<Rightarrow> string" where
  "base32Encode buf =
     (let (bits, value, out) = foldl enc_byte (0, 0, []) buf
      in if 0 < bits then out @ [b32_char (push_bit (5 - bits) value AND 31)] else out)"

fun dec_char :: "nat \<times> 32 word \<times> 8 word list \<Rightarrow> char \<Rightarrow> nat \<times> 32 word \<times> 8 word list" where
  "dec_char (bits, value, out) ch =
     (case js_index_of ch BASE32_ALPHABET of
        None \<Rightarrow> (bits, value, out)
      | Some idx \<Rightarrow>
          let value' = push_bit 5 value OR of_nat idx; bits' = bits + 5
          in if 8 \<le> bits' then (bits' - 8, value', out @ [ucast (drop_bit (bits' - 8) value' AND 0xff)])
             else (bits', value', out))"

definition base32Decode :: "string \<Rightarrow> 8 word list" where
  "base32Decode s =
     (let clean = filter (\<lambda>c. c \<in> set BASE32_ALPHABET) (to_upper s);
          (bits, value, out) = foldl dec_char (0, 0, []) clean
      in out)"

text \<open>\<open>randomBytes(20)\<close> is the argument.\<close>

definition generateSecret :: "8 word list \<Rightarrow> string" where
  "generateSecret bytes = base32Encode bytes"

section \<open>The enrollment link\<close>

definition hex_char :: "nat \<Rightarrow> char" where
  "hex_char n = ''0123456789ABCDEF'' ! (n mod 16)"

definition utf8_bytes :: "char \<Rightarrow> nat list" where
  "utf8_bytes c = (let n = of_char c in if n < 128 then [n] else [192 + n div 64, 128 + n mod 64])"

definition percent :: "char \<Rightarrow> string" where
  "percent c = concat (map (\<lambda>b. [CHR ''%'', hex_char (b div 16), hex_char b]) (utf8_bytes c))"

definition is_alnum :: "char \<Rightarrow> bool" where
  "is_alnum c \<longleftrightarrow> is_digit c \<or> (let n = of_char c :: nat in 65 \<le> n \<and> n \<le> 90 \<or> 97 \<le> n \<and> n \<le> 122)"

definition encodeURIComponent :: "string \<Rightarrow> string" where
  "encodeURIComponent s =
     concat (map (\<lambda>c. if is_alnum c \<or> c \<in> set ''-_.!~*()'' \<or> of_char c = (39 :: nat) then [c] else percent c) s)"

definition form_encode :: "string \<Rightarrow> string" where
  "form_encode s =
     concat (map (\<lambda>c. if is_alnum c \<or> c \<in> set ''*-._'' then [c]
                      else if c = CHR '' '' then ''+'' else percent c) s)"

definition url_search_params :: "(string \<times> string) list \<Rightarrow> string" where
  "url_search_params ps = js_join ''&'' (map (\<lambda>(k, v). form_encode k @ ''='' @ form_encode v) ps)"

definition totpUri :: "string \<Rightarrow> string \<Rightarrow> string \<Rightarrow> string" where
  "totpUri secretBase32 account issuer =
     (let label = encodeURIComponent (issuer @ '':'' @ account);
          params = url_search_params
            [(''secret'', secretBase32), (''issuer'', issuer), (''algorithm'', ''SHA1''),
             (''digits'', dec_of_nat DIGITS), (''period'', dec_of_nat (nat PERIOD_SECONDS))]
      in ''otpauth://totp/'' @ label @ ''?'' @ params)"

section \<open>Codes\<close>

datatype totp_error = RangeError

type_synonym hmac_fn = "8 word list \<Rightarrow> 8 word list \<Rightarrow> 8 word list"

definition writeBigUInt64BE :: "int \<Rightarrow> totp_error + 8 word list" where
  "writeBigUInt64BE n =
     (if n < 0 \<or> 2 ^ 64 \<le> n then Inl RangeError
      else Inr (map (\<lambda>i. word_of_int (n div 2 ^ (8 * i))) (rev [0..<8])))"

text \<open>\<open>hmac[i]\<close> past the end is \<open>undefined\<close>, which the bit operators read as zero.\<close>

definition byte_at :: "8 word list \<Rightarrow> nat \<Rightarrow> 32 word" where
  "byte_at h i = (if i < length h then ucast (h ! i) else 0)"

definition hotp_bin :: "8 word list \<Rightarrow> 32 word" where
  "hotp_bin h =
     (let offset = unat (byte_at h (length h - 1) AND 0x0f)
      in push_bit 24 (byte_at h offset AND 0x7f) OR
         push_bit 16 (byte_at h (offset + 1) AND 0xff) OR
         push_bit 8 (byte_at h (offset + 2) AND 0xff) OR
         (byte_at h (offset + 3) AND 0xff))"

definition padStart :: "nat \<Rightarrow> char \<Rightarrow> string \<Rightarrow> string" where
  "padStart n c s = replicate (n - length s) c @ s"

definition hotp :: "hmac_fn \<Rightarrow> 8 word list \<Rightarrow> int \<Rightarrow> totp_error + string" where
  "hotp hmac key counter =
     rbind (writeBigUInt64BE counter)
       (\<lambda>buf. Inr (padStart DIGITS CHR ''0'' (dec_of_nat (unat (hotp_bin (hmac key buf)) mod 10 ^ DIGITS))))"

definition generateTotp :: "hmac_fn \<Rightarrow> string \<Rightarrow> int \<Rightarrow> totp_error + string" where
  "generateTotp hmac secretBase32 timeSec = hotp hmac (base32Decode secretBase32) (timeSec div PERIOD_SECONDS)"

definition safeEqual :: "string \<Rightarrow> string \<Rightarrow> bool" where
  "safeEqual a b \<longleftrightarrow> (if length a \<noteq> length b then False else a = b)"

definition six_digits :: "string \<Rightarrow> bool" where
  "six_digits s \<longleftrightarrow> length s = 6 \<and> list_all is_digit s"

fun verify_loop :: "hmac_fn \<Rightarrow> 8 word list \<Rightarrow> string \<Rightarrow> int \<Rightarrow> int list \<Rightarrow> totp_error + int option" where
  "verify_loop hmac key normalized counter [] = Inr None"
| "verify_loop hmac key normalized counter (w # ws) =
     rbind (hotp hmac key (counter + w))
       (\<lambda>c. if safeEqual c normalized then Inr (Some (counter + w))
             else verify_loop hmac key normalized counter ws)"

definition verifyTotpStep :: "hmac_fn \<Rightarrow> string \<Rightarrow> string \<Rightarrow> int \<Rightarrow> int \<Rightarrow> totp_error + int option" where
  "verifyTotpStep hmac secretBase32 code nowSec window =
     (let normalized = filter (\<lambda>c. \<not> is_ws c) code
      in if \<not> six_digits normalized then Inr None
         else verify_loop hmac (base32Decode secretBase32) normalized (nowSec div PERIOD_SECONDS) [- window..window])"

definition verifyTotp :: "hmac_fn \<Rightarrow> string \<Rightarrow> string \<Rightarrow> int \<Rightarrow> int \<Rightarrow> totp_error + bool" where
  "verifyTotp hmac secretBase32 code nowSec window =
     rbind (verifyTotpStep hmac secretBase32 code nowSec window) (\<lambda>s. Inr (s \<noteq> None))"

section \<open>Bit streams\<close>

text \<open>The last \<open>n\<close> bits of a word, most significant first. Both loops move such bits from one
  end of a stream to the other: what was written, then the pending bits, is what was read.\<close>

definition bits_of :: "nat \<Rightarrow> 'a :: len word \<Rightarrow> bool list" where
  "bits_of n w = map (bit w) (rev [0..<n])"

lemma bits_of_0 [simp]: "bits_of 0 w = []"
  by (simp add: bits_of_def)

lemma length_bits_of [simp]: "length (bits_of n w) = n"
  by (simp add: bits_of_def)

lemma bits_of_nth: "i < n \<Longrightarrow> bits_of n w ! i = bit w (n - Suc i)"
  by (simp add: bits_of_def rev_nth)

lemma bits_of_cong: "(\<And>i. i < n \<Longrightarrow> bit v i = bit w i) \<Longrightarrow> bits_of n v = bits_of n w"
  by (simp add: bits_of_def)

lemma bits_of_shift_in:
  fixes v b :: "32 word"
  assumes "n + k \<le> 32" and "\<And>i. k \<le> i \<Longrightarrow> \<not> bit b i"
  shows "bits_of (n + k) (push_bit k v OR b) = bits_of n v @ bits_of k b"
proof (intro nth_equalityI)
  fix i
  assume i: "i < length (bits_of (n + k) (push_bit k v OR b))"
  show "bits_of (n + k) (push_bit k v OR b) ! i = (bits_of n v @ bits_of k b) ! i"
  proof (cases "i < n")
    case True
    then have "n + k - Suc i - k = n - Suc i" "k \<le> n + k - Suc i" "n + k - Suc i < 32"
      using assms(1) by linarith+
    then show ?thesis
      using True i assms by (simp add: bits_of_nth nth_append bit_simps)
  next
    case False
    then have "n + k - Suc i = k - Suc (i - n)" "\<not> k \<le> k - Suc (i - n)"
      using i by simp_all
    then show ?thesis
      using False i assms(1) by (simp add: bits_of_nth nth_append bit_simps)
  qed
qed simp

lemma bits_of_split: "k \<le> n \<Longrightarrow> bits_of n v = bits_of (n - k) (drop_bit k v) @ bits_of k v"
  by (intro nth_equalityI) (auto simp: bits_of_nth nth_append bit_simps)

lemma bits_of_inj8:
  fixes v w :: "8 word"
  assumes "bits_of 8 v = bits_of 8 w"
  shows "v = w"
proof (rule bit_word_eqI)
  fix i
  assume "i < LENGTH(8)"
  then have "bits_of 8 v ! (7 - i) = bit v i" "bits_of 8 w ! (7 - i) = bit w i"
    by (simp_all add: bits_of_nth)
  then show "bit v i = bit w i"
    using assms by simp
qed

lemma and_31: "(w :: 32 word) AND 31 = take_bit 5 w"
  by (simp add: take_bit_eq_mask mask_eq_exp_minus_1)

lemma and_255: "(w :: 32 word) AND 255 = take_bit 8 w"
  by (simp add: take_bit_eq_mask mask_eq_exp_minus_1)

lemma bits_of_and_31 [simp]: "bits_of 5 ((w :: 32 word) AND 31) = bits_of 5 w"
  unfolding and_31 by (rule bits_of_cong) (simp add: bit_take_bit_iff)

lemma bits_of_byte [simp]: "bits_of 8 (ucast ((w :: 32 word) AND 255) :: 8 word) = bits_of 8 w"
  unfolding and_255 by (rule bits_of_cong) (simp add: bit_simps)

lemma bits_of_ucast [simp]: "bits_of 8 (ucast (b :: 8 word) :: 32 word) = bits_of 8 b"
  by (rule bits_of_cong) (simp add: bit_simps)

lemma low_bits_ucast: "8 \<le> i \<Longrightarrow> \<not> bit (ucast (b :: 8 word) :: 32 word) i"
  by (auto simp: bit_simps dest: bit_imp_le_length)

lemma unat_and_31: "unat ((w :: 32 word) AND 31) < 32"
  unfolding and_31 using take_bit_nat_less_exp [of 5 "unat w"] by (simp add: unsigned_take_bit_eq)

lemma low_bits_index:
  assumes "idx < 32" and "5 \<le> i"
  shows "\<not> bit (of_nat idx :: 32 word) i"
proof -
  have "idx < 2 ^ i"
    using assms power_increasing [of 5 i "2 :: nat"] by simp
  then show ?thesis
    by (simp add: bit_simps) (simp add: bit_iff_odd)
qed

section \<open>Base32 on streams\<close>

lemma b32_alphabet: "map (\<lambda>i. js_index_of (BASE32_ALPHABET ! i) BASE32_ALPHABET) [0..<32] = map Some [0..<32]"
  "length BASE32_ALPHABET = 32" "map upper_char BASE32_ALPHABET = BASE32_ALPHABET"
  by code_simp+

lemma b32_index: "i < 32 \<Longrightarrow> js_index_of (BASE32_ALPHABET ! i) BASE32_ALPHABET = Some i"
  using arg_cong [OF b32_alphabet(1), of "\<lambda>xs. xs ! i"] by simp

lemma b32_char_mem: "unat w < 32 \<Longrightarrow> b32_char w \<in> set BASE32_ALPHABET"
  by (simp add: b32_char_def b32_alphabet(2))

lemma b32_upper: "c \<in> set BASE32_ALPHABET \<Longrightarrow> upper_char c = c"
  using b32_alphabet(3) by (auto simp: in_set_conv_nth) (metis nth_map)

abbreviation stream :: "nat \<Rightarrow> 'a :: len word list \<Rightarrow> bool list" where
  "stream n ws \<equiv> concat (map (bits_of n) ws)"

lemma length_stream [simp]: "length (stream n ws) = n * length ws"
  by (induction ws) simp_all

lemma stream8_inj: "stream 8 vs = stream 8 ws \<Longrightarrow> length vs = length ws \<Longrightarrow> vs = (ws :: 8 word list)"
  by (induction vs ws rule: list_induct2') (auto dest: bits_of_inj8)

lemma enc_drain_stream:
  "\<exists>gs. enc_drain v bits out = (bits mod 5, out @ map b32_char gs) \<and>
     (\<forall>g \<in> set gs. unat g < 32) \<and> stream 5 gs @ bits_of (bits mod 5) v = bits_of bits v"
proof (induction v bits out rule: enc_drain.induct)
  case (1 v bits out)
  show ?case
  proof (cases "5 \<le> bits")
    case True
    define g where "g = drop_bit (bits - 5) v AND 31"
    obtain gs where gs: "enc_drain v (bits - 5) (out @ [b32_char g]) = ((bits - 5) mod 5, (out @ [b32_char g]) @ map b32_char gs)"
      "\<forall>g \<in> set gs. unat g < 32" "stream 5 gs @ bits_of ((bits - 5) mod 5) v = bits_of (bits - 5) v"
      using 1 [OF True] by (auto simp: g_def)
    have m: "(bits - 5) mod 5 = bits mod 5"
      using True by (simp add: le_mod_geq)
    have "bits_of bits v = bits_of 5 g @ bits_of (bits - 5) v"
      using bits_of_split [of "bits - 5" bits v] True by (simp add: g_def)
    then show ?thesis
      using gs True unat_and_31 m by (subst enc_drain.simps) (auto simp: g_def intro!: exI [of _ "g # gs"])
  next
    case False
    then show ?thesis
      by (subst enc_drain.simps) (auto intro: exI [of _ "[]"])
  qed
qed

lemma enc_bytes_stream:
  "bits < 5 \<Longrightarrow> \<exists>bits' v' gs. foldl enc_byte (bits, v, out) bytes = (bits', v', out @ map b32_char gs) \<and>
     bits' < 5 \<and> (\<forall>g \<in> set gs. unat g < 32) \<and>
     stream 5 gs @ bits_of bits' v' = bits_of bits v @ stream 8 bytes"
proof (induction bytes arbitrary: bits v out)
  case Nil
  then show ?case
    by (auto intro!: exI [of _ "[]"])
next
  case (Cons b bytes)
  define v' where "v' = push_bit 8 v OR ucast b"
  obtain gs where gs: "enc_drain v' (bits + 8) out = ((bits + 8) mod 5, out @ map b32_char gs)"
    "\<forall>g \<in> set gs. unat g < 32" "stream 5 gs @ bits_of ((bits + 8) mod 5) v' = bits_of (bits + 8) v'"
    using enc_drain_stream [of v' "bits + 8" out] by blast
  have v': "bits_of (bits + 8) v' = bits_of bits v @ bits_of 8 b"
    using Cons.prems bits_of_shift_in [of bits 8 "ucast b" v] low_bits_ucast by (simp add: v'_def)
  obtain bits'' v'' hs where hs: "foldl enc_byte ((bits + 8) mod 5, v', out @ map b32_char gs) bytes =
      (bits'', v'', (out @ map b32_char gs) @ map b32_char hs)"
    "bits'' < 5" "\<forall>g \<in> set hs. unat g < 32"
    "stream 5 hs @ bits_of bits'' v'' = bits_of ((bits + 8) mod 5) v' @ stream 8 bytes"
    using Cons.IH [of "(bits + 8) mod 5" v' "out @ map b32_char gs"] by auto
  have "stream 5 (gs @ hs) @ bits_of bits'' v'' = bits_of bits v @ stream 8 (b # bytes)"
    using gs(3) hs(4) v' by simp
  moreover have "enc_byte (bits, v, out) b = ((bits + 8) mod 5, v', out @ map b32_char gs)"
    using gs(1) by (simp add: v'_def)
  ultimately show ?case
    using hs gs(2) by (auto intro!: exI [of _ "gs @ hs"])
qed

text \<open>What the encoder writes: five-bit groups that spell the bytes, padded with zero bits to
  the next group.\<close>

lemma base32Encode_stream:
  obtains gs p where "base32Encode bytes = map b32_char gs" and "\<forall>g \<in> set gs. unat g < 32"
    and "stream 5 gs = stream 8 bytes @ replicate p False" and "p < 5"
proof -
  obtain bits v gs where e: "foldl enc_byte (0, 0, []) bytes = (bits, v, map b32_char gs)"
    "bits < 5" "\<forall>g \<in> set gs. unat g < 32" "stream 5 gs @ bits_of bits v = stream 8 bytes"
    using enc_bytes_stream [of 0 0 "[]" bytes] by auto
  show ?thesis
  proof (cases "bits = 0")
    case True
    show ?thesis
      by (rule that [of gs 0]) (use e True in \<open>simp_all add: base32Encode_def\<close>)
  next
    case False
    define g where "g = push_bit (5 - bits) v AND 31"
    have "bits_of 5 g = bits_of bits v @ bits_of (5 - bits) (0 :: 32 word)"
      using bits_of_shift_in [of bits "5 - bits" 0 v] e(2) by (simp add: g_def)
    moreover have "bits_of (5 - bits) (0 :: 32 word) = replicate (5 - bits) False"
      by (rule nth_equalityI) (simp_all add: bits_of_nth)
    ultimately have s: "stream 5 (gs @ [g]) = stream 8 bytes @ replicate (5 - bits) False"
      using e(4) by (simp flip: append_assoc)
    show ?thesis
      by (rule that [of "gs @ [g]" "5 - bits"])
        (use e False s unat_and_31 in \<open>auto simp: base32Encode_def g_def\<close>)
  qed
qed

lemma dec_chars_stream:
  "bits < 8 \<Longrightarrow> \<forall>g \<in> set gs. unat g < 32 \<Longrightarrow>
   \<exists>bits' v' bs. foldl dec_char (bits, v, out) (map b32_char gs) = (bits', v', out @ bs) \<and> bits' < 8 \<and>
     stream 8 bs @ bits_of bits' v' = bits_of bits v @ stream 5 gs"
proof (induction gs arbitrary: bits v out)
  case (Cons g gs)
  define v' where "v' = push_bit 5 v OR g"
  have g: "unat g < 32" "js_index_of (b32_char g) BASE32_ALPHABET = Some (unat g)"
    using Cons.prems by (simp_all add: b32_char_def b32_index)
  have v': "bits_of (bits + 5) v' = bits_of bits v @ bits_of 5 g"
    using Cons.prems(1) bits_of_shift_in [of bits 5 g v] low_bits_index [OF g(1)] by (simp add: v'_def)
  obtain bits1 bs where s: "dec_char (bits, v, out) (b32_char g) = (bits1, v', out @ bs)" "bits1 < 8"
    "stream 8 bs @ bits_of bits1 v' = bits_of (bits + 5) v'"
  proof (cases "8 \<le> bits + 5")
    case True
    then have "bits_of (bits + 5) v' = bits_of 8 (drop_bit (bits + 5 - 8) v') @ bits_of (bits + 5 - 8) v'"
      using bits_of_split [of "bits + 5 - 8" "bits + 5" v'] by simp
    then show ?thesis
      using that [of "bits + 5 - 8" "[ucast (drop_bit (bits + 5 - 8) v' AND 0xff)]"] True g Cons.prems(1)
      by (simp add: v'_def)
  next
    case False
    then show ?thesis
      using that [of "bits + 5" "[]"] g by (simp add: v'_def)
  qed
  obtain bits2 v2 cs where c: "foldl dec_char (bits1, v', out @ bs) (map b32_char gs) = (bits2, v2, (out @ bs) @ cs)"
    "bits2 < 8" "stream 8 cs @ bits_of bits2 v2 = bits_of bits1 v' @ stream 5 gs"
    using Cons.IH [OF s(2), of v' "out @ bs"] Cons.prems(2) by auto
  have "stream 8 (bs @ cs) @ bits_of bits2 v2 = bits_of bits v @ stream 5 (g # gs)"
    using s(3) c(3) v' by simp
  then show ?case
    using s(1) c(1,2) by (auto intro!: exI [of _ "bs @ cs"])
qed auto

lemma b32_clean: "\<forall>g \<in> set gs. unat g < 32 \<Longrightarrow>
  filter (\<lambda>c. c \<in> set BASE32_ALPHABET) (to_upper (map b32_char gs)) = map b32_char gs"
  by (induction gs) (simp_all add: to_upper_def b32_char_mem b32_upper)

text \<open>C32. A secret survives its text form: decoding the base32 text of any byte string gives the
  byte string back, whatever its length, although the last character carries padding bits that
  are not part of it.\<close>

theorem base32_round_trip: "base32Decode (base32Encode bytes) = bytes"
proof -
  obtain gs p where gs: "base32Encode bytes = map b32_char gs" "\<forall>g \<in> set gs. unat g < 32"
    "stream 5 gs = stream 8 bytes @ replicate p False" "p < 5"
    by (rule base32Encode_stream)
  obtain bits v bs where d: "foldl dec_char (0, 0, []) (map b32_char gs) = (bits, v, bs)" "bits < 8"
    "stream 8 bs @ bits_of bits v = stream 5 gs"
    using dec_chars_stream [OF _ gs(2), of 0 0 "[]"] by auto
  have eq: "stream 8 bs @ bits_of bits v = stream 8 bytes @ replicate p False"
    using d(3) gs(3) by simp
  then have "8 * length bs + bits = 8 * length bytes + p"
    by (metis length_append length_stream length_bits_of length_replicate)
  then have "length bs = length bytes"
    using d(2) gs(4) by linarith
  moreover from this eq have "stream 8 bs = stream 8 bytes"
    by (simp add: append_eq_append_conv)
  ultimately have "bs = bytes"
    by (intro stream8_inj)
  then show ?thesis
    using d(1) gs(1) b32_clean [OF gs(2)] by (simp add: base32Decode_def)
qed

section \<open>Codes and their steps\<close>

lemma dec_of_nat_length: "n < 10 ^ Suc k \<Longrightarrow> length (dec_of_nat n) \<le> Suc k"
proof (induction k arbitrary: n)
  case 0
  then show ?case
    by (subst dec_of_nat.simps) simp
next
  case (Suc k)
  have "length (dec_of_nat (n div 10)) \<le> Suc k"
    using Suc.prems by (intro Suc.IH) (simp add: less_mult_imp_div_less)
  then show ?case
    by (subst dec_of_nat.simps) simp
qed

lemma six_digits_pad: "n < 10 ^ 6 \<Longrightarrow> six_digits (padStart 6 CHR ''0'' (dec_of_nat n))"
  using dec_of_nat_length [of n 5] dec_of_nat_digits [of n]
  by (auto simp: six_digits_def padStart_def list_all_iff is_digit_def)

text \<open>A counter fits eight bytes.\<close>

definition counter_ok :: "int \<Rightarrow> bool" where
  "counter_ok c \<longleftrightarrow> 0 \<le> c \<and> c < 2 ^ 64"

lemma hotp_ok: "counter_ok c \<Longrightarrow> \<exists>code. hotp hmac key c = Inr code \<and> six_digits code"
  by (auto simp: hotp_def counter_ok_def writeBigUInt64BE_def DIGITS_def intro: six_digits_pad)

lemma hotp_range_error: "\<not> counter_ok c \<Longrightarrow> hotp hmac key c = Inl RangeError"
  by (auto simp: hotp_def counter_ok_def writeBigUInt64BE_def)


lemma safeEqual_eq [simp]: "safeEqual a b \<longleftrightarrow> a = b"
  by (auto simp: safeEqual_def)

lemma verify_loop_find:
  "\<forall>w \<in> set ws. counter_ok (counter + w) \<Longrightarrow>
   verify_loop hmac key code counter ws =
   Inr (List.find (\<lambda>s. hotp hmac key s = Inr code) (map (\<lambda>w. counter + w) ws))"
proof (induction ws)
  case (Cons w ws)
  obtain c where "hotp hmac key (counter + w) = Inr c"
    using Cons.prems hotp_ok by fastforce
  then show ?case
    using Cons by simp
qed simp

lemma map_add_upto: "map (\<lambda>w. c + w) [- k..k] = [c - k..c + k :: int]"
proof -
  have "map (\<lambda>w. c + w) [i..j] = [c + i..c + j]" for i j
  proof (induction i j rule: upto.induct)
    case (1 i j)
    then show ?case
      by (subst (1 2) upto.simps) (simp add: add.assoc)
  qed
  from this [of "- k" k] show ?thesis
    by simp
qed

lemma find_upto_Some:
  "List.find P [i..j] = Some s \<longleftrightarrow> i \<le> s \<and> s \<le> j \<and> P s \<and> (\<forall>t. i \<le> t \<and> t < s \<longrightarrow> \<not> P t)"
proof (induction i j rule: upto.induct)
  case (1 i j)
  show ?case
  proof (cases "i \<le> j")
    case True
    show ?thesis
    proof (cases "P i")
      case Pi: True
      show ?thesis
        using True Pi by (subst upto.simps) (cases "i < s"; auto)
    next
      case False
      have *: "i + 1 \<le> t \<longleftrightarrow> i \<le> t" if "P t" for t
        using that False by (cases "t = i") auto
      show ?thesis
        using True False 1 [OF True] * by (subst upto.simps) (simp, metis)
    qed
  qed simp
qed

abbreviation strip_ws :: "string \<Rightarrow> string" where
  "strip_ws code \<equiv> filter (\<lambda>c. \<not> is_ws c) code"

lemma strip_digits: "six_digits code \<Longrightarrow> strip_ws code = code"
  by (auto simp: six_digits_def list_all_iff filter_id_conv)

text \<open>The window around a step, all of whose counters can be written.\<close>

definition window_ok :: "int \<Rightarrow> int \<Rightarrow> bool" where
  "window_ok counter window \<longleftrightarrow> 0 \<le> counter - window \<and> counter + window < 2 ^ 64"

lemma verifyTotpStep_find:
  assumes "window_ok (now div PERIOD_SECONDS) window"
  shows "verifyTotpStep hmac secret code now window =
    Inr (List.find (\<lambda>s. hotp hmac (base32Decode secret) s = Inr (strip_ws code))
          [now div PERIOD_SECONDS - window..now div PERIOD_SECONDS + window])"
proof (cases "six_digits (strip_ws code)")
  case True
  have "verify_loop hmac (base32Decode secret) (strip_ws code) (now div PERIOD_SECONDS) [- window..window] =
    Inr (List.find (\<lambda>s. hotp hmac (base32Decode secret) s = Inr (strip_ws code))
          (map (\<lambda>w. now div PERIOD_SECONDS + w) [- window..window]))"
    using assms by (intro verify_loop_find) (auto simp: window_ok_def counter_ok_def)
  then show ?thesis
    using True by (simp add: verifyTotpStep_def map_add_upto)
next
  case False
  have "hotp hmac (base32Decode secret) s \<noteq> Inr (strip_ws code)" for s
    using hotp_ok [of s hmac "base32Decode secret"] hotp_range_error [of s hmac "base32Decode secret"] False
    by (cases "counter_ok s") auto
  then have "List.find (\<lambda>s. hotp hmac (base32Decode secret) s = Inr (strip_ws code)) xs = None" for xs
    by (simp add: find_None_all)
  then show ?thesis
    using False by (simp add: verifyTotpStep_def)
qed

text \<open>C31. Verifying a code: while the counters of the window fit eight bytes the call returns, and
  it returns a step exactly when that step is inside the window, the secret's code of the step is
  the code given with its white space removed, and no earlier step of the window has that code.
  Nothing else is accepted; a code that is not six digits never is.\<close>

theorem verifyTotpStep_exact:
  assumes "window_ok (now div PERIOD_SECONDS) window"
  shows "(\<exists>r. verifyTotpStep hmac secret code now window = Inr r) \<and>
    (\<forall>s. verifyTotpStep hmac secret code now window = Inr (Some s) \<longleftrightarrow>
      now div PERIOD_SECONDS - window \<le> s \<and> s \<le> now div PERIOD_SECONDS + window \<and>
      hotp hmac (base32Decode secret) s = Inr (strip_ws code) \<and>
      (\<forall>t. now div PERIOD_SECONDS - window \<le> t \<and> t < s \<longrightarrow>
        hotp hmac (base32Decode secret) t \<noteq> Inr (strip_ws code)))"
  unfolding verifyTotpStep_find [OF assms] by (simp add: find_upto_Some)

theorem verifyTotpStep_exact_witness:
  "(\<exists>r. verifyTotpStep (\<lambda>k m. m) ''GEZDGNBV'' ''000 001'' 60 1 = Inr r) \<and>
   (\<forall>s. verifyTotpStep (\<lambda>k m. m) ''GEZDGNBV'' ''000 001'' 60 1 = Inr (Some s) \<longleftrightarrow>
      1 \<le> s \<and> s \<le> 3 \<and> hotp (\<lambda>k m. m) (base32Decode ''GEZDGNBV'') s = Inr (strip_ws ''000 001'') \<and>
      (\<forall>t. 1 \<le> t \<and> t < s \<longrightarrow> hotp (\<lambda>k m. m) (base32Decode ''GEZDGNBV'') t \<noteq> Inr (strip_ws ''000 001'')))"
proof -
  have "window_ok (60 div PERIOD_SECONDS) 1" and p: "60 div PERIOD_SECONDS = 2"
    by (simp_all add: window_ok_def PERIOD_SECONDS_def)
  from verifyTotpStep_exact [OF this(1), of "\<lambda>k m. m" "''GEZDGNBV''" "''000 001''"] show ?thesis
    unfolding p by simp
qed

lemma generated_code_accepted:
  assumes "window_ok (now div PERIOD_SECONDS) window" and "generateTotp hmac secret t = Inr code"
    and "\<bar>t div PERIOD_SECONDS - now div PERIOD_SECONDS\<bar> \<le> window"
  shows "\<exists>s \<le> t div PERIOD_SECONDS. verifyTotpStep hmac secret code now window = Inr (Some s)"
proof -
  let ?P = "\<lambda>s. hotp hmac (base32Decode secret) s = Inr (strip_ws code)"
  let ?xs = "[now div PERIOD_SECONDS - window..now div PERIOD_SECONDS + window]"
  have "counter_ok (t div PERIOD_SECONDS)"
    using assms(1,3) by (auto simp: window_ok_def counter_ok_def)
  then have "six_digits code"
    using hotp_ok [of "t div PERIOD_SECONDS" hmac "base32Decode secret"] assms(2) by (auto simp: generateTotp_def)
  then have P: "?P (t div PERIOD_SECONDS)" "t div PERIOD_SECONDS \<in> set ?xs"
    using assms(2,3) by (auto simp: strip_digits generateTotp_def)
  then obtain s where s: "List.find ?P ?xs = Some s"
    by (cases "List.find ?P ?xs") (auto simp: find_None_all)
  then have "s \<le> t div PERIOD_SECONDS"
    using P by (auto simp: find_upto_Some not_less [symmetric])
  then show ?thesis
    using s by (auto simp: verifyTotpStep_find [OF assms(1)])
qed

text \<open>A clock in the first step of the epoch asks for the counter \<open>-1\<close>, which throws.\<close>

lemma verify_before_epoch:
  assumes "six_digits code" and "now div PERIOD_SECONDS < 1"
  shows "verifyTotpStep hmac secret code now 1 = Inl RangeError"
proof -
  have "hotp hmac (base32Decode secret) (now div PERIOD_SECONDS + - 1) = Inl RangeError"
    using assms(2) by (intro hotp_range_error) (simp add: counter_ok_def)
  moreover have "[- 1..1 :: int] = [- 1, 0, 1]"
    by (simp add: upto_rec1)
  ultimately show ?thesis
    using assms(1) by (simp add: verifyTotpStep_def strip_digits)
qed

end
