(* ===== verification/RedisLock.thy ===== *)
theory RedisLock
  imports Prelude
begin

text \<open>
  The Redis keys the panel counts and remembers with, and the contract of a failure lock on one
  such key. A store maps a key to its value and the moment it expires (milliseconds); the values
  kept by the components here are decimal integers, so they are numbers in the model. A key is
  readable up to its expiry, as the server's \<open>now > when\<close> test has it. The commands are those the
  code sends: GET, INCR, EXPIRE, TTL, SET with EX, DEL.
\<close>

section \<open>The commands\<close>

record redis_entry =
  entry_val :: nat
  entry_until :: "int option"

type_synonym redis = "string \<Rightarrow> redis_entry option"

definition entry_live :: "int \<Rightarrow> redis_entry \<Rightarrow> bool" where
  "entry_live now e = (case entry_until e of None \<Rightarrow> True | Some u \<Rightarrow> now \<le> u)"

definition live_entry :: "int \<Rightarrow> redis_entry option \<Rightarrow> redis_entry option" where
  "live_entry now e = (case e of None \<Rightarrow> None | Some e' \<Rightarrow> if entry_live now e' then Some e' else None)"

definition rd_get :: "int \<Rightarrow> redis \<Rightarrow> string \<Rightarrow> nat option" where
  "rd_get now r k = map_option entry_val (live_entry now (r k))"

definition rd_incr :: "int \<Rightarrow> redis \<Rightarrow> string \<Rightarrow> redis \<times> nat" where
  "rd_incr now r k =
     (case live_entry now (r k) of
        None \<Rightarrow> (r(k \<mapsto> \<lparr>entry_val = 1, entry_until = None\<rparr>), 1)
      | Some e \<Rightarrow> (r(k \<mapsto> e\<lparr>entry_val := entry_val e + 1\<rparr>), entry_val e + 1))"

definition rd_expire :: "int \<Rightarrow> redis \<Rightarrow> string \<Rightarrow> int \<Rightarrow> redis" where
  "rd_expire now r k seconds =
     (case live_entry now (r k) of
        None \<Rightarrow> r
      | Some e \<Rightarrow> if seconds \<le> 0 then r(k := None) else r(k \<mapsto> e\<lparr>entry_until := Some (now + seconds * 1000)\<rparr>))"

definition rd_ttl :: "int \<Rightarrow> redis \<Rightarrow> string \<Rightarrow> int" where
  "rd_ttl now r k =
     (case live_entry now (r k) of
        None \<Rightarrow> - 2
      | Some e \<Rightarrow> (case entry_until e of None \<Rightarrow> - 1 | Some u \<Rightarrow> (u - now + 500) div 1000))"

definition rd_set_ex :: "int \<Rightarrow> redis \<Rightarrow> string \<Rightarrow> nat \<Rightarrow> int \<Rightarrow> redis" where
  "rd_set_ex now r k v seconds = r(k \<mapsto> \<lparr>entry_val = v, entry_until = Some (now + seconds * 1000)\<rparr>)"

definition rd_del :: "redis \<Rightarrow> string \<Rightarrow> redis" where
  "rd_del r k = r(k := None)"

named_theorems redis_defs \<open>the Redis commands, unfolded\<close>

declare rd_get_def [redis_defs] rd_incr_def [redis_defs] rd_expire_def [redis_defs] rd_ttl_def [redis_defs]
  rd_set_ex_def [redis_defs] rd_del_def [redis_defs] live_entry_def [redis_defs] entry_live_def [redis_defs]

lemma live_entry_cases:
  "live_entry now e = None \<and> (\<forall>e'. e = Some e' \<longrightarrow> \<not> entry_live now e') \<or>
   (\<exists>e'. e = Some e' \<and> live_entry now e = Some e' \<and> entry_live now e')"
  by (auto simp: live_entry_def split: option.split)

lemma rd_incr_other: "k' \<noteq> k \<Longrightarrow> fst (rd_incr now r k) k' = r k'"
  by (simp add: rd_incr_def split: option.split)

lemma rd_expire_other: "k' \<noteq> k \<Longrightarrow> rd_expire now r k s k' = r k'"
  by (simp add: rd_expire_def split: option.split)

section \<open>The lock on a key\<close>

text \<open>The limits of a lock: so many failures (\<open>LOGIN_LOCKOUT_FAILURES\<close>), counted over a window
  and held for a duration, both in minutes.\<close>

record lock_config =
  LOGIN_LOCKOUT_FAILURES :: nat
  LOGIN_LOCKOUT_WINDOW_MIN :: nat
  LOGIN_LOCKOUT_DURATION_MIN :: nat

definition lock_config_ok :: "lock_config \<Rightarrow> bool" where
  "lock_config_ok cfg \<longleftrightarrow> 1 \<le> LOGIN_LOCKOUT_FAILURES cfg \<and> 1 \<le> LOGIN_LOCKOUT_WINDOW_MIN cfg \<and>
     1 \<le> LOGIN_LOCKOUT_DURATION_MIN cfg"

text \<open>The configuration schema's lower bounds are \<^const>\<open>lock_config_ok\<close>; a span is short when it
  is no longer than the window and the duration.\<close>

definition short_span :: "lock_config \<Rightarrow> int \<Rightarrow> int \<Rightarrow> bool" where
  "short_span cfg from_ms to_ms \<longleftrightarrow>
     to_ms - from_ms \<le> 60000 * int (LOGIN_LOCKOUT_WINDOW_MIN cfg) \<and>
     to_ms - from_ms \<le> 60000 * int (LOGIN_LOCKOUT_DURATION_MIN cfg)"

text \<open>What one counted failure does to the key's entry.\<close>

definition bumped :: "lock_config \<Rightarrow> int \<Rightarrow> redis_entry option \<Rightarrow> redis_entry" where
  "bumped cfg now e =
     (let (n, u) = (case live_entry now e of None \<Rightarrow> (1, None) | Some e' \<Rightarrow> (entry_val e' + 1, entry_until e'))
      in \<lparr>entry_val = n,
          entry_until = (if LOGIN_LOCKOUT_FAILURES cfg \<le> n then Some (now + 60000 * int (LOGIN_LOCKOUT_DURATION_MIN cfg))
                         else if n = 1 then Some (now + 60000 * int (LOGIN_LOCKOUT_WINDOW_MIN cfg)) else u)\<rparr>)"

definition entry_locked :: "lock_config \<Rightarrow> int \<Rightarrow> redis_entry option \<Rightarrow> bool" where
  "entry_locked cfg now e =
     (case live_entry now e of None \<Rightarrow> False | Some e' \<Rightarrow> LOGIN_LOCKOUT_FAILURES cfg \<le> entry_val e')"

text \<open>A counter that exists has counted at least one failure.\<close>

definition counter_wf :: "redis_entry option \<Rightarrow> bool" where
  "counter_wf e = (case e of None \<Rightarrow> True | Some e' \<Rightarrow> 1 \<le> entry_val e')"

text \<open>How many more failures can be counted up to the moment \<open>until\<close>: what is left of the
  present counter, and a whole new one if the present one expires before that moment.\<close>

definition lock_budget :: "lock_config \<Rightarrow> int \<Rightarrow> int \<Rightarrow> redis_entry option \<Rightarrow> nat" where
  "lock_budget cfg until now e =
     (case live_entry now e of
        None \<Rightarrow> LOGIN_LOCKOUT_FAILURES cfg
      | Some e' \<Rightarrow> (LOGIN_LOCKOUT_FAILURES cfg - entry_val e') +
          (case entry_until e' of
             None \<Rightarrow> 0
           | Some u \<Rightarrow> if u < until then LOGIN_LOCKOUT_FAILURES cfg else 0))"

lemma rd_expire_live:
  "live_entry now (r k) = Some e \<Longrightarrow> 0 < s \<Longrightarrow>
   rd_expire now r k s = r(k \<mapsto> \<lparr>entry_val = entry_val e, entry_until = Some (now + s * 1000)\<rparr>)"
  by (cases e) (simp add: rd_expire_def)

lemma rd_incr_live:
  "rd_incr now r k =
   (let (n, u) = (case live_entry now (r k) of None \<Rightarrow> (1, None) | Some e' \<Rightarrow> (entry_val e' + 1, entry_until e'))
    in (r(k \<mapsto> \<lparr>entry_val = n, entry_until = u\<rparr>), n))"
  by (auto simp: rd_incr_def split: option.split)

text \<open>The three commands of a counted failure, as both locks of the code send them.\<close>

lemma lock_commands:
  assumes "lock_config_ok cfg"
  shows "(let (r1, n) = rd_incr now r k;
              r2 = (if n = 1 then rd_expire now r1 k (int (LOGIN_LOCKOUT_WINDOW_MIN cfg) * 60) else r1);
              r3 = (if LOGIN_LOCKOUT_FAILURES cfg \<le> n then rd_expire now r2 k (int (LOGIN_LOCKOUT_DURATION_MIN cfg) * 60) else r2)
          in f n r3) =
    f (entry_val (bumped cfg now (r k))) (r(k \<mapsto> bumped cfg now (r k)))"
proof -
  obtain n u where nu: "(case live_entry now (r k) of None \<Rightarrow> (1, None) | Some e' \<Rightarrow> (entry_val e' + 1, entry_until e')) = (n, u)"
    by fastforce
  have b: "bumped cfg now (r k) = \<lparr>entry_val = n,
      entry_until = (if LOGIN_LOCKOUT_FAILURES cfg \<le> n then Some (now + 60000 * int (LOGIN_LOCKOUT_DURATION_MIN cfg))
                     else if n = 1 then Some (now + 60000 * int (LOGIN_LOCKOUT_WINDOW_MIN cfg)) else u)\<rparr>"
    by (simp add: bumped_def nu)
  have live: "live_entry now (Some \<lparr>entry_val = m, entry_until = u\<rparr>) = Some \<lparr>entry_val = m, entry_until = u\<rparr>"
    "live_entry now (Some \<lparr>entry_val = m, entry_until = Some (now + 60000 * int w)\<rparr>) =
      Some \<lparr>entry_val = m, entry_until = Some (now + 60000 * int w)\<rparr>" for m w
    using nu by (auto simp: live_entry_def entry_live_def split: option.splits if_splits)
  have w: "LOGIN_LOCKOUT_WINDOW_MIN cfg \<noteq> 0" "LOGIN_LOCKOUT_DURATION_MIN cfg \<noteq> 0"
    using assms by (auto simp: lock_config_ok_def)
  show ?thesis
    unfolding rd_incr_live nu b using w by (simp add: rd_expire_live live)
qed

lemma lock_budget_later:
  assumes "t \<le> t'" and "t' \<le> until"
  shows "lock_budget cfg until t' e \<le> lock_budget cfg until t e"
  using assms by (auto simp: lock_budget_def live_entry_def entry_live_def split: option.splits)

lemma lock_budget_None: "lock_budget cfg until t None = LOGIN_LOCKOUT_FAILURES cfg"
  by (simp add: lock_budget_def live_entry_def)

lemma lock_budget_bump:
  assumes "lock_config_ok cfg" and "short_span cfg t until" and "\<not> entry_locked cfg t e"
  shows "Suc (lock_budget cfg until t (Some (bumped cfg t e))) \<le> lock_budget cfg until t e"
  using assms
  by (auto simp: lock_budget_def bumped_def live_entry_def entry_live_def entry_locked_def lock_config_ok_def
      short_span_def Let_def split: option.splits if_splits)

lemma lock_budget_bound:
  assumes "lock_config_ok cfg" and "counter_wf e"
  shows "lock_budget cfg until t e \<le> 2 * LOGIN_LOCKOUT_FAILURES cfg - 1"
  using assms
  by (auto simp: lock_budget_def counter_wf_def lock_config_ok_def live_entry_def split: option.splits if_splits)

section \<open>Serving requests one after the other\<close>

text \<open>What was served: the moment, the state before, the request and its answer.\<close>

type_synonym ('s, 'q, 'r) served = "int \<times> 's \<times> 'q \<times> 'r"

fun serve :: "(int \<Rightarrow> 'q \<Rightarrow> 's \<Rightarrow> 'r \<times> 's) \<Rightarrow> (int \<times> 'q) list \<Rightarrow> 's \<Rightarrow> ('s, 'q, 'r) served list \<times> 's" where
  "serve step [] s = ([], s)"
| "serve step ((t, q) # qs) s =
     (let (out, s') = step t q s; (outs, s'') = serve step qs s' in ((t, s, q, out) # outs, s''))"

lemma serve_Cons:
  "serve step ((t, q) # qs) s = (outs, s'') \<longleftrightarrow>
   (\<exists>out s' outs'. step t q s = (out, s') \<and> serve step qs s' = (outs', s'') \<and> outs = (t, s, q, out) # outs')"
  by (auto split: prod.splits)

text \<open>Times do not run backwards and stay inside a span.\<close>

fun in_order :: "int \<Rightarrow> int \<Rightarrow> (int \<times> 'q) list \<Rightarrow> bool" where
  "in_order from_ms to_ms [] \<longleftrightarrow> from_ms \<le> to_ms"
| "in_order from_ms to_ms ((t, q) # qs) \<longleftrightarrow> from_ms \<le> t \<and> in_order t to_ms qs"

lemma in_order_le: "in_order a b qs \<Longrightarrow> a \<le> b"
  by (induction qs arbitrary: a) (auto intro: order.trans)

text \<open>What holds of every state a run passes through.\<close>

lemma serve_invariant:
  assumes keep: "\<And>t q s out s'. t0 \<le> t \<Longrightarrow> I s \<Longrightarrow> step t q s = (out, s') \<Longrightarrow> I s'"
  shows "t0 \<le> t1 \<Longrightarrow> in_order t1 until qs \<Longrightarrow> I s \<Longrightarrow> serve step qs s = (outs, s') \<Longrightarrow>
    I s' \<and> list_all (\<lambda>(t, s, q, out). t0 \<le> t \<and> I s) outs"
proof (induction qs arbitrary: t1 s outs)
  case (Cons tq qs)
  obtain t q where tq: "tq = (t, q)"
    by (cases tq)
  obtain out s1 outs1 where st: "step t q s = (out, s1)" "serve step qs s1 = (outs1, s')" "outs = (t, s, q, out) # outs1"
    using Cons.prems(4) unfolding tq serve_Cons by blast
  have t: "t0 \<le> t" "in_order t until qs"
    using Cons.prems(1,2) by (simp_all add: tq)
  have "I s1"
    by (rule keep [OF t(1) Cons.prems(3) st(1)])
  from Cons.IH [OF t this st(2)] show ?case
    using t(1) Cons.prems(3) by (simp add: st(3))
qed simp

definition failures :: "(int \<Rightarrow> 's \<Rightarrow> 'q \<Rightarrow> 'r \<Rightarrow> bool) \<Rightarrow> ('s, 'q, 'r) served list \<Rightarrow> nat" where
  "failures counted outs = length (filter (\<lambda>(t, s, q, out). counted t s q out) outs)"

text \<open>The contract of a failure lock, for whatever serves the requests: a refusal that counts is
  only given while the lock does not hold and bumps the key's counter; every other request leaves
  the counter alone, except those that clear it.\<close>

locale failure_lock =
  fixes cfg :: lock_config
    and entry :: "'s \<Rightarrow> redis_entry option"
    and step :: "int \<Rightarrow> 'q \<Rightarrow> 's \<Rightarrow> 'r \<times> 's"
    and counted :: "int \<Rightarrow> 's \<Rightarrow> 'q \<Rightarrow> 'r \<Rightarrow> bool"
    and cleared :: "int \<Rightarrow> 's \<Rightarrow> 'q \<Rightarrow> 'r \<Rightarrow> bool"
  assumes counted_bumps:
    "lock_config_ok cfg \<Longrightarrow> step t q s = (out, s') \<Longrightarrow> counted t s q out \<Longrightarrow>
     \<not> entry_locked cfg t (entry s) \<and> entry s' = Some (bumped cfg t (entry s))"
    and others_keep:
    "lock_config_ok cfg \<Longrightarrow> step t q s = (out, s') \<Longrightarrow> \<not> counted t s q out \<Longrightarrow> \<not> cleared t s q out \<Longrightarrow> entry s' = entry s"
begin

lemma failures_within_budget:
  "lock_config_ok cfg \<Longrightarrow> in_order t0 until qs \<Longrightarrow> short_span cfg t0 until \<Longrightarrow> serve step qs s = (outs, s') \<Longrightarrow>
   list_all (\<lambda>(t, s, q, out). \<not> cleared t s q out) outs \<Longrightarrow>
   failures counted outs \<le> lock_budget cfg until t0 (entry s)"
proof (induction qs arbitrary: t0 s outs)
  case (Cons tq qs)
  obtain t q where tq: "tq = (t, q)"
    by (cases tq)
  obtain out s1 outs1 where st: "step t q s = (out, s1)" "serve step qs s1 = (outs1, s')" "outs = (t, s, q, out) # outs1"
    using Cons.prems(4) unfolding tq serve_Cons by blast
  have times: "t0 \<le> t" "in_order t until qs" "t \<le> until" "short_span cfg t until"
    using Cons.prems(2,3) in_order_le [of t until qs] by (auto simp: tq short_span_def)
  have later: "failures counted outs1 \<le> lock_budget cfg until t (entry s1)"
    using Cons.IH [OF Cons.prems(1) times(2,4) st(2)] Cons.prems(5) st(3) by simp
  have now: "lock_budget cfg until t (entry s) \<le> lock_budget cfg until t0 (entry s)"
    by (rule lock_budget_later [OF times(1,3)])
  show ?case
  proof (cases "counted t s q out")
    case True
    have "Suc (lock_budget cfg until t (entry s1)) \<le> lock_budget cfg until t (entry s)"
      using counted_bumps [OF Cons.prems(1) st(1) True] lock_budget_bump [OF Cons.prems(1) times(4)] by simp
    then show ?thesis
      using later now True by (simp add: failures_def st(3))
  next
    case False
    then have "entry s1 = entry s"
      using others_keep [OF Cons.prems(1) st(1)] Cons.prems(5) by (simp add: st(3))
    then show ?thesis
      using later now False by (simp add: failures_def st(3))
  qed
qed (simp add: failures_def)

lemma failures_bounded:
  assumes "lock_config_ok cfg" and "in_order t0 until qs" and "short_span cfg t0 until"
    and "serve step qs s = (outs, s')" and "list_all (\<lambda>(t, s, q, out). \<not> cleared t s q out) outs"
    and "counter_wf (entry s)"
  shows "failures counted outs \<le> 2 * LOGIN_LOCKOUT_FAILURES cfg - 1"
  using failures_within_budget [OF assms(1-5)] lock_budget_bound [OF assms(1,6)] by (rule order.trans)

end

end
