(* ===== verification/SignIn.thy ===== *)
theory SignIn
  imports Totp RedisLock
begin

text \<open>
  Signing in (\<open>modules/auth/auth.service.ts\<close>, \<open>modules/admin/admin.service.ts\<close>): the lock of an
  address and a username, the password, the second factor and the admin rows they read and write.
  bcrypt and HMAC-SHA1 are parameters (\<open>auth_env\<close>), the clock of a call is an argument in
  milliseconds. A call runs at one moment; what two calls do to each other when the second reads
  its row before the first has written is stated over \<open>login_with\<close>, the part of \<open>login\<close> after the
  row was read.
\<close>

section \<open>Rows, configuration, errors\<close>

record admin_user =
  admin_id :: string
  username :: string
  passwordHash :: string
  admin_role :: string
  totpEnabled :: bool
  totpSecret :: "string option"
  totpLastUsedStep :: "int option"
  deletedAt :: "int option"

record api_token =
  token_id :: string
  token_name :: string
  tokenHash :: string
  token_scopes :: "string list"
  createdByAdminId :: "string option"
  lastUsedAt :: "int option"

text \<open>A row of the audit log. The detail is none, that of a sign-in (second factor asked, this
  refusal locked) or that of a summary of refused sign-ins (how many, of which window).\<close>

datatype audit_detail = NoDetail | SignInDetail bool bool | SuppressedDetail nat int

record audit_row =
  au_at :: int
  au_actorKind :: string
  au_actorId :: "string option"
  au_actorLabel :: string
  au_action :: string
  au_targetId :: "string option"
  au_targetLabel :: string
  au_outcome :: string
  au_refusal :: "string option"
  au_detail :: audit_detail
  au_sourceNetwork :: "string option"

record auth_state =
  admins :: "admin_user list"
  apiTokens :: "api_token list"
  auditRows :: "audit_row list"
  redis :: redis

text \<open>A verified session token. \<open>sub\<close>, \<open>jti\<close> and \<open>iatMs\<close> are checked for their type by the code,
  so they may be absent.\<close>

record jwt_payload =
  jwt_sub :: "string option"
  jwt_role :: string
  jwt_jti :: "string option"
  jwt_iatMs :: "int option"
  jwt_iat :: int
  jwt_exp :: int

record http_request =
  authorization :: "string option"
  authCookie :: "string option"
  request_ip :: string

text \<open>What the code calls and does not contain: bcrypt, the hashes, and the verification of a
  token as text (\<open>app.jwt.verify\<close>) and of a request (\<open>request.jwtVerify\<close>), both at a moment.
  \<open>jwt_lifetime\<close> is \<open>JWT_EXPIRES_IN\<close> in seconds.\<close>

record auth_env =
  lockout :: lock_config
  hmac_sha1 :: hmac_fn
  bcrypt_compare :: "string \<Rightarrow> string \<Rightarrow> bool"
  bcrypt_hash :: "string \<Rightarrow> string"
  sha256_hex :: "string \<Rightarrow> string"
  jwt_verify :: "int \<Rightarrow> string \<Rightarrow> jwt_payload option"
  jwt_of_request :: "int \<Rightarrow> http_request \<Rightarrow> jwt_payload option"
  jwt_lifetime :: int

datatype auth_error =
    InvalidCredentialsError bool
  | AccountLockedError int
  | TotpRequiredError
  | InvalidTotpError bool
  | InvalidCurrentPasswordError bool
  | PasswordUnchangedError
  | AdminAlreadyExistsError string
  | RegistrationDisabledError
  | TotpNotSetupError
  | TotpAlreadyEnabledError
  | TotpBadCodeError
  | CounterRangeError
  | UniqueViolationError

record login_input =
  in_username :: string
  in_password :: string
  in_totpCode :: "string option"

record change_password_input =
  in_currentPassword :: string
  in_newPassword :: string
  in_changeCode :: "string option"

section \<open>Admin rows\<close>

definition countAdmins :: "auth_state \<Rightarrow> nat" where
  "countAdmins st = length (filter (\<lambda>a. deletedAt a = None) (admins st))"

definition findAdminByUsername :: "string \<Rightarrow> auth_state \<Rightarrow> admin_user option" where
  "findAdminByUsername name st = List.find (\<lambda>a. username a = name \<and> deletedAt a = None) (admins st)"

definition findAdminById :: "string \<Rightarrow> auth_state \<Rightarrow> admin_user option" where
  "findAdminById i st =
     (if i = [] then None
      else case List.find (\<lambda>a. admin_id a = i) (admins st) of
             None \<Rightarrow> None
           | Some a \<Rightarrow> if deletedAt a = None then Some a else None)"

definition new_admin :: "string \<Rightarrow> string \<Rightarrow> string \<Rightarrow> admin_user" where
  "new_admin i name hash =
     \<lparr>admin_id = i, username = name, passwordHash = hash, admin_role = ''admin'', totpEnabled = False,
      totpSecret = None, totpLastUsedStep = None, deletedAt = None\<rparr>"

text \<open>The insert, under the primary key and the unique username, which also bind deleted rows.\<close>

definition insert_admin :: "admin_user \<Rightarrow> auth_state \<Rightarrow> (auth_error + admin_user) \<times> auth_state" where
  "insert_admin a st =
     (if list_ex (\<lambda>b. admin_id b = admin_id a \<or> username b = username a) (admins st) then (Inl UniqueViolationError, st)
      else (Inr a, st\<lparr>admins := admins st @ [a]\<rparr>))"

definition createAdmin :: "auth_env \<Rightarrow> string \<Rightarrow> string \<Rightarrow> string \<Rightarrow> auth_state \<Rightarrow> (auth_error + admin_user) \<times> auth_state" where
  "createAdmin env i name password st =
     (case findAdminByUsername name st of
        Some _ \<Rightarrow> (Inl (AdminAlreadyExistsError name), st)
      | None \<Rightarrow> insert_admin (new_admin i name (bcrypt_hash env password)) st)"

definition bootstrapFirstAdmin :: "auth_env \<Rightarrow> string \<Rightarrow> string \<Rightarrow> string \<Rightarrow> auth_state \<Rightarrow> (auth_error + admin_user) \<times> auth_state" where
  "bootstrapFirstAdmin env i name password st =
     (let hash = bcrypt_hash env password
      in if 0 < countAdmins st then (Inl RegistrationDisabledError, st)
         else insert_admin (new_admin i name hash) st)"

text \<open>\<open>prisma.adminUser.update\<close> by id.\<close>

definition update_admin :: "string \<Rightarrow> (admin_user \<Rightarrow> admin_user) \<Rightarrow> auth_state \<Rightarrow> auth_state" where
  "update_admin i f st = st\<lparr>admins := map (\<lambda>a. if admin_id a = i then f a else a) (admins st)\<rparr>"

definition setAdminPassword :: "auth_env \<Rightarrow> string \<Rightarrow> string \<Rightarrow> auth_state \<Rightarrow> auth_state" where
  "setAdminPassword env i plaintext st =
     update_admin i (\<lambda>a. a\<lparr>passwordHash := bcrypt_hash env plaintext\<rparr>) st"

definition recordTotpStep :: "string \<Rightarrow> int \<Rightarrow> auth_state \<Rightarrow> auth_state" where
  "recordTotpStep i s st = update_admin i (\<lambda>a. a\<lparr>totpLastUsedStep := Some s\<rparr>) st"

definition verifyPassword :: "auth_env \<Rightarrow> string \<Rightarrow> string \<Rightarrow> bool" where
  "verifyPassword env plaintext hash = bcrypt_compare env plaintext hash"

section \<open>The lock of an address and a username\<close>

definition FAIL_KEY :: "string \<Rightarrow> string \<Rightarrow> string" where
  "FAIL_KEY clientIp name =
     ''auth:fail:'' @ (if clientIp = [] then ''unknown'' else clientIp) @ '':'' @ to_lower name"

text \<open>The seconds to retry after when the key is locked.\<close>

definition checkLocked :: "auth_env \<Rightarrow> int \<Rightarrow> string \<Rightarrow> string \<Rightarrow> auth_state \<Rightarrow> int option" where
  "checkLocked env now clientIp name st =
     (let key = FAIL_KEY clientIp name
      in case rd_get now (redis st) key of
           None \<Rightarrow> None
         | Some count \<Rightarrow>
             if LOGIN_LOCKOUT_FAILURES (lockout env) \<le> count
             then let ttl = rd_ttl now (redis st) key in Some (if 0 < ttl then ttl else 60)
             else None)"

definition recordFailure :: "auth_env \<Rightarrow> int \<Rightarrow> string \<Rightarrow> string \<Rightarrow> auth_state \<Rightarrow> bool \<times> auth_state" where
  "recordFailure env now clientIp name st =
     (let key = FAIL_KEY clientIp name;
          (r1, newCount) = rd_incr now (redis st) key;
          r2 = (if newCount = 1 then rd_expire now r1 key (int (LOGIN_LOCKOUT_WINDOW_MIN (lockout env)) * 60) else r1);
          r3 = (if LOGIN_LOCKOUT_FAILURES (lockout env) \<le> newCount
                then rd_expire now r2 key (int (LOGIN_LOCKOUT_DURATION_MIN (lockout env)) * 60) else r2)
      in (newCount = LOGIN_LOCKOUT_FAILURES (lockout env), st\<lparr>redis := r3\<rparr>))"

definition clearFailures :: "string \<Rightarrow> string \<Rightarrow> auth_state \<Rightarrow> auth_state" where
  "clearFailures clientIp name st = st\<lparr>redis := rd_del (redis st) (FAIL_KEY clientIp name)\<rparr>"

text \<open>A refusal that is counted: the error is built from whether this failure locked.\<close>

definition refuse :: "auth_env \<Rightarrow> int \<Rightarrow> string \<Rightarrow> string \<Rightarrow> (bool \<Rightarrow> auth_error) \<Rightarrow> auth_state \<Rightarrow> (auth_error + 'a) \<times> auth_state" where
  "refuse env now clientIp name err st =
     (let (locked, st') = recordFailure env now clientIp name st in (Inl (err locked), st'))"

section \<open>Signing in\<close>

text \<open>A string or null in a condition: null and the empty string are false.\<close>

definition truthy :: "string option \<Rightarrow> bool" where
  "truthy s \<longleftrightarrow> s \<noteq> None \<and> s \<noteq> Some []"

definition step_spent :: "admin_user \<Rightarrow> int option \<Rightarrow> bool" where
  "step_spent admin s =
     (case s of None \<Rightarrow> True
      | Some s' \<Rightarrow> (case totpLastUsedStep admin of None \<Rightarrow> False | Some l \<Rightarrow> s' \<le> l))"

text \<open>The second factor of a sign-in and of a password change. The step that was accepted is
  kept in the result.\<close>

definition second_factor ::
  "auth_env \<Rightarrow> int \<Rightarrow> admin_user \<Rightarrow> string option \<Rightarrow> string \<Rightarrow> string \<Rightarrow> auth_state \<Rightarrow> (auth_error + int option) \<times> auth_state" where
  "second_factor env now admin code clientIp name st =
     (if totpEnabled admin \<and> truthy (totpSecret admin) then
        if \<not> truthy code then (Inl TotpRequiredError, st)
        else case verifyTotpStep (hmac_sha1 env) (the (totpSecret admin)) (the code) (now div 1000) 1 of
               Inl _ \<Rightarrow> (Inl CounterRangeError, st)
             | Inr s \<Rightarrow>
                 if step_spent admin s then refuse env now clientIp name InvalidTotpError st
                 else (Inr s, recordTotpStep (admin_id admin) (the s) st)
      else (Inr None, st))"

definition login_with ::
  "auth_env \<Rightarrow> int \<Rightarrow> admin_user \<Rightarrow> login_input \<Rightarrow> string \<Rightarrow> auth_state \<Rightarrow> (auth_error + admin_user \<times> int option) \<times> auth_state" where
  "login_with env now admin inp clientIp st =
     (if \<not> verifyPassword env (in_password inp) (passwordHash admin)
      then refuse env now clientIp (in_username inp) InvalidCredentialsError st
      else case second_factor env now admin (in_totpCode inp) clientIp (in_username inp) st of
             (Inl e, st') \<Rightarrow> (Inl e, st')
           | (Inr s, st') \<Rightarrow> (Inr (admin, s), clearFailures clientIp (in_username inp) st'))"

definition login ::
  "auth_env \<Rightarrow> int \<Rightarrow> login_input \<Rightarrow> string \<Rightarrow> auth_state \<Rightarrow> (auth_error + admin_user \<times> int option) \<times> auth_state" where
  "login env now inp clientIp st =
     (case checkLocked env now clientIp (in_username inp) st of
        Some ttl \<Rightarrow> (Inl (AccountLockedError ttl), st)
      | None \<Rightarrow>
          (case findAdminByUsername (in_username inp) st of
             None \<Rightarrow> refuse env now clientIp (in_username inp) InvalidCredentialsError st
           | Some admin \<Rightarrow> login_with env now admin inp clientIp st))"

definition checkPasswordChange ::
  "auth_env \<Rightarrow> int \<Rightarrow> admin_user \<Rightarrow> change_password_input \<Rightarrow> string \<Rightarrow> auth_state \<Rightarrow> (auth_error + int option) \<times> auth_state" where
  "checkPasswordChange env now admin inp clientIp st =
     (case checkLocked env now clientIp (username admin) st of
        Some ttl \<Rightarrow> (Inl (AccountLockedError ttl), st)
      | None \<Rightarrow>
          if \<not> verifyPassword env (in_currentPassword inp) (passwordHash admin)
          then refuse env now clientIp (username admin) InvalidCurrentPasswordError st
          else case second_factor env now admin (in_changeCode inp) clientIp (username admin) st of
                 (Inl e, st') \<Rightarrow> (Inl e, st')
               | (Inr s, st') \<Rightarrow>
                   if in_newPassword inp = in_currentPassword inp then (Inl PasswordUnchangedError, st')
                   else (Inr s, clearFailures clientIp (username admin) st'))"

section \<open>Keys\<close>

lemma FAIL_KEY_prefix [simp]: "take 10 (FAIL_KEY ip name) = ''auth:fail:''"
  by (simp add: FAIL_KEY_def)

text \<open>An address without a colon ends where its key says: two such keys are the same only for
  the same address and the same name in lower case.\<close>

lemma FAIL_KEY_inj:
  assumes "CHR '':'' \<notin> set ip" and "CHR '':'' \<notin> set ip'" and "ip \<noteq> []" and "ip' \<noteq> []"
  shows "FAIL_KEY ip name = FAIL_KEY ip' name' \<longleftrightarrow> ip = ip' \<and> to_lower name = to_lower name'"
proof
  assume "FAIL_KEY ip name = FAIL_KEY ip' name'"
  then have "ip @ CHR '':'' # to_lower name = ip' @ CHR '':'' # to_lower name'"
    using assms(3,4) by (simp add: FAIL_KEY_def)
  moreover from arg_cong [OF this, of "\<lambda>s. hd (js_split CHR '':'' s)"] have "ip = ip'"
    using assms(1,2) by (simp add: js_split_append)
  ultimately show "ip = ip' \<and> to_lower name = to_lower name'"
    by simp
qed (simp add: FAIL_KEY_def)

section \<open>What the operations do to the store\<close>

lemma recordFailure_entry:
  assumes "lock_config_ok (lockout env)"
  shows "recordFailure env now ip name st =
    (LOGIN_LOCKOUT_FAILURES (lockout env) = entry_val (bumped (lockout env) now (redis st (FAIL_KEY ip name))),
     st\<lparr>redis := (redis st)(FAIL_KEY ip name \<mapsto> bumped (lockout env) now (redis st (FAIL_KEY ip name)))\<rparr>)"
  unfolding recordFailure_def Let_def [of "FAIL_KEY ip name"] by (subst lock_commands [OF assms]) auto

lemma checkLocked_iff: "checkLocked env now ip name st \<noteq> None \<longleftrightarrow> entry_locked (lockout env) now (redis st (FAIL_KEY ip name))"
  by (auto simp: checkLocked_def rd_get_def entry_locked_def Let_def split: option.splits)

section \<open>The outcomes of the service calls\<close>

definition record_step :: "string \<Rightarrow> int option \<Rightarrow> auth_state \<Rightarrow> auth_state" where
  "record_step i s st = (case s of None \<Rightarrow> st | Some s' \<Rightarrow> recordTotpStep i s' st)"

lemma update_admin_redis [simp]: "redis (update_admin i f st) = redis st"
  by (simp add: update_admin_def)

lemma recordTotpStep_redis [simp]: "redis (recordTotpStep i s st) = redis st"
  by (simp add: recordTotpStep_def)

lemma record_step_redis [simp]: "redis (record_step i s st) = redis st"
  by (simp add: record_step_def split: option.split)

text \<open>A counted refusal bumps the key and changes nothing else.\<close>

definition after_failure :: "auth_env \<Rightarrow> int \<Rightarrow> string \<Rightarrow> auth_state \<Rightarrow> auth_state" where
  "after_failure env now key st = st\<lparr>redis := (redis st)(key \<mapsto> bumped (lockout env) now (redis st key))\<rparr>"

lemma refuse_eq:
  "lock_config_ok (lockout env) \<Longrightarrow>
   refuse env now ip name err st =
   (Inl (err (LOGIN_LOCKOUT_FAILURES (lockout env) = entry_val (bumped (lockout env) now (redis st (FAIL_KEY ip name))))),
    after_failure env now (FAIL_KEY ip name) st)"
  by (simp add: refuse_def recordFailure_entry after_failure_def)

text \<open>What the second factor lets through: no step when it is off, else a step of the secret,
  past the last one.\<close>

definition factor_passed :: "auth_env \<Rightarrow> int \<Rightarrow> admin_user \<Rightarrow> string option \<Rightarrow> int option \<Rightarrow> bool" where
  "factor_passed env now admin code s \<longleftrightarrow>
     (if totpEnabled admin \<and> truthy (totpSecret admin)
      then truthy code \<and> s \<noteq> None \<and> \<not> step_spent admin s \<and>
           verifyTotpStep (hmac_sha1 env) (the (totpSecret admin)) (the code) (now div 1000) 1 = Inr s
      else s = None)"

lemma second_factor_cases:
  assumes "lock_config_ok (lockout env)" and "second_factor env now admin code ip name st = (res, st')"
  obtains (refused) l where "res = Inl (InvalidTotpError l)" "st' = after_failure env now (FAIL_KEY ip name) st"
  | (thrown) e where "res = Inl e" "e = TotpRequiredError \<or> e = CounterRangeError" "st' = st"
  | (passed) s where "res = Inr s" "factor_passed env now admin code s" "st' = record_step (admin_id admin) s st"
  using assms
  by (auto simp: second_factor_def refuse_eq factor_passed_def record_step_def step_spent_def
      split: if_splits sum.splits option.splits)

lemma login_cases:
  assumes "lock_config_ok (lockout env)" and "login env now inp ip st = (res, st')"
  obtains (locked) ttl where "res = Inl (AccountLockedError ttl)" "st' = st"
  | (refused) l where "res = Inl (InvalidCredentialsError l) \<or> res = Inl (InvalidTotpError l)"
      "\<not> entry_locked (lockout env) now (redis st (FAIL_KEY ip (in_username inp)))"
      "st' = after_failure env now (FAIL_KEY ip (in_username inp)) st"
  | (thrown) e where "res = Inl e" "e = TotpRequiredError \<or> e = CounterRangeError" "st' = st"
  | (passed) admin s where "res = Inr (admin, s)" "findAdminByUsername (in_username inp) st = Some admin"
      "factor_passed env now admin (in_totpCode inp) s"
      "st' = clearFailures ip (in_username inp) (record_step (admin_id admin) s st)"
proof (cases "checkLocked env now ip (in_username inp) st")
  case (Some ttl)
  then show ?thesis
    using assms(2) locked by (auto simp: login_def)
next
  case None
  then have free: "\<not> entry_locked (lockout env) now (redis st (FAIL_KEY ip (in_username inp)))"
    using checkLocked_iff [of env now ip "in_username inp" st] by simp
  show ?thesis
  proof (cases "findAdminByUsername (in_username inp) st")
    case None
    then show ?thesis
      using assms \<open>checkLocked env now ip (in_username inp) st = None\<close> free refused
      by (auto simp: login_def refuse_eq)
  next
    case (Some admin)
    then have lw: "login_with env now admin inp ip st = (res, st')"
      using assms(2) None by (simp add: login_def)
    show ?thesis
    proof (cases "verifyPassword env (in_password inp) (passwordHash admin)")
      case False
      then show ?thesis
        using lw assms(1) free refused by (auto simp: login_with_def refuse_eq)
    next
      case True
      obtain res2 st2 where sf: "second_factor env now admin (in_totpCode inp) ip (in_username inp) st = (res2, st2)"
        by fastforce
      show ?thesis
        using assms(1) sf
      proof (cases rule: second_factor_cases)
        case (refused l)
        then show ?thesis
          using lw True sf free that(2) by (auto simp: login_with_def)
      next
        case (thrown e)
        then show ?thesis
          using lw True sf that(3) by (auto simp: login_with_def)
      next
        case (passed s)
        then show ?thesis
          using lw True sf Some that(4) by (auto simp: login_with_def)
      qed
    qed
  qed
qed

lemma checkPasswordChange_cases:
  assumes "lock_config_ok (lockout env)" and "checkPasswordChange env now admin inp ip st = (res, st')"
  obtains (locked) ttl where "res = Inl (AccountLockedError ttl)" "st' = st"
  | (refused) l where "res = Inl (InvalidCurrentPasswordError l) \<or> res = Inl (InvalidTotpError l)"
      "\<not> entry_locked (lockout env) now (redis st (FAIL_KEY ip (username admin)))"
      "st' = after_failure env now (FAIL_KEY ip (username admin)) st"
  | (thrown) e where "res = Inl e" "e = TotpRequiredError \<or> e = CounterRangeError" "st' = st"
  | (unchanged) s where "res = Inl PasswordUnchangedError" "factor_passed env now admin (in_changeCode inp) s"
      "st' = record_step (admin_id admin) s st"
  | (passed) s where "res = Inr s" "factor_passed env now admin (in_changeCode inp) s"
      "st' = clearFailures ip (username admin) (record_step (admin_id admin) s st)"
proof (cases "checkLocked env now ip (username admin) st")
  case (Some ttl)
  then show ?thesis
    using assms(2) locked by (auto simp: checkPasswordChange_def)
next
  case None
  then have free: "\<not> entry_locked (lockout env) now (redis st (FAIL_KEY ip (username admin)))"
    using checkLocked_iff [of env now ip "username admin" st] by simp
  show ?thesis
  proof (cases "verifyPassword env (in_currentPassword inp) (passwordHash admin)")
    case False
    then show ?thesis
      using assms None free refused by (auto simp: checkPasswordChange_def refuse_eq)
  next
    case True
    obtain res2 st2 where sf: "second_factor env now admin (in_changeCode inp) ip (username admin) st = (res2, st2)"
      by fastforce
    show ?thesis
      using assms(1) sf
    proof (cases rule: second_factor_cases)
      case (refused l)
      then show ?thesis
        using assms(2) None True sf free that(2) by (auto simp: checkPasswordChange_def)
    next
      case (thrown e)
      then show ?thesis
        using assms(2) None True sf that(3) by (auto simp: checkPasswordChange_def)
    next
      case (passed s)
      then show ?thesis
        using assms(2) None True sf that(4,5) by (cases "in_newPassword inp = in_currentPassword inp") (auto simp: checkPasswordChange_def)
    qed
  qed
qed

text \<open>The last spent step of an admin, and that no spent step is let through again.\<close>

definition last_step :: "string \<Rightarrow> auth_state \<Rightarrow> int option" where
  "last_step i st = (case List.find (\<lambda>a. admin_id a = i) (admins st) of None \<Rightarrow> None | Some a \<Rightarrow> totpLastUsedStep a)"

definition past :: "int option \<Rightarrow> int \<Rightarrow> bool" where
  "past l s \<longleftrightarrow> (case l of None \<Rightarrow> True | Some l' \<Rightarrow> l' < s)"

lemma not_spent_past: "\<not> step_spent admin (Some s) \<longleftrightarrow> past (totpLastUsedStep admin) s"
  by (auto simp: step_spent_def past_def split: option.split)

lemma find_map_same_id:
  assumes "\<And>a. admin_id (f a) = admin_id a"
  shows "List.find (\<lambda>a. admin_id a = i) (map (\<lambda>a. if admin_id a = j then f a else a) xs) =
    map_option (\<lambda>a. if admin_id a = j then f a else a) (List.find (\<lambda>a. admin_id a = i) xs)"
  by (induction xs) (simp_all add: assms)

lemma last_step_update:
  assumes "\<And>a. admin_id (f a) = admin_id a"
  shows "last_step i (update_admin j f st) =
    (case List.find (\<lambda>a. admin_id a = i) (admins st) of None \<Rightarrow> None
     | Some a \<Rightarrow> totpLastUsedStep (if i = j then f a else a))"
proof (cases "List.find (\<lambda>a. admin_id a = i) (admins st)")
  case None
  then show ?thesis
    by (simp add: last_step_def update_admin_def find_map_same_id [OF assms])
next
  case (Some a)
  then have "admin_id a = i"
    using find_Some_in by fast
  then show ?thesis
    using Some by (simp add: last_step_def update_admin_def find_map_same_id [OF assms])
qed

lemma last_step_redis [simp]: "last_step i (st\<lparr>redis := r\<rparr>) = last_step i st"
  by (simp add: last_step_def)

lemma last_step_clear [simp]: "last_step i (clearFailures ip name st) = last_step i st"
  by (simp add: clearFailures_def)

definition ids_ok :: "auth_state \<Rightarrow> bool" where
  "ids_ok st \<longleftrightarrow> distinct (map admin_id (admins st))"

lemma ids_ok_update [simp]: "(\<And>a. admin_id (f a) = admin_id a) \<Longrightarrow> ids_ok (update_admin j f st) = ids_ok st"
proof -
  assume f: "\<And>a. admin_id (f a) = admin_id a"
  have "map admin_id (map (\<lambda>a. if admin_id a = j then f a else a) xs) = map admin_id xs" for xs
    by (simp add: f)
  then show ?thesis
    unfolding ids_ok_def update_admin_def by (simp del: map_map)
qed

lemma found_by_id:
  assumes "ids_ok st" and "List.find P (admins st) = Some a"
  shows "List.find (\<lambda>b. admin_id b = admin_id a) (admins st) = Some a"
proof (rule find_unique)
  show mem: "a \<in> set (admins st)"
    using assms(2) find_Some_in by fast
  show "b = a" if "b \<in> set (admins st)" "admin_id b = admin_id a" for b
    using assms(1) that mem by (auto simp: ids_ok_def distinct_map inj_on_def)
qed simp

end
