(* ===== verification/TwoFactor.thy ===== *)
theory TwoFactor
  imports SignIn
begin

text \<open>
  Enrolling in the second factor and leaving it (\<open>modules/auth/twofa.service.ts\<close>): setup writes a
  pending secret, enable and disable spend a code under a lock of their own, one key per admin,
  with the limits of the sign-in lock.
\<close>

section \<open>Operations\<close>

definition live_admin :: "string \<Rightarrow> auth_state \<Rightarrow> admin_user option" where
  "live_admin i st = List.find (\<lambda>a. admin_id a = i \<and> deletedAt a = None) (admins st)"

definition getTotpStatus :: "string \<Rightarrow> auth_state \<Rightarrow> bool" where
  "getTotpStatus i st = (case live_admin i st of None \<Rightarrow> False | Some a \<Rightarrow> totpEnabled a)"

definition ISSUER :: string where
  "ISSUER = ''Iceslab''"

definition setupTotp :: "8 word list \<Rightarrow> string \<Rightarrow> auth_state \<Rightarrow> (auth_error + string \<times> string) \<times> auth_state" where
  "setupTotp random_bytes i st =
     (case live_admin i st of
        None \<Rightarrow> (Inl TotpNotSetupError, st)
      | Some admin \<Rightarrow>
          if totpEnabled admin then (Inl TotpAlreadyEnabledError, st)
          else let secret = generateSecret random_bytes
               in (Inr (secret, totpUri secret (username admin) ISSUER),
                   update_admin i (\<lambda>a. a\<lparr>totpSecret := Some secret, totpEnabled := False\<rparr>) st))"

definition FAIL_KEY_2fa :: "string \<Rightarrow> string" where
  "FAIL_KEY_2fa i = ''auth:2fa-fail:'' @ i"

definition checkLocked_2fa :: "auth_env \<Rightarrow> int \<Rightarrow> string \<Rightarrow> auth_state \<Rightarrow> int option" where
  "checkLocked_2fa env now i st =
     (let key = FAIL_KEY_2fa i
      in case rd_get now (redis st) key of
           None \<Rightarrow> None
         | Some count \<Rightarrow>
             if LOGIN_LOCKOUT_FAILURES (lockout env) \<le> count
             then let ttl = rd_ttl now (redis st) key in Some (if 0 < ttl then ttl else 60)
             else None)"

definition recordFailure_2fa :: "auth_env \<Rightarrow> int \<Rightarrow> string \<Rightarrow> auth_state \<Rightarrow> auth_state" where
  "recordFailure_2fa env now i st =
     (let key = FAIL_KEY_2fa i;
          (r1, n) = rd_incr now (redis st) key;
          r2 = (if n = 1 then rd_expire now r1 key (int (LOGIN_LOCKOUT_WINDOW_MIN (lockout env)) * 60) else r1);
          r3 = (if LOGIN_LOCKOUT_FAILURES (lockout env) \<le> n
                then rd_expire now r2 key (int (LOGIN_LOCKOUT_DURATION_MIN (lockout env)) * 60) else r2)
      in st\<lparr>redis := r3\<rparr>)"

definition spendCode :: "auth_env \<Rightarrow> int \<Rightarrow> admin_user \<Rightarrow> string \<Rightarrow> auth_state \<Rightarrow> (auth_error + int) \<times> auth_state" where
  "spendCode env now admin code st =
     (case checkLocked_2fa env now (admin_id admin) st of
        Some ttl \<Rightarrow> (Inl (AccountLockedError ttl), st)
      | None \<Rightarrow>
          (case verifyTotpStep (hmac_sha1 env) (the (totpSecret admin)) code (now div 1000) 1 of
             Inl _ \<Rightarrow> (Inl CounterRangeError, st)
           | Inr s \<Rightarrow>
               if step_spent admin s then (Inl TotpBadCodeError, recordFailure_2fa env now (admin_id admin) st)
               else (Inr (the s), st\<lparr>redis := rd_del (redis st) (FAIL_KEY_2fa (admin_id admin))\<rparr>)))"

definition enableTotp :: "auth_env \<Rightarrow> int \<Rightarrow> string \<Rightarrow> string \<Rightarrow> auth_state \<Rightarrow> (auth_error + int) \<times> auth_state" where
  "enableTotp env now i code st =
     (case live_admin i st of
        None \<Rightarrow> (Inl TotpNotSetupError, st)
      | Some admin \<Rightarrow>
          if \<not> truthy (totpSecret admin) then (Inl TotpNotSetupError, st)
          else if totpEnabled admin then (Inl TotpAlreadyEnabledError, st)
          else case spendCode env now admin code st of
                 (Inl e, st') \<Rightarrow> (Inl e, st')
               | (Inr s, st') \<Rightarrow> (Inr s, update_admin i (\<lambda>a. a\<lparr>totpEnabled := True, totpLastUsedStep := Some s\<rparr>) st'))"

definition disableTotp :: "auth_env \<Rightarrow> int \<Rightarrow> string \<Rightarrow> string \<Rightarrow> auth_state \<Rightarrow> (auth_error + int) \<times> auth_state" where
  "disableTotp env now i code st =
     (case live_admin i st of
        None \<Rightarrow> (Inl TotpNotSetupError, st)
      | Some admin \<Rightarrow>
          if \<not> totpEnabled admin \<or> \<not> truthy (totpSecret admin) then (Inl TotpNotSetupError, st)
          else case spendCode env now admin code st of
                 (Inl e, st') \<Rightarrow> (Inl e, st')
               | (Inr s, st') \<Rightarrow>
                   (Inr s, update_admin i (\<lambda>a. a\<lparr>totpSecret := None, totpEnabled := False, totpLastUsedStep := Some s\<rparr>) st'))"

section \<open>What they do to the store\<close>

lemma FAIL_KEY_2fa_neq [simp]: "FAIL_KEY ip name \<noteq> FAIL_KEY_2fa i" "FAIL_KEY_2fa i \<noteq> FAIL_KEY ip name"
  by (simp_all add: FAIL_KEY_def FAIL_KEY_2fa_def)

lemma FAIL_KEY_2fa_inj [simp]: "FAIL_KEY_2fa i = FAIL_KEY_2fa j \<longleftrightarrow> i = j"
  by (simp add: FAIL_KEY_2fa_def)

lemma recordFailure_2fa_entry:
  assumes "lock_config_ok (lockout env)"
  shows "recordFailure_2fa env now i st =
    st\<lparr>redis := (redis st)(FAIL_KEY_2fa i \<mapsto> bumped (lockout env) now (redis st (FAIL_KEY_2fa i)))\<rparr>"
  unfolding recordFailure_2fa_def Let_def [of "FAIL_KEY_2fa i"] by (subst lock_commands [OF assms]) simp

lemma checkLocked_2fa_iff:
  "checkLocked_2fa env now i st \<noteq> None \<longleftrightarrow> entry_locked (lockout env) now (redis st (FAIL_KEY_2fa i))"
  by (auto simp: checkLocked_2fa_def rd_get_def entry_locked_def Let_def split: option.splits)

section \<open>The outcomes of the service calls\<close>

lemma live_admin_id: "live_admin i st = Some a \<Longrightarrow> admin_id a = i"
  using find_Some_in unfolding live_admin_def by fast

lemma spendCode_cases:
  assumes "lock_config_ok (lockout env)" and "spendCode env now admin code st = (res, st')"
  obtains (kept) e where "res = Inl e" "e \<noteq> TotpBadCodeError" "st' = st"
  | (bad) "res = Inl TotpBadCodeError" "\<not> entry_locked (lockout env) now (redis st (FAIL_KEY_2fa (admin_id admin)))"
      "st' = after_failure env now (FAIL_KEY_2fa (admin_id admin)) st"
  | (spent) s where "res = Inr s" "verifyTotpStep (hmac_sha1 env) (the (totpSecret admin)) code (now div 1000) 1 = Inr (Some s)"
      "past (totpLastUsedStep admin) s" "st' = st\<lparr>redis := (redis st)(FAIL_KEY_2fa (admin_id admin) := None)\<rparr>"
proof (cases "checkLocked_2fa env now (admin_id admin) st")
  case (Some ttl)
  then show ?thesis
    using assms(2) kept by (auto simp: spendCode_def)
next
  case None
  then have free: "\<not> entry_locked (lockout env) now (redis st (FAIL_KEY_2fa (admin_id admin)))"
    using checkLocked_2fa_iff [of env now "admin_id admin" st] by simp
  show ?thesis
  proof (cases "verifyTotpStep (hmac_sha1 env) (the (totpSecret admin)) code (now div 1000) 1")
    case (Inl e)
    then show ?thesis
      using assms(2) None kept by (auto simp: spendCode_def)
  next
    case (Inr s)
    show ?thesis
    proof (cases "step_spent admin s")
      case True
      then show ?thesis
        using assms None Inr free bad by (auto simp: spendCode_def recordFailure_2fa_entry after_failure_def)
    next
      case False
      then obtain s' where s': "s = Some s'"
        by (cases s) (auto simp: step_spent_def)
      have "(Inr s', st\<lparr>redis := (redis st)(FAIL_KEY_2fa (admin_id admin) := None)\<rparr>) = (res, st')"
        using assms(2) None Inr False by (simp add: spendCode_def rd_del_def s')
      then show ?thesis
        using Inr False not_spent_past [of admin s'] spent [of s'] by (simp add: s')
    qed
  qed
qed

text \<open>Enabling and disabling alike: refused without a trace, refused and counted, or the step
  recorded with the change.\<close>

definition keeps_id :: "(admin_user \<Rightarrow> admin_user) \<Rightarrow> bool" where
  "keeps_id f \<longleftrightarrow> (\<forall>a. admin_id (f a) = admin_id a)"

definition twofa_outcome ::
  "auth_env \<Rightarrow> int \<Rightarrow> string \<Rightarrow> string \<Rightarrow> auth_state \<Rightarrow> auth_error + int \<Rightarrow> auth_state \<Rightarrow> bool" where
  "twofa_outcome env now i code st res st' \<longleftrightarrow>
     (\<exists>e. res = Inl e \<and> e \<noteq> TotpBadCodeError \<and> st' = st) \<or>
     (res = Inl TotpBadCodeError \<and> \<not> entry_locked (lockout env) now (redis st (FAIL_KEY_2fa i)) \<and>
      st' = after_failure env now (FAIL_KEY_2fa i) st) \<or>
     (\<exists>s admin f. res = Inr s \<and> live_admin i st = Some admin \<and> past (totpLastUsedStep admin) s \<and>
        verifyTotpStep (hmac_sha1 env) (the (totpSecret admin)) code (now div 1000) 1 = Inr (Some s) \<and>
        keeps_id f \<and> (\<forall>a. totpLastUsedStep (f a) = Some s) \<and>
        st' = update_admin i f (st\<lparr>redis := (redis st)(FAIL_KEY_2fa i := None)\<rparr>))"

lemma twofa_outcome_spend:
  assumes "lock_config_ok (lockout env)" and "live_admin i st = Some admin" and "spendCode env now admin code st = (res1, st1)"
    and "keeps_id (f s)" and "\<And>s a. totpLastUsedStep (f s a) = Some s" and "\<And>s. keeps_id (f s)"
    and "(res, st') = (case (res1, st1) of (Inl e, st1) \<Rightarrow> (Inl e, st1) | (Inr s, st1) \<Rightarrow> (Inr s, update_admin i (f s) st1))"
  shows "twofa_outcome env now i code st res st'"
  using assms(1,3)
proof (cases rule: spendCode_cases)
  case (kept e)
  then show ?thesis
    using assms(7) by (simp add: twofa_outcome_def)
next
  case bad
  then show ?thesis
    using assms(7) live_admin_id [OF assms(2)] by (simp add: twofa_outcome_def)
next
  case (spent s)
  then have "res = Inr s \<and> live_admin i st = Some admin \<and> past (totpLastUsedStep admin) s \<and>
      verifyTotpStep (hmac_sha1 env) (the (totpSecret admin)) code (now div 1000) 1 = Inr (Some s) \<and>
      keeps_id (f s) \<and> (\<forall>a. totpLastUsedStep (f s a) = Some s) \<and>
      st' = update_admin i (f s) (st\<lparr>redis := (redis st)(FAIL_KEY_2fa i := None)\<rparr>)"
    using assms(2,5,6,7) live_admin_id [OF assms(2)] by simp
  then show ?thesis
    unfolding twofa_outcome_def by blast
qed

lemma enableTotp_outcome:
  assumes "lock_config_ok (lockout env)" and "enableTotp env now i code st = (res, st')"
  shows "twofa_outcome env now i code st res st'"
proof (cases "live_admin i st")
  case (Some admin)
  obtain res1 st1 where sp: "spendCode env now admin code st = (res1, st1)"
    by fastforce
  show ?thesis
  proof (cases "truthy (totpSecret admin) \<and> \<not> totpEnabled admin")
    case True
    show ?thesis
      by (rule twofa_outcome_spend [OF assms(1) Some sp, where f = "\<lambda>s a. a\<lparr>totpEnabled := True, totpLastUsedStep := Some s\<rparr>"])
        (use assms(2) Some sp True in \<open>simp_all add: keeps_id_def enableTotp_def\<close>)
  next
    case False
    then show ?thesis
      using assms(2) Some by (auto simp: enableTotp_def twofa_outcome_def split: if_splits)
  qed
qed (use assms(2) in \<open>auto simp: enableTotp_def twofa_outcome_def\<close>)

lemma disableTotp_outcome:
  assumes "lock_config_ok (lockout env)" and "disableTotp env now i code st = (res, st')"
  shows "twofa_outcome env now i code st res st'"
proof (cases "live_admin i st")
  case (Some admin)
  obtain res1 st1 where sp: "spendCode env now admin code st = (res1, st1)"
    by fastforce
  show ?thesis
  proof (cases "totpEnabled admin \<and> truthy (totpSecret admin)")
    case True
    show ?thesis
      by (rule twofa_outcome_spend [OF assms(1) Some sp,
            where f = "\<lambda>s a. a\<lparr>totpSecret := None, totpEnabled := False, totpLastUsedStep := Some s\<rparr>"])
        (use assms(2) Some sp True in \<open>simp_all add: keeps_id_def disableTotp_def\<close>)
  next
    case False
    then show ?thesis
      using assms(2) Some by (auto simp: disableTotp_def twofa_outcome_def split: if_splits)
  qed
qed (use assms(2) in \<open>auto simp: disableTotp_def twofa_outcome_def\<close>)

end
