(* ===== verification/Sessions.thy ===== *)
theory Sessions
  imports TwoFactor
begin

text \<open>
  Sessions and who a request acts for (\<open>modules/auth/revoked-tokens.ts\<close>, \<open>modules/auth/auth.hook.ts\<close>):
  a signed-out token is remembered by its id until it would expire, a password change leaves one
  mark per admin, and \<open>requireAuth\<close> reads both before it admits a session token. Whether Redis
  answers within the check's wait is an argument of a request.
\<close>

section \<open>Ended sessions\<close>

definition revokedKey :: "string \<Rightarrow> string" where
  "revokedKey jti = ''auth:revoked:'' @ jti"

definition endedKey :: "string \<Rightarrow> string" where
  "endedKey i = ''auth:sessions-ended:'' @ i"

definition revokeToken :: "string \<Rightarrow> int \<Rightarrow> int \<Rightarrow> auth_state \<Rightarrow> auth_state" where
  "revokeToken jti expiry now st =
     (let ttl = expiry - now div 1000
      in if ttl \<le> 0 then st else st\<lparr>redis := rd_set_ex now (redis st) (revokedKey jti) 1 ttl\<rparr>)"

definition endSessionsBefore :: "string \<Rightarrow> int \<Rightarrow> int \<Rightarrow> auth_state \<Rightarrow> auth_state" where
  "endSessionsBefore i atMs ttlSeconds st =
     st\<lparr>redis := rd_set_ex atMs (redis st) (endedKey i) (nat atMs) (max 1 ttlSeconds)\<rparr>"

datatype session_state = Session_live | Session_signed_out | Session_ended

text \<open>No answer in time is the exception the caller catches.\<close>

definition sessionState :: "bool \<Rightarrow> int \<Rightarrow> string \<Rightarrow> string \<Rightarrow> int \<Rightarrow> auth_state \<Rightarrow> session_state option" where
  "sessionState answers now jti i issuedMs st =
     (if \<not> answers then None
      else case rd_get now (redis st) (revokedKey jti) of
             Some _ \<Rightarrow> Some Session_signed_out
           | None \<Rightarrow>
               (case rd_get now (redis st) (endedKey i) of
                  Some endedAt \<Rightarrow> if issuedMs \<le> int endedAt then Some Session_ended else Some Session_live
                | None \<Rightarrow> Some Session_live))"

section \<open>Who a request acts for\<close>

text \<open>The pattern of an admin id: a uuid in hexadecimal of either case.\<close>

definition is_hex :: "char \<Rightarrow> bool" where
  "is_hex c \<longleftrightarrow> digit_val c < 16"

definition ADMIN_ID :: "string \<Rightarrow> bool" where
  "ADMIN_ID s \<longleftrightarrow>
     (case js_split CHR ''-'' s of
        [a, b, c, d, e] \<Rightarrow> map length [a, b, c, d, e] = [8, 4, 4, 4, 12] \<and> list_all is_hex (concat [a, b, c, d, e])
      | _ \<Rightarrow> False)"

text \<open>\<open>/^Bearer\s+(icp_[A-Za-z0-9_-]+)$/\<close>.\<close>

definition bearer_api_token :: "string \<Rightarrow> string option" where
  "bearer_api_token header =
     (if js_starts_with ''Bearer'' header then
        let rest = drop 6 header; token = dropWhile is_ws rest
        in if rest \<noteq> token \<and> js_starts_with ''icp_'' token \<and> 4 < length token \<and>
              list_all (\<lambda>c. is_alnum c \<or> c \<in> set ''_-'') (drop 4 token)
           then Some token else None
      else None)"

record api_auth =
  api_adminId :: "string option"
  api_role :: string
  api_tokenId :: string
  api_tokenName :: string
  api_scopes :: "string list"

definition touch_token :: "int \<Rightarrow> api_token \<Rightarrow> auth_state \<Rightarrow> auth_state" where
  "touch_token now row st =
     (if now - (case lastUsedAt row of None \<Rightarrow> 0 | Some t \<Rightarrow> t) > 60000
      then st\<lparr>apiTokens := map (\<lambda>t. if token_id t = token_id row then t\<lparr>lastUsedAt := Some now\<rparr> else t) (apiTokens st)\<rparr>
      else st)"

definition tryApiToken :: "auth_env \<Rightarrow> int \<Rightarrow> http_request \<Rightarrow> auth_state \<Rightarrow> api_auth option \<times> auth_state" where
  "tryApiToken env now req st =
     (case authorization req of
        None \<Rightarrow> (None, st)
      | Some header \<Rightarrow>
          (case bearer_api_token header of
             None \<Rightarrow> (None, st)
           | Some plaintext \<Rightarrow>
               (case List.find (\<lambda>t. tokenHash t = sha256_hex env plaintext) (apiTokens st) of
                  None \<Rightarrow> (None, st)
                | Some row \<Rightarrow>
                    (Some \<lparr>api_adminId = createdByAdminId row, api_role = ''admin'', api_tokenId = token_id row,
                           api_tokenName = token_name row, api_scopes = token_scopes row\<rparr>,
                     touch_token now row st))))"

text \<open>The answer of the hook: the request's \<open>admin\<close> and \<open>apiToken\<close>, or the reply that ends it.\<close>

datatype auth_verdict = Admitted "(string \<times> string) option" "api_auth option" | Turned_away nat string

definition requireAuth :: "auth_env \<Rightarrow> bool \<Rightarrow> int \<Rightarrow> http_request \<Rightarrow> auth_state \<Rightarrow> auth_verdict \<times> auth_state" where
  "requireAuth env answers now req st =
     (case tryApiToken env now req st of
        (Some apiAuth, st') \<Rightarrow>
          (Admitted (if truthy (api_adminId apiAuth) then Some (the (api_adminId apiAuth), api_role apiAuth) else None)
             (Some apiAuth), st')
      | (None, st') \<Rightarrow>
          (case jwt_of_request env now req of
             None \<Rightarrow> Turned_away 401 ''UNAUTHORIZED''
           | Some payload \<Rightarrow>
               (case (jwt_sub payload, jwt_jti payload) of
                  (Some sub, Some jti) \<Rightarrow>
                    if \<not> ADMIN_ID sub \<or> jti = [] then Turned_away 401 ''UNAUTHORIZED''
                    else
                      let issuedMs = (case jwt_iatMs payload of Some ms \<Rightarrow> ms | None \<Rightarrow> jwt_iat payload * 1000)
                      in (case sessionState answers now jti sub issuedMs st' of
                            None \<Rightarrow> Turned_away 503 ''AUTH_UNAVAILABLE''
                          | Some Session_signed_out \<Rightarrow> Turned_away 401 ''UNAUTHORIZED''
                          | Some Session_ended \<Rightarrow> Turned_away 401 ''UNAUTHORIZED''
                          | Some Session_live \<Rightarrow>
                              (case findAdminById sub st' of
                                 None \<Rightarrow> Turned_away 401 ''UNAUTHORIZED''
                               | Some admin \<Rightarrow> Admitted (Some (admin_id admin, admin_role admin)) None))
                | _ \<Rightarrow> Turned_away 401 ''UNAUTHORIZED''), st'))"

definition requireSession :: "auth_verdict \<Rightarrow> auth_verdict" where
  "requireSession v = (case v of Admitted _ (Some _) \<Rightarrow> Turned_away 403 ''FORBIDDEN'' | _ \<Rightarrow> v)"

section \<open>Keys\<close>

lemma session_keys_apart [simp]:
  "FAIL_KEY ip name \<noteq> revokedKey jti" "revokedKey jti \<noteq> FAIL_KEY ip name"
  "FAIL_KEY ip name \<noteq> endedKey i" "endedKey i \<noteq> FAIL_KEY ip name"
  "FAIL_KEY_2fa i \<noteq> revokedKey jti" "revokedKey jti \<noteq> FAIL_KEY_2fa i"
  "FAIL_KEY_2fa i \<noteq> endedKey j" "endedKey j \<noteq> FAIL_KEY_2fa i"
  "revokedKey jti \<noteq> endedKey i" "endedKey i \<noteq> revokedKey jti"
  by (simp_all add: FAIL_KEY_def FAIL_KEY_2fa_def revokedKey_def endedKey_def)

lemma session_keys_inj [simp]:
  "revokedKey a = revokedKey b \<longleftrightarrow> a = b" "endedKey a = endedKey b \<longleftrightarrow> a = b"
  by (simp_all add: revokedKey_def endedKey_def)

lemma tryApiToken_state:
  "tryApiToken env now req st = (r, st') \<Longrightarrow> redis st' = redis st \<and> admins st' = admins st \<and> auditRows st' = auditRows st"
  by (auto simp: tryApiToken_def touch_token_def split: option.splits if_splits)

lemma requireAuth_state:
  "requireAuth env answers now req st = (r, st') \<Longrightarrow> redis st' = redis st \<and> admins st' = admins st \<and> auditRows st' = auditRows st"
  by (auto simp: requireAuth_def dest: tryApiToken_state split: option.splits prod.splits)

end
