(* ===== verification/Scopes.thy ===== *)
theory Scopes
  imports Sessions
begin

text \<open>
  What an API token may reach (\<open>modules/auth/scope.hook.ts\<close>): the scope a route needs, the scopes a
  token can be given, and the hook that compares the two after \<open>requireAuth\<close>.
\<close>

section \<open>Scopes\<close>

definition read_method :: "string \<Rightarrow> bool" where
  "read_method m \<longleftrightarrow> m = ''GET'' \<or> m = ''HEAD''"

text \<open>The first segment after \<open>/api/\<close>, \<open>split\<close> and index 0.\<close>

definition api_resource :: "string \<Rightarrow> string" where
  "api_resource url = hd (js_split CHR ''/'' (drop 5 url))"

definition requiredScopeFor :: "string \<Rightarrow> string option \<Rightarrow> string option" where
  "requiredScopeFor m url =
     (case url of
        None \<Rightarrow> None
      | Some u \<Rightarrow>
          if \<not> js_starts_with ''/api/'' u then None
          else if u = ''/api/users/:id/endpoints'' \<and> read_method m then Some ''sub:read''
          else if u = ''/api/nodes/:id/chain-secret'' then Some ''nodes:write''
          else if api_resource u = [] then None
          else Some (api_resource u @ '':'' @ (if read_method m then ''read'' else ''write'')))"

definition SCOPEABLE_RESOURCES :: "string list" where
  "SCOPEABLE_RESOURCES =
     [''users'', ''nodes'', ''profiles'', ''bindings'', ''hosts'', ''squads'', ''srr'', ''regions'', ''cascades'',
      ''hwid-devices'', ''settings'', ''recipes'', ''dashboard'', ''system'', ''route-policies'', ''node-policies'',
      ''named-outbounds'', ''geo-sets'', ''routing-presets'', ''subscription-templates'']"

definition UNSCOPED_RESOURCES :: "string list" where
  "UNSCOPED_RESOURCES = [''api-tokens'', ''auth'', ''internal'', ''audit'']"

definition KNOWN_SCOPES :: "string list" where
  "KNOWN_SCOPES = set_from ([''*'', ''sub:read''] @ concat (map (\<lambda>r. [r @ '':read'', r @ '':write'']) SCOPEABLE_RESOURCES))"

definition isKnownScope :: "string \<Rightarrow> bool" where
  "isKnownScope s \<longleftrightarrow> s \<in> set KNOWN_SCOPES"

text \<open>True: the request goes on. Otherwise the answer is 403.\<close>

definition enforceScopes :: "string \<Rightarrow> string option \<Rightarrow> api_auth option \<Rightarrow> bool" where
  "enforceScopes m url token =
     (case token of
        None \<Rightarrow> True
      | Some t \<Rightarrow>
          if api_scopes t = [] \<or> ''*'' \<in> set (api_scopes t) then True
          else (case requiredScopeFor m url of None \<Rightarrow> False | Some s \<Rightarrow> s \<in> set (api_scopes t)))"

section \<open>What a restricted token cannot reach\<close>

definition restricted :: "api_auth \<Rightarrow> bool" where
  "restricted t \<longleftrightarrow> api_scopes t \<noteq> [] \<and> ''*'' \<notin> set (api_scopes t) \<and> list_all isKnownScope (api_scopes t)"

lemma scopeable_plain: "r \<in> set SCOPEABLE_RESOURCES \<Longrightarrow> CHR '':'' \<notin> set r \<and> r \<noteq> ''sub'' \<and> r \<notin> set UNSCOPED_RESOURCES"
proof -
  have "list_all (\<lambda>r. CHR '':'' \<notin> set r \<and> r \<noteq> ''sub'' \<and> r \<notin> set UNSCOPED_RESOURCES) SCOPEABLE_RESOURCES"
    by code_simp
  then show "r \<in> set SCOPEABLE_RESOURCES \<Longrightarrow> ?thesis"
    by (simp add: list_all_iff)
qed

lemma known_scope_cases:
  "isKnownScope s \<Longrightarrow> s = ''*'' \<or> s = ''sub:read'' \<or>
     (\<exists>r \<in> set SCOPEABLE_RESOURCES. s = r @ '':read'' \<or> s = r @ '':write'')"
  unfolding isKnownScope_def KNOWN_SCOPES_def set_from_set by auto

lemma scope_parts:
  "(r @ '':read'' = r' @ '':read'') = (r = r')" "(r @ '':write'' = r' @ '':write'') = (r = r')"
  "r @ '':read'' \<noteq> r' @ '':write''" "r @ '':write'' \<noteq> r' @ '':read''"
  by (auto dest: arg_cong [of _ _ last])



end
