(* ===== verification/LoginCap.thy ===== *)
theory LoginCap
  imports SignIn
begin

text \<open>
  The cap on the rows of refused sign-ins (\<open>modules/audit/login-cap.ts\<close>) and the network a refusal is
  filed under (\<open>redactIp\<close> of \<open>lib/notify/telegram-notify.ts\<close>). A window's counters live in Redis, the
  summaries are rows of the audit log, one per window and key, whose count only grows.
\<close>

section \<open>The network of an address\<close>

definition is_octet_text :: "string \<Rightarrow> bool" where
  "is_octet_text s \<longleftrightarrow> 1 \<le> length s \<and> length s \<le> 3 \<and> list_all is_digit s"

text \<open>\<open>/^::ffff:(\d{1,3}\.\d{1,3}\.\d{1,3}\.\d{1,3})$/i\<close>.\<close>

definition is_mapped :: "string \<Rightarrow> bool" where
  "is_mapped ip \<longleftrightarrow> to_lower (take 7 ip) = ''::ffff:'' \<and>
     (let parts = js_split CHR ''.'' (drop 7 ip) in length parts = 4 \<and> list_all is_octet_text parts)"

text \<open>The four numbers of a dotted quad, a port after it allowed.\<close>

definition match_v4 :: "string \<Rightarrow> nat list option" where
  "match_v4 ip =
     (let body = takeWhile (\<lambda>c. c \<noteq> CHR '':'') ip; port = dropWhile (\<lambda>c. c \<noteq> CHR '':'') ip;
          parts = js_split CHR ''.'' body
      in if length parts = 4 \<and> list_all is_octet_text parts \<and>
            (port = [] \<or> 1 < length port \<and> list_all is_digit (tl port))
         then Some (map (digits_val 10) parts) else None)"

text \<open>\<open>split('::')\<close>.\<close>

fun split_double_colon :: "string \<Rightarrow> string list" where
  "split_double_colon [] = [[]]"
| "split_double_colon [c] = [[c]]"
| "split_double_colon (c # d # s) =
     (if c = CHR '':'' \<and> d = CHR '':'' then [] # split_double_colon s
      else case split_double_colon (d # s) of [] \<Rightarrow> [[c]] | p # ps \<Rightarrow> (c # p) # ps)"

definition redacted :: string where
  "redacted = ''[redacted]''"

definition redact_v6 :: "string \<Rightarrow> string" where
  "redact_v6 ip =
     (let parts = split_double_colon (to_lower ip)
      in if 2 < length parts then redacted
         else let left = (if parts ! 0 \<noteq> [] then js_split CHR '':'' (parts ! 0) else []);
                  right = (if length parts = 2 \<and> parts ! 1 \<noteq> [] then js_split CHR '':'' (parts ! 1) else [])
              in if 8 < length left + length right then redacted
                 else let full = left @ replicate (8 - length left - length right) ''0'' @ right
                      in js_join '':'' (map (\<lambda>h. if h = [] then ''0'' else h) (take 3 full)) @ ''::/48'')"

definition redact_plain :: "string \<Rightarrow> string" where
  "redact_plain ip =
     (case match_v4 ip of
        Some octets \<Rightarrow>
          if list_all (\<lambda>n. n \<le> 255) octets
          then js_join ''.'' (map dec_of_nat (take 3 octets)) @ ''.0/24''
          else if CHR '':'' \<in> set ip then redact_v6 ip else redacted
      | None \<Rightarrow> if CHR '':'' \<in> set ip then redact_v6 ip else redacted)"

text \<open>The call back into \<open>redactIp\<close> for a mapped address: its dotted quad has no white space,
  bracket or zone to strip.\<close>

definition redactNormalizedIp :: "string \<Rightarrow> string" where
  "redactNormalizedIp ip = (if is_mapped ip then redact_plain (drop 7 ip) else redact_plain ip)"

definition redactIp :: "string \<Rightarrow> string" where
  "redactIp inp =
     (if inp = [] then redacted
      else let ip = js_trim inp;
               ip1 = (if js_starts_with ''['' ip
                      then (case js_index_of CHR '']'' ip of Some close \<Rightarrow> drop 1 (take close ip) | None \<Rightarrow> ip) else ip);
               ip2 = (case js_index_of CHR ''%'' ip1 of Some pct \<Rightarrow> take pct ip1 | None \<Rightarrow> ip1)
           in redactNormalizedIp ip2)"

section \<open>Counters and summaries\<close>

record login_cap_limits =
  perNetwork :: nat
  cap_all :: nat
  windowSeconds :: nat

definition ADMIN_AUDIT_LOGIN_REFUSAL_CAP :: login_cap_limits where
  "ADMIN_AUDIT_LOGIN_REFUSAL_CAP = \<lparr>perNetwork = 20, cap_all = 300, windowSeconds = 3600\<rparr>"

definition counterKey :: "int \<Rightarrow> string \<Rightarrow> string" where
  "counterKey windowStart key = ''audit:login-refused:'' @ dec_of_nat (nat windowStart) @ '':'' @ key"

text \<open>One count, or the exception of a Redis that is away.\<close>

definition cap_count :: "bool \<Rightarrow> int \<Rightarrow> string \<Rightarrow> int \<Rightarrow> auth_state \<Rightarrow> nat option \<times> auth_state" where
  "cap_count answers now key ttl st =
     (if \<not> answers then (None, st)
      else let (r1, n) = rd_incr now (redis st) key;
               r2 = (if n = 1 then rd_expire now r1 key ttl else r1)
           in (Some n, st\<lparr>redis := r2\<rparr>))"

text \<open>INSERT, or on a row of the same action, key and window the larger of the two counts.\<close>

definition is_summary :: "string \<Rightarrow> int \<Rightarrow> audit_row \<Rightarrow> bool" where
  "is_summary key windowStart row \<longleftrightarrow> au_action row = ''auth.login'' \<and> au_targetLabel row = key \<and>
     (case au_detail row of SuppressedDetail _ w \<Rightarrow> w = windowStart | _ \<Rightarrow> False)"

definition suppressed_of :: "audit_row \<Rightarrow> nat" where
  "suppressed_of row = (case au_detail row of SuppressedDetail n _ \<Rightarrow> n | _ \<Rightarrow> 0)"

definition summarise :: "int \<Rightarrow> string \<Rightarrow> string option \<Rightarrow> nat \<Rightarrow> int \<Rightarrow> auth_state \<Rightarrow> auth_state" where
  "summarise now key network suppressed windowStart st =
     (if list_ex (is_summary key windowStart) (auditRows st)
      then st\<lparr>auditRows := map (\<lambda>row. if is_summary key windowStart row
                then row\<lparr>au_detail := SuppressedDetail (max (suppressed_of row) suppressed) windowStart\<rparr> else row) (auditRows st)\<rparr>
      else st\<lparr>auditRows := auditRows st @
             [\<lparr>au_at = now, au_actorKind = ''anonymous'', au_actorId = None, au_actorLabel = ''anonymous'',
               au_action = ''auth.login'', au_targetId = None, au_targetLabel = key, au_outcome = ''refused'',
               au_refusal = None, au_detail = SuppressedDetail suppressed windowStart, au_sourceNetwork = network\<rparr>]\<rparr>)"

definition window_start :: "login_cap_limits \<Rightarrow> int \<Rightarrow> int" where
  "window_start limits now = (let windowMs = int (windowSeconds limits) * 1000 in now div windowMs * windowMs)"

text \<open>True: the refusal's own row is to be written.\<close>

definition admitRefusedSignIn ::
  "login_cap_limits \<Rightarrow> bool \<times> bool \<Rightarrow> string \<Rightarrow> int \<Rightarrow> auth_state \<Rightarrow> bool \<times> auth_state" where
  "admitRefusedSignIn limits answers network now st =
     (let windowStart = window_start limits now; ttl = int (windowSeconds limits) + 60
      in case cap_count (fst answers) now (counterKey windowStart (''net:'' @ network)) ttl st of
           (None, st1) \<Rightarrow> (True, st1)
         | (Some n, st1) \<Rightarrow>
             if perNetwork limits < n
             then (False, summarise now network (Some network) (n - perNetwork limits) windowStart st1)
             else (case cap_count (snd answers) now (counterKey windowStart ''all'') ttl st1 of
                     (None, st2) \<Rightarrow> (True, st2)
                   | (Some a, st2) \<Rightarrow>
                       if cap_all limits < a
                       then (False, summarise now ''all'' None (a - cap_all limits) windowStart st2)
                       else (True, st2)))"

text \<open>The refusals of a stretch of time, each with its moment and network.\<close>

fun admit_each :: "login_cap_limits \<Rightarrow> (int \<times> string) list \<Rightarrow> auth_state \<Rightarrow> bool list \<times> auth_state" where
  "admit_each limits [] st = ([], st)"
| "admit_each limits ((now, network) # rs) st =
     (let (b, st1) = admitRefusedSignIn limits (True, True) network now st; (bs, st2) = admit_each limits rs st1
      in (b # bs, st2))"

section \<open>Networks are not the key of the total\<close>

lemma last_redact_v6: "last (redact_v6 ip) \<in> {CHR '']'', CHR ''8''}"
  by (simp add: redact_v6_def Let_def redacted_def)

lemma last_redact_plain: "last (redact_plain ip) \<in> {CHR '']'', CHR ''4'', CHR ''8''}"
  using last_redact_v6 [of ip] by (auto simp: redact_plain_def redacted_def split: option.split)

lemma redactIp_not_all: "redactIp ip \<noteq> ''all''"
proof -
  have "last (redactIp ip) \<in> {CHR '']'', CHR ''4'', CHR ''8''}"
  proof (cases "ip = []")
    case False
    then obtain ip2 where "redactIp ip = redactNormalizedIp ip2"
      unfolding redactIp_def Let_def by auto
    then show ?thesis
      using last_redact_plain by (simp add: redactNormalizedIp_def)
  qed (simp add: redactIp_def redacted_def)
  then show ?thesis
    by auto
qed

section \<open>One window\<close>

text \<open>A counter of the window as it reads at a moment, 0 when the key is not there.\<close>

definition cap_counter :: "int \<Rightarrow> int \<Rightarrow> string \<Rightarrow> auth_state \<Rightarrow> nat" where
  "cap_counter w t key st = (case rd_get t (redis st) (counterKey w key) of None \<Rightarrow> 0 | Some n \<Rightarrow> n)"

text \<open>The counts of the summaries filed under a key, and under all keys.\<close>

definition summaries_of :: "int \<Rightarrow> string \<Rightarrow> auth_state \<Rightarrow> nat list" where
  "summaries_of w key st = map suppressed_of (filter (is_summary key w) (auditRows st))"

definition of_window :: "int \<Rightarrow> audit_row \<Rightarrow> bool" where
  "of_window w row \<longleftrightarrow> is_summary (au_targetLabel row) w row"

definition suppressed_total :: "int \<Rightarrow> auth_state \<Rightarrow> nat" where
  "suppressed_total w st = sum_list (map suppressed_of (filter (of_window w) (auditRows st)))"

lemma counterKey_inj [simp]: "0 \<le> w \<Longrightarrow> counterKey w a = counterKey w b \<longleftrightarrow> a = b"
  by (simp add: counterKey_def)

lemma is_summary_of_window: "is_summary key w row \<Longrightarrow> of_window w row"
  by (simp add: is_summary_def of_window_def)

lemma summarise_other: "k \<noteq> key \<Longrightarrow> summaries_of w k (summarise t key net n w st) = summaries_of w k st"
proof -
  assume k: "k \<noteq> key"
  have "filter (is_summary k w) (map (\<lambda>row. if is_summary key w row
          then row\<lparr>au_detail := SuppressedDetail (max (suppressed_of row) n) w\<rparr> else row) rows) =
        filter (is_summary k w) rows" for rows
    using k by (induction rows) (auto simp: is_summary_def)
  then show ?thesis
    using k by (auto simp: summaries_of_def summarise_def is_summary_def)
qed

text \<open>A summary that grows by one, or begins at one, adds one to the total.\<close>

lemma summarise_new:
  assumes "summaries_of w key st = []"
  shows "summaries_of w key (summarise t key net n w st) = [n]"
    and "suppressed_total w (summarise t key net n w st) = suppressed_total w st + n"
proof -
  have none: "\<not> list_ex (is_summary key w) (auditRows st)"
    using assms by (auto simp: summaries_of_def list_ex_iff filter_empty_conv)
  then show "summaries_of w key (summarise t key net n w st) = [n]"
    "suppressed_total w (summarise t key net n w st) = suppressed_total w st + n"
    using assms
    by (simp_all add: summarise_def summaries_of_def suppressed_total_def of_window_def suppressed_of_def is_summary_def)
qed

lemma map_rows_total:
  assumes "map suppressed_of (filter (is_summary key w) rows) = [m]" and "m \<le> n"
  defines "rows' \<equiv> map (\<lambda>row. if is_summary key w row
             then row\<lparr>au_detail := SuppressedDetail (max (suppressed_of row) n) w\<rparr> else row) rows"
  shows "map suppressed_of (filter (is_summary key w) rows') = [n]"
    and "sum_list (map suppressed_of (filter (of_window w) rows')) + m =
         sum_list (map suppressed_of (filter (of_window w) rows)) + n"
proof -
  obtain row where f: "filter (is_summary key w) rows = [row]" "suppressed_of row = m"
    using assms(1) by auto
  then obtain us vs where rows: "rows = us @ row # vs" "is_summary key w row"
    "\<forall>u \<in> set us. \<not> is_summary key w u" "filter (is_summary key w) vs = []"
    by (auto simp: filter_eq_Cons_iff)
  have same: "map (\<lambda>row. if is_summary key w row
      then row\<lparr>au_detail := SuppressedDetail (max (suppressed_of row) n) w\<rparr> else row) xs = xs"
    if "\<forall>x \<in> set xs. \<not> is_summary key w x" for xs
    using that by (simp add: map_idI)
  have vs: "\<forall>v \<in> set vs. \<not> is_summary key w v"
    using rows(4) by (simp add: filter_empty_conv)
  have rows': "rows' = us @ row\<lparr>au_detail := SuppressedDetail n w\<rparr> # vs"
    using rows(1,2) f(2) assms(2) same [OF rows(3)] same [OF vs] by (simp add: rows'_def max_absorb2)
  have s: "is_summary key w (row\<lparr>au_detail := SuppressedDetail n w\<rparr>)"
    using rows(2) by (simp add: is_summary_def)
  show "map suppressed_of (filter (is_summary key w) rows') = [n]"
    using s rows(3) vs by (simp add: rows' suppressed_of_def filter_empty_conv)
  show "sum_list (map suppressed_of (filter (of_window w) rows')) + m =
        sum_list (map suppressed_of (filter (of_window w) rows)) + n"
    using is_summary_of_window [OF s] is_summary_of_window [OF rows(2)] f(2)
    by (simp add: rows' rows(1)) (simp add: suppressed_of_def)
qed

lemma summarise_grows:
  assumes "summaries_of w key st = [m]" and "m \<le> n"
  shows "summaries_of w key (summarise t key net n w st) = [n]"
    and "suppressed_total w (summarise t key net n w st) + m = suppressed_total w st + n"
proof -
  have "list_ex (is_summary key w) (auditRows st)"
    using assms(1) by (auto simp: summaries_of_def list_ex_iff filter_eq_Cons_iff)
  then have "auditRows (summarise t key net n w st) = map (\<lambda>row. if is_summary key w row
      then row\<lparr>au_detail := SuppressedDetail (max (suppressed_of row) n) w\<rparr> else row) (auditRows st)"
    by (simp add: summarise_def)
  then show "summaries_of w key (summarise t key net n w st) = [n]"
    "suppressed_total w (summarise t key net n w st) + m = suppressed_total w st + n"
    using map_rows_total [OF assms(1)[unfolded summaries_of_def] assms(2)]
    by (simp_all add: summaries_of_def suppressed_total_def)
qed

definition window_end :: "login_cap_limits \<Rightarrow> int \<Rightarrow> int" where
  "window_end limits w = w + int (windowSeconds limits) * 1000"

lemma cap_count_state:
  "snd (cap_count True now key ttl st) = st\<lparr>redis := redis (snd (cap_count True now key ttl st))\<rparr>"
  by (simp add: cap_count_def split: prod.split)

lemma cap_count_other: "k \<noteq> key \<Longrightarrow> redis (snd (cap_count True now key ttl st)) k = redis st k"
  using rd_incr_other [of k key now "redis st"]
  by (cases "rd_incr now (redis st) key") (simp add: cap_count_def rd_expire_other)

text \<open>A count in the window: one more than before, and the counter holds to the window's end.\<close>

lemma cap_count_counter:
  assumes "w \<le> now" and "now < window_end limits w" and c: "\<forall>t. now \<le> t \<longrightarrow> t < window_end limits w \<longrightarrow> cap_counter w t k st = c"
  shows "fst (cap_count True now (counterKey w k) (int (windowSeconds limits) + 60) st) = Some (Suc c)"
    and "now \<le> t \<Longrightarrow> t < window_end limits w \<Longrightarrow>
      cap_counter w t k (snd (cap_count True now (counterKey w k) (int (windowSeconds limits) + 60) st)) = Suc c"
proof -
  let ?key = "counterKey w k"
  let ?ttl = "int (windowSeconds limits) + 60"
  obtain n u where nu: "(case live_entry now (redis st ?key) of None \<Rightarrow> (1, None) | Some e' \<Rightarrow> (entry_val e' + 1, entry_until e')) = (n, u)"
    by fastforce
  have n: "n = Suc c"
    using nu c [rule_format, of now] assms(1,2) by (auto simp: cap_counter_def rd_get_def split: option.splits)
  have live: "live_entry now (Some \<lparr>entry_val = m, entry_until = u\<rparr>) = Some \<lparr>entry_val = m, entry_until = u\<rparr>" for m
    using nu by (auto simp: live_entry_def entry_live_def split: option.splits if_splits)
  have res: "cap_count True now ?key ?ttl st =
    (Some n, st\<lparr>redis := (redis st)(?key \<mapsto> \<lparr>entry_val = n, entry_until = (if n = 1 then Some (now + ?ttl * 1000) else u)\<rparr>)\<rparr>)"
    unfolding cap_count_def rd_incr_live nu using live by (simp add: rd_expire_live)
  show "fst (cap_count True now ?key ?ttl st) = Some (Suc c)"
    by (simp add: res n)
  show "cap_counter w t k (snd (cap_count True now ?key ?ttl st)) = Suc c" if t: "now \<le> t" "t < window_end limits w"
  proof (cases "n = 1")
    case True
    have "t \<le> now + ?ttl * 1000"
      using t assms(1) by (simp add: window_end_def algebra_simps)
    then show ?thesis
      using True n by (simp add: res cap_counter_def rd_get_def live_entry_def entry_live_def)
  next
    case False
    then obtain e where e: "live_entry now (redis st ?key) = Some e" "u = entry_until e" "entry_val e = c"
      using nu n by (auto split: option.splits)
    have "entry_live t e"
      using c [rule_format, OF t] False n e by (auto simp: cap_counter_def rd_get_def live_entry_def split: option.splits if_splits)
    then show ?thesis
      using False n e(2) by (simp add: res cap_counter_def rd_get_def live_entry_def entry_live_def)
  qed
qed

text \<open>After the refusals \<open>ns\<close> of a window, \<open>p\<close> of which were within their network's cap: every
  counter, and one summary for each key that went over.\<close>

definition excess :: "login_cap_limits \<Rightarrow> string list \<Rightarrow> nat \<Rightarrow> string \<Rightarrow> nat" where
  "excess limits ns p key = (if key = ''all'' then p - cap_all limits else count_list ns key - perNetwork limits)"

definition cap_inv :: "login_cap_limits \<Rightarrow> int \<Rightarrow> string list \<Rightarrow> nat \<Rightarrow> int \<Rightarrow> auth_state \<Rightarrow> bool" where
  "cap_inv limits w ns p now st \<longleftrightarrow>
     (\<forall>t. now \<le> t \<and> t < window_end limits w \<longrightarrow>
        (\<forall>x. cap_counter w t (''net:'' @ x) st = count_list ns x) \<and> cap_counter w t ''all'' st = p) \<and>
     (\<forall>k. summaries_of w k st = (if excess limits ns p k = 0 then [] else [excess limits ns p k]))"

text \<open>Moving one key's summary from its excess to the next.\<close>

lemma summarise_step:
  assumes "summaries_of w key st = (if m = 0 then [] else [m])"
  shows "summaries_of w key (summarise t key net (Suc m) w st) = [Suc m]"
    and "suppressed_total w (summarise t key net (Suc m) w st) = Suc (suppressed_total w st)"
  using assms summarise_new [of w key st t net "Suc m"] summarise_grows [of w key st m "Suc m" t net]
  by (cases "m = 0"; simp)+

lemma window_start_bounds:
  assumes "0 < windowSeconds limits"
  shows "window_start limits now \<le> now" "now < window_end limits (window_start limits now)"
proof -
  define m where "m = int (windowSeconds limits) * 1000"
  have m: "0 < m"
    using assms by (simp add: m_def)
  have "now div m * m + now mod m = now"
    by (rule div_mult_mod_eq)
  moreover have "0 \<le> now mod m" "now mod m < m"
    using m by simp_all
  ultimately have "now div m * m \<le> now" "now < now div m * m + m"
    by linarith+
  then show "window_start limits now \<le> now" "now < window_end limits (window_start limits now)"
    by (simp_all add: window_start_def window_end_def Let_def m_def [symmetric])
qed

lemma summaries_of_redis [simp]: "summaries_of w k (st\<lparr>redis := r\<rparr>) = summaries_of w k st"
  by (simp add: summaries_of_def)

lemma suppressed_total_redis [simp]: "suppressed_total w (st\<lparr>redis := r\<rparr>) = suppressed_total w st"
  by (simp add: suppressed_total_def)

lemma cap_counter_summarise [simp]: "cap_counter w t k (summarise now key net n w' st) = cap_counter w t k st"
  by (simp add: cap_counter_def summarise_def)

lemma cap_inv_later: "cap_inv limits w ns p now st \<Longrightarrow> now \<le> t \<Longrightarrow> cap_inv limits w ns p t st"
  by (auto simp: cap_inv_def)

text \<open>A count on a key whose counter is known through the rest of the window.\<close>

lemma cap_count_key:
  assumes "0 \<le> w" and "w \<le> now" and "now < window_end limits w"
    and c: "\<forall>t. now \<le> t \<longrightarrow> t < window_end limits w \<longrightarrow> cap_counter w t k st = c"
  obtains st1 where "cap_count True now (counterKey w k) (int (windowSeconds limits) + 60) st = (Some (Suc c), st1)"
    and "\<forall>t j. now \<le> t \<longrightarrow> t < window_end limits w \<longrightarrow>
      cap_counter w t j st1 = (if j = k then Suc c else cap_counter w t j st)"
    and "\<forall>j. summaries_of w j st1 = summaries_of w j st" and "suppressed_total w st1 = suppressed_total w st"
proof -
  let ?r = "cap_count True now (counterKey w k) (int (windowSeconds limits) + 60) st"
  note cc = cap_count_counter [OF assms(2,3) c]
  show ?thesis
  proof (rule that [of "snd ?r"])
    show "?r = (Some (Suc c), snd ?r)"
      using cc(1) by (metis prod.collapse)
    have "cap_counter w t j (snd ?r) = cap_counter w t j st" if "j \<noteq> k" for t j
      using that assms(1) by (simp add: cap_counter_def rd_get_def cap_count_other)
    then show "\<forall>t j. now \<le> t \<longrightarrow> t < window_end limits w \<longrightarrow>
        cap_counter w t j (snd ?r) = (if j = k then Suc c else cap_counter w t j st)"
      using cc(2) by simp
    show "\<forall>j. summaries_of w j (snd ?r) = summaries_of w j st"
      by (subst cap_count_state) simp
    show "suppressed_total w (snd ?r) = suppressed_total w st"
      by (subst cap_count_state) simp
  qed
qed

lemma admit_over_network:
  assumes inv: "cap_inv limits w ns p now st" and w: "w = window_start limits now" "0 \<le> w" "0 < windowSeconds limits"
    and x: "x \<noteq> ''all''" and over: "perNetwork limits \<le> count_list ns x"
  obtains st' where "admitRefusedSignIn limits (True, True) x now st = (False, st')"
    and "cap_inv limits w (ns @ [x]) p now st'" and "suppressed_total w st' = Suc (suppressed_total w st)"
proof -
  have b: "w \<le> now" "now < window_end limits w"
    using window_start_bounds [OF w(3)] w(1) by simp_all
  have c: "\<forall>t. now \<le> t \<longrightarrow> t < window_end limits w \<longrightarrow> cap_counter w t (''net:'' @ x) st = count_list ns x"
    using inv by (simp add: cap_inv_def)
  obtain st1 where st1: "cap_count True now (counterKey w (''net:'' @ x)) (int (windowSeconds limits) + 60) st = (Some (Suc (count_list ns x)), st1)"
    "\<forall>t j. now \<le> t \<longrightarrow> t < window_end limits w \<longrightarrow>
      cap_counter w t j st1 = (if j = ''net:'' @ x then Suc (count_list ns x) else cap_counter w t j st)"
    "\<forall>j. summaries_of w j st1 = summaries_of w j st" "suppressed_total w st1 = suppressed_total w st"
    by (rule cap_count_key [OF w(2) b c]) (rule that)
  define m where "m = count_list ns x - perNetwork limits"
  define st' where "st' = summarise now x (Some x) (Suc m) w st1"
  have sx: "summaries_of w x st1 = (if m = 0 then [] else [m])"
    using inv x st1(3) by (simp add: cap_inv_def excess_def m_def)
  have run: "admitRefusedSignIn limits (True, True) x now st = (False, st')"
    using st1(1) over by (simp add: admitRefusedSignIn_def Let_def w(1) [symmetric] st'_def m_def Suc_diff_le)
  have "summaries_of w k st' = (if excess limits (ns @ [x]) p k = 0 then [] else [excess limits (ns @ [x]) p k])" for k
  proof (cases "k = x")
    case True
    then show ?thesis
      using summarise_step(1) [OF sx] x over by (simp add: st'_def excess_def m_def Suc_diff_le)
  next
    case False
    then show ?thesis
      using inv st1(3) by (simp add: st'_def summarise_other cap_inv_def excess_def)
  qed
  then have "cap_inv limits w (ns @ [x]) p now st'"
    using inv st1(2) by (simp add: cap_inv_def st'_def)
  then show ?thesis
    using that run summarise_step(2) [OF sx] st1(4) by (simp add: st'_def)
qed

lemma admit_within_network:
  assumes inv: "cap_inv limits w ns p now st" and w: "w = window_start limits now" "0 \<le> w" "0 < windowSeconds limits"
    and x: "x \<noteq> ''all''" and within: "count_list ns x < perNetwork limits"
  obtains st' where "admitRefusedSignIn limits (True, True) x now st = (p < cap_all limits, st')"
    and "cap_inv limits w (ns @ [x]) (Suc p) now st'"
    and "suppressed_total w st' = suppressed_total w st + (if p < cap_all limits then 0 else 1)"
proof -
  have b: "w \<le> now" "now < window_end limits w"
    using window_start_bounds [OF w(3)] w(1) by simp_all
  have c: "\<forall>t. now \<le> t \<longrightarrow> t < window_end limits w \<longrightarrow> cap_counter w t (''net:'' @ x) st = count_list ns x"
    using inv by (simp add: cap_inv_def)
  obtain st1 where st1: "cap_count True now (counterKey w (''net:'' @ x)) (int (windowSeconds limits) + 60) st = (Some (Suc (count_list ns x)), st1)"
    "\<forall>t j. now \<le> t \<longrightarrow> t < window_end limits w \<longrightarrow>
      cap_counter w t j st1 = (if j = ''net:'' @ x then Suc (count_list ns x) else cap_counter w t j st)"
    "\<forall>j. summaries_of w j st1 = summaries_of w j st" "suppressed_total w st1 = suppressed_total w st"
    by (rule cap_count_key [OF w(2) b c]) (rule that)
  have c2: "\<forall>t. now \<le> t \<longrightarrow> t < window_end limits w \<longrightarrow> cap_counter w t ''all'' st1 = p"
    using inv st1(2) by (simp add: cap_inv_def)
  obtain st2 where st2: "cap_count True now (counterKey w ''all'') (int (windowSeconds limits) + 60) st1 = (Some (Suc p), st2)"
    "\<forall>t j. now \<le> t \<longrightarrow> t < window_end limits w \<longrightarrow>
      cap_counter w t j st2 = (if j = ''all'' then Suc p else cap_counter w t j st1)"
    "\<forall>j. summaries_of w j st2 = summaries_of w j st1" "suppressed_total w st2 = suppressed_total w st1"
    by (rule cap_count_key [OF w(2) b c2]) (rule that)
  define m where "m = p - cap_all limits"
  define st' where "st' = (if p < cap_all limits then st2 else summarise now ''all'' None (Suc m) w st2)"
  have sa: "summaries_of w ''all'' st2 = (if m = 0 then [] else [m])"
    using inv st1(3) st2(3) by (simp add: cap_inv_def excess_def m_def)
  have run: "admitRefusedSignIn limits (True, True) x now st = (p < cap_all limits, st')"
    using st1(1) st2(1) within
    by (simp add: admitRefusedSignIn_def Let_def w(1) [symmetric] st'_def m_def Suc_diff_le not_less)
  have "summaries_of w k st' = (if excess limits (ns @ [x]) (Suc p) k = 0 then [] else [excess limits (ns @ [x]) (Suc p) k])" for k
  proof (cases "k = ''all''")
    case True
    then show ?thesis
      using summarise_step(1) [OF sa] sa by (simp add: st'_def excess_def m_def Suc_diff_le not_less)
  next
    case False
    then show ?thesis
      using inv st1(3) st2(3) within by (cases "k = x") (auto simp: st'_def summarise_other cap_inv_def excess_def)
  qed
  moreover have "cap_counter w t j st' = cap_counter w t j st2" for t j
    by (simp add: st'_def)
  ultimately have "cap_inv limits w (ns @ [x]) (Suc p) now st'"
    using inv st1(2) st2(2) by (simp add: cap_inv_def)
  then show ?thesis
    using that run summarise_step(2) [OF sa] st1(4) st2(4) by (simp add: st'_def)
qed

definition admitted_from :: "string \<Rightarrow> (int \<times> string) list \<Rightarrow> bool list \<Rightarrow> nat" where
  "admitted_from x rs bs = length (filter (\<lambda>((t, n), b). b \<and> n = x) (zip rs bs))"

lemma admit_each_inv:
  "cap_inv limits w ns p t0 st \<Longrightarrow> 0 \<le> w \<Longrightarrow> 0 < windowSeconds limits \<Longrightarrow> in_order t0 until rs \<Longrightarrow>
   list_all (\<lambda>(t, x). window_start limits t = w \<and> x \<noteq> ''all'') rs \<Longrightarrow> admit_each limits rs st = (bs, st') \<Longrightarrow>
   length (filter id bs) + suppressed_total w st' = suppressed_total w st + length rs \<and>
   length (filter id bs) \<le> cap_all limits - p \<and> (\<forall>x. admitted_from x rs bs \<le> perNetwork limits - count_list ns x)"
proof (induction rs arbitrary: ns p t0 st bs)
  case (Cons r rs)
  obtain t x where r: "r = (t, x)"
    by (cases r)
  obtain b st1 bs1 where run: "admitRefusedSignIn limits (True, True) x t st = (b, st1)"
    "admit_each limits rs st1 = (bs1, st')" "bs = b # bs1"
    using Cons.prems(6) by (auto simp: r split: prod.splits)
  have t: "t0 \<le> t" "in_order t until rs" "w = window_start limits t" "x \<noteq> ''all''"
    "list_all (\<lambda>(t, x). window_start limits t = w \<and> x \<noteq> ''all'') rs"
    using Cons.prems(4,5) by (simp_all add: r)
  note inv = cap_inv_later [OF Cons.prems(1) t(1)]
  note IH = Cons.IH [OF _ Cons.prems(2,3) t(2,5) run(2)]
  show ?case
  proof (cases "count_list ns x < perNetwork limits")
    case True
    obtain st2 where s: "admitRefusedSignIn limits (True, True) x t st = (p < cap_all limits, st2)"
      "cap_inv limits w (ns @ [x]) (Suc p) t st2"
      "suppressed_total w st2 = suppressed_total w st + (if p < cap_all limits then 0 else 1)"
      by (rule admit_within_network [OF inv t(3) Cons.prems(2,3) t(4) True])
    have st2: "st2 = st1" and b: "b = (p < cap_all limits)"
      using s(1) run(1) by simp_all
    note later = IH [OF s(2) [unfolded st2]]
    have "admitted_from y (r # rs) bs \<le> perNetwork limits - count_list ns y" for y
      using later [THEN conjunct2, THEN conjunct2, rule_format, of y] True
      by (cases "y = x") (auto simp: admitted_from_def r run(3))
    then show ?thesis
      using s(3) later b by (auto simp: run(3) st2)
  next
    case False
    obtain st2 where s: "admitRefusedSignIn limits (True, True) x t st = (False, st2)"
      "cap_inv limits w (ns @ [x]) p t st2" "suppressed_total w st2 = Suc (suppressed_total w st)"
      by (rule admit_over_network [OF inv t(3) Cons.prems(2,3) t(4)]) (use False in \<open>simp_all\<close>)
    have st2: "st2 = st1" and b: "b = False"
      using s(1) run(1) by simp_all
    note later = IH [OF s(2) [unfolded st2]]
    have "admitted_from y (r # rs) bs \<le> perNetwork limits - count_list ns y" for y
      using later [THEN conjunct2, THEN conjunct2, rule_format, of y] b
      by (cases "y = x") (auto simp: admitted_from_def r run(3))
    then show ?thesis
      using s(3) later b by (auto simp: run(3) st2)
  qed
qed (simp add: admitted_from_def)

text \<open>Before the first refusal of a window neither a counter nor a summary of it exists.\<close>

definition fresh_window :: "int \<Rightarrow> auth_state \<Rightarrow> bool" where
  "fresh_window w st \<longleftrightarrow> (\<forall>k. redis st (counterKey w k) = None) \<and> list_all (\<lambda>row. \<not> of_window w row) (auditRows st)"

lemma fresh_window_inv: "fresh_window w st \<Longrightarrow> cap_inv limits w [] 0 t st \<and> suppressed_total w st = 0"
  by (auto simp: fresh_window_def cap_inv_def cap_counter_def rd_get_def live_entry_def summaries_of_def excess_def
      suppressed_total_def list_all_iff filter_empty_conv of_window_def)
    (auto simp: is_summary_def)


text \<open>At a concrete window of two seconds: three refusals from one network, where two fit, and
  one from another network, where the total has room for three.\<close>

definition cap_example :: "login_cap_limits" where
  "cap_example = \<lparr>perNetwork = 2, cap_all = 3, windowSeconds = 2\<rparr>"

definition refusals_example :: "(int \<times> string) list" where
  "refusals_example = [(4000, ''1.2.3.4''), (4100, ''1.2.3.9''), (4200, ''1.2.3.4''), (5999, ''9.9.9.9'')]"

definition no_state :: auth_state where
  "no_state = \<lparr>admins = [], apiTokens = [], auditRows = [], redis = (\<lambda>k. None)\<rparr>"


end
