(* ===== verification/AuthRoutes.thy ===== *)
theory AuthRoutes
  imports Scopes LoginCap
begin

text \<open>
  The routes of \<open>modules/auth/auth.routes.ts\<close> as steps of one machine: a request, the moment it is
  served and the state give the reply and the next state, the audit rows of the request included
  (\<open>modules/audit/audit.hook.ts\<close>, \<open>audit.service.ts\<close>). A request carries what the schemas admitted; the
  drawn values (the token id, the new row's id, the random bytes) and whether Redis answers the
  checks that tolerate its absence are part of it.
\<close>

section \<open>Replies and audit rows\<close>

record reply =
  r_status :: nat
  r_error :: string
  r_retryAfter :: "int option"
  r_requires2fa :: bool
  r_cookieCleared :: bool
  r_flag :: "bool option"
  r_token :: "jwt_payload option"

definition reply_ok :: "nat \<Rightarrow> reply" where
  "reply_ok code = \<lparr>r_status = code, r_error = [], r_retryAfter = None, r_requires2fa = False,
     r_cookieCleared = False, r_flag = None, r_token = None\<rparr>"

definition reply_error :: "nat \<Rightarrow> string \<Rightarrow> reply" where
  "reply_error code e = (reply_ok code)\<lparr>r_error := e\<rparr>"

definition reply_locked :: "int \<Rightarrow> reply" where
  "reply_locked ttl = (reply_error 429 ''ACCOUNT_LOCKED'')\<lparr>r_retryAfter := Some ttl\<rparr>"

text \<open>An exception no handler names: the error handler's answer.\<close>

definition reply_thrown :: reply where
  "reply_thrown = reply_error 500 ''INTERNAL_ERROR''"

record audit_actor =
  actor_kind :: string
  actor_id :: "string option"
  actor_label :: string

record audit_entry =
  en_action :: string
  en_target :: "string option \<times> string"
  en_detail :: audit_detail
  en_actor :: "audit_actor option"
  en_sourceNetwork :: "string option"

definition outcomeOf :: "nat \<Rightarrow> string" where
  "outcomeOf code = (if code < 400 then ''ok'' else if code < 500 then ''refused'' else ''failed'')"

definition refusalOf :: "string \<Rightarrow> string option" where
  "refusalOf e =
     (if 1 \<le> length e \<and> length e \<le> 64 \<and>
         list_all (\<lambda>c. is_digit c \<or> c = CHR ''_'' \<or> (65 \<le> (of_char c :: nat) \<and> (of_char c :: nat) \<le> 90)) e
      then Some e else None)"

definition cut :: "string \<Rightarrow> nat \<Rightarrow> string" where
  "cut s n = (if n < length s then take n s else s)"

definition recordAudit :: "int \<Rightarrow> audit_actor \<Rightarrow> audit_entry list \<Rightarrow> string \<Rightarrow> string option \<Rightarrow> auth_state \<Rightarrow> auth_state" where
  "recordAudit now actor entries outcome refusal st =
     st\<lparr>auditRows := auditRows st @ map (\<lambda>e.
       let who = (case en_actor e of Some a \<Rightarrow> a | None \<Rightarrow> actor)
       in \<lparr>au_at = now, au_actorKind = actor_kind who, au_actorId = actor_id who,
           au_actorLabel = cut (actor_label who) 64, au_action = en_action e, au_targetId = fst (en_target e),
           au_targetLabel = cut (snd (en_target e)) 128, au_outcome = outcome,
           au_refusal = (if outcome = ''refused'' \<and> truthy refusal then Some (cut (the refusal) 64) else None),
           au_detail = en_detail e,
           au_sourceNetwork = (if en_action e = ''auth.login'' \<and> truthy (en_sourceNetwork e)
             then Some (cut (the (en_sourceNetwork e)) 64) else None)\<rparr>) entries\<rparr>"

text \<open>Who acts: the token by its name, the admin by the row (deleted or not), or the system.\<close>

definition actorOf :: "auth_verdict \<Rightarrow> auth_state \<Rightarrow> audit_actor" where
  "actorOf v st =
     (case v of
        Admitted admin (Some tok) \<Rightarrow>
          \<lparr>actor_kind = ''api_token'', actor_id = map_option fst admin, actor_label = ''api token: '' @ api_tokenName tok\<rparr>
      | Admitted (Some (i, _)) None \<Rightarrow>
          \<lparr>actor_kind = ''admin'', actor_id = Some i,
           actor_label = (case List.find (\<lambda>a. admin_id a = i) (admins st) of Some a \<Rightarrow> username a | None \<Rightarrow> ''deleted admin'')\<rparr>
      | _ \<Rightarrow> \<lparr>actor_kind = ''system'', actor_id = None, actor_label = ''system''\<rparr>)"

definition writeAuditOnSend :: "int \<Rightarrow> auth_verdict \<Rightarrow> audit_entry list \<Rightarrow> reply \<Rightarrow> auth_state \<Rightarrow> auth_state" where
  "writeAuditOnSend now v entries r st =
     (if entries = [] then st
      else recordAudit now (actorOf v st) entries (outcomeOf (r_status r))
             (if outcomeOf (r_status r) = ''refused'' then refusalOf (r_error r) else None) st)"

section \<open>Signing in and out\<close>

definition self_actor :: "admin_user \<Rightarrow> audit_actor" where
  "self_actor admin = \<lparr>actor_kind = ''admin'', actor_id = Some (admin_id admin), actor_label = username admin\<rparr>"

definition anonymous_actor :: audit_actor where
  "anonymous_actor = \<lparr>actor_kind = ''anonymous'', actor_id = None, actor_label = ''anonymous''\<rparr>"

definition signInTarget :: "string \<Rightarrow> auth_state \<Rightarrow> string option \<times> string" where
  "signInTarget name st =
     (case findAdminByUsername name st of Some a \<Rightarrow> (Some (admin_id a), username a) | None \<Rightarrow> (None, ''unknown account''))"

text \<open>No one has been admitted by the hook: the actor is only the entry's own.\<close>

definition no_one :: auth_verdict where
  "no_one = Admitted None None"

definition issue_token :: "auth_env \<Rightarrow> int \<Rightarrow> string \<Rightarrow> admin_user \<Rightarrow> jwt_payload" where
  "issue_token env now jti admin =
     \<lparr>jwt_sub = Some (admin_id admin), jwt_role = admin_role admin, jwt_jti = Some jti, jwt_iatMs = Some now,
      jwt_iat = now div 1000, jwt_exp = now div 1000 + jwt_lifetime env\<rparr>"

text \<open>The row of a refused sign-in: written when it locked or the cap admits it.\<close>

definition refused_sign_in ::
  "login_cap_limits \<Rightarrow> bool \<times> bool \<Rightarrow> int \<Rightarrow> http_request \<Rightarrow> login_input \<Rightarrow> bool \<Rightarrow> bool \<Rightarrow> auth_state \<Rightarrow> audit_entry list \<times> auth_state" where
  "refused_sign_in limits answers now req inp twoFactor locked st =
     (let network = redactIp (request_ip req);
          (written, st') = (if locked then (True, st) else admitRefusedSignIn limits answers network now st)
      in (if written
          then [\<lparr>en_action = ''auth.login'', en_target = signInTarget (in_username inp) st',
                 en_detail = SignInDetail twoFactor locked, en_actor = Some anonymous_actor,
                 en_sourceNetwork = Some network\<rparr>]
          else [], st'))"

definition loginRoute ::
  "auth_env \<Rightarrow> login_cap_limits \<Rightarrow> bool \<times> bool \<Rightarrow> int \<Rightarrow> http_request \<Rightarrow> login_input \<Rightarrow> string \<Rightarrow> auth_state \<Rightarrow> reply \<times> auth_state" where
  "loginRoute env limits answers now req inp jti st =
     (case login env now inp (request_ip req) st of
        (Inr (admin, _), st1) \<Rightarrow>
          (let r = (reply_ok 200)\<lparr>r_token := Some (issue_token env now jti admin)\<rparr>
           in (r, writeAuditOnSend now no_one
                 [\<lparr>en_action = ''auth.login'', en_target = (Some (admin_id admin), username admin),
                   en_detail = SignInDetail (totpEnabled admin) False, en_actor = Some (self_actor admin),
                   en_sourceNetwork = Some (redactIp (request_ip req))\<rparr>] r st1))
      | (Inl (AccountLockedError ttl), st1) \<Rightarrow> (reply_locked ttl, st1)
      | (Inl (InvalidCredentialsError locked), st1) \<Rightarrow>
          (let r = reply_error 401 ''INVALID_CREDENTIALS'';
               (entries, st2) = refused_sign_in limits answers now req inp False locked st1
           in (r, writeAuditOnSend now no_one entries r st2))
      | (Inl (InvalidTotpError locked), st1) \<Rightarrow>
          (let r = (reply_error 401 ''INVALID_TOTP'')\<lparr>r_requires2fa := True\<rparr>;
               (entries, st2) = refused_sign_in limits answers now req inp True locked st1
           in (r, writeAuditOnSend now no_one entries r st2))
      | (Inl TotpRequiredError, st1) \<Rightarrow> ((reply_error 401 ''TOTP_REQUIRED'')\<lparr>r_requires2fa := True\<rparr>, st1)
      | (Inl _, st1) \<Rightarrow> (reply_thrown, st1))"

text \<open>\<open>/^Bearer\s+(\S+)$/i\<close>.\<close>

definition bearer_token :: "string \<Rightarrow> string option" where
  "bearer_token header =
     (if to_lower (take 6 header) = ''bearer'' then
        let rest = drop 6 header; token = dropWhile is_ws rest
        in if rest \<noteq> token \<and> token \<noteq> [] \<and> list_all (\<lambda>c. \<not> is_ws c) token then Some token else None
      else None)"

definition revoke_one :: "auth_env \<Rightarrow> int \<Rightarrow> auth_state \<Rightarrow> string option \<Rightarrow> auth_state" where
  "revoke_one env now st token =
     (if \<not> truthy token then st
      else case jwt_verify env now (the token) of
             None \<Rightarrow> st
           | Some verified \<Rightarrow>
               (case jwt_jti verified of None \<Rightarrow> st | Some jti \<Rightarrow> revokeToken jti (jwt_exp verified) now st))"

definition logoutRoute :: "auth_env \<Rightarrow> int \<Rightarrow> http_request \<Rightarrow> auth_state \<Rightarrow> reply \<times> auth_state" where
  "logoutRoute env now req st =
     (let bearer = bearer_token (case authorization req of Some h \<Rightarrow> h | None \<Rightarrow> [])
      in ((reply_ok 204)\<lparr>r_cookieCleared := True\<rparr>,
          foldl (revoke_one env now) st (set_from [bearer, authCookie req])))"

definition registerRoute :: "auth_env \<Rightarrow> int \<Rightarrow> string \<Rightarrow> string \<Rightarrow> string \<Rightarrow> auth_state \<Rightarrow> reply \<times> auth_state" where
  "registerRoute env now i name password st =
     (case bootstrapFirstAdmin env i name password st of
        (Inr admin, st1) \<Rightarrow>
          (reply_ok 201, writeAuditOnSend now no_one
             [\<lparr>en_action = ''admin.register'', en_target = (Some (admin_id admin), username admin), en_detail = NoDetail,
               en_actor = Some (self_actor admin), en_sourceNetwork = None\<rparr>] (reply_ok 201) st1)
      | (Inl RegistrationDisabledError, st1) \<Rightarrow> (reply_error 403 ''REGISTRATION_DISABLED'', st1)
      | (Inl (AdminAlreadyExistsError _), st1) \<Rightarrow> (reply_error 409 ''CONFLICT'', st1)
      | (Inl _, st1) \<Rightarrow> (reply_thrown, st1))"

section \<open>Routes of a session\<close>

text \<open>\<open>sessionAuth\<close>: the hook, then the refusal of API tokens.\<close>

definition sessionAuth :: "auth_env \<Rightarrow> bool \<Rightarrow> int \<Rightarrow> http_request \<Rightarrow> auth_state \<Rightarrow> auth_verdict \<times> auth_state" where
  "sessionAuth env answers now req st =
     (let (v, st') = requireAuth env answers now req st in (requireSession v, st'))"

definition selfTarget :: "string \<Rightarrow> auth_state \<Rightarrow> string option \<times> string" where
  "selfTarget i st = (Some i, case findAdminById i st of Some a \<Rightarrow> username a | None \<Rightarrow> ''deleted admin'')"

definition twofaError :: "auth_error \<Rightarrow> reply" where
  "twofaError err =
     (case err of
        TotpBadCodeError \<Rightarrow> reply_error 400 ''INVALID_TOTP''
      | AccountLockedError ttl \<Rightarrow> reply_locked ttl
      | TotpAlreadyEnabledError \<Rightarrow> reply_error 409 ''CONFLICT''
      | TotpNotSetupError \<Rightarrow> reply_error 409 ''NOT_SETUP''
      | _ \<Rightarrow> reply_thrown)"

definition setupRoute :: "auth_env \<Rightarrow> bool \<Rightarrow> int \<Rightarrow> http_request \<Rightarrow> 8 word list \<Rightarrow> auth_state \<Rightarrow> reply \<times> auth_state" where
  "setupRoute env answers now req random_bytes st =
     (case sessionAuth env answers now req st of
        (Admitted (Some (i, _)) _, st1) \<Rightarrow>
          (case setupTotp random_bytes i st1 of
             (Inr _, st2) \<Rightarrow> (reply_ok 200, st2)
           | (Inl err, st2) \<Rightarrow> (twofaError err, st2))
      | (Turned_away code e, st1) \<Rightarrow> (reply_error code e, st1)
      | (_, st1) \<Rightarrow> (reply_thrown, st1))"

text \<open>Enabling and disabling differ in the service call and the action of their row.\<close>

definition twofaRoute ::
  "(string \<Rightarrow> auth_state \<Rightarrow> (auth_error + int) \<times> auth_state) \<Rightarrow> string \<Rightarrow> auth_env \<Rightarrow> bool \<Rightarrow> int \<Rightarrow> http_request \<Rightarrow> auth_state \<Rightarrow> reply \<times> auth_state" where
  "twofaRoute service action env answers now req st =
     (case sessionAuth env answers now req st of
        (Admitted (Some (i, role)) tok, st1) \<Rightarrow>
          (let entry = \<lparr>en_action = action, en_target = selfTarget i st1, en_detail = NoDetail, en_actor = None, en_sourceNetwork = None\<rparr>;
               (r, st2) = (case service i st1 of
                 (Inr _, st2) \<Rightarrow> (reply_ok 200, st2)
               | (Inl err, st2) \<Rightarrow> (twofaError err, st2))
           in (r, writeAuditOnSend now (Admitted (Some (i, role)) tok) [entry] r st2))
      | (Turned_away code e, st1) \<Rightarrow> (reply_error code e, st1)
      | (_, st1) \<Rightarrow> (reply_thrown, st1))"

definition enableRoute :: "auth_env \<Rightarrow> bool \<Rightarrow> int \<Rightarrow> http_request \<Rightarrow> string \<Rightarrow> auth_state \<Rightarrow> reply \<times> auth_state" where
  "enableRoute env answers now req code =
     twofaRoute (\<lambda>i. enableTotp env now i code) ''admin.2fa.enable'' env answers now req"

definition disableRoute :: "auth_env \<Rightarrow> bool \<Rightarrow> int \<Rightarrow> http_request \<Rightarrow> string \<Rightarrow> auth_state \<Rightarrow> reply \<times> auth_state" where
  "disableRoute env answers now req code =
     twofaRoute (\<lambda>i. disableTotp env now i code) ''admin.2fa.disable'' env answers now req"

definition passwordError :: "auth_error \<Rightarrow> reply" where
  "passwordError err =
     (case err of
        AccountLockedError ttl \<Rightarrow> reply_locked ttl
      | InvalidCurrentPasswordError _ \<Rightarrow> reply_error 403 ''INVALID_CURRENT_PASSWORD''
      | TotpRequiredError \<Rightarrow> (reply_error 403 ''TOTP_REQUIRED'')\<lparr>r_requires2fa := True\<rparr>
      | InvalidTotpError _ \<Rightarrow> reply_error 403 ''INVALID_TOTP''
      | PasswordUnchangedError \<Rightarrow> reply_error 400 ''PASSWORD_UNCHANGED''
      | _ \<Rightarrow> reply_thrown)"

text \<open>\<open>request.user\<close>, the payload the hook verified.\<close>

definition token_span :: "auth_env \<Rightarrow> int \<Rightarrow> http_request \<Rightarrow> int" where
  "token_span env now req =
     (case jwt_of_request env now req of Some p \<Rightarrow> jwt_exp p - jwt_iat p | None \<Rightarrow> 0)"

definition passwordRoute ::
  "auth_env \<Rightarrow> bool \<Rightarrow> int \<Rightarrow> http_request \<Rightarrow> change_password_input \<Rightarrow> auth_state \<Rightarrow> reply \<times> auth_state" where
  "passwordRoute env answers now req inp st =
     (case sessionAuth env answers now req st of
        (Admitted (Some (i, role)) tok, st1) \<Rightarrow>
          (case findAdminById i st1 of
             None \<Rightarrow> (reply_error 401 ''UNAUTHORIZED'', st1)
           | Some admin \<Rightarrow>
               let entry = \<lparr>en_action = ''admin.password.change'', en_target = (Some (admin_id admin), username admin),
                            en_detail = NoDetail, en_actor = None, en_sourceNetwork = None\<rparr>;
                   (r, st2) = (case checkPasswordChange env now admin inp (request_ip req) st1 of
                     (Inl err, st2) \<Rightarrow> (passwordError err, st2)
                   | (Inr _, st2) \<Rightarrow>
                       ((reply_ok 204)\<lparr>r_cookieCleared := True\<rparr>,
                        setAdminPassword env (admin_id admin) (in_newPassword inp)
                          (endSessionsBefore (admin_id admin) now (token_span env now req + 60) st2)))
               in (r, writeAuditOnSend now (Admitted (Some (i, role)) tok) [entry] r st2))
      | (Turned_away code e, st1) \<Rightarrow> (reply_error code e, st1)
      | (_, st1) \<Rightarrow> (reply_thrown, st1))"

section \<open>Routes that read\<close>

text \<open>The flag of a status answer: registration is open, the second factor is on. The public origin
  and the path prefix of the first are the configuration's.\<close>

definition statusRoute :: "auth_state \<Rightarrow> reply \<times> auth_state" where
  "statusRoute st = ((reply_ok 200)\<lparr>r_flag := Some (countAdmins st = 0)\<rparr>, st)"

text \<open>\<open>request.admin!.id\<close> of a token without an admin throws.\<close>

definition meRoute :: "auth_env \<Rightarrow> bool \<Rightarrow> int \<Rightarrow> http_request \<Rightarrow> auth_state \<Rightarrow> reply \<times> auth_state" where
  "meRoute env answers now req st =
     (case requireAuth env answers now req st of
        (Turned_away code e, st1) \<Rightarrow> (reply_error code e, st1)
      | (Admitted admin tok, st1) \<Rightarrow>
          if \<not> enforceScopes ''GET'' (Some ''/api/auth/me'') tok then (reply_error 403 ''FORBIDDEN'', st1)
          else (case admin of
                  None \<Rightarrow> (reply_thrown, st1)
                | Some (i, _) \<Rightarrow>
                    (case findAdminById i st1 of
                       None \<Rightarrow> (reply_error 404 ''NOT_FOUND'', st1)
                     | Some _ \<Rightarrow> (reply_ok 200, st1))))"

definition twofaStatusRoute :: "auth_env \<Rightarrow> bool \<Rightarrow> int \<Rightarrow> http_request \<Rightarrow> auth_state \<Rightarrow> reply \<times> auth_state" where
  "twofaStatusRoute env answers now req st =
     (case sessionAuth env answers now req st of
        (Admitted (Some (i, _)) _, st1) \<Rightarrow> ((reply_ok 200)\<lparr>r_flag := Some (getTotpStatus i st1)\<rparr>, st1)
      | (Turned_away code e, st1) \<Rightarrow> (reply_error code e, st1)
      | (_, st1) \<Rightarrow> (reply_thrown, st1))"

section \<open>The machine\<close>

datatype auth_request =
    AuthStatus
  | Me http_request bool
  | TwoFactorStatus http_request bool
  | SignIn http_request login_input string "bool \<times> bool"
  | SignOut http_request
  | Register string string string
  | ChangePassword http_request change_password_input bool
  | SetupTwoFactor http_request "8 word list" bool
  | EnableTwoFactor http_request string bool
  | DisableTwoFactor http_request string bool

fun auth_step :: "auth_env \<Rightarrow> login_cap_limits \<Rightarrow> int \<Rightarrow> auth_request \<Rightarrow> auth_state \<Rightarrow> reply \<times> auth_state" where
  "auth_step env limits now AuthStatus st = statusRoute st"
| "auth_step env limits now (Me req answers) st = meRoute env answers now req st"
| "auth_step env limits now (TwoFactorStatus req answers) st = twofaStatusRoute env answers now req st"
| "auth_step env limits now (SignIn req inp jti answers) st = loginRoute env limits answers now req inp jti st"
| "auth_step env limits now (SignOut req) st = logoutRoute env now req st"
| "auth_step env limits now (Register i name password) st = registerRoute env now i name password st"
| "auth_step env limits now (ChangePassword req inp answers) st = passwordRoute env answers now req inp st"
| "auth_step env limits now (SetupTwoFactor req bytes answers) st = setupRoute env answers now req bytes st"
| "auth_step env limits now (EnableTwoFactor req code answers) st = enableRoute env answers now req code st"
| "auth_step env limits now (DisableTwoFactor req code answers) st = disableRoute env answers now req code st"

end
