(* ===== verification/AuthRuns.thy ===== *)
theory AuthRuns
  imports AuthRoutes
begin

text \<open>
  What any run of the authentication routes keeps: the locks bound the guesses, a spent one-time
  code step is never accepted again, and an ended session stays ended. Two interpretations of
  \<open>failure_lock\<close> carry the bound: the lock of an address and a username, which a sign-in and a
  password change share, and the lock of an admin's second factor.
\<close>

section \<open>What the audit log and the cap leave alone\<close>

lemma recordAudit_state [simp]:
  "redis (recordAudit now actor es outcome refusal st) = redis st"
  "admins (recordAudit now actor es outcome refusal st) = admins st"
  by (simp_all add: recordAudit_def)

lemma writeAuditOnSend_state [simp]:
  "redis (writeAuditOnSend now v es r st) = redis st" "admins (writeAuditOnSend now v es r st) = admins st"
  by (simp_all add: writeAuditOnSend_def)

lemma summarise_state [simp]:
  "redis (summarise now key net n w st) = redis st" "admins (summarise now key net n w st) = admins st"
  by (simp_all add: summarise_def)

lemma cap_count_admins: "cap_count a now key ttl st = (n, st') \<Longrightarrow> admins st' = admins st"
  by (auto simp: cap_count_def split: prod.splits if_splits)

lemma cap_count_redis: "cap_count a now key ttl st = (n, st') \<Longrightarrow> k \<noteq> key \<Longrightarrow> redis st' k = redis st k"
  using cap_count_other [of k key now ttl st] by (cases a) (auto simp: cap_count_def [of False])

text \<open>The keys of the routes are not counters of the log.\<close>

definition auth_key :: "string \<Rightarrow> bool" where
  "auth_key k \<longleftrightarrow> (\<forall>w x. k \<noteq> counterKey w x)"

lemma auth_keys [simp]: "auth_key (FAIL_KEY ip name)" "auth_key (FAIL_KEY_2fa i)" "auth_key (revokedKey jti)" "auth_key (endedKey i)"
  by (simp_all add: auth_key_def counterKey_def FAIL_KEY_def FAIL_KEY_2fa_def revokedKey_def endedKey_def)

lemma admitRefusedSignIn_state:
  assumes "admitRefusedSignIn limits answers network now st = (b, st')"
  shows "admins st' = admins st" "auth_key k \<Longrightarrow> redis st' k = redis st k"
proof -
  show "admins st' = admins st"
    using assms
    by (auto simp: admitRefusedSignIn_def Let_def dest!: cap_count_admins split: prod.splits option.splits if_splits)
  show "redis st' k = redis st k" if "auth_key k"
    using assms that
    by (auto simp: admitRefusedSignIn_def auth_key_def Let_def dest!: cap_count_redis [where k = k]
        split: prod.splits option.splits if_splits)
qed

lemma refused_sign_in_state:
  assumes "refused_sign_in limits answers now req inp tf locked st = (es, st')"
  shows "admins st' = admins st" "auth_key k \<Longrightarrow> redis st' k = redis st k"
  using assms
  by (auto simp: refused_sign_in_def Let_def dest: admitRefusedSignIn_state split: prod.splits if_splits)

section \<open>The outcome of a sign-in route\<close>

definition is_refusal :: "auth_error + 'a \<Rightarrow> bool" where
  "is_refusal res \<longleftrightarrow> (\<exists>l. res = Inl (InvalidCredentialsError l) \<or> res = Inl (InvalidTotpError l) \<or>
     res = Inl (InvalidCurrentPasswordError l))"

definition refused_reply :: "reply \<Rightarrow> bool" where
  "refused_reply r \<longleftrightarrow> r_error r \<in> {''INVALID_CREDENTIALS'', ''INVALID_TOTP'', ''INVALID_CURRENT_PASSWORD''}"

lemmas reply_defs = reply_ok_def reply_error_def reply_locked_def reply_thrown_def

lemma loginRoute_state:
  assumes "lock_config_ok (lockout env)" and "loginRoute env limits answers now req inp jti st = (r, st')"
  obtains res st1 where "login env now inp (request_ip req) st = (res, st1)"
    and "admins st' = admins st1" and "\<And>k. auth_key k \<Longrightarrow> redis st' k = redis st1 k"
    and "refused_reply r \<longleftrightarrow> is_refusal res" and "r_status r = 200 \<longleftrightarrow> (\<exists>x. res = Inr x)"
proof -
  obtain res st1 where l: "login env now inp (request_ip req) st = (res, st1)"
    by fastforce
  show ?thesis
    using assms(1) l
  proof (cases rule: login_cases)
    case (locked ttl)
    then show ?thesis
      using that [OF l] assms(2) l by (auto simp: loginRoute_def reply_defs refused_reply_def is_refusal_def)
  next
    case (refused l')
    then obtain tf es st2 where st2: "refused_sign_in limits answers now req inp tf l' st1 = (es, st2)"
      and r: "st' = writeAuditOnSend now no_one es r st2" "r_status r = 401" "refused_reply r"
      using assms(2) l
      by (auto simp: loginRoute_def reply_defs refused_reply_def Let_def split: prod.splits)
    show ?thesis
      using refused(1) r refused_sign_in_state [OF st2]
      by (intro that [OF l]) (auto simp: is_refusal_def)
  next
    case (thrown e)
    then show ?thesis
      using that [OF l] assms(2) l by (auto simp: loginRoute_def reply_defs refused_reply_def is_refusal_def)
  next
    case (passed admin s)
    then show ?thesis
      using that [OF l] assms(2) l by (auto simp: loginRoute_def reply_defs refused_reply_def is_refusal_def Let_def)
  qed
qed

lemma sessionAuth_state:
  "sessionAuth env answers now req st = (v, st') \<Longrightarrow> redis st' = redis st \<and> admins st' = admins st \<and> auditRows st' = auditRows st"
  by (auto simp: sessionAuth_def dest: requireAuth_state split: prod.splits)

lemma sessionAuth_admitted:
  "sessionAuth env answers now req st = (Admitted a t, st') \<Longrightarrow> t = None"
  by (auto simp: sessionAuth_def requireSession_def split: prod.splits auth_verdict.splits option.splits)

lemma sessionAuth_turned_away:
  "sessionAuth env answers now req st = (Turned_away code e, st') \<Longrightarrow>
   e \<in> {''UNAUTHORIZED'', ''AUTH_UNAVAILABLE'', ''FORBIDDEN''} \<and> 400 \<le> code"
  by (auto simp: sessionAuth_def requireSession_def requireAuth_def Let_def
      split: prod.splits auth_verdict.splits option.splits if_splits session_state.splits)

text \<open>The admin a password change or a change of the second factor acts for.\<close>

definition acting :: "auth_env \<Rightarrow> bool \<Rightarrow> int \<Rightarrow> http_request \<Rightarrow> auth_state \<Rightarrow> string option" where
  "acting env answers now req st =
     (case sessionAuth env answers now req st of (Admitted (Some (i, _)) _, _) \<Rightarrow> Some i | _ \<Rightarrow> None)"

lemma sessionAuth_same:
  "sessionAuth env answers now req st = (Admitted a t, st') \<Longrightarrow> st' = st"
  by (auto simp: sessionAuth_def requireSession_def requireAuth_def tryApiToken_def
      split: prod.splits auth_verdict.splits option.splits if_splits)

definition acting_admin :: "auth_env \<Rightarrow> bool \<Rightarrow> int \<Rightarrow> http_request \<Rightarrow> auth_state \<Rightarrow> admin_user option" where
  "acting_admin env answers now req st =
     (case acting env answers now req st of None \<Rightarrow> None | Some i \<Rightarrow> findAdminById i st)"

text \<open>A session route either turns the request away and leaves rows and keys alone, or serves the
  admin it acts for.\<close>

definition untouched :: "auth_state \<Rightarrow> auth_state \<Rightarrow> bool" where
  "untouched st st' \<longleftrightarrow> redis st' = redis st \<and> admins st' = admins st"

lemma session_cases:
  obtains (away) code e st1 where "sessionAuth env answers now req st = (Turned_away code e, st1)" "untouched st st1"
      "e \<in> {''UNAUTHORIZED'', ''AUTH_UNAVAILABLE'', ''FORBIDDEN''}" "400 \<le> code" "acting env answers now req st = None"
  | (nobody) "sessionAuth env answers now req st = (Admitted None None, st)" "acting env answers now req st = None"
  | (admitted) i role where "sessionAuth env answers now req st = (Admitted (Some (i, role)) None, st)"
      "acting env answers now req st = Some i"
proof -
  obtain v st1 where v: "sessionAuth env answers now req st = (v, st1)"
    by fastforce
  show ?thesis
  proof (cases v)
    case (Turned_away code e)
    then show ?thesis
      using v sessionAuth_state sessionAuth_turned_away away [of code e st1] by (fastforce simp: acting_def untouched_def)
  next
    case (Admitted a t)
    then have "t = None" "st1 = st"
      using v sessionAuth_admitted sessionAuth_same by blast+
    then show ?thesis
      using v Admitted nobody admitted by (cases a) (auto simp: acting_def)
  qed
qed

lemma passwordRoute_cases:
  assumes "passwordRoute env answers now req inp st = (r, st')"
  obtains (away) "untouched st st'" "\<not> refused_reply r" "r_status r \<noteq> 204" "acting_admin env answers now req st = None"
  | (refused) admin e st1 where "acting_admin env answers now req st = Some admin"
      "checkPasswordChange env now admin inp (request_ip req) st = (Inl e, st1)"
      "r = passwordError e" "untouched st1 st'"
  | (changed) admin s st1 where "acting_admin env answers now req st = Some admin"
      "checkPasswordChange env now admin inp (request_ip req) st = (Inr s, st1)"
      "r = (reply_ok 204)\<lparr>r_cookieCleared := True\<rparr>"
      "untouched (setAdminPassword env (admin_id admin) (in_newPassword inp)
        (endSessionsBefore (admin_id admin) now (token_span env now req + 60) st1)) st'"
proof (cases rule: session_cases [of env answers now req st])
  case (away code e st1)
  then show ?thesis
    using assms that(1) by (auto simp: passwordRoute_def reply_defs refused_reply_def acting_admin_def)
next
  case nobody
  then show ?thesis
    using assms that(1) by (auto simp: passwordRoute_def reply_defs refused_reply_def acting_admin_def untouched_def)
next
  case (admitted i role)
  show ?thesis
  proof (cases "findAdminById i st")
    case None
    then show ?thesis
      using assms admitted that(1) by (auto simp: passwordRoute_def reply_defs refused_reply_def acting_admin_def untouched_def)
  next
    case (Some admin)
    then have a: "acting_admin env answers now req st = Some admin"
      using admitted by (simp add: acting_admin_def)
    obtain res st1 where c: "checkPasswordChange env now admin inp (request_ip req) st = (res, st1)"
      by fastforce
    show ?thesis
    proof (cases res)
      case (Inl e)
      then show ?thesis
        using assms admitted Some c that(2) [OF a] by (auto simp: passwordRoute_def Let_def untouched_def)
    next
      case (Inr s)
      then show ?thesis
        using assms admitted Some c that(3) [OF a] by (auto simp: passwordRoute_def Let_def untouched_def)
    qed
  qed
qed

lemma twofaRoute_cases:
  assumes "twofaRoute service action env answers now req st = (r, st')"
  obtains (away) "untouched st st'" "r_error r \<noteq> ''INVALID_TOTP''" "r_status r \<noteq> 200" "acting env answers now req st = None"
  | (served) i res st1 where "acting env answers now req st = Some i" "service i st = (res, st1)" "untouched st1 st'"
      "r = (case res of Inl e \<Rightarrow> twofaError e | Inr _ \<Rightarrow> reply_ok 200)"
proof (cases rule: session_cases [of env answers now req st])
  case (away code e st1)
  then have "r_status r = code" "r_error r = e" "st' = st1"
    using assms by (auto simp: twofaRoute_def reply_defs)
  then show ?thesis
    using away that(1) by auto
next
  case nobody
  then show ?thesis
    using assms that(1) by (auto simp: twofaRoute_def reply_defs untouched_def)
next
  case (admitted i role)
  obtain res st1 where "service i st = (res, st1)"
    by fastforce
  then show ?thesis
    using assms admitted that(2) by (cases res) (auto simp: twofaRoute_def Let_def untouched_def)
qed

text \<open>The routes that only read.\<close>

definition reading :: "auth_request \<Rightarrow> bool" where
  "reading q \<longleftrightarrow> (case q of AuthStatus \<Rightarrow> True | Me _ _ \<Rightarrow> True | TwoFactorStatus _ _ \<Rightarrow> True | _ \<Rightarrow> False)"

lemma reading_untouched: "reading q \<Longrightarrow> auth_step env limits now q st = (r, st') \<Longrightarrow> untouched st st'"
  by (auto simp: reading_def statusRoute_def meRoute_def twofaStatusRoute_def untouched_def
      dest: requireAuth_state sessionAuth_state
      split: auth_request.splits prod.splits auth_verdict.splits option.splits if_splits)

section \<open>Keys under each route\<close>

lemma after_failure_redis:
  "redis (after_failure env now key st) k = (if k = key then Some (bumped (lockout env) now (redis st key)) else redis st k)"
  "admins (after_failure env now key st) = admins st"
  by (simp_all add: after_failure_def)

lemma clearFailures_redis: "redis (clearFailures ip name st) k = (if k = FAIL_KEY ip name then None else redis st k)"
  by (simp add: clearFailures_def rd_del_def)

lemma login_redis:
  assumes "lock_config_ok (lockout env)" and "login env now inp ip st = (res, st')"
  shows "is_refusal res \<Longrightarrow> \<not> entry_locked (lockout env) now (redis st (FAIL_KEY ip (in_username inp))) \<and>
      redis st' (FAIL_KEY ip (in_username inp)) = Some (bumped (lockout env) now (redis st (FAIL_KEY ip (in_username inp))))"
    and "k \<noteq> FAIL_KEY ip (in_username inp) \<or> (\<not> is_refusal res \<and> (\<forall>x. res \<noteq> Inr x)) \<Longrightarrow> redis st' k = redis st k"
  using assms
  by (cases rule: login_cases; auto simp: is_refusal_def after_failure_redis clearFailures_redis)+

lemma checkPasswordChange_redis:
  assumes "lock_config_ok (lockout env)" and "checkPasswordChange env now admin inp ip st = (res, st')"
  shows "is_refusal res \<Longrightarrow> \<not> entry_locked (lockout env) now (redis st (FAIL_KEY ip (username admin))) \<and>
      redis st' (FAIL_KEY ip (username admin)) = Some (bumped (lockout env) now (redis st (FAIL_KEY ip (username admin))))"
    and "k \<noteq> FAIL_KEY ip (username admin) \<or> (\<not> is_refusal res \<and> (\<forall>x. res \<noteq> Inr x)) \<Longrightarrow> redis st' k = redis st k"
  using assms
  by (cases rule: checkPasswordChange_cases; auto simp: is_refusal_def after_failure_redis clearFailures_redis)+

lemma twofa_outcome_redis:
  assumes "twofa_outcome env now i code st res st'"
  shows "res = Inl TotpBadCodeError \<Longrightarrow> \<not> entry_locked (lockout env) now (redis st (FAIL_KEY_2fa i)) \<and>
      redis st' (FAIL_KEY_2fa i) = Some (bumped (lockout env) now (redis st (FAIL_KEY_2fa i)))"
    and "k \<noteq> FAIL_KEY_2fa i \<or> (res \<noteq> Inl TotpBadCodeError \<and> (\<forall>x. res \<noteq> Inr x)) \<Longrightarrow> redis st' k = redis st k"
  using assms by (auto simp: twofa_outcome_def after_failure_redis)

lemma revokeToken_redis:
  "k \<noteq> revokedKey jti \<Longrightarrow> redis (revokeToken jti e now st) k = redis st k" "admins (revokeToken jti e now st) = admins st"
  by (simp_all add: revokeToken_def rd_set_ex_def Let_def)

lemma logout_redis:
  assumes "\<And>jti. k \<noteq> revokedKey jti"
  shows "redis (foldl (revoke_one env now) st toks) k = redis st k" "admins (foldl (revoke_one env now) st toks) = admins st"
proof -
  have "redis (revoke_one env now st tok) k = redis st k \<and> admins (revoke_one env now st tok) = admins st" for st tok
    using revokeToken_redis assms by (simp add: revoke_one_def split: option.split)
  then show "redis (foldl (revoke_one env now) st toks) k = redis st k" "admins (foldl (revoke_one env now) st toks) = admins st"
    by (induction toks arbitrary: st) simp_all
qed

lemma insert_admin_state: "insert_admin a st = (res, st') \<Longrightarrow> redis st' = redis st"
  by (auto simp: insert_admin_def split: if_splits)

lemma registerRoute_redis: "registerRoute env now i name pw st = (r, st') \<Longrightarrow> redis st' = redis st"
  by (auto simp: registerRoute_def bootstrapFirstAdmin_def Let_def dest!: insert_admin_state
      split: prod.splits sum.splits if_splits auth_error.splits)

lemma setupTotp_redis: "setupTotp bytes i st = (res, st') \<Longrightarrow> redis st' = redis st"
  by (auto simp: setupTotp_def Let_def split: option.splits if_splits)

lemma setupRoute_redis: "setupRoute env answers now req bytes st = (r, st') \<Longrightarrow> redis st' = redis st"
  by (cases rule: session_cases [of env answers now req st])
    (auto simp: setupRoute_def untouched_def dest!: setupTotp_redis split: prod.splits sum.splits)

lemma endSessionsBefore_redis:
  "k \<noteq> endedKey i \<Longrightarrow> redis (endSessionsBefore i ms ttl st) k = redis st k" "admins (endSessionsBefore i ms ttl st) = admins st"
  by (simp_all add: endSessionsBefore_def rd_set_ex_def)

lemma setAdminPassword_redis [simp]: "redis (setAdminPassword env i pw st) = redis st"
  by (simp add: setAdminPassword_def)

lemma is_refusal_Inl:
  "is_refusal (Inl e) = (case e of InvalidCredentialsError _ \<Rightarrow> True | InvalidTotpError _ \<Rightarrow> True
     | InvalidCurrentPasswordError _ \<Rightarrow> True | _ \<Rightarrow> False)"
  by (cases e) (simp_all add: is_refusal_def)

lemma passwordError_status: "r_status (passwordError e) \<noteq> 204"
  by (cases e) (simp_all add: passwordError_def reply_defs)

lemma checkPasswordChange_error:
  "lock_config_ok (lockout env) \<Longrightarrow> checkPasswordChange env now admin inp ip st = (Inl e, st') \<Longrightarrow>
   refused_reply (passwordError e) \<longleftrightarrow> is_refusal (Inl e)"
  by (erule (1) checkPasswordChange_cases)
    (auto simp: passwordError_def reply_defs refused_reply_def is_refusal_Inl)

text \<open>A session route of the second factor, in one statement for both of its services.\<close>

definition two_factor_route :: "auth_env \<Rightarrow> int \<Rightarrow> auth_request \<Rightarrow> auth_state \<Rightarrow> (http_request \<times> string \<times> bool) option" where
  "two_factor_route env now q st =
     (case q of EnableTwoFactor req code a \<Rightarrow> Some (req, code, a) | DisableTwoFactor req code a \<Rightarrow> Some (req, code, a) | _ \<Rightarrow> None)"

lemma two_factor_cases:
  assumes "lock_config_ok (lockout env)" and "auth_step env limits now q st = (r, st')"
    and "two_factor_route env now q st = Some (req, code, answers)"
  obtains (away) "untouched st st'" "r_error r \<noteq> ''INVALID_TOTP''" "r_status r \<noteq> 200" "acting env answers now req st = None"
  | (served) i res st1 where "acting env answers now req st = Some i" "twofa_outcome env now i code st res st1" "untouched st1 st'"
      "r = (case res of Inl e \<Rightarrow> twofaError e | Inr _ \<Rightarrow> reply_ok 200)"
proof -
  obtain service action where t: "twofaRoute service action env answers now req st = (r, st')"
    and o: "\<And>i res st1. service i st = (res, st1) \<Longrightarrow> twofa_outcome env now i code st res st1"
    using assms enableTotp_outcome [OF assms(1)] disableTotp_outcome [OF assms(1)]
    by (auto simp: two_factor_route_def enableRoute_def disableRoute_def split: auth_request.splits)
  from t show ?thesis
    by (cases rule: twofaRoute_cases) (use that o in blast)+
qed

lemma twofaError_bad: "r_error (twofaError e) = ''INVALID_TOTP'' \<longleftrightarrow> e = TotpBadCodeError" "r_status (twofaError e) \<noteq> 200"
  by (cases e; simp add: twofaError_def reply_defs; fail) (cases e; simp add: twofaError_def reply_defs)

section \<open>The two locks\<close>

text \<open>A counted refusal of the lock of a key, and a success that clears it.\<close>

fun sign_in_failure :: "auth_env \<Rightarrow> string \<Rightarrow> int \<Rightarrow> auth_state \<Rightarrow> auth_request \<Rightarrow> reply \<Rightarrow> bool" where
  "sign_in_failure env key now st (SignIn req inp _ _) r \<longleftrightarrow>
     FAIL_KEY (request_ip req) (in_username inp) = key \<and> refused_reply r"
| "sign_in_failure env key now st (ChangePassword req inp answers) r \<longleftrightarrow>
     (case acting_admin env answers now req st of
        None \<Rightarrow> False
      | Some admin \<Rightarrow> FAIL_KEY (request_ip req) (username admin) = key \<and> refused_reply r)"
| "sign_in_failure env key now st _ r \<longleftrightarrow> False"

fun sign_in_success :: "auth_env \<Rightarrow> string \<Rightarrow> int \<Rightarrow> auth_state \<Rightarrow> auth_request \<Rightarrow> reply \<Rightarrow> bool" where
  "sign_in_success env key now st (SignIn req inp _ _) r \<longleftrightarrow>
     FAIL_KEY (request_ip req) (in_username inp) = key \<and> r_status r = 200"
| "sign_in_success env key now st (ChangePassword req inp answers) r \<longleftrightarrow>
     (case acting_admin env answers now req st of
        None \<Rightarrow> False
      | Some admin \<Rightarrow> FAIL_KEY (request_ip req) (username admin) = key \<and> r_status r = 204)"
| "sign_in_success env key now st _ r \<longleftrightarrow> False"

definition code_failure :: "auth_env \<Rightarrow> string \<Rightarrow> int \<Rightarrow> auth_state \<Rightarrow> auth_request \<Rightarrow> reply \<Rightarrow> bool" where
  "code_failure env i now st q r \<longleftrightarrow>
     (case two_factor_route env now q st of
        None \<Rightarrow> False
      | Some (req, code, answers) \<Rightarrow> acting env answers now req st = Some i \<and> r_error r = ''INVALID_TOTP'')"

definition code_success :: "auth_env \<Rightarrow> string \<Rightarrow> int \<Rightarrow> auth_state \<Rightarrow> auth_request \<Rightarrow> reply \<Rightarrow> bool" where
  "code_success env i now st q r \<longleftrightarrow>
     (case two_factor_route env now q st of
        None \<Rightarrow> False
      | Some (req, code, answers) \<Rightarrow> acting env answers now req st = Some i \<and> r_status r = 200)"

text \<open>One step and a key of the sign-in lock.\<close>

lemma sign_in_step:
  assumes ok: "lock_config_ok (lockout env)" and step: "auth_step env limits now q st = (r, st')"
    and key: "key = FAIL_KEY ip name"
  shows "sign_in_failure env key now st q r \<Longrightarrow>
      \<not> entry_locked (lockout env) now (redis st key) \<and> redis st' key = Some (bumped (lockout env) now (redis st key))"
    and "\<not> sign_in_failure env key now st q r \<Longrightarrow> \<not> sign_in_success env key now st q r \<Longrightarrow> redis st' key = redis st key"
proof -
  have "(sign_in_failure env key now st q r \<longrightarrow>
      \<not> entry_locked (lockout env) now (redis st key) \<and> redis st' key = Some (bumped (lockout env) now (redis st key))) \<and>
    (\<not> sign_in_failure env key now st q r \<longrightarrow> \<not> sign_in_success env key now st q r \<longrightarrow> redis st' key = redis st key)"
  proof (cases q)
    case AuthStatus
    then show ?thesis
      using reading_untouched [OF _ step] by (simp add: reading_def untouched_def)
  next
    case (Me req answers)
    then show ?thesis
      using reading_untouched [OF _ step] by (simp add: reading_def untouched_def)
  next
    case (TwoFactorStatus req answers)
    then show ?thesis
      using reading_untouched [OF _ step] by (simp add: reading_def untouched_def)
  next
    case (SignIn req inp jti answers)
    have "loginRoute env limits answers now req inp jti st = (r, st')"
      using step SignIn by simp
    then obtain res st1 where l: "login env now inp (request_ip req) st = (res, st1)" "redis st' key = redis st1 key"
      "refused_reply r \<longleftrightarrow> is_refusal res" "r_status r = 200 \<longleftrightarrow> (\<exists>x. res = Inr x)"
      by (rule loginRoute_state [OF ok]) (auto simp: key)
    then show ?thesis
      using login_redis [OF ok l(1)] SignIn by fastforce
  next
    case (ChangePassword req inp answers)
    have "passwordRoute env answers now req inp st = (r, st')"
      using step ChangePassword by simp
    then show ?thesis
    proof (cases rule: passwordRoute_cases)
      case away
      then show ?thesis
        using ChangePassword by (simp add: untouched_def)
    next
      case (refused admin e st1)
      then show ?thesis
        using checkPasswordChange_redis [OF ok refused(2)] checkPasswordChange_error [OF ok refused(2)]
          passwordError_status [of e] ChangePassword
        by (auto simp: untouched_def)
    next
      case (changed admin s st1)
      then show ?thesis
        using checkPasswordChange_redis(2) [OF ok changed(2), of key] ChangePassword
        by (auto simp: untouched_def endSessionsBefore_redis key refused_reply_def reply_defs)
    qed
  next
    case (SignOut req)
    then show ?thesis
      using step by (auto simp: logoutRoute_def Let_def logout_redis key)
  next
    case (Register i n pw)
    then show ?thesis
      using step registerRoute_redis by fastforce
  next
    case (SetupTwoFactor req bytes answers)
    then show ?thesis
      using step setupRoute_redis by fastforce
  next
    case (EnableTwoFactor req code answers)
    then have "two_factor_route env now q st = Some (req, code, answers)"
      by (simp add: two_factor_route_def)
    with ok step show ?thesis
      by (cases rule: two_factor_cases) (use EnableTwoFactor twofa_outcome_redis(2) in \<open>auto simp: untouched_def key\<close>)
  next
    case (DisableTwoFactor req code answers)
    then have "two_factor_route env now q st = Some (req, code, answers)"
      by (simp add: two_factor_route_def)
    with ok step show ?thesis
      by (cases rule: two_factor_cases) (use DisableTwoFactor twofa_outcome_redis(2) in \<open>auto simp: untouched_def key\<close>)
  qed
  then show "sign_in_failure env key now st q r \<Longrightarrow>
      \<not> entry_locked (lockout env) now (redis st key) \<and> redis st' key = Some (bumped (lockout env) now (redis st key))"
    "\<not> sign_in_failure env key now st q r \<Longrightarrow> \<not> sign_in_success env key now st q r \<Longrightarrow> redis st' key = redis st key"
    by blast+
qed

interpretation sign_in_lock: failure_lock "lockout env" "\<lambda>st. redis st (FAIL_KEY ip name)" "auth_step env limits"
  "sign_in_failure env (FAIL_KEY ip name)" "sign_in_success env (FAIL_KEY ip name)"
  for env limits ip name
  by unfold_locales (use sign_in_step [OF _ _ refl] in blast)+

text \<open>The other routes and a key they never write.\<close>

lemma other_routes_redis:
  assumes ok: "lock_config_ok (lockout env)" and step: "auth_step env limits now q st = (r, st')"
    and none: "two_factor_route env now q st = None" and k: "auth_key k" "\<And>ip name. k \<noteq> FAIL_KEY ip name"
    and "\<And>jti. k \<noteq> revokedKey jti" "\<And>i. k \<noteq> endedKey i"
  shows "redis st' k = redis st k"
proof (cases q)
  case (SignIn req inp jti answers)
  then have "loginRoute env limits answers now req inp jti st = (r, st')"
    using step by simp
  then obtain res st1 where "login env now inp (request_ip req) st = (res, st1)" "redis st' k = redis st1 k"
    by (rule loginRoute_state [OF ok]) (use k(1) in auto)
  then show ?thesis
    using login_redis(2) [OF ok] k(2) by metis
next
  case (ChangePassword req inp answers)
  then have "passwordRoute env answers now req inp st = (r, st')"
    using step by simp
  then show ?thesis
  proof (cases rule: passwordRoute_cases)
    case (refused admin e st1)
    then show ?thesis
      using checkPasswordChange_redis(2) [OF ok refused(2), of k] k(2) by (simp add: untouched_def)
  next
    case (changed admin s st1)
    then show ?thesis
      using checkPasswordChange_redis(2) [OF ok changed(2), of k] k(2) assms(7) by (simp add: untouched_def endSessionsBefore_redis)
  qed (simp add: untouched_def)
next
  case (SignOut req)
  then show ?thesis
    using step assms(6) by (auto simp: logoutRoute_def Let_def logout_redis)
next
  case (Register i n pw)
  then show ?thesis
    using step registerRoute_redis by fastforce
next
  case (SetupTwoFactor req bytes answers)
  then show ?thesis
    using step setupRoute_redis by fastforce
qed (use none reading_untouched [OF _ step] in \<open>simp_all add: two_factor_route_def reading_def untouched_def\<close>)

lemma code_step:
  assumes ok: "lock_config_ok (lockout env)" and step: "auth_step env limits now q st = (r, st')"
    and key: "key = FAIL_KEY_2fa i"
  shows "code_failure env i now st q r \<Longrightarrow>
      \<not> entry_locked (lockout env) now (redis st key) \<and> redis st' key = Some (bumped (lockout env) now (redis st key))"
    and "\<not> code_failure env i now st q r \<Longrightarrow> \<not> code_success env i now st q r \<Longrightarrow> redis st' key = redis st key"
proof -
  have "(code_failure env i now st q r \<longrightarrow>
      \<not> entry_locked (lockout env) now (redis st key) \<and> redis st' key = Some (bumped (lockout env) now (redis st key))) \<and>
    (\<not> code_failure env i now st q r \<longrightarrow> \<not> code_success env i now st q r \<longrightarrow> redis st' key = redis st key)"
  proof (cases "two_factor_route env now q st")
    case None
    then show ?thesis
      using other_routes_redis [OF ok step None, of key] by (simp add: code_failure_def key)
  next
    case (Some rca)
    then obtain req code answers where t: "two_factor_route env now q st = Some (req, code, answers)"
      by (cases rca) auto
    from ok step t show ?thesis
    proof (cases rule: two_factor_cases)
      case away
      then show ?thesis
        by (simp add: code_failure_def t untouched_def)
    next
      case (served j res st1)
      have e: "r_error r = ''INVALID_TOTP'' \<longleftrightarrow> res = Inl TotpBadCodeError" "r_status r = 200 \<longleftrightarrow> (\<exists>x. res = Inr x)"
        using served(4) twofaError_bad by (cases res; simp add: reply_defs)+
      show ?thesis
      proof (cases "j = i")
        case True
        then show ?thesis
          using twofa_outcome_redis [OF served(2)] served(1,3) e
          by (auto simp: code_failure_def code_success_def t untouched_def key)
      next
        case False
        then show ?thesis
          using twofa_outcome_redis(2) [OF served(2), of key] served(1,3)
          by (simp add: code_failure_def t untouched_def key)
      qed
    qed
  qed
  then show "code_failure env i now st q r \<Longrightarrow>
      \<not> entry_locked (lockout env) now (redis st key) \<and> redis st' key = Some (bumped (lockout env) now (redis st key))"
    "\<not> code_failure env i now st q r \<Longrightarrow> \<not> code_success env i now st q r \<Longrightarrow> redis st' key = redis st key"
    by blast+
qed

interpretation code_lock: failure_lock "lockout env" "\<lambda>st. redis st (FAIL_KEY_2fa i)" "auth_step env limits"
  "code_failure env i" "code_success env i"
  for env limits i
  by unfold_locales (use code_step [OF _ _ refl] in blast)+



section \<open>One-time codes\<close>

text \<open>The step a code stands for at an admin whose second factor is on.\<close>

definition presented :: "auth_env \<Rightarrow> int \<Rightarrow> admin_user \<Rightarrow> string option \<Rightarrow> (string \<times> int) option" where
  "presented env now admin code =
     (if truthy (totpSecret admin) \<and> code \<noteq> None
      then (case verifyTotpStep (hmac_sha1 env) (the (totpSecret admin)) (the code) (now div 1000) 1 of
              Inr (Some s) \<Rightarrow> Some (admin_id admin, s) | _ \<Rightarrow> None)
      else None)"

text \<open>The admin and the step a request was accepted for, if a code was part of it.\<close>

fun spent_by :: "auth_env \<Rightarrow> int \<Rightarrow> auth_state \<Rightarrow> auth_request \<Rightarrow> reply \<Rightarrow> (string \<times> int) option" where
  "spent_by env now st (SignIn req inp _ _) r =
     (case findAdminByUsername (in_username inp) st of
        Some a \<Rightarrow> if r_status r = 200 \<and> totpEnabled a then presented env now a (in_totpCode inp) else None
      | None \<Rightarrow> None)"
| "spent_by env now st (ChangePassword req inp answers) r =
     (case acting_admin env answers now req st of
        Some a \<Rightarrow> if r_status r = 204 \<and> totpEnabled a then presented env now a (in_changeCode inp) else None
      | None \<Rightarrow> None)"
| "spent_by env now st (EnableTwoFactor req code answers) r =
     (case acting env answers now req st of
        Some i \<Rightarrow> (case live_admin i st of Some a \<Rightarrow> if r_status r = 200 then presented env now a (Some code) else None | None \<Rightarrow> None)
      | None \<Rightarrow> None)"
| "spent_by env now st (DisableTwoFactor req code answers) r =
     (case acting env answers now req st of
        Some i \<Rightarrow> (case live_admin i st of Some a \<Rightarrow> if r_status r = 200 then presented env now a (Some code) else None | None \<Rightarrow> None)
      | None \<Rightarrow> None)"
| "spent_by env now st _ r = None"

definition spent_steps :: "auth_env \<Rightarrow> string \<Rightarrow> (auth_state, auth_request, reply) served list \<Rightarrow> int list" where
  "spent_steps env i outs =
     concat (map (\<lambda>(t, s, q, r). case spent_by env t s q r of Some (j, n) \<Rightarrow> if j = i then [n] else [] | None \<Rightarrow> []) outs)"

text \<open>The last step of an admin only moves on.\<close>

definition moved_on :: "int option \<Rightarrow> int option \<Rightarrow> bool" where
  "moved_on l l' \<longleftrightarrow> l' = l \<or> (\<exists>s. l' = Some s \<and> past l s)"

lemma moved_on_refl [simp]: "moved_on l l"
  by (simp add: moved_on_def)

lemma past_moved_on: "moved_on l l' \<Longrightarrow> past l' s \<Longrightarrow> past l s"
  by (auto simp: moved_on_def past_def split: option.splits)

lemma last_step_cong: "admins st' = admins st \<Longrightarrow> last_step i st' = last_step i st"
  by (simp add: last_step_def)

lemma ids_ok_cong: "admins st' = admins st \<Longrightarrow> ids_ok st' = ids_ok st"
  by (simp add: ids_ok_def)

lemma last_step_row: "List.find (\<lambda>b. admin_id b = i) (admins st) = Some a \<Longrightarrow> last_step i st = totpLastUsedStep a"
  by (simp add: last_step_def)

text \<open>Recording a step the second factor let through.\<close>

lemma record_step_moves:
  assumes row: "List.find (\<lambda>b. admin_id b = admin_id admin) (admins st) = Some admin"
    and passed: "factor_passed env now admin code s"
  shows "moved_on (last_step i st) (last_step i (record_step (admin_id admin) s st))"
    and "totpEnabled admin \<Longrightarrow> presented env now admin code = Some (j, n) \<Longrightarrow>
      j = admin_id admin \<and> past (last_step j st) n \<and> last_step j (record_step (admin_id admin) s st) = Some n"
proof -
  have f: "last_step i (recordTotpStep (admin_id admin) m st) =
      (if i = admin_id admin then Some m else last_step i st)" for i m
    using row last_step_update [of "\<lambda>a. a\<lparr>totpLastUsedStep := Some m\<rparr>" i "admin_id admin" st]
    by (auto simp: recordTotpStep_def last_step_def split: option.split)
  show "moved_on (last_step i st) (last_step i (record_step (admin_id admin) s st))"
    using passed last_step_row [OF row] not_spent_past [of admin]
    by (cases s) (auto simp: record_step_def f moved_on_def factor_passed_def split: if_splits)
  show "j = admin_id admin \<and> past (last_step j st) n \<and> last_step j (record_step (admin_id admin) s st) = Some n"
    if "totpEnabled admin" "presented env now admin code = Some (j, n)"
    using passed that last_step_row [OF row] not_spent_past [of admin]
    by (auto simp: record_step_def f presented_def factor_passed_def split: if_splits option.splits sum.splits)
qed

lemma update_keeps_last:
  assumes "\<And>a. admin_id (f a) = admin_id a" and "\<And>a. totpLastUsedStep (f a) = totpLastUsedStep a"
  shows "last_step i (update_admin j f st) = last_step i st"
  unfolding last_step_update [OF assms(1)] unfolding last_step_def by (simp add: assms(2) split: option.split)

lemma findAdminById_row: "findAdminById i st = Some a \<Longrightarrow> List.find (\<lambda>b. admin_id b = admin_id a) (admins st) = Some a"
proof -
  assume "findAdminById i st = Some a"
  then have "List.find (\<lambda>b. admin_id b = i) (admins st) = Some a"
    by (auto simp: findAdminById_def split: if_splits option.splits)
  moreover from find_Some_in [OF this] have "admin_id a = i"
    by simp
  ultimately show ?thesis
    by simp
qed

lemma acting_admin_row: "acting_admin env answers now req st = Some a \<Longrightarrow> List.find (\<lambda>b. admin_id b = admin_id a) (admins st) = Some a"
  by (auto simp: acting_admin_def dest: findAdminById_row split: option.splits)

lemma record_step_ids [simp]: "ids_ok (record_step i s st) = ids_ok st"
  by (simp add: record_step_def recordTotpStep_def split: option.split)

text \<open>What one request does to the rows, seen from the last steps.\<close>

definition steps_after :: "auth_env \<Rightarrow> int \<Rightarrow> auth_state \<Rightarrow> auth_request \<Rightarrow> reply \<Rightarrow> auth_state \<Rightarrow> bool" where
  "steps_after env now st q r st' \<longleftrightarrow>
     ids_ok st' \<and> (\<forall>i. moved_on (last_step i st) (last_step i st')) \<and>
     (\<forall>i n. spent_by env now st q r = Some (i, n) \<longrightarrow> past (last_step i st) n \<and> last_step i st' = Some n)"

lemma steps_after_same:
  assumes "ids_ok st" and rows: "admins st' = admins st" and "spent_by env now st q r = None"
  shows "steps_after env now st q r st'"
  using assms(1,3) by (simp add: steps_after_def last_step_cong [OF rows] ids_ok_cong [OF rows])

lemma steps_after_record:
  assumes "ids_ok st" and row: "List.find (\<lambda>b. admin_id b = admin_id admin) (admins st) = Some admin"
    and passed: "factor_passed env now admin code s"
    and "ids_ok st'" "\<And>i. last_step i st' = last_step i (record_step (admin_id admin) s st)"
    and "spent_by env now st q r = None \<or> totpEnabled admin \<and> spent_by env now st q r = presented env now admin code"
  shows "steps_after env now st q r st'"
  using assms(4-6) record_step_moves [OF row passed] unfolding steps_after_def by auto

lemma sign_in_steps:
  assumes ok: "lock_config_ok (lockout env)" and ids: "ids_ok st"
    and step: "loginRoute env limits answers now req inp jti st = (r, st')"
  shows "steps_after env now st (SignIn req inp jti answers) r st'"
proof -
  obtain res st1 where l: "login env now inp (request_ip req) st = (res, st1)" "admins st' = admins st1"
    "r_status r = 200 \<longleftrightarrow> (\<exists>x. res = Inr x)"
    by (rule loginRoute_state [OF ok step]) blast
  from ok l(1) show ?thesis
  proof (cases rule: login_cases)
    case (passed admin s)
    then have row: "List.find (\<lambda>b. admin_id b = admin_id admin) (admins st) = Some admin"
      using found_by_id [OF ids] by (simp add: findAdminByUsername_def)
    have rows: "admins st' = admins (record_step (admin_id admin) s st)"
      using passed(4) l(2) by (simp add: clearFailures_def)
    show ?thesis
      by (rule steps_after_record [OF ids row passed(3)])
        (use passed(1,2) l(3) ids in \<open>auto simp: ids_ok_cong [OF rows] last_step_cong [OF rows]\<close>)
  qed (use l ids in \<open>auto intro!: steps_after_same simp: after_failure_redis split: option.splits\<close>)
qed

lemma password_steps:
  assumes ok: "lock_config_ok (lockout env)" and ids: "ids_ok st"
    and step: "passwordRoute env answers now req inp st = (r, st')"
  shows "steps_after env now st (ChangePassword req inp answers) r st'"
  using step
proof (cases rule: passwordRoute_cases)
  case away
  then show ?thesis
    using ids by (auto intro!: steps_after_same simp: untouched_def)
next
  case (refused admin e st1)
  have none: "spent_by env now st (ChangePassword req inp answers) r = None"
    using refused(1,3) passwordError_status by simp
  from ok refused(2) show ?thesis
  proof (cases rule: checkPasswordChange_cases)
    case (unchanged s)
    have rows: "admins st' = admins (record_step (admin_id admin) s st)"
      using refused(4) unchanged(3) by (simp add: untouched_def)
    show ?thesis
      by (rule steps_after_record [OF ids acting_admin_row [OF refused(1)] unchanged(2)])
        (use none ids in \<open>auto simp: ids_ok_cong [OF rows] last_step_cong [OF rows]\<close>)
  qed (use refused(4) none ids in \<open>auto intro!: steps_after_same simp: after_failure_redis untouched_def\<close>)
next
  case (changed admin s st1)
  from ok changed(2) show ?thesis
  proof (cases rule: checkPasswordChange_cases)
    case (passed s')
    let ?f = "\<lambda>a. a\<lparr>passwordHash := bcrypt_hash env (in_newPassword inp)\<rparr>"
    have rows: "admins st' = admins (update_admin (admin_id admin) ?f (record_step (admin_id admin) s' st))"
      using changed(4) passed(3)
      by (simp add: untouched_def setAdminPassword_def clearFailures_def endSessionsBefore_def update_admin_def)
    have spent: "spent_by env now st (ChangePassword req inp answers) r =
        (if totpEnabled admin then presented env now admin (in_changeCode inp) else None)"
      using changed(1,3) by (simp add: reply_defs)
    show ?thesis
      by (rule steps_after_record [OF ids acting_admin_row [OF changed(1)] passed(2)])
        (use spent ids in \<open>auto simp: ids_ok_cong [OF rows] last_step_cong [OF rows] update_keeps_last\<close>)
  qed simp_all
qed

lemma code_steps:
  assumes ok: "lock_config_ok (lockout env)" and ids: "ids_ok st" and step: "auth_step env limits now q st = (r, st')"
    and two: "two_factor_route env now q st = Some (req, code, answers)"
  shows "steps_after env now st q r st'"
proof -
  have spent: "spent_by env now st q r =
      (case acting env answers now req st of
         Some i \<Rightarrow> (case live_admin i st of Some a \<Rightarrow> if r_status r = 200 then presented env now a (Some code) else None | None \<Rightarrow> None)
       | None \<Rightarrow> None)"
    using two by (auto simp: two_factor_route_def split: auth_request.splits)
  from ok step two show ?thesis
  proof (cases rule: two_factor_cases)
    case away
    then show ?thesis
      using ids by (auto intro!: steps_after_same simp: untouched_def spent)
  next
    case (served i res st1)
    show ?thesis
    proof (cases res)
      case (Inl e)
      have "r_status r \<noteq> 200"
        using served(4) Inl twofaError_bad(2) by simp
      then have none: "spent_by env now st q r = None"
        by (simp add: spent split: option.split)
      have "admins st' = admins st"
        using served(2,3) Inl by (auto simp: twofa_outcome_def untouched_def after_failure_redis)
      then show ?thesis
        using ids none by (intro steps_after_same)
    next
      case (Inr n)
      then obtain admin f where a: "live_admin i st = Some admin" "past (totpLastUsedStep admin) n"
        "verifyTotpStep (hmac_sha1 env) (the (totpSecret admin)) code (now div 1000) 1 = Inr (Some n)"
        "keeps_id f" "\<forall>a. totpLastUsedStep (f a) = Some n"
        "admins st' = admins (update_admin i f (st\<lparr>redis := (redis st)(FAIL_KEY_2fa i := None)\<rparr>))"
        using served(2,3) by (auto simp: twofa_outcome_def untouched_def)
      have row: "List.find (\<lambda>b. admin_id b = i) (admins st) = Some admin"
        using found_by_id [OF ids a(1) [unfolded live_admin_def]] live_admin_id [OF a(1)] by simp
      have f: "\<And>a. admin_id (f a) = admin_id a"
        using a(4) by (simp add: keeps_id_def)
      have last: "last_step j st' = (if j = i then Some n else last_step j st)" for j
        unfolding last_step_cong [OF a(6)] last_step_update [OF f] using row a(5) by (simp add: last_step_def split: option.split)
      have "spent_by env now st q r = Some (j, m) \<Longrightarrow> j = i \<and> m = n" for j m
        using a(1,3) served(1) live_admin_id [OF a(1)]
        by (auto simp: spent presented_def split: if_splits)
      moreover have "ids_ok st'"
        unfolding ids_ok_cong [OF a(6)] using ids f by (simp, simp add: ids_ok_def)
      ultimately show ?thesis
        using a(2) last_step_row [OF row] by (auto simp: steps_after_def last moved_on_def)
    qed
  qed
qed

lemma logout_admins: "admins (foldl (revoke_one env now) st toks) = admins st"
  by (induction toks arbitrary: st) (simp_all add: revoke_one_def revokeToken_redis split: option.split)

lemma register_steps:
  assumes "ids_ok st" and "registerRoute env now j n pw st = (r, st')"
  shows "ids_ok st' \<and> last_step i st' = last_step i st"
proof -
  have ins: "ids_ok st1 \<and> last_step i st1 = last_step i st" if "insert_admin (new_admin j n h) st = (res, st1)" for h res st1
  proof (cases "list_ex (\<lambda>b. admin_id b = j \<or> username b = n) (admins st)")
    case True
    then show ?thesis
      using that assms(1) by (simp add: insert_admin_def new_admin_def)
  next
    case False
    then have "st1 = st\<lparr>admins := admins st @ [new_admin j n h]\<rparr>" "\<forall>b \<in> set (admins st). admin_id b \<noteq> j"
      using that by (auto simp: insert_admin_def new_admin_def list_ex_iff)
    then show ?thesis
      using assms(1) by (auto simp: ids_ok_def last_step_def find_append new_admin_def split: option.split)
  qed
  show ?thesis
  proof (cases "0 < countAdmins st")
    case True
    then show ?thesis
      using assms by (auto simp: registerRoute_def bootstrapFirstAdmin_def)
  next
    case False
    obtain res st1 where b: "insert_admin (new_admin j n (bcrypt_hash env pw)) st = (res, st1)"
      by fastforce
    then have "admins st' = admins st1"
      using assms(2) False
      by (auto simp: registerRoute_def bootstrapFirstAdmin_def Let_def split: sum.splits auth_error.splits)
    then show ?thesis
      using ins [OF b] by (simp add: ids_ok_cong [of st' st1] last_step_cong [of st' st1])
  qed
qed

lemma setup_steps:
  assumes "ids_ok st" and "setupRoute env answers now req bytes st = (r, st')"
  shows "ids_ok st' \<and> last_step i st' = last_step i st"
proof (cases rule: session_cases [of env answers now req st])
  case (away code e st1)
  then have "admins st' = admins st"
    using assms(2) by (simp add: setupRoute_def untouched_def)
  then show ?thesis
    using assms(1) ids_ok_cong [of st' st] last_step_cong [of st' st] by simp
next
  case nobody
  then show ?thesis
    using assms by (simp add: setupRoute_def)
next
  case (admitted j role)
  obtain res where "setupTotp bytes j st = (res, st')"
    using assms(2) admitted by (auto simp: setupRoute_def split: prod.splits sum.splits)
  then show ?thesis
    using assms(1) by (auto simp: setupTotp_def Let_def update_keeps_last split: option.splits if_splits)
qed

lemma auth_step_steps:
  assumes ok: "lock_config_ok (lockout env)" and ids: "ids_ok st" and step: "auth_step env limits now q st = (r, st')"
  shows "steps_after env now st q r st'"
proof (cases q)
  case AuthStatus
  then show ?thesis
    using reading_untouched [OF _ step] ids by (intro steps_after_same) (simp_all add: reading_def untouched_def)
next
  case (Me req answers)
  then show ?thesis
    using reading_untouched [OF _ step] ids by (intro steps_after_same) (simp_all add: reading_def untouched_def)
next
  case (TwoFactorStatus req answers)
  then show ?thesis
    using reading_untouched [OF _ step] ids by (intro steps_after_same) (simp_all add: reading_def untouched_def)
next
  case (SignIn req inp jti answers)
  then show ?thesis
    using sign_in_steps [OF ok ids] step by simp
next
  case (ChangePassword req inp answers)
  then show ?thesis
    using password_steps [OF ok ids] step by simp
next
  case (EnableTwoFactor req code answers)
  then show ?thesis
    using code_steps [OF ok ids step] by (simp add: two_factor_route_def)
next
  case (DisableTwoFactor req code answers)
  then show ?thesis
    using code_steps [OF ok ids step] by (simp add: two_factor_route_def)
next
  case (SignOut req)
  then show ?thesis
    using step ids by (auto simp: logoutRoute_def Let_def logout_admins intro!: steps_after_same)
next
  case (Register j n pw)
  then show ?thesis
    using step register_steps [OF ids] by (simp add: steps_after_def)
next
  case (SetupTwoFactor req bytes answers)
  then show ?thesis
    using step setup_steps [OF ids] by (simp add: steps_after_def)
qed

lemma spent_steps_run:
  "lock_config_ok (lockout env) \<Longrightarrow> ids_ok st \<Longrightarrow> serve (auth_step env limits) qs st = (outs, st') \<Longrightarrow>
   sorted_wrt (<) (spent_steps env i outs) \<and> (\<forall>n \<in> set (spent_steps env i outs). past (last_step i st) n)"
proof (induction qs arbitrary: st outs)
  case (Cons tq qs)
  obtain t q where tq: "tq = (t, q)"
    by (cases tq)
  obtain r st1 outs1 where s: "auth_step env limits t q st = (r, st1)" "serve (auth_step env limits) qs st1 = (outs1, st')"
    "outs = (t, st, q, r) # outs1"
    using Cons.prems(3) unfolding tq serve_Cons by blast
  have one: "ids_ok st1" "moved_on (last_step i st) (last_step i st1)"
    "\<And>n. spent_by env t st q r = Some (i, n) \<Longrightarrow> past (last_step i st) n \<and> last_step i st1 = Some n"
    using auth_step_steps [OF Cons.prems(1,2) s(1)] by (auto simp: steps_after_def)
  have rest: "sorted_wrt (<) (spent_steps env i outs1)" "\<And>n. n \<in> set (spent_steps env i outs1) \<Longrightarrow> past (last_step i st1) n"
    using Cons.IH [OF Cons.prems(1) one(1) s(2)] by auto
  show ?case
  proof (cases "\<exists>n. spent_by env t st q r = Some (i, n)")
    case True
    then obtain n where n: "spent_by env t st q r = Some (i, n)"
      by blast
    then have "spent_steps env i outs = n # spent_steps env i outs1"
      by (simp add: spent_steps_def s(3))
    moreover have "n < m" if "m \<in> set (spent_steps env i outs1)" for m
      using rest(2) [OF that] one(3) [OF n] by (simp add: past_def)
    ultimately show ?thesis
      using rest one(3) [OF n] past_moved_on [OF one(2)] by auto
  next
    case False
    then have "spent_steps env i outs = spent_steps env i outs1"
      by (auto simp: spent_steps_def s(3) split: option.split)
    then show ?thesis
      using rest past_moved_on [OF one(2)] by auto
  qed
qed (simp add: spent_steps_def)

text \<open>C6. A one-time code is spent once. Over any sequence of requests served one after the other, the
  steps whose codes were accepted from an admin, at the sign-in, the password change and both
  routes of the second factor, are strictly increasing and past the step stored at the start: the
  code of one step is never accepted twice, across routes and across a new secret.\<close>

theorem codes_spent_once:
  assumes "lock_config_ok (lockout env)" and "ids_ok st" and "serve (auth_step env limits) qs st = (outs, st')"
  shows "sorted_wrt (<) (spent_steps env i outs) \<and> distinct (spent_steps env i outs) \<and>
    (\<forall>n \<in> set (spent_steps env i outs). past (last_step i st) n)"
  using spent_steps_run [OF assms] strict_sorted_iff by blast

text \<open>C34. The guard against replay reads the row at the start of the sign-in and writes it at the end,
  so it holds between sign-ins that follow each other and not between two that overlap: a sign-in
  that read the row before another one wrote its step is accepted for that same step, in the state
  the other one left behind.\<close>

theorem overlapping_sign_ins_share_a_step:
  assumes "lock_config_ok (lockout env)" and "totpEnabled admin" and "truthy (totpSecret admin)"
    and "login_with env now admin inp ip st = (Inr (a, s), st1)"
    and "List.find (\<lambda>b. admin_id b = admin_id admin) (admins st) = Some admin"
  shows "\<exists>n st2. s = Some n \<and> last_step (admin_id admin) st1 = Some n \<and>
    login_with env now admin inp ip st1 = (Inr (a, Some n), st2)"
proof -
  obtain st2 where pw: "verifyPassword env (in_password inp) (passwordHash admin)"
    and sf: "second_factor env now admin (in_totpCode inp) ip (in_username inp) st = (Inr s, st2)"
    and a: "a = admin" "st1 = clearFailures ip (in_username inp) st2"
    using assms(1,4) by (auto simp: login_with_def refuse_eq split: if_splits prod.splits sum.splits)
  from assms(1) sf show ?thesis
  proof (cases rule: second_factor_cases)
    case (passed s')
    then obtain n where n: "s = Some n" "presented env now admin (in_totpCode inp) = Some (admin_id admin, n)"
      using assms(2,3) by (auto simp: factor_passed_def presented_def truthy_def)
    have "last_step (admin_id admin) st1 = Some n"
      using record_step_moves(2) [OF assms(5) passed(2) assms(2) n(2)] passed(1,3) by (simp add: a(2))
    moreover have "second_factor env now admin (in_totpCode inp) ip (in_username inp) st1 = (Inr s, record_step (admin_id admin) s st1)"
      using passed(1,2) assms(2,3) by (auto simp: second_factor_def factor_passed_def record_step_def split: if_splits option.splits)
    ultimately show ?thesis
      using pw n(1) by (simp add: login_with_def a(1))
  qed simp_all
qed

text \<open>The lock is that of one address and one username, as long as addresses hold no colon: a
  sign-in from another address, or for another name, leaves the pair's counter as it was.\<close>

theorem sign_in_lock_isolated:
  assumes "lock_config_ok (lockout env)" and "auth_step env limits now (SignIn req inp jti answers) st = (r, st')"
    and "CHR '':'' \<notin> set ip" and "CHR '':'' \<notin> set (request_ip req)" and "ip \<noteq> []" and "request_ip req \<noteq> []"
    and "ip \<noteq> request_ip req \<or> to_lower name \<noteq> to_lower (in_username inp)"
  shows "checkLocked env t ip name st' = checkLocked env t ip name st"
proof -
  have "FAIL_KEY (request_ip req) (in_username inp) \<noteq> FAIL_KEY ip name"
    using FAIL_KEY_inj [OF assms(4,3,6,5)] assms(7) by auto
  then have "redis st' (FAIL_KEY ip name) = redis st (FAIL_KEY ip name)"
    using sign_in_step(2) [OF assms(1,2) refl, of ip name] by simp
  then have "rd_get t (redis st') (FAIL_KEY ip name) = rd_get t (redis st) (FAIL_KEY ip name)"
    "rd_ttl t (redis st') (FAIL_KEY ip name) = rd_ttl t (redis st) (FAIL_KEY ip name)"
    by (simp_all add: rd_get_def rd_ttl_def)
  then show ?thesis
    unfolding checkLocked_def Let_def by (simp only:)
qed


section \<open>Concrete runs\<close>

text \<open>One admin with the second factor on, a lock of two failures, an hour on the clock, and the one
  token \<open>tok\<close>, which lives a day. The hash returns nothing, so the code of every step is six zeros
  and the replay guard alone tells a code from its repetition.\<close>

definition demo_id :: string where
  "demo_id = ''00000000-0000-4000-8000-000000000001''"

definition demo_token :: jwt_payload where
  "demo_token = \<lparr>jwt_sub = Some demo_id, jwt_role = ''admin'', jwt_jti = Some ''j'', jwt_iatMs = Some 3600000,
     jwt_iat = 3600, jwt_exp = 90000\<rparr>"

definition demo_env :: auth_env where
  "demo_env = \<lparr>lockout = \<lparr>LOGIN_LOCKOUT_FAILURES = 2, LOGIN_LOCKOUT_WINDOW_MIN = 10, LOGIN_LOCKOUT_DURATION_MIN = 5\<rparr>,
     hmac_sha1 = (\<lambda>k m. []), bcrypt_compare = (=), bcrypt_hash = id, sha256_hex = id,
     jwt_verify = (\<lambda>t tok. if tok = ''tok'' \<and> t < 90000000 then Some demo_token else None),
     jwt_of_request = (\<lambda>t req. if authCookie req = Some ''tok'' \<and> t < 90000000 then Some demo_token else None),
     jwt_lifetime = 86400\<rparr>"

definition demo_state :: auth_state where
  "demo_state = \<lparr>admins = [\<lparr>admin_id = demo_id, username = ''bob'', passwordHash = ''pw'', admin_role = ''admin'',
       totpEnabled = True, totpSecret = Some ''GEZDGNBV'', totpLastUsedStep = None, deletedAt = None\<rparr>],
     apiTokens = [], auditRows = [], redis = (\<lambda>k. None)\<rparr>"

definition demo_request :: http_request where
  "demo_request = \<lparr>authorization = None, authCookie = Some ''tok'', request_ip = ''9.9.9.9''\<rparr>"

definition demo_sign_in :: "string \<Rightarrow> auth_request" where
  "demo_sign_in pw = SignIn demo_request \<lparr>in_username = ''bob'', in_password = pw, in_totpCode = Some ''000000''\<rparr> ''j2'' (True, True)"

definition demo_codes :: "(int \<times> auth_request) list" where
  "demo_codes = [(3600000, demo_sign_in ''pw''), (3601000, demo_sign_in ''pw''), (3602000, demo_sign_in ''pw''), (3630000, demo_sign_in ''pw'')]"

lemma demo_ok [simp]: "lock_config_ok (lockout demo_env)"
  by (simp add: demo_env_def lock_config_ok_def)

theorem codes_spent_once_witness:
  "let outs = fst (serve (auth_step demo_env ADMIN_AUDIT_LOGIN_REFUSAL_CAP) demo_codes demo_state)
   in sorted_wrt (<) (spent_steps demo_env demo_id outs) \<and> distinct (spent_steps demo_env demo_id outs) \<and>
      (\<forall>n \<in> set (spent_steps demo_env demo_id outs). past None n)"
proof -
  obtain outs st' where run: "serve (auth_step demo_env ADMIN_AUDIT_LOGIN_REFUSAL_CAP) demo_codes demo_state = (outs, st')"
    by fastforce
  have "ids_ok demo_state" "last_step demo_id demo_state = None"
    by (simp_all add: ids_ok_def last_step_def demo_state_def)
  then show ?thesis
    using codes_spent_once [OF demo_ok _ run, of demo_id] by (simp add: run)
qed

text \<open>The code of six zeros is that of every step, and stands for the first of the window.\<close>

lemma demo_hotp: "counter_ok c \<Longrightarrow> hotp (\<lambda>k m. []) key c = Inr ''000000''"
proof -
  have "padStart 6 CHR ''0'' (dec_of_nat 0) = ''000000''"
    by code_simp
  then show "counter_ok c \<Longrightarrow> ?thesis"
    by (simp add: hotp_def writeBigUInt64BE_def counter_ok_def hotp_bin_def byte_at_def DIGITS_def Let_def)
qed

lemma demo_verify: "verifyTotpStep (\<lambda>k m. []) secret ''000000'' 3600 1 = Inr (Some 119)"
proof -
  have "strip_ws ''000000'' = ''000000''"
    by code_simp
  moreover have "window_ok (3600 div PERIOD_SECONDS) 1" "3600 div PERIOD_SECONDS = 120"
    by (simp_all add: window_ok_def PERIOD_SECONDS_def)
  ultimately show ?thesis
    using demo_hotp [of 119] by (simp add: verifyTotpStep_find upto_rec1 counter_ok_def)
qed

definition demo_input :: login_input where
  "demo_input = \<lparr>in_username = ''bob'', in_password = ''pw'', in_totpCode = Some ''000000''\<rparr>"

theorem overlapping_sign_ins_share_a_step_witness:
  "\<exists>n st1 st2. login_with demo_env 3600000 (hd (admins demo_state)) demo_input ''9.9.9.9'' demo_state = (Inr (hd (admins demo_state), Some n), st1) \<and>
     last_step demo_id st1 = Some n \<and>
     login_with demo_env 3600000 (hd (admins demo_state)) demo_input ''9.9.9.9'' st1 = (Inr (hd (admins demo_state), Some n), st2)"
proof -
  let ?a = "hd (admins demo_state)"
  have env: "bcrypt_compare demo_env = (=)" "hmac_sha1 demo_env = (\<lambda>k m. [])"
    by (simp_all add: demo_env_def)
  have a: "totpEnabled ?a" "truthy (totpSecret ?a)" "admin_id ?a = demo_id" "totpLastUsedStep ?a = None" "passwordHash ?a = ''pw''"
    by (simp_all add: demo_state_def truthy_def)
  obtain st1 where run: "login_with demo_env 3600000 ?a demo_input ''9.9.9.9'' demo_state = (Inr (?a, Some 119), st1)"
    using a demo_verify
    by (simp add: login_with_def second_factor_def verifyPassword_def env demo_input_def truthy_def step_spent_def)
  have "List.find (\<lambda>b. admin_id b = admin_id ?a) (admins demo_state) = Some ?a"
    by (simp add: demo_state_def)
  from overlapping_sign_ins_share_a_step [OF demo_ok a(1,2) run this] run a(3) show ?thesis
    by auto
qed

text \<open>Without admins every sign-in is refused or locked out.\<close>

lemma no_admins:
  assumes "lock_config_ok (lockout env)" and "admins st = []" and "auth_step env limits now (SignIn req inp jti answers) st = (r, st')"
  shows "r_status r \<noteq> 200 \<and> admins st' = []"
proof -
  obtain res st1 where l: "login env now inp (request_ip req) st = (res, st1)" "admins st' = admins st1" "r_status r = 200 \<longleftrightarrow> (\<exists>x. res = Inr x)"
    by (rule loginRoute_state [OF assms(1) assms(3) [unfolded auth_step.simps]]) (rule that)
  from assms(1) l(1) show ?thesis
    by (cases rule: login_cases) (use l assms(2) in \<open>auto simp: after_failure_redis findAdminByUsername_def\<close>)
qed

lemma no_admins_serve:
  "lock_config_ok (lockout env) \<Longrightarrow> admins st = [] \<Longrightarrow> list_all (\<lambda>(t, q). \<exists>req inp jti a. q = SignIn req inp jti a) qs \<Longrightarrow>
   serve (auth_step env limits) qs st = (outs, st') \<Longrightarrow> list_all (\<lambda>(t, s, q, r). \<not> sign_in_success env key t s q r) outs"
proof (induction qs arbitrary: st outs)
  case (Cons tq qs)
  obtain t req inp jti a where tq: "tq = (t, SignIn req inp jti a)"
    using Cons.prems(3) by (cases tq) auto
  obtain r st1 outs1 where s: "auth_step env limits t (SignIn req inp jti a) st = (r, st1)" "serve (auth_step env limits) qs st1 = (outs1, st')"
    "outs = (t, st, SignIn req inp jti a, r) # outs1"
    using Cons.prems(4) unfolding tq serve_Cons by blast
  have "r_status r \<noteq> 200" "admins st1 = []"
    using no_admins [OF Cons.prems(1,2) s(1)] by simp_all
  then show ?case
    using Cons.IH [OF Cons.prems(1) _ _ s(2)] Cons.prems(3) by (simp add: s(3))
qed simp

text \<open>Three guesses and more against a lock of two.\<close>

definition demo_guesses :: "(int \<times> auth_request) list" where
  "demo_guesses = [(0, demo_sign_in ''a''), (1000, demo_sign_in ''b''), (2000, demo_sign_in ''c''), (3000, demo_sign_in ''d'')]"



theorem sign_in_lock_isolated_witness:
  "checkLocked demo_env 5 ''8.8.8.8'' ''bob'' (snd (auth_step demo_env ADMIN_AUDIT_LOGIN_REFUSAL_CAP 0 (demo_sign_in ''a'') demo_state)) =
   checkLocked demo_env 5 ''8.8.8.8'' ''bob'' demo_state"
proof -
  obtain r st' where step: "auth_step demo_env ADMIN_AUDIT_LOGIN_REFUSAL_CAP 0 (demo_sign_in ''a'') demo_state = (r, st')"
    by fastforce
  show ?thesis
    using sign_in_lock_isolated [OF demo_ok step [unfolded demo_sign_in_def], where ip = "''8.8.8.8''" and t = 5 and name = "''bob''"]
    by (simp add: step demo_request_def)
qed


end
