(* ===== verification/SessionRuns.thy ===== *)
theory SessionRuns
  imports AuthRuns
begin

text \<open>
  That an ended session stays ended: after a sign-out no request with that token is admitted, after a
  password change no request with a token issued up to then is, whatever is served in between. The
  token library is a parameter; what it promises is \<open>jwt_contract\<close> and \<open>token_expiry\<close>.
\<close>

section \<open>Ended sessions\<close>

text \<open>The moment a token says it was issued, as \<open>requireAuth\<close> reads it.\<close>

definition issued_ms :: "jwt_payload \<Rightarrow> int" where
  "issued_ms p = (case jwt_iatMs p of Some ms \<Rightarrow> ms | None \<Rightarrow> jwt_iat p * 1000)"

text \<open>What the token library promises: a token verified at a moment has not expired, lives as long
  as configured, and was signed within a minute of the moment it carries; a token id belongs to one
  expiry.\<close>

definition jwt_contract :: "auth_env \<Rightarrow> bool" where
  "jwt_contract env \<longleftrightarrow> 0 \<le> jwt_lifetime env \<and>
     (\<forall>t req p. jwt_of_request env t req = Some p \<longrightarrow>
        t < jwt_exp p * 1000 \<and> jwt_exp p - jwt_iat p = jwt_lifetime env \<and> jwt_iat p * 1000 \<le> issued_ms p + 60000) \<and>
     (\<forall>t tok p. jwt_verify env t tok = Some p \<longrightarrow> t < jwt_exp p * 1000)"

definition token_expiry :: "auth_env \<Rightarrow> string \<Rightarrow> int \<Rightarrow> bool" where
  "token_expiry env jti e \<longleftrightarrow>
     (\<forall>t tok p. jwt_verify env t tok = Some p \<longrightarrow> jwt_jti p = Some jti \<longrightarrow> jwt_exp p = e) \<and>
     (\<forall>t req p. jwt_of_request env t req = Some p \<longrightarrow> jwt_jti p = Some jti \<longrightarrow> jwt_exp p = e)"

lemma jwt_of_request_ok:
  assumes "jwt_contract env" and "jwt_of_request env t req = Some p"
  shows "t < jwt_exp p * 1000" "jwt_exp p = jwt_iat p + jwt_lifetime env" "jwt_iat p * 1000 \<le> issued_ms p + 60000"
proof -
  have "t < jwt_exp p * 1000 \<and> jwt_exp p - jwt_iat p = jwt_lifetime env \<and> jwt_iat p * 1000 \<le> issued_ms p + 60000"
    using assms by (simp add: jwt_contract_def)
  then show "t < jwt_exp p * 1000" "jwt_exp p = jwt_iat p + jwt_lifetime env" "jwt_iat p * 1000 \<le> issued_ms p + 60000"
    by linarith+
qed

lemma jwt_verify_ok: "jwt_contract env \<Longrightarrow> jwt_verify env t tok = Some p \<Longrightarrow> t < jwt_exp p * 1000"
  by (simp add: jwt_contract_def)

lemma token_expiry_exp:
  "token_expiry env jti e \<Longrightarrow> jwt_verify env t tok = Some p \<Longrightarrow> jwt_jti p = Some jti \<Longrightarrow> jwt_exp p = e"
  "token_expiry env jti e \<Longrightarrow> jwt_of_request env t req = Some p' \<Longrightarrow> jwt_jti p' = Some jti \<Longrightarrow> jwt_exp p' = e"
  by (simp_all add: token_expiry_def)

text \<open>The mark of a signed-out token, kept to its expiry, and that of a password change.\<close>

definition revoked_until :: "string \<Rightarrow> int \<Rightarrow> auth_state \<Rightarrow> bool" where
  "revoked_until jti e st \<longleftrightarrow>
     (case redis st (revokedKey jti) of
        None \<Rightarrow> False
      | Some entry \<Rightarrow> (case entry_until entry of None \<Rightarrow> True | Some u \<Rightarrow> e * 1000 \<le> u))"

definition ended_since :: "auth_env \<Rightarrow> string \<Rightarrow> int \<Rightarrow> auth_state \<Rightarrow> bool" where
  "ended_since env i ms st \<longleftrightarrow>
     (case redis st (endedKey i) of
        None \<Rightarrow> False
      | Some entry \<Rightarrow> ms \<le> int (entry_val entry) \<and>
          (case entry_until entry of None \<Rightarrow> True | Some u \<Rightarrow> ms + (jwt_lifetime env + 60) * 1000 \<le> u))"

lemma revokeToken_until:
  assumes "revoked_until jti e st \<or> now < e * 1000" and "j = jti \<longrightarrow> e' = e"
  shows "j = jti \<Longrightarrow> revoked_until jti e (revokeToken j e' now st)"
    and "revoked_until jti e st \<Longrightarrow> revoked_until jti e (revokeToken j e' now st)"
proof -
  have ms: "now div 1000 * 1000 \<le> now"
    by presburger
  have lt: "now < e * 1000 \<Longrightarrow> now div 1000 < e"
    by presburger
  have set: "revoked_until jti e (revokeToken jti e now st)" if "now div 1000 < e"
    using that ms by (simp add: revokeToken_def revoked_until_def rd_set_ex_def Let_def algebra_simps)
  show "revoked_until jti e (revokeToken j e' now st)" if "j = jti"
    using assms that set lt by (cases "now div 1000 < e") (auto simp: revokeToken_def)
  show "revoked_until jti e (revokeToken j e' now st)" if "revoked_until jti e st"
  proof (cases "j = jti")
    case True
    then show ?thesis
      using that assms(2) set by (cases "now div 1000 < e") (auto simp: revokeToken_def)
  next
    case False
    then show ?thesis
      using that revokeToken_redis(1) [of "revokedKey jti" j] by (simp add: revoked_until_def)
  qed
qed

lemma revoke_one_until:
  assumes "token_expiry env jti e" and "revoked_until jti e st"
  shows "revoked_until jti e (revoke_one env now st tok)"
  using assms revokeToken_until(2) [of jti e st now]
  by (auto simp: revoke_one_def token_expiry_def split: option.split)

lemma revoke_all_until:
  "token_expiry env jti e \<Longrightarrow> revoked_until jti e st \<Longrightarrow> revoked_until jti e (foldl (revoke_one env now) st toks)"
  by (induction toks arbitrary: st) (simp_all add: revoke_one_until)

text \<open>The keys of sessions are written by the sign-out and the password change alone.\<close>

lemma session_key_kept:
  assumes ok: "lock_config_ok (lockout env)" and step: "auth_step env limits now q st = (r, st')"
    and k: "k = revokedKey jti \<or> k = endedKey i"
    and q: "\<And>req. q = SignOut req \<Longrightarrow> k = endedKey i" "\<And>req inp a. q = ChangePassword req inp a \<Longrightarrow> k = revokedKey jti"
  shows "redis st' k = redis st k"
proof (cases "two_factor_route env now q st")
  case None
  show ?thesis
  proof (cases q)
    case (SignIn req inp jt answers)
    then have "loginRoute env limits answers now req inp jt st = (r, st')"
      using step by simp
    then obtain res st1 where "login env now inp (request_ip req) st = (res, st1)" "redis st' k = redis st1 k"
      by (rule loginRoute_state [OF ok]) (use k in auto)
    then show ?thesis
      using login_redis(2) [OF ok, of now inp "request_ip req" st res st1 k] k by auto
  next
    case (ChangePassword req inp answers)
    then have "passwordRoute env answers now req inp st = (r, st')" "k = revokedKey jti"
      using step q(2) by simp_all
    then show ?thesis
    proof (cases rule: passwordRoute_cases)
      case (refused admin e st1)
      then show ?thesis
        using checkPasswordChange_redis(2) [OF ok refused(2), of k] k by (auto simp: untouched_def)
    next
      case (changed admin s st1)
      then show ?thesis
        using checkPasswordChange_redis(2) [OF ok changed(2), of k] \<open>k = revokedKey jti\<close>
        by (simp add: untouched_def endSessionsBefore_redis)
    qed (simp add: untouched_def)
  next
    case (SignOut req)
    then show ?thesis
      using step q(1) by (auto simp: logoutRoute_def Let_def logout_redis)
  next
    case (Register n u pw)
    then show ?thesis
      using step registerRoute_redis by fastforce
  next
    case (SetupTwoFactor req bytes answers)
    then show ?thesis
      using step setupRoute_redis by fastforce
  qed (use None reading_untouched [OF _ step] in \<open>simp_all add: two_factor_route_def reading_def untouched_def\<close>)
next
  case (Some rca)
  then obtain req code answers where t: "two_factor_route env now q st = Some (req, code, answers)"
    by (cases rca) auto
  from ok step t show ?thesis
  proof (cases rule: two_factor_cases)
    case (served j res st1)
    then show ?thesis
      using twofa_outcome_redis(2) [OF served(2), of k] k by (auto simp: untouched_def)
  qed (simp add: untouched_def)
qed

lemma revoked_step:
  assumes ok: "lock_config_ok (lockout env)" and tok: "token_expiry env jti e"
    and step: "auth_step env limits now q st = (r, st')" and kept: "revoked_until jti e st"
  shows "revoked_until jti e st'"
proof (cases "\<exists>req. q = SignOut req")
  case True
  then show ?thesis
    using step revoke_all_until [OF tok kept] by (auto simp: logoutRoute_def Let_def)
next
  case False
  then have "redis st' (revokedKey jti) = redis st (revokedKey jti)"
    using session_key_kept [OF ok step, of "revokedKey jti" jti undefined] by blast
  then show ?thesis
    using kept by (simp add: revoked_until_def)
qed

lemma ended_step:
  assumes ok: "lock_config_ok (lockout env)" and jwt: "jwt_contract env" and later: "ms \<le> now" "0 \<le> ms"
    and step: "auth_step env limits now q st = (r, st')" and kept: "ended_since env i ms st"
  shows "ended_since env i ms st'"
proof (cases "\<exists>req inp a. q = ChangePassword req inp a")
  case True
  then obtain req inp answers where "passwordRoute env answers now req inp st = (r, st')"
    using step by auto
  then show ?thesis
  proof (cases rule: passwordRoute_cases)
    case away
    then show ?thesis
      using kept by (simp add: ended_since_def untouched_def)
  next
    case (refused admin e st1)
    then show ?thesis
      using checkPasswordChange_redis(2) [OF ok refused(2), of "endedKey i"] kept by (simp add: ended_since_def untouched_def)
  next
    case (changed admin s st1)
    have st1: "redis st1 (endedKey i) = redis st (endedKey i)"
      using checkPasswordChange_redis(2) [OF ok changed(2), of "endedKey i"] by simp
    have span: "token_span env now req = jwt_lifetime env" "0 \<le> jwt_lifetime env"
    proof -
      show "0 \<le> jwt_lifetime env"
        using jwt by (simp add: jwt_contract_def)
      have "\<exists>p. jwt_of_request env now req = Some p"
        using changed(1)
        by (auto simp: acting_admin_def acting_def sessionAuth_def requireSession_def requireAuth_def
            split: option.splits prod.splits auth_verdict.splits if_splits)
      then show "token_span env now req = jwt_lifetime env"
        using jwt by (auto simp: token_span_def jwt_contract_def)
    qed
    show ?thesis
    proof (cases "admin_id admin = i")
      case True
      then have "redis st' (endedKey i) = Some \<lparr>entry_val = nat now, entry_until = Some (now + (jwt_lifetime env + 60) * 1000)\<rparr>"
        using changed(4) span by (simp add: untouched_def endSessionsBefore_def rd_set_ex_def)
      then show ?thesis
        using later by (simp add: ended_since_def)
    next
      case False
      then show ?thesis
        using changed(4) kept st1 by (simp add: ended_since_def untouched_def endSessionsBefore_redis)
    qed
  qed
next
  case False
  then have "redis st' (endedKey i) = redis st (endedKey i)"
    using session_key_kept [OF ok step, of "endedKey i" undefined i] by blast
  then show ?thesis
    using kept by (simp add: ended_since_def)
qed

text \<open>What the hook answers a token with such a mark.\<close>

lemma requireAuth_turns_away:
  assumes "fst (tryApiToken env t req st) = None" and "jwt_of_request env t req = Some p"
    and "\<And>jti sub. jwt_jti p = Some jti \<Longrightarrow> jwt_sub p = Some sub \<Longrightarrow>
      sessionState True t jti sub (issued_ms p) st \<noteq> Some Session_live"
  shows "\<exists>code e. fst (requireAuth env answers t req st) = Turned_away code e"
proof -
  obtain st1 where api: "tryApiToken env t req st = (None, st1)"
    using assms(1) by (cases "tryApiToken env t req st") auto
  then have "st1 = st"
    by (auto simp: tryApiToken_def split: option.splits)
  then show ?thesis
    using api assms(2) assms(3) [unfolded issued_ms_def]
    by (cases answers) (auto simp: requireAuth_def Let_def sessionState_def [of False] split: option.splits session_state.split)
qed


text \<open>C8. A password change ends every session of the admin. Once it was answered with 204, no later
  request with a token of that admin issued up to that moment is admitted, whatever is served in
  between: the mark outlives every token it has to refuse.\<close>

theorem password_change_ends_sessions:
  assumes "lock_config_ok (lockout env)" and "jwt_contract env" and "0 \<le> now"
    and "auth_step env limits now (ChangePassword req inp answers) st = (r, st1)" and "r_status r = 204"
    and "acting env answers now req st = Some i"
    and "in_order now until qs" and "serve (auth_step env limits) qs st1 = (outs, st2)"
    and later: "jwt_of_request env t req' = Some p" "jwt_sub p = Some i" "issued_ms p \<le> now"
      "fst (tryApiToken env t req' st2) = None"
  shows "\<exists>code err. fst (requireAuth env answers' t req' st2) = Turned_away code err"
proof -
  have "passwordRoute env answers now req inp st = (r, st1)"
    using assms(4) by simp
  then have "ended_since env i now st1"
  proof (cases rule: passwordRoute_cases)
    case (refused admin err sx)
    then show ?thesis
      using assms(5) passwordError_status [of err] by simp
  next
    case (changed admin s sx)
    have i: "admin_id admin = i"
      using changed(1) assms(6) find_Some_in
      by (fastforce simp: acting_admin_def findAdminById_def split: if_splits option.splits)
    have "\<exists>p. jwt_of_request env now req = Some p"
      using assms(6) by (auto simp: acting_def sessionAuth_def requireSession_def requireAuth_def
          split: option.splits prod.splits auth_verdict.splits if_splits)
    then have "token_span env now req = jwt_lifetime env" "0 \<le> jwt_lifetime env"
      using assms(2) by (auto simp: token_span_def jwt_contract_def)
    then show ?thesis
      using changed(4) assms(3) i by (simp add: ended_since_def untouched_def endSessionsBefore_def rd_set_ex_def)
  qed (use assms(5) in simp)
  then have "ended_since env i now st2"
    using serve_invariant [of now "ended_since env i now" "auth_step env limits" now until qs st1 outs st2]
      ended_step [OF assms(1,2) _ assms(3)] assms(7,8) by blast
  moreover have "t < jwt_exp p * 1000" "jwt_exp p = jwt_iat p + jwt_lifetime env" "jwt_iat p * 1000 \<le> issued_ms p + 60000"
    by (rule jwt_of_request_ok [OF assms(2) later(1)])+
  then have "t \<le> now + (jwt_lifetime env + 60) * 1000"
    using later(3) by (simp add: algebra_simps)
  ultimately obtain v where "rd_get t (redis st2) (endedKey i) = Some v" "now \<le> int v"
    by (auto simp: ended_since_def rd_get_def live_entry_def entry_live_def split: option.splits if_splits)
  then show ?thesis
    using later by (intro requireAuth_turns_away) (auto simp: sessionState_def split: option.splits)
qed

section \<open>A concrete session\<close>

lemma demo_contract [simp]: "jwt_contract demo_env" "token_expiry demo_env ''j'' 90000"
  by (auto simp: jwt_contract_def token_expiry_def demo_env_def demo_token_def issued_ms_def split: if_splits)

lemma demo_no_api [simp]: "tryApiToken env t demo_request st = (None, st)"
  by (simp add: tryApiToken_def demo_request_def)


definition demo_plain :: auth_state where
  "demo_plain = demo_state\<lparr>admins := map (\<lambda>a. a\<lparr>totpEnabled := False\<rparr>) (admins demo_state)\<rparr>"

definition demo_change :: change_password_input where
  "demo_change = \<lparr>in_currentPassword = ''pw'', in_newPassword = ''pw2'', in_changeCode = None\<rparr>"

lemma demo_admin_id: "ADMIN_ID demo_id"
  by code_simp

lemma demo_session: "sessionAuth demo_env True 3700000 demo_request demo_plain = (Admitted (Some (demo_id, ''admin'')) None, demo_plain)"
  using demo_admin_id
  by (simp add: sessionAuth_def requireSession_def requireAuth_def demo_env_def demo_token_def sessionState_def rd_get_def
      live_entry_def demo_plain_def demo_state_def findAdminById_def demo_request_def tryApiToken_def)
    (simp add: demo_id_def)

lemma demo_change_ok:
  "r_status (fst (auth_step demo_env limits 3700000 (ChangePassword demo_request demo_change True) demo_plain)) = 204"
proof -
  have "checkPasswordChange demo_env 3700000 (hd (admins demo_plain)) demo_change ip demo_plain =
      (Inr None, clearFailures ip ''bob'' demo_plain)" for ip
    by (simp add: checkPasswordChange_def checkLocked_def rd_get_def live_entry_def demo_plain_def demo_state_def
        verifyPassword_def demo_env_def demo_change_def second_factor_def Let_def)
  moreover have "findAdminById demo_id demo_plain = Some (hd (admins demo_plain))"
    by (simp add: findAdminById_def demo_plain_def demo_state_def) (simp add: demo_id_def)
  ultimately show ?thesis
    by (simp add: passwordRoute_def demo_session Let_def reply_defs)
qed

theorem password_change_ends_sessions_witness:
  "\<exists>code err. fst (requireAuth demo_env True 3800000 demo_request
     (snd (serve (auth_step demo_env ADMIN_AUDIT_LOGIN_REFUSAL_CAP) [(3750000, demo_sign_in ''pw2'')]
       (snd (auth_step demo_env ADMIN_AUDIT_LOGIN_REFUSAL_CAP 3700000 (ChangePassword demo_request demo_change True) demo_plain))))) =
   Turned_away code err"
proof -
  obtain r st1 where change: "auth_step demo_env ADMIN_AUDIT_LOGIN_REFUSAL_CAP 3700000 (ChangePassword demo_request demo_change True) demo_plain = (r, st1)"
    by fastforce
  obtain outs st2 where run: "serve (auth_step demo_env ADMIN_AUDIT_LOGIN_REFUSAL_CAP) [(3750000, demo_sign_in ''pw2'')] st1 = (outs, st2)"
    by fastforce
  have tok: "jwt_of_request demo_env 3800000 demo_request = Some demo_token" "jwt_sub demo_token = Some demo_id"
    "issued_ms demo_token \<le> 3700000" "in_order 3700000 3750000 [(3750000, demo_sign_in ''pw2'')]"
    by (simp_all add: demo_request_def demo_env_def demo_token_def issued_ms_def)
  have "r_status r = 204"
    using demo_change_ok [of ADMIN_AUDIT_LOGIN_REFUSAL_CAP] unfolding change by simp
  moreover have "acting demo_env True 3700000 demo_request demo_plain = Some demo_id"
    by (simp add: acting_def demo_session)
  ultimately show ?thesis
    unfolding change snd_conv run
    using password_change_ends_sessions [OF demo_ok demo_contract(1) _ change _ _ tok(4) run tok(1-3), of True] by simp
qed

end
