(* ===== verification/PanelTables.thy ===== *)
theory PanelTables
  imports AwgPeers CascadeTopology
begin

text \<open>
  The tables the user and squad services read and write (\<open>prisma/models/users.prisma\<close>,
  \<open>squads.prisma\<close>, and of the profiles, nodes and cascades what those services read), as one record
  of lists of rows, with the statements Prisma sends: inserts and updates that a unique index, a
  foreign key or a check refuses. An error carries what the panel reads of it: its code, the index
  or the fields of the constraint, and what its meta and message name. Instants are milliseconds.
\<close>

section \<open>Rows\<close>

datatype user_status = Active | Disabled | Expired | Limited

datatype reset_strategy = NoReset | EachDay | EachWeek | EachMonth | Rolling

text \<open>What a client signs in with.\<close>

record identities =
  xrayUuid :: string
  hysteriaPassword :: string
  naivePassword :: string
  amneziawgPrivateKey :: string
  amneziawgPublicKey :: string

record user_row =
  u_id :: string
  u_sourceId :: "string option"
  u_shortId :: string
  u_username :: string
  u_status :: user_status
  u_expireAt :: "int option"
  u_limitBytes :: "int option"
  u_strategy :: reset_strategy
  u_token :: string
  u_revokedAt :: "int option"
  u_identities :: identities
  u_protocols :: "string list"
  u_hwidLimit :: "nat option"
  u_preset :: "string option"
  u_customPreset :: "string option"
  u_description :: "string option"
  u_tag :: "string option"
  u_telegramId :: "int option"
  u_email :: "string option"
  u_createdAt :: int
  u_updatedAt :: int
  u_deletedAt :: "int option"

record user_traffic =
  ut_used :: int
  ut_lastReset :: "int option"

record squad_row =
  s_id :: string
  s_name :: string
  s_description :: "string option"
  s_preset :: "string option"
  s_customPreset :: "string option"
  s_hwidLimit :: "nat option"

text \<open>A row of \<open>group_cascade_exits\<close>: the squad, the cascade and one of the two keys.\<close>

record exit_row =
  x_group :: string
  x_cascade :: string
  x_direction :: "string option"
  x_node :: "string option"

record profile_row =
  p_id :: string
  p_enabled :: bool
  p_protocol :: string
  p_awgProtocol3 :: bool
  p_subnet :: "string option"

text \<open>A binding with its hosts: their ids and whether they are enabled.\<close>

record binding_row =
  b_id :: string
  b_node :: string
  b_profile :: string
  b_enabled :: bool
  b_port :: nat
  b_hosts :: "(string \<times> bool) list"

record node_row =
  n_id :: string
  n_name :: string
  n_disabled :: bool
  n_deleted :: bool
  n_lastInboundSyncAt :: "int option"

record cascade_row =
  cs_id :: string
  cs_name :: string
  cs_enabled :: bool
  cs_createdAt :: int
  cs_hops :: "string list"
  cs_positions :: "position_input list"
  cs_directions :: "(string \<times> string list) list"

record device_row =
  d_id :: string
  d_user :: string
  d_hwid :: string
  d_lastSeenAt :: int

record panel_db =
  users :: "user_row list"
  user_traffic :: "(string, user_traffic) jsmap"
  members :: "(string \<times> string) list"
  squads :: "squad_row list"
  group_profiles :: "(string \<times> string) list"
  group_hosts :: "(string \<times> string) list"
  cascade_exits :: "exit_row list"
  cascades_off :: "(string \<times> string) list"
  group_policies :: "(string \<times> string) list"
  presets :: "string list"
  policies :: "string list"
  profiles :: "profile_row list"
  bindings :: "binding_row list"
  nodes :: "node_row list"
  cascades :: "cascade_row list"
  peers :: "peer list"
  devices :: "device_row list"
  erased_sources :: "string list"
  user_snapshots :: "string list"

section \<open>Errors of a statement\<close>

record db_error =
  e_code :: string
  e_index :: "string option"
  e_fields :: "string list option"
  e_target :: "(string + string list) option"
  e_said :: string

definition unique_error :: "string \<Rightarrow> db_error" where
  "unique_error index = \<lparr>e_code = ''P2002'', e_index = Some index, e_fields = None, e_target = None, e_said = index\<rparr>"

definition foreign_error :: "string \<Rightarrow> db_error" where
  "foreign_error said = \<lparr>e_code = ''P2003'', e_index = None, e_fields = None, e_target = None, e_said = said\<rparr>"

definition missing_error :: "string \<Rightarrow> db_error" where
  "missing_error model = \<lparr>e_code = ''P2025'', e_index = None, e_fields = None, e_target = None, e_said = model\<rparr>"

definition check_error :: "string \<Rightarrow> db_error" where
  "check_error said = \<lparr>e_code = ''P2004'', e_index = None, e_fields = None, e_target = None, e_said = said\<rparr>"

definition range_error :: db_error where
  "range_error = \<lparr>e_code = ''P2020'', e_index = None, e_fields = None, e_target = None, e_said = ''value out of range''\<rparr>"

text \<open>\<open>uniqueViolationOf\<close>: what a unique violation says it collided on, in either shape the
  drivers give it.\<close>

record unique_violation =
  v_index :: "string option"
  v_fields :: "string list"

definition uniqueViolationOf :: "db_error \<Rightarrow> unique_violation option" where
  "uniqueViolationOf err =
     (if e_code err \<noteq> ''P2002'' then None
      else Some
        \<lparr>v_index = (case e_index err of
            Some i \<Rightarrow> Some i
          | None \<Rightarrow> (case e_target err of Some (Inl t) \<Rightarrow> Some t | _ \<Rightarrow> None)),
         v_fields = (case e_fields err of Some fs \<Rightarrow> fs | None \<Rightarrow> []) @
           (case e_target err of Some (Inr fs) \<Rightarrow> fs | _ \<Rightarrow> [])\<rparr>)"

definition isUniqueViolationOn :: "db_error \<Rightarrow> string \<Rightarrow> string list \<Rightarrow> bool" where
  "isUniqueViolationOn err index columns =
     (case uniqueViolationOf err of
        None \<Rightarrow> False
      | Some v \<Rightarrow> (case v_index v of
          Some i \<Rightarrow> i = index
        | None \<Rightarrow> length (v_fields v) = length columns \<and> list_all (\<lambda>f. f \<in> set (v_fields v)) columns))"

definition isUniqueViolation :: "db_error \<Rightarrow> bool" where
  "isUniqueViolation err \<longleftrightarrow> e_code err = ''P2002''"

section \<open>Reading users\<close>

definition find_user :: "(user_row \<Rightarrow> bool) \<Rightarrow> panel_db \<Rightarrow> user_row option" where
  "find_user P db = List.find P (users db)"

definition findActiveByUsername :: "string \<Rightarrow> panel_db \<Rightarrow> user_row option" where
  "findActiveByUsername name db = find_user (\<lambda>u. u_username u = name \<and> u_deletedAt u = None) db"

definition findBySubscriptionToken :: "string \<Rightarrow> panel_db \<Rightarrow> user_row option" where
  "findBySubscriptionToken token db = find_user (\<lambda>u. u_token u = token) db"

definition findActiveById :: "string \<Rightarrow> panel_db \<Rightarrow> user_row option" where
  "findActiveById i db = find_user (\<lambda>u. u_id u = i \<and> u_deletedAt u = None) db"

definition existsActive :: "string \<Rightarrow> panel_db \<Rightarrow> bool" where
  "existsActive i db \<longleftrightarrow> 0 < length (filter (\<lambda>u. u_id u = i \<and> u_deletedAt u = None) (users db))"

definition used_bytes :: "string \<Rightarrow> panel_db \<Rightarrow> int" where
  "used_bytes i db = (case map_get (user_traffic db) i of Some t \<Rightarrow> ut_used t | None \<Rightarrow> 0)"

definition squads_of :: "string \<Rightarrow> panel_db \<Rightarrow> string list" where
  "squads_of i db = map fst (filter (\<lambda>m. snd m = i) (members db))"

section \<open>Writing users\<close>

text \<open>The first unique index of \<open>users\<close>, in the order they were created, that a row would break;
  the row's own former version is not asked.\<close>

definition user_conflict :: "user_row \<Rightarrow> user_row list \<Rightarrow> string option" where
  "user_conflict u others =
     (if \<exists>v \<in> set others. u_id v = u_id u then Some ''users_pkey''
      else if \<exists>v \<in> set others. u_shortId v = u_shortId u then Some ''users_short_id_key''
      else if \<exists>v \<in> set others. u_token v = u_token u then Some ''users_subscription_token_key''
      else if u_deletedAt u = None \<and> (\<exists>v \<in> set others. u_deletedAt v = None \<and> u_username v = u_username u)
        then Some ''users_username_active_key''
      else if u_sourceId u \<noteq> None \<and> (\<exists>v \<in> set others. u_sourceId v = u_sourceId u) then Some ''users_source_id_key''
      else None)"

text \<open>The \<open>bigint\<close> columns refuse what does not fit 64 bits.\<close>

definition bigint_ok :: "int option \<Rightarrow> bool" where
  "bigint_ok n = (case n of None \<Rightarrow> True | Some k \<Rightarrow> - (2 ^ 63) \<le> k \<and> k < 2 ^ 63)"

definition one_preset :: "user_row \<Rightarrow> bool" where
  "one_preset u \<longleftrightarrow> u_preset u = None \<or> u_customPreset u = None"

text \<open>The constraints of one row: the width of its numbers, the check, the unique indexes, the foreign key of the preset.\<close>

definition user_refused :: "user_row \<Rightarrow> user_row list \<Rightarrow> panel_db \<Rightarrow> db_error option" where
  "user_refused u others db =
     (if \<not> bigint_ok (u_limitBytes u) \<or> \<not> bigint_ok (u_telegramId u) then Some range_error
      else if \<not> one_preset u then Some (check_error ''users_one_routing_preset'')
      else case user_conflict u others of
        Some i \<Rightarrow> Some (unique_error i)
      | None \<Rightarrow>
          (case u_customPreset u of
             Some p \<Rightarrow> if p \<in> set (presets db) then None else Some (foreign_error ''users_custom_routing_preset_id_fkey'')
           | None \<Rightarrow> None))"

text \<open>Membership rows of one user: the squads must exist and be named once.\<close>

fun insert_members :: "string \<Rightarrow> string list \<Rightarrow> panel_db \<Rightarrow> db_error + panel_db" where
  "insert_members i [] db = Inr db"
| "insert_members i (g # gs) db =
     (if (g, i) \<in> set (members db) then Inl (unique_error ''group_members_pkey'')
      else if g \<notin> s_id ` set (squads db) then Inl (foreign_error ''group_members_group_id_fkey'')
      else insert_members i gs (db\<lparr>members := members db @ [(g, i)]\<rparr>))"

end
