(* ===== verification/CascadeOwnership.thy ===== *)
theory CascadeOwnership
  imports PanelTables
begin

text \<open>
  A node carries one enabled cascade (\<open>modules/cascades/cascade-exclusive.ts\<close>): who holds which
  node, the cascades that are dead because an older one holds a node of theirs, the refusal of a save
  that would make one, and the checks the start-up report reads.
\<close>

section \<open>Who holds which node\<close>

definition membersOf :: "cascade_row \<Rightarrow> string list" where
  "membersOf c = set_from (cs_hops c @ concat (map po_nodeIds (cs_positions c)) @ concat (map snd (cs_directions c)))"

text \<open>The oldest first, ties by id: two stable sorts.\<close>

definition ownership_order :: "cascade_row list \<Rightarrow> cascade_row list" where
  "ownership_order cs = sort_key cs_createdAt (sort_key cs_id cs)"

definition enabled_cascades :: "panel_db \<Rightarrow> cascade_row list" where
  "enabled_cascades db = ownership_order (filter cs_enabled (cascades db))"

type_synonym named_cascade = "string \<times> string"

definition named :: "cascade_row \<Rightarrow> named_cascade" where
  "named c = (cs_id c, cs_name c)"

text \<open>A pair: the node, who holds it, who is dead there.\<close>

type_synonym ownership_pair = "string \<times> named_cascade \<times> named_cascade"

definition own_node ::
  "cascade_row \<Rightarrow> (string, named_cascade) jsmap \<times> ownership_pair list \<Rightarrow> string \<Rightarrow> (string, named_cascade) jsmap \<times> ownership_pair list" where
  "own_node c st n =
     (let (owner, pairs) = st in
      case map_get owner n of
        None \<Rightarrow> (map_set n (named c) owner, pairs)
      | Some held \<Rightarrow> (owner, pairs @ [(n, held, named c)]))"

definition own_cascade ::
  "(string, named_cascade) jsmap \<times> ownership_pair list \<Rightarrow> cascade_row \<Rightarrow> (string, named_cascade) jsmap \<times> ownership_pair list" where
  "own_cascade st c = foldl (own_node c) st (membersOf c)"

definition ownershipPairs :: "panel_db \<Rightarrow> ownership_pair list" where
  "ownershipPairs db = snd (foldl own_cascade ([], []) (enabled_cascades db))"

definition deadCascadeIdsNow :: "panel_db \<Rightarrow> string list" where
  "deadCascadeIdsNow db = set_from (map (\<lambda>(_, _, dead). fst dead) (ownershipPairs db))"

text \<open>The same, kept for a minute: the cached ids and when they run out.\<close>

definition DEAD_TTL_MS :: int where
  "DEAD_TTL_MS = 60000"

definition deadCascadeIds :: "int \<Rightarrow> (string list \<times> int) option \<Rightarrow> panel_db \<Rightarrow> string list \<times> (string list \<times> int) option" where
  "deadCascadeIds now cache db =
     (case cache of
        Some (ids, expiresAt) \<Rightarrow>
          if now < expiresAt then (ids, cache)
          else (deadCascadeIdsNow db, Some (deadCascadeIdsNow db, now + DEAD_TTL_MS))
      | None \<Rightarrow> (deadCascadeIdsNow db, Some (deadCascadeIdsNow db, now + DEAD_TTL_MS)))"

section \<open>The refusal of a save\<close>

text \<open>The error's node name, and the cascade that has the node.\<close>

definition assertNodesInNoOtherCascade ::
  "string option \<Rightarrow> string list \<Rightarrow> panel_db \<Rightarrow> (string \<times> named_cascade) + unit" where
  "assertNodesInNoOtherCascade selfId nodeIds db =
     (if nodeIds = [] then Inr ()
      else
        let others = filter (\<lambda>c. Some (cs_id c) \<noteq> selfId \<and> (\<exists>n \<in> set (membersOf c). n \<in> set nodeIds)) (enabled_cascades db)
        in (case List.map_filter (\<lambda>c. map_option (\<lambda>n. (n, named c)) (List.find (\<lambda>n. n \<in> set (membersOf c)) nodeIds)) others of
              [] \<Rightarrow> Inr ()
            | (n, c) # _ \<Rightarrow>
                Inl ((case List.find (\<lambda>m. n_id m = n) (nodes db) of Some m \<Rightarrow> n_name m | None \<Rightarrow> n), c)))"

section \<open>What the start-up check reads\<close>

record node_conflict =
  nc_nodeName :: string
  nc_ownerCascade :: string
  nc_deadCascade :: string

definition findCascadeNodeConflicts :: "panel_db \<Rightarrow> node_conflict list" where
  "findCascadeNodeConflicts db =
     map (\<lambda>(n, owner, dead).
       \<lparr>nc_nodeName = (case List.find (\<lambda>m. n_id m = n) (nodes db) of Some m \<Rightarrow> n_name m | None \<Rightarrow> n),
        nc_ownerCascade = snd owner, nc_deadCascade = snd dead\<rparr>) (ownershipPairs db)"

definition nodesOfCascades :: "string list \<Rightarrow> panel_db \<Rightarrow> string list" where
  "nodesOfCascades ids db = set_from (concat (map membersOf (filter (\<lambda>c. cs_id c \<in> set ids) (cascades db))))"

definition findBlindTransitCascades :: "panel_db \<Rightarrow> (string \<times> nat \<times> nat \<times> link_cell) list" where
  "findBlindTransitCascades db =
     concat (map (\<lambda>c. map (\<lambda>s. (cs_name c, s)) (blindTransitSteps (cs_positions c) (length (cs_directions c))))
       (enabled_cascades db))"

section \<open>The pairs, by who comes first\<close>

definition first_holder :: "cascade_row list \<Rightarrow> string \<Rightarrow> cascade_row option" where
  "first_holder cs n = List.find (\<lambda>c. n \<in> set (membersOf c)) cs"

lemma own_node_eq:
  "own_node c (owner, pairs) n =
   (case map_get owner n of
      None \<Rightarrow> (map_set n (named c) owner, pairs) | Some held \<Rightarrow> (owner, pairs @ [(n, held, named c)]))"
  by (simp add: own_node_def)

lemma own_nodes:
  "distinct ns \<Longrightarrow> foldl (own_node c) (owner, pairs) ns = (owner', pairs') \<Longrightarrow>
   (\<forall>n. map_get owner' n = (case map_get owner n of Some h \<Rightarrow> Some h | None \<Rightarrow> if n \<in> set ns then Some (named c) else None)) \<and>
   (\<forall>n h d. (n, h, d) \<in> set pairs' \<longleftrightarrow> (n, h, d) \<in> set pairs \<or> d = named c \<and> n \<in> set ns \<and> map_get owner n = Some h)"
proof (induction ns arbitrary: owner pairs)
  case (Cons n ns)
  have dist: "distinct ns" "n \<notin> set ns"
    using Cons.prems(1) by simp_all
  show ?case
  proof (cases "map_get owner n")
    case None
    have st: "foldl (own_node c) (map_set n (named c) owner, pairs) ns = (owner', pairs')"
      using Cons.prems(2) None by (simp add: own_node_eq)
    show ?thesis
      using Cons.IH [OF dist(1) st] None dist(2) by (auto simp del: split_paired_All split: option.split)
  next
    case (Some h)
    have st: "foldl (own_node c) (owner, pairs @ [(n, h, named c)]) ns = (owner', pairs')"
      using Cons.prems(2) Some by (simp add: own_node_eq)
    show ?thesis
      using Cons.IH [OF dist(1) st] Some by (auto simp del: split_paired_All split: option.split)
  qed
qed (auto split: option.split)

lemma own_cascades:
  "foldl own_cascade ([], []) cs = (owner, pairs) \<Longrightarrow>
   (\<forall>n. map_get owner n = map_option named (first_holder cs n)) \<and>
   (\<forall>n h d. (n, h, d) \<in> set pairs \<longleftrightarrow>
     (\<exists>xs c ys b. cs = xs @ c # ys \<and> n \<in> set (membersOf c) \<and> first_holder xs n = Some b \<and> h = named b \<and> d = named c))"
proof (induction cs arbitrary: owner pairs rule: rev_induct)
  case Nil
  then show ?case
    by (simp add: first_holder_def)
next
  case (snoc c cs)
  obtain o1 p1 where one: "foldl own_cascade ([], []) cs = (o1, p1)"
    by (cases "foldl own_cascade ([], []) cs")
  have IH: "\<forall>n. map_get o1 n = map_option named (first_holder cs n)"
    "\<forall>n h d. (n, h, d) \<in> set p1 \<longleftrightarrow>
     (\<exists>xs c ys b. cs = xs @ c # ys \<and> n \<in> set (membersOf c) \<and> first_holder xs n = Some b \<and> h = named b \<and> d = named c)"
    using snoc.IH [OF one] by blast+
  have step: "foldl (own_node c) (o1, p1) (membersOf c) = (owner, pairs)"
    using snoc.prems unfolding foldl_append one by (simp add: own_cascade_def)
  have new: "\<forall>n. map_get owner n = (case map_get o1 n of Some h \<Rightarrow> Some h | None \<Rightarrow> if n \<in> set (membersOf c) then Some (named c) else None)"
    "\<forall>n h d. (n, h, d) \<in> set pairs \<longleftrightarrow> (n, h, d) \<in> set p1 \<or> d = named c \<and> n \<in> set (membersOf c) \<and> map_get o1 n = Some h"
    using own_nodes [OF _ step] by (auto simp: membersOf_def)
  have splits: "(\<exists>xs e ys b. cs @ [c] = xs @ e # ys \<and> P xs e b) \<longleftrightarrow> (\<exists>xs e ys b. cs = xs @ e # ys \<and> P xs e b) \<or> (\<exists>b. P cs c b)" for P
  proof -
    have eq: "cs @ [c] = xs @ e # ys \<longleftrightarrow> (\<exists>zs. ys = zs @ [c] \<and> cs = xs @ e # zs) \<or> ys = [] \<and> xs = cs \<and> e = c" for xs e ys
      by (cases ys rule: rev_cases) auto
    show ?thesis
      unfolding eq by auto
  qed
  show ?case
  proof (intro conjI allI)
    show "map_get owner n = map_option named (first_holder (cs @ [c]) n)" for n
      using new(1) IH(1) by (auto simp: first_holder_def find_append split: option.split)
    show "(n, h, d) \<in> set pairs \<longleftrightarrow>
      (\<exists>xs e ys b. cs @ [c] = xs @ e # ys \<and> n \<in> set (membersOf e) \<and> first_holder xs n = Some b \<and> h = named b \<and> d = named e)" for n h d
    proof -
      have "(n, h, d) \<in> set pairs \<longleftrightarrow>
          (\<exists>xs e ys b. cs = xs @ e # ys \<and> n \<in> set (membersOf e) \<and> first_holder xs n = Some b \<and> h = named b \<and> d = named e) \<or>
          (\<exists>b. n \<in> set (membersOf c) \<and> first_holder cs n = Some b \<and> h = named b \<and> d = named c)"
      proof -
        have "d = named c \<and> n \<in> set (membersOf c) \<and> map_option named (first_holder cs n) = Some h \<longleftrightarrow>
            (\<exists>b. n \<in> set (membersOf c) \<and> first_holder cs n = Some b \<and> h = named b \<and> d = named c)"
          by (cases "first_holder cs n") auto
        then show ?thesis
          using new(2) [rule_format, of n h d] IH(2) [rule_format, of n h d] IH(1) [rule_format, of n] by presburger
      qed
      then show ?thesis
        unfolding splits [of "\<lambda>xs e b. n \<in> set (membersOf e) \<and> first_holder xs n = Some b \<and> h = named b \<and> d = named e"] .
    qed
  qed
qed

section \<open>Who is dead\<close>

definition older :: "cascade_row \<Rightarrow> cascade_row \<Rightarrow> bool" where
  "older b c \<longleftrightarrow> cs_createdAt b < cs_createdAt c \<or> cs_createdAt b = cs_createdAt c \<and> cs_id b < cs_id c"

definition share_node :: "cascade_row \<Rightarrow> cascade_row \<Rightarrow> bool" where
  "share_node b c \<longleftrightarrow> set (membersOf b) \<inter> set (membersOf c) \<noteq> {}"

lemma ownership_order_set [simp]: "set (ownership_order cs) = set cs"
  by (simp add: ownership_order_def)

lemma ownership_order_older:
  assumes "distinct (map cs_id cs)" and split: "ownership_order cs = xs @ b # ys @ c # zs"
  shows "older b c"
proof -
  have sorted: "sorted (map cs_createdAt (ownership_order cs))"
    by (simp add: ownership_order_def)
  then have le: "cs_createdAt b \<le> cs_createdAt c"
    unfolding split by (simp add: sorted_append)
  show ?thesis
  proof (cases "cs_createdAt b = cs_createdAt c")
    case True
    let ?same = "filter (\<lambda>d. cs_createdAt d = cs_createdAt c)"
    have "?same (ownership_order cs) = ?same (sort_key cs_id cs)"
      unfolding ownership_order_def by (rule sort_key_stable)
    then have "sorted (map cs_id (?same (ownership_order cs)))" "distinct (map cs_id (?same (ownership_order cs)))"
      using assms(1) by (auto simp: sorted_filter distinct_map_filter distinct_map inj_on_def)
    then have "cs_id b < cs_id c"
      unfolding split using True by (auto simp: sorted_append order.strict_iff_order)
    then show ?thesis
      using True by (simp add: older_def)
  qed (use le in \<open>simp add: older_def\<close>)
qed

lemma older_irrefl: "older b c \<Longrightarrow> \<not> older c b"
  by (auto simp: older_def)

lemma first_holder_ex: "(\<exists>h. first_holder xs n = Some h) \<longleftrightarrow> (\<exists>b \<in> set xs. n \<in> set (membersOf b))"
  using find_None_all [of "\<lambda>c. n \<in> set (membersOf c)" xs] by (auto simp: first_holder_def)

lemma ownershipPairs_iff:
  "(n, h, d) \<in> set (ownershipPairs db) \<longleftrightarrow>
   (\<exists>xs c ys b. enabled_cascades db = xs @ c # ys \<and> n \<in> set (membersOf c) \<and> first_holder xs n = Some b \<and> h = named b \<and> d = named c)"
proof -
  obtain owner pairs where run: "foldl own_cascade ([], []) (enabled_cascades db) = (owner, pairs)"
    by (cases "foldl own_cascade ([], []) (enabled_cascades db)")
  show ?thesis
    using own_cascades [OF run, THEN conjunct2, rule_format, of n h d] by (simp only: ownershipPairs_def run snd_conv)
qed

lemma before_iff_older:
  assumes "distinct (map cs_id (cascades db))" and c: "c \<in> set (cascades db)" "cs_enabled c"
  shows "(\<exists>xs ys. enabled_cascades db = xs @ c # ys \<and> b \<in> set xs) \<longleftrightarrow> b \<in> set (cascades db) \<and> cs_enabled b \<and> older b c"
proof -
  have dist: "distinct (map cs_id (filter cs_enabled (cascades db)))"
    using assms(1) by (simp add: distinct_map_filter)
  obtain xs ys where split: "enabled_cascades db = xs @ c # ys"
    using c split_list [of c "enabled_cascades db"] by (auto simp: enabled_cascades_def)
  have before: "older b c" if "enabled_cascades db = xs @ c # ys" "b \<in> set xs" for xs ys b
    using that split_list [of b xs] ownership_order_older [OF dist] by (fastforce simp: enabled_cascades_def)
  have after: "older c b" if "b \<in> set ys" for b
    using that split split_list [of b ys] ownership_order_older [OF dist] by (fastforce simp: enabled_cascades_def)
  have members: "set (enabled_cascades db) = {b \<in> set (cascades db). cs_enabled b}"
    by (simp add: enabled_cascades_def)
  show ?thesis
  proof
    assume "b \<in> set (cascades db) \<and> cs_enabled b \<and> older b c"
    then show "\<exists>xs ys. enabled_cascades db = xs @ c # ys \<and> b \<in> set xs"
      using members split after older_irrefl by (fastforce simp: older_def)
  next
    assume "\<exists>xs ys. enabled_cascades db = xs @ c # ys \<and> b \<in> set xs"
    then obtain xs ys where xs: "enabled_cascades db = xs @ c # ys" "b \<in> set xs"
      by blast
    then have "b \<in> set (enabled_cascades db)"
      by simp
    then show "b \<in> set (cascades db) \<and> cs_enabled b \<and> older b c"
      using before [OF xs] members by auto
  qed
qed

lemma dead_pair:
  "fst d \<in> set (deadCascadeIdsNow db) \<longleftrightarrow> (\<exists>p \<in> set (ownershipPairs db). fst (snd (snd p)) = fst d)"
proof -
  have "set (deadCascadeIdsNow db) = (\<lambda>p. fst (snd (snd p))) ` set (ownershipPairs db)"
    by (simp add: deadCascadeIdsNow_def case_prod_beta)
  then have "fst d \<in> set (deadCascadeIdsNow db) \<longleftrightarrow> fst d \<in> (\<lambda>p. fst (snd (snd p))) ` set (ownershipPairs db)"
    by simp
  also have "\<dots> \<longleftrightarrow> (\<exists>p \<in> set (ownershipPairs db). fst (snd (snd p)) = fst d)"
    unfolding image_iff by (simp only: eq_commute [of "fst d"])
  finally show ?thesis .
qed

lemma conflict_names: "nc_deadCascade ` set (findCascadeNodeConflicts db) = (\<lambda>p. snd (snd (snd p))) ` set (ownershipPairs db)"
  by (simp add: findCascadeNodeConflicts_def image_image case_prod_beta)

lemma pair_is_enabled:
  assumes "p \<in> set (ownershipPairs db)"
  obtains d where "d \<in> set (cascades db)" and "cs_enabled d" and "snd (snd p) = named d"
proof -
  obtain n h d where p: "p = (n, h, d)"
    by (cases p)
  obtain xs c ys where c: "enabled_cascades db = xs @ c # ys" "d = named c"
    using assms unfolding p ownershipPairs_iff by blast
  have "c \<in> set (enabled_cascades db)"
    unfolding c(1) by simp
  then show ?thesis
    using that [of c] p c(2) by (simp add: enabled_cascades_def)
qed

lemma dead_cascades:
  assumes "distinct (map cs_id (cascades db))" and "c \<in> set (cascades db)" and "cs_enabled c"
  shows "(cs_id c \<in> set (deadCascadeIdsNow db) \<longleftrightarrow>
      (\<exists>b \<in> set (cascades db). cs_enabled b \<and> older b c \<and> share_node b c)) \<and>
    nc_deadCascade ` set (findCascadeNodeConflicts db) =
      cs_name ` {d \<in> set (cascades db). cs_enabled d \<and> cs_id d \<in> set (deadCascadeIdsNow db)}"
proof -
  have key: "d = e" if "d \<in> set (cascades db)" "e \<in> set (cascades db)" "cs_id d = cs_id e" for d e
    using assms(1) that by (auto simp: distinct_map inj_on_def)
  have dead: "cs_id d \<in> set (deadCascadeIdsNow db) \<longleftrightarrow> (\<exists>p \<in> set (ownershipPairs db). snd (snd p) = named d)"
    if d: "d \<in> set (cascades db)" for d
  proof
    assume "cs_id d \<in> set (deadCascadeIdsNow db)"
    then obtain p where p: "p \<in> set (ownershipPairs db)" "fst (snd (snd p)) = cs_id d"
      using dead_pair [of "named d"] unfolding named_def fst_conv by blast
    obtain e where "e \<in> set (cascades db)" "snd (snd p) = named e"
      by (rule pair_is_enabled [OF p(1)])
    then show "\<exists>p \<in> set (ownershipPairs db). snd (snd p) = named d"
      using p key [OF d] by (force simp: named_def)
  next
    assume "\<exists>p \<in> set (ownershipPairs db). snd (snd p) = named d"
    then have "\<exists>p \<in> set (ownershipPairs db). fst (snd (snd p)) = fst (named d)"
      by (metis)
    then show "cs_id d \<in> set (deadCascadeIdsNow db)"
      using dead_pair [of "named d"] unfolding named_def fst_conv by blast
  qed
  have "(\<exists>p \<in> set (ownershipPairs db). snd (snd p) = named c) \<longleftrightarrow> (\<exists>b \<in> set (cascades db). cs_enabled b \<and> older b c \<and> share_node b c)"
  proof -
    have same: "e = c" if "enabled_cascades db = xs @ e # ys" "named c = named e" for xs e ys
    proof -
      have "e \<in> set (enabled_cascades db)"
        by (simp add: that(1))
      then show ?thesis
        using key [OF _ assms(2)] that(2) by (simp add: enabled_cascades_def named_def)
    qed
    have "(\<exists>p \<in> set (ownershipPairs db). snd (snd p) = named c) \<longleftrightarrow> (\<exists>n h. (n, h, named c) \<in> set (ownershipPairs db))"
      by (metis prod.collapse snd_conv)
    also have "\<dots> \<longleftrightarrow> (\<exists>n xs ys h. enabled_cascades db = xs @ c # ys \<and> n \<in> set (membersOf c) \<and> first_holder xs n = Some h)"
      unfolding ownershipPairs_iff using same by blast
    also have "\<dots> \<longleftrightarrow> (\<exists>b. (\<exists>xs ys. enabled_cascades db = xs @ c # ys \<and> b \<in> set xs) \<and> share_node b c)"
      using first_holder_ex unfolding share_node_def by blast
    also have "\<dots> \<longleftrightarrow> (\<exists>b \<in> set (cascades db). cs_enabled b \<and> older b c \<and> share_node b c)"
      unfolding before_iff_older [OF assms] by blast
    finally show ?thesis .
  qed
  moreover have "(\<lambda>p. snd (snd (snd p))) ` set (ownershipPairs db) =
      cs_name ` {d \<in> set (cascades db). cs_enabled d \<and> cs_id d \<in> set (deadCascadeIdsNow db)}"
  proof (intro set_eqI iffI)
    fix s
    assume "s \<in> (\<lambda>p. snd (snd (snd p))) ` set (ownershipPairs db)"
    then obtain p where p: "p \<in> set (ownershipPairs db)" "s = snd (snd (snd p))"
      by blast
    obtain d where "d \<in> set (cascades db)" "cs_enabled d" "snd (snd p) = named d"
      by (rule pair_is_enabled [OF p(1)])
    then show "s \<in> cs_name ` {d \<in> set (cascades db). cs_enabled d \<and> cs_id d \<in> set (deadCascadeIdsNow db)}"
      using p dead by (auto simp: named_def)
  next
    fix s
    assume "s \<in> cs_name ` {d \<in> set (cascades db). cs_enabled d \<and> cs_id d \<in> set (deadCascadeIdsNow db)}"
    then obtain d where "d \<in> set (cascades db)" "cs_id d \<in> set (deadCascadeIdsNow db)" "s = cs_name d"
      by blast
    then show "s \<in> (\<lambda>p. snd (snd (snd p))) ` set (ownershipPairs db)"
      using dead by (force simp: named_def)
  qed
  ultimately show ?thesis
    unfolding conflict_names using dead [OF assms(2)] by blast
qed


lemma dead_Nil:
  assumes "distinct (map cs_id (cascades db))"
  shows "deadCascadeIdsNow db = [] \<longleftrightarrow>
    (\<forall>b \<in> set (cascades db). \<forall>c \<in> set (cascades db). cs_enabled b \<longrightarrow> cs_enabled c \<longrightarrow> cs_id b \<noteq> cs_id c \<longrightarrow> \<not> share_node b c)"
proof
  assume none: "deadCascadeIdsNow db = []"
  show "\<forall>b \<in> set (cascades db). \<forall>c \<in> set (cascades db). cs_enabled b \<longrightarrow> cs_enabled c \<longrightarrow> cs_id b \<noteq> cs_id c \<longrightarrow> \<not> share_node b c"
  proof (intro ballI impI notI)
    fix b c
    assume bc: "b \<in> set (cascades db)" "c \<in> set (cascades db)" "cs_enabled b" "cs_enabled c" "cs_id b \<noteq> cs_id c" "share_node b c"
    then have "older b c \<or> older c b" "share_node c b"
      by (auto simp: older_def share_node_def)
    then show False
      using bc dead_cascades [OF assms, of b] dead_cascades [OF assms, of c] none by auto
  qed
next
  assume apart: "\<forall>b \<in> set (cascades db). \<forall>c \<in> set (cascades db). cs_enabled b \<longrightarrow> cs_enabled c \<longrightarrow> cs_id b \<noteq> cs_id c \<longrightarrow> \<not> share_node b c"
  have "i \<notin> set (deadCascadeIdsNow db)" for i
  proof
    assume "i \<in> set (deadCascadeIdsNow db)"
    then obtain p where p: "p \<in> set (ownershipPairs db)" "fst (snd (snd p)) = i"
      using dead_pair [of "(i, i)" db, unfolded fst_conv] by blast
    obtain d where d: "d \<in> set (cascades db)" "cs_enabled d" "snd (snd p) = named d"
      by (rule pair_is_enabled [OF p(1)])
    then have "cs_id d \<in> set (deadCascadeIdsNow db)"
      using \<open>i \<in> set (deadCascadeIdsNow db)\<close> p(2) by (simp add: named_def)
    then obtain b where "b \<in> set (cascades db)" "cs_enabled b" "older b d" "share_node b d"
      using dead_cascades [OF assms d(1,2)] by blast
    then show False
      using apart d(1,2) assms by (auto simp: older_def distinct_map inj_on_def)
  qed
  then show "deadCascadeIdsNow db = []"
    by (metis list.set_intros(1) neq_Nil_conv)
qed

lemma assert_admits:
  "assertNodesInNoOtherCascade selfId nodeIds db = Inr () \<longleftrightarrow>
   (\<forall>c \<in> set (cascades db). cs_enabled c \<longrightarrow> Some (cs_id c) \<noteq> selfId \<longrightarrow> set nodeIds \<inter> set (membersOf c) = {})"
proof -
  have shared: "List.find (\<lambda>n. n \<in> set (membersOf c)) nodeIds = None \<longleftrightarrow> set nodeIds \<inter> set (membersOf c) = {}" for c
    unfolding find_None_all by auto
  have none: "List.map_filter f xs = [] \<longleftrightarrow> (\<forall>x \<in> set xs. f x = None)" for f :: "'a \<Rightarrow> 'b option" and xs
    by (induction xs) (auto simp: map_filter_simps split: option.split)
  let ?others = "filter (\<lambda>c. Some (cs_id c) \<noteq> selfId \<and> (\<exists>n \<in> set (membersOf c). n \<in> set nodeIds)) (enabled_cascades db)"
  have "assertNodesInNoOtherCascade selfId nodeIds db = Inr () \<longleftrightarrow> nodeIds = [] \<or>
      List.map_filter (\<lambda>c. map_option (\<lambda>n. (n, named c)) (List.find (\<lambda>n. n \<in> set (membersOf c)) nodeIds)) ?others = []"
    by (auto simp: assertNodesInNoOtherCascade_def Let_def split: list.split)
  also have "\<dots> \<longleftrightarrow> (\<forall>c \<in> set ?others. set nodeIds \<inter> set (membersOf c) = {})"
    unfolding none by (auto simp: shared)
  also have "\<dots> \<longleftrightarrow> (\<forall>c \<in> set (cascades db). cs_enabled c \<longrightarrow> Some (cs_id c) \<noteq> selfId \<longrightarrow> set nodeIds \<inter> set (membersOf c) = {})"
    by (auto simp: enabled_cascades_def)
  finally show ?thesis .
qed

text \<open>The table after the save of an enabled cascade, new or edited.\<close>

definition with_cascade :: "cascade_row \<Rightarrow> panel_db \<Rightarrow> panel_db" where
  "with_cascade c db = db\<lparr>cascades := filter (\<lambda>d. cs_id d \<noteq> cs_id c) (cascades db) @ [c]\<rparr>"

section \<open>The properties\<close>

text \<open>An enabled cascade is dead exactly when an older enabled cascade, by creation and then by id, has one
  of its nodes; so the oldest is never dead, and the start-up report names the dead ones and no
  others.
\<close>

theorem dead_cascades_exact:
  assumes "distinct (map cs_id (cascades db))" and "c \<in> set (cascades db)" and "cs_enabled c"
  shows "(cs_id c \<in> set (deadCascadeIdsNow db) \<longleftrightarrow>
      (\<exists>b \<in> set (cascades db). cs_enabled b \<and> older b c \<and> share_node b c)) \<and>
    nc_deadCascade ` set (findCascadeNodeConflicts db) =
      cs_name ` {d \<in> set (cascades db). cs_enabled d \<and> cs_id d \<in> set (deadCascadeIdsNow db)}"
  using dead_cascades [OF assms] by blast

text \<open>C23. While no cascade is dead, the check admits the save of an enabled cascade exactly when no cascade
  is dead afterwards: it refuses every save that would make one, the saved one or another, and no
  other save.
\<close>

theorem saves_keep_cascades_alive:
  assumes "distinct (map cs_id (cascades db))" and "deadCascadeIdsNow db = []"
    and "cs_enabled c" and "set (membersOf c) = set nodeIds"
    and "selfId = Some (cs_id c) \<or> selfId = None \<and> cs_id c \<notin> cs_id ` set (cascades db)"
  shows "assertNodesInNoOtherCascade selfId nodeIds db = Inr () \<longleftrightarrow> deadCascadeIdsNow (with_cascade c db) = []"
proof -
  have dist: "distinct (map cs_id (cascades (with_cascade c db)))"
    using assms(1) by (auto simp: with_cascade_def distinct_map_filter)
  have other: "Some (cs_id d) \<noteq> selfId \<longleftrightarrow> cs_id d \<noteq> cs_id c" if "d \<in> set (cascades db)" for d
    using assms(5) imageI [OF that, of cs_id] by auto
  have old: "\<not> share_node b d" if "b \<in> set (cascades db)" "d \<in> set (cascades db)" "cs_enabled b" "cs_enabled d" "cs_id b \<noteq> cs_id d" for b d
    using assms(2) that unfolding dead_Nil [OF assms(1)] by blast
  have "deadCascadeIdsNow (with_cascade c db) = [] \<longleftrightarrow>
      (\<forall>d \<in> set (cascades db). cs_enabled d \<longrightarrow> cs_id d \<noteq> cs_id c \<longrightarrow> \<not> share_node d c)"
    unfolding dead_Nil [OF dist] using old assms(3) by (auto simp: with_cascade_def share_node_def)
  then show ?thesis
    unfolding assert_admits using other assms(4) by (auto simp: share_node_def)
qed

section \<open>Two cascades on one node\<close>

definition demo_cascade :: "string \<Rightarrow> int \<Rightarrow> string list \<Rightarrow> cascade_row" where
  "demo_cascade i t hops = \<lparr>cs_id = i, cs_name = i, cs_enabled = True, cs_createdAt = t, cs_hops = hops, cs_positions = [],
     cs_directions = []\<rparr>"

definition demo_cascades :: panel_db where
  "demo_cascades = \<lparr>users = [], user_traffic = [], members = [], squads = [], group_profiles = [], group_hosts = [],
     cascade_exits = [], cascades_off = [], group_policies = [], presets = [], policies = [], profiles = [], bindings = [],
     nodes = [], cascades = [demo_cascade ''late'' 2 [''n1''], demo_cascade ''early'' 1 [''n1'', ''n2'']], peers = [],
     devices = [], erased_sources = [], user_snapshots = []\<rparr>"

lemma demo_members: "membersOf (demo_cascade i t hops) = set_from hops"
  by (simp add: membersOf_def demo_cascade_def)

theorem dead_cascades_exact_witness: "''late'' \<in> set (deadCascadeIdsNow demo_cascades)"
proof -
  have "distinct (map cs_id (cascades demo_cascades))" "demo_cascade ''late'' 2 [''n1''] \<in> set (cascades demo_cascades)"
    "cs_enabled (demo_cascade ''late'' 2 [''n1''])"
    by (simp_all add: demo_cascades_def demo_cascade_def)
  moreover have "\<exists>b \<in> set (cascades demo_cascades). cs_enabled b \<and> older b (demo_cascade ''late'' 2 [''n1'']) \<and>
      share_node b (demo_cascade ''late'' 2 [''n1''])"
    by (rule bexI [of _ "demo_cascade ''early'' 1 [''n1'', ''n2'']"])
      (simp_all add: share_node_def demo_members, simp_all add: older_def demo_cascade_def demo_cascades_def)
  moreover have "cs_id (demo_cascade ''late'' 2 [''n1'']) = ''late''"
    by (simp add: demo_cascade_def)
  ultimately show ?thesis
    using dead_cascades_exact [of demo_cascades "demo_cascade ''late'' 2 [''n1'']"] by simp
qed

theorem saves_keep_cascades_alive_witness:
  "assertNodesInNoOtherCascade None [''n1''] (demo_cascades\<lparr>cascades := [demo_cascade ''early'' 1 [''n1'', ''n2'']]\<rparr>) \<noteq> Inr () \<and>
   deadCascadeIdsNow (with_cascade (demo_cascade ''late'' 2 [''n1'']) (demo_cascades\<lparr>cascades := [demo_cascade ''early'' 1 [''n1'', ''n2'']]\<rparr>)) \<noteq> []"
proof -
  let ?db = "demo_cascades\<lparr>cascades := [demo_cascade ''early'' 1 [''n1'', ''n2'']]\<rparr>"
  have dist: "distinct (map cs_id (cascades ?db))"
    by simp
  have none: "deadCascadeIdsNow ?db = []"
    unfolding dead_Nil [OF dist] by simp
  have refused: "assertNodesInNoOtherCascade None [''n1''] ?db \<noteq> Inr ()"
    unfolding assert_admits by (simp add: demo_members) (simp add: demo_cascade_def)
  have "cs_enabled (demo_cascade ''late'' 2 [''n1''])" "set (membersOf (demo_cascade ''late'' 2 [''n1''])) = set [''n1'']"
    "None = Some (cs_id (demo_cascade ''late'' 2 [''n1''])) \<or>
     (None :: string option) = None \<and> cs_id (demo_cascade ''late'' 2 [''n1'']) \<notin> cs_id ` set (cascades ?db)"
    by (simp_all add: demo_members) (simp_all add: demo_cascade_def)
  then show ?thesis
    using saves_keep_cascades_alive [OF dist none] refused by blast
qed

end
