(* ===== verification/UserService.thy ===== *)
theory UserService
  imports PanelTables
begin

text \<open>
  The user service (\<open>modules/users/users.service.ts\<close>, \<open>users.repository.ts\<close>) with the routing preset
  rules it shares with squads (\<open>routing-presets.assign.ts\<close>) and the repair of the system squad
  (\<open>modules/squads/squads.system.ts\<close>). A call first reads and later writes; the database it read is
  \<open>seen\<close>, the one its write meets is \<open>db\<close>, and they differ by what other sessions did in between.
  A call gives its result, the database it leaves and the domain events it emits. Input is what the
  schemas admit; an absent key is \<open>None\<close>, an explicit null is \<open>Some None\<close>.
\<close>

section \<open>Errors and events\<close>

datatype user_error =
    UserAlreadyExistsError string
  | UserNotFoundError string
  | SubscriptionTokenTakenError string
  | SourceIdTakenError string
  | SourceIdErasedError string
  | ShortIdTakenError
  | UserUniqueConflictError "unique_violation option"
  | RoutingPresetNotFoundError string
  | InvalidDate
  | RetriesError
  | Rethrown db_error

datatype domain_event =
    Created string string
  | Updated string "string list"
  | StatusChanged string user_status user_status
  | Deleted string
  | TrafficReset string int
  | SquadChanged string

type_synonym 'a outcome = "(user_error + 'a) \<times> panel_db \<times> domain_event list"

datatype user_unique_field = Username | SubscriptionToken | ShortId | SourceId

definition USER_UNIQUE :: "(user_unique_field \<times> string \<times> string list) list" where
  "USER_UNIQUE =
     [(Username, ''users_username_active_key'', [''username'']),
      (SubscriptionToken, ''users_subscription_token_key'', [''subscription_token'', ''subscriptionToken'']),
      (ShortId, ''users_short_id_key'', [''short_id'', ''shortId'']),
      (SourceId, ''users_source_id_key'', [''source_id'', ''sourceId''])]"

definition userUniqueField :: "db_error \<Rightarrow> user_unique_field option" where
  "userUniqueField err =
     (case uniqueViolationOf err of
        None \<Rightarrow> None
      | Some v \<Rightarrow> (case v_index v of
          Some i \<Rightarrow> map_option fst (List.find (\<lambda>(_, index, _). index = i) USER_UNIQUE)
        | None \<Rightarrow> (case v_fields v of
            [f] \<Rightarrow> map_option fst (List.find (\<lambda>(_, _, columns). f \<in> set columns) USER_UNIQUE)
          | _ \<Rightarrow> None)))"

section \<open>Conversions\<close>

definition BYTES_PER_GB :: int where
  "BYTES_PER_GB = 1073741824"

definition gbToBytes :: "nat option \<Rightarrow> int option" where
  "gbToBytes gb = map_option (\<lambda>g. int g * BYTES_PER_GB) gb"

definition DAY_MS :: int where
  "DAY_MS = 24 * 60 * 60 * 1000"

definition daysFromNow :: "nat option \<Rightarrow> int \<Rightarrow> int option" where
  "daysFromNow days now = map_option (\<lambda>d. now + int d * DAY_MS) days"

text \<open>A \<open>Date\<close> holds 8.64e15 milliseconds either way; beyond that it is invalid.\<close>

definition date_ok :: "int option \<Rightarrow> bool" where
  "date_ok t = (case t of None \<Rightarrow> True | Some ms \<Rightarrow> \<bar>ms\<bar> \<le> 8640000000000000)"

section \<open>Routing presets\<close>

definition js_includes :: "string \<Rightarrow> string \<Rightarrow> bool" where
  "js_includes part s = list_ex (\<lambda>i. js_starts_with part (drop i s)) [0..<Suc (length s)]"

definition bothPresetsGiven :: "string option \<Rightarrow> string option \<Rightarrow> bool" where
  "bothPresetsGiven builtIn own \<longleftrightarrow> builtIn \<noteq> None \<and> own \<noteq> None"

definition assertCustomPresetExists :: "string option \<Rightarrow> panel_db \<Rightarrow> user_error + unit" where
  "assertCustomPresetExists i db =
     (case i of None \<Rightarrow> Inr () | Some p \<Rightarrow> if p \<in> set (presets db) then Inr () else Inl (RoutingPresetNotFoundError p))"

definition rethrowPresetGone :: "db_error \<Rightarrow> string option \<Rightarrow> user_error" where
  "rethrowPresetGone err i =
     (case i of
        None \<Rightarrow> Rethrown err
      | Some p \<Rightarrow>
          if e_code err = ''P2003'' \<and> js_includes ''custom_routing_preset'' (e_said err) \<or>
             e_code err = ''P2025'' \<and> js_includes ''RoutingPreset'' (e_said err)
          then RoutingPresetNotFoundError p else Rethrown err)"

text \<open>The two columns an update writes, as a pair (built-in key, own preset).\<close>

definition presetUpdateData ::
  "string option option \<Rightarrow> string option option \<Rightarrow> string option option \<times> string option option" where
  "presetUpdateData builtIn own =
     (let out1 = (case builtIn of None \<Rightarrow> (None, None) | Some v \<Rightarrow> (Some v, if v \<noteq> None then Some None else None))
      in (case own of None \<Rightarrow> out1 | Some v \<Rightarrow> (if v \<noteq> None then Some None else fst out1, Some v)))"

section \<open>The system squad\<close>

definition ALL_SQUAD_ID :: string where
  "ALL_SQUAD_ID = ''00000000-0000-0000-0000-000000000001''"

definition ALL_SQUAD_NAME :: string where
  "ALL_SQUAD_NAME = ''All''"

definition ensureAllSquad :: "panel_db \<Rightarrow> db_error + panel_db" where
  "ensureAllSquad db =
     (if \<exists>s \<in> set (squads db). s_id s = ALL_SQUAD_ID then Inr db
      else
        let nameTaken = (\<exists>s \<in> set (squads db). s_name s = ALL_SQUAD_NAME);
            name = (if nameTaken then ALL_SQUAD_NAME @ '' (system)'' else ALL_SQUAD_NAME)
        in if \<exists>s \<in> set (squads db). s_name s = name then Inl (unique_error ''groups_name_key'')
           else Inr (db\<lparr>squads := squads db @
             [\<lparr>s_id = ALL_SQUAD_ID, s_name = name,
               s_description = Some ''Default group containing every inbound. Auto-membership for new users.'',
               s_preset = None, s_customPreset = None, s_hwidLimit = None\<rparr>]\<rparr>))"

section \<open>Creating a user\<close>

record create_input =
  ci_username :: string
  ci_subscriptionToken :: "string option"
  ci_trafficLimitGb :: "nat option"
  ci_trafficLimitStrategy :: reset_strategy
  ci_expireDays :: "nat option"
  ci_expireAt :: "int option"
  ci_vlessUuid :: "string option"
  ci_createdAt :: "int option"
  ci_sourceId :: "string option"
  ci_hwidDeviceLimit :: "nat option"
  ci_description :: "string option"
  ci_tag :: "string option"
  ci_telegramId :: "int option"
  ci_email :: "string option"
  ci_groupIds :: "string list"
  ci_routingPreset :: "string option"
  ci_customRoutingPresetId :: "string option"
  ci_enabledProtocols :: "string list"

text \<open>What the panel draws for a user: the row's id and \<open>generateUserCredentials\<close>.\<close>

record drawn_user =
  dr_id :: string
  dr_shortId :: string
  dr_token :: string
  dr_identities :: identities

definition truthy_id :: "string option \<Rightarrow> bool" where
  "truthy_id i \<longleftrightarrow> i \<noteq> None \<and> i \<noteq> Some []"

definition new_user :: "create_input \<Rightarrow> drawn_user \<Rightarrow> int \<Rightarrow> user_row" where
  "new_user inp drawn now =
     \<lparr>u_id = dr_id drawn,
      u_sourceId = ci_sourceId inp,
      u_shortId = dr_shortId drawn,
      u_username = ci_username inp,
      u_status = Active,
      u_expireAt = (case ci_expireAt inp of Some t \<Rightarrow> Some t | None \<Rightarrow> daysFromNow (ci_expireDays inp) now),
      u_limitBytes = gbToBytes (ci_trafficLimitGb inp),
      u_strategy = ci_trafficLimitStrategy inp,
      u_token = (case ci_subscriptionToken inp of Some t \<Rightarrow> t | None \<Rightarrow> dr_token drawn),
      u_revokedAt = None,
      u_identities = (case ci_vlessUuid inp of
          Some uuid \<Rightarrow> (dr_identities drawn)\<lparr>xrayUuid := uuid\<rparr>
        | None \<Rightarrow> dr_identities drawn),
      u_protocols = ci_enabledProtocols inp,
      u_hwidLimit = ci_hwidDeviceLimit inp,
      u_preset = ci_routingPreset inp,
      u_customPreset = (if truthy_id (ci_customRoutingPresetId inp) then ci_customRoutingPresetId inp else None),
      u_description = ci_description inp,
      u_tag = ci_tag inp,
      u_telegramId = ci_telegramId inp,
      u_email = ci_email inp,
      u_createdAt = (case ci_createdAt inp of Some t \<Rightarrow> t | None \<Rightarrow> now),
      u_updatedAt = now,
      u_deletedAt = None\<rparr>"

text \<open>\<open>prisma.user.create\<close> with its nested rows: the preset is connected first, the user's row, the
  traffic row and the memberships follow in one transaction.\<close>

definition insert_user :: "user_row \<Rightarrow> string list \<Rightarrow> panel_db \<Rightarrow> db_error + panel_db" where
  "insert_user u groupIds db =
     rbind (case u_customPreset u of
        Some p \<Rightarrow> if p \<in> set (presets db) then Inr () else Inl (missing_error ''RoutingPreset'')
      | None \<Rightarrow> Inr ()) (\<lambda>_.
      case user_refused u (users db) db of
        Some e \<Rightarrow> Inl e
      | None \<Rightarrow>
          insert_members (u_id u) groupIds
            (db\<lparr>users := users db @ [u],
                user_traffic := map_set (u_id u) \<lparr>ut_used = 0, ut_lastReset = None\<rparr> (user_traffic db)\<rparr>))"

definition repo_create :: "user_row \<Rightarrow> string list \<Rightarrow> bool \<Rightarrow> panel_db \<Rightarrow> db_error + panel_db" where
  "repo_create u groupIds intoAll db =
     rbind (if intoAll then ensureAllSquad db else Inr db) (insert_user u groupIds)"

definition create_refusal :: "create_input \<Rightarrow> db_error \<Rightarrow> user_error" where
  "create_refusal inp err =
     (if isUniqueViolation err then
        (case userUniqueField err of
           Some Username \<Rightarrow> UserAlreadyExistsError (ci_username inp)
         | Some SubscriptionToken \<Rightarrow> SubscriptionTokenTakenError (case ci_subscriptionToken inp of Some t \<Rightarrow> t | None \<Rightarrow> [])
         | Some ShortId \<Rightarrow> ShortIdTakenError
         | Some SourceId \<Rightarrow> SourceIdTakenError (case ci_sourceId inp of Some i \<Rightarrow> i | None \<Rightarrow> [])
         | None \<Rightarrow> UserUniqueConflictError (uniqueViolationOf err))
      else rethrowPresetGone err (ci_customRoutingPresetId inp))"

text \<open>The checks made before the write.\<close>

definition create_checks :: "(string \<Rightarrow> string) \<Rightarrow> create_input \<Rightarrow> panel_db \<Rightarrow> user_error + unit" where
  "create_checks sha inp seen =
     (if findActiveByUsername (ci_username inp) seen \<noteq> None then Inl (UserAlreadyExistsError (ci_username inp))
      else if truthy_id (ci_subscriptionToken inp) \<and> findBySubscriptionToken (the (ci_subscriptionToken inp)) seen \<noteq> None
        then Inl (SubscriptionTokenTakenError (the (ci_subscriptionToken inp)))
      else if truthy_id (ci_sourceId inp) \<and> sha (the (ci_sourceId inp)) \<in> set (erased_sources seen)
        then Inl (SourceIdErasedError (the (ci_sourceId inp)))
      else assertCustomPresetExists (ci_customRoutingPresetId inp) seen)"

definition picked_squads :: "string list \<Rightarrow> string list" where
  "picked_squads groupIds = (if groupIds = [] then [ALL_SQUAD_ID] else groupIds)"

definition createUser ::
  "(string \<Rightarrow> string) \<Rightarrow> create_input \<Rightarrow> drawn_user \<Rightarrow> int \<Rightarrow> panel_db \<Rightarrow> panel_db \<Rightarrow> user_row outcome" where
  "createUser sha inp drawn now seen db =
     (case create_checks sha inp seen of
        Inl e \<Rightarrow> (Inl e, db, [])
      | Inr _ \<Rightarrow>
          (let u = new_user inp drawn now in
           if \<not> date_ok (u_expireAt u) then (Inl InvalidDate, db, [])
           else case repo_create u (picked_squads (ci_groupIds inp)) (ci_groupIds inp = []) db of
             Inl err \<Rightarrow> (Inl (create_refusal inp err), db, [])
           | Inr db' \<Rightarrow> (Inr u, db', [Created (u_id u) (u_username u)])))"

section \<open>Editing a user\<close>

record update_input =
  ui_status :: "user_status option"
  ui_trafficLimitGb :: "nat option option"
  ui_trafficLimitStrategy :: "reset_strategy option"
  ui_expireAt :: "int option option"
  ui_hwidDeviceLimit :: "nat option option"
  ui_routingPreset :: "string option option"
  ui_customRoutingPresetId :: "string option option"
  ui_description :: "string option option"
  ui_tag :: "string option option"
  ui_telegramId :: "int option option"
  ui_email :: "string option option"
  ui_groupIds :: "string list option"
  ui_enabledProtocols :: "string list option"

definition no_edit :: update_input where
  "no_edit = \<lparr>ui_status = None, ui_trafficLimitGb = None, ui_trafficLimitStrategy = None, ui_expireAt = None,
     ui_hwidDeviceLimit = None, ui_routingPreset = None, ui_customRoutingPresetId = None, ui_description = None,
     ui_tag = None, ui_telegramId = None, ui_email = None, ui_groupIds = None, ui_enabledProtocols = None\<rparr>"

definition or_keep :: "'a option \<Rightarrow> 'a \<Rightarrow> 'a" where
  "or_keep new old = (case new of None \<Rightarrow> old | Some v \<Rightarrow> v)"

text \<open>Where the facts put a user: the date first, then the quota.\<close>

definition byFacts :: "int option \<Rightarrow> int option \<Rightarrow> int \<Rightarrow> int \<Rightarrow> user_status" where
  "byFacts expireAt limit used now =
     (if (case expireAt of Some t \<Rightarrow> t < now | None \<Rightarrow> False) then Expired
      else if (case limit of Some l \<Rightarrow> l \<le> used | None \<Rightarrow> False) then Limited
      else Active)"

definition statusAfterEdit :: "user_row \<Rightarrow> int \<Rightarrow> update_input \<Rightarrow> int \<Rightarrow> user_status option" where
  "statusAfterEdit existing used inp now =
     (let expireAt = or_keep (ui_expireAt inp) (u_expireAt existing);
          limit = or_keep (map_option gbToBytes (ui_trafficLimitGb inp)) (u_limitBytes existing);
          facts = byFacts expireAt limit used now
      in if ui_status inp = Some Disabled then Some Disabled
         else if ui_status inp = Some Active then Some facts
         else if ui_status inp \<noteq> None then ui_status inp
         else
           let touched = (u_status existing = Expired \<and> ui_expireAt inp \<noteq> None \<or>
                          u_status existing = Limited \<and> ui_trafficLimitGb inp \<noteq> None)
           in if \<not> touched then None
              else if facts = u_status existing then None else Some facts)"

text \<open>The columns an edit writes.\<close>

definition edit_row :: "update_input \<Rightarrow> user_status option \<Rightarrow> user_row \<Rightarrow> user_row" where
  "edit_row inp nextStatus u =
     (let preset = presetUpdateData (ui_routingPreset inp) (ui_customRoutingPresetId inp)
      in u\<lparr>u_status := or_keep nextStatus (u_status u),
           u_limitBytes := or_keep (map_option gbToBytes (ui_trafficLimitGb inp)) (u_limitBytes u),
           u_strategy := or_keep (ui_trafficLimitStrategy inp) (u_strategy u),
           u_expireAt := or_keep (ui_expireAt inp) (u_expireAt u),
           u_hwidLimit := or_keep (ui_hwidDeviceLimit inp) (u_hwidLimit u),
           u_preset := or_keep (fst preset) (u_preset u),
           u_customPreset := or_keep (snd preset) (u_customPreset u),
           u_description := or_keep (ui_description inp) (u_description u),
           u_tag := or_keep (ui_tag inp) (u_tag u),
           u_telegramId := or_keep (ui_telegramId inp) (u_telegramId u),
           u_email := or_keep (ui_email inp) (u_email u),
           u_protocols := or_keep (ui_enabledProtocols inp) (u_protocols u)\<rparr>)"

definition changed_if :: "bool \<Rightarrow> string \<Rightarrow> string list" where
  "changed_if b name = (if b then [name] else [])"

definition changedFields :: "user_row \<Rightarrow> update_input \<Rightarrow> user_status option \<Rightarrow> string list" where
  "changedFields existing inp nextStatus =
     (let preset = presetUpdateData (ui_routingPreset inp) (ui_customRoutingPresetId inp)
      in changed_if (nextStatus \<noteq> None) ''status''
       @ changed_if (ui_trafficLimitGb inp \<noteq> None) ''trafficLimitBytes''
       @ changed_if (ui_trafficLimitStrategy inp \<noteq> None) ''trafficLimitStrategy''
       @ changed_if (ui_expireAt inp \<noteq> None) ''expireAt''
       @ changed_if (ui_hwidDeviceLimit inp \<noteq> None) ''hwidDeviceLimit''
       @ changed_if (fst preset \<noteq> None \<and> (ui_routingPreset inp \<noteq> None \<or> u_preset existing \<noteq> None)) ''routingPreset''
       @ changed_if (snd preset \<noteq> None \<and> (ui_customRoutingPresetId inp \<noteq> None \<or> u_customPreset existing \<noteq> None))
           ''customRoutingPresetId''
       @ changed_if (ui_description inp \<noteq> None) ''description''
       @ changed_if (ui_tag inp \<noteq> None) ''tag''
       @ changed_if (ui_telegramId inp \<noteq> None) ''telegramId''
       @ changed_if (ui_email inp \<noteq> None) ''email''
       @ changed_if (ui_groupIds inp \<noteq> None) ''groupIds''
       @ changed_if (ui_enabledProtocols inp \<noteq> None) ''enabledProtocols'')"

text \<open>\<open>repo.updateById\<close>: one UPDATE of the row, then the memberships replaced, in one transaction. The
  row is found by its id alone, a soft-deleted one too. The result carries the row it leaves.\<close>

definition updateById ::
  "string \<Rightarrow> (user_row \<Rightarrow> user_row) \<Rightarrow> string list option \<Rightarrow> bool \<Rightarrow> int \<Rightarrow> panel_db \<Rightarrow> db_error + user_row \<times> panel_db" where
  "updateById i f groupIds intoAll now db =
     rbind (if intoAll then ensureAllSquad db else Inr db) (\<lambda>db1.
     case find_user (\<lambda>u. u_id u = i) db1 of
       None \<Rightarrow> Inl (missing_error ''User'')
     | Some u \<Rightarrow>
         (let u' = (f u)\<lparr>u_updatedAt := now\<rparr> in
          case user_refused u' (filter (\<lambda>v. u_id v \<noteq> i) (users db1)) db1 of
            Some e \<Rightarrow> Inl e
          | None \<Rightarrow>
              (let db2 = db1\<lparr>users := map (\<lambda>v. if u_id v = i then u' else v) (users db1)\<rparr>
               in rbind (case groupIds of
                    None \<Rightarrow> Inr db2
                  | Some gs \<Rightarrow> insert_members i gs (db2\<lparr>members := filter (\<lambda>m. snd m \<noteq> i) (members db2)\<rparr>))
                  (\<lambda>db3. Inr (u', db3)))))"

definition updateUser :: "string \<Rightarrow> update_input \<Rightarrow> int \<Rightarrow> panel_db \<Rightarrow> panel_db \<Rightarrow> user_row outcome" where
  "updateUser i inp now seen db =
     (case findActiveById i seen of
        None \<Rightarrow> (Inl (UserNotFoundError i), db, [])
      | Some existing \<Rightarrow>
          (let next = statusAfterEdit existing (used_bytes i seen) inp now;
               own = snd (presetUpdateData (ui_routingPreset inp) (ui_customRoutingPresetId inp));
               ownId = (case own of Some p \<Rightarrow> p | None \<Rightarrow> None)
           in case (if truthy_id ownId then assertCustomPresetExists ownId seen else Inr ()) of
                Inl e \<Rightarrow> (Inl e, db, [])
              | Inr _ \<Rightarrow>
                  (case updateById i (edit_row inp next) (map_option picked_squads (ui_groupIds inp))
                          (ui_groupIds inp = Some []) now db of
                     Inl err \<Rightarrow> (Inl (rethrowPresetGone err ownId), db, [])
                   | Inr (u', db') \<Rightarrow>
                       (Inr u', db',
                        (case changedFields existing inp next of [] \<Rightarrow> [] | ch \<Rightarrow> [Updated i ch]) @
                        (case next of
                           Some s \<Rightarrow> if s \<noteq> u_status existing then [StatusChanged i (u_status existing) s] else []
                         | None \<Rightarrow> [])))))"

section \<open>The other operations\<close>

definition deleteUser :: "string \<Rightarrow> int \<Rightarrow> panel_db \<Rightarrow> panel_db \<Rightarrow> unit outcome" where
  "deleteUser i now seen db =
     (if \<not> existsActive i seen then (Inl (UserNotFoundError i), db, [])
      else case updateById i (u_deletedAt_update (\<lambda>_. Some now)) None False now db of
        Inl err \<Rightarrow> (Inl (Rethrown err), db, [])
      | Inr (_, db') \<Rightarrow> (Inr (), db', [Deleted i]))"

definition revokeSubscription :: "string \<Rightarrow> int \<Rightarrow> panel_db \<Rightarrow> panel_db \<Rightarrow> user_row outcome" where
  "revokeSubscription i now seen db =
     (if findActiveById i seen = None then (Inl (UserNotFoundError i), db, [])
      else case updateById i (u_revokedAt_update (\<lambda>_. Some now)) None False now db of
        Inl err \<Rightarrow> (Inl (Rethrown err), db, [])
      | Inr (u, db') \<Rightarrow> (Inr u, db', [Updated i [''subRevokedAt'']]))"

text \<open>The three attempts \<open>rotateSubscription\<close> and \<open>reissueCredentials\<close> make, one per value drawn: a
  unique violation draws again, any other error is thrown.\<close>

fun attempts :: "string \<Rightarrow> ('d \<Rightarrow> user_row \<Rightarrow> user_row) \<Rightarrow> string list \<Rightarrow> 'd list \<Rightarrow> int \<Rightarrow> panel_db \<Rightarrow> user_row outcome" where
  "attempts i f changes [] now db = (Inl RetriesError, db, [])"
| "attempts i f changes (d # ds) now db =
     (case updateById i (f d) None False now db of
        Inr (u, db') \<Rightarrow> (Inr u, db', [Updated i changes])
      | Inl err \<Rightarrow> if isUniqueViolation err then attempts i f changes ds now db else (Inl (Rethrown err), db, []))"

definition with_token :: "string \<Rightarrow> user_row \<Rightarrow> user_row" where
  "with_token token u = u\<lparr>u_token := token, u_revokedAt := None\<rparr>"

definition rotateSubscription :: "string \<Rightarrow> (nat \<Rightarrow> string) \<Rightarrow> int \<Rightarrow> panel_db \<Rightarrow> panel_db \<Rightarrow> user_row outcome" where
  "rotateSubscription i draw now seen db =
     (if findActiveById i seen = None then (Inl (UserNotFoundError i), db, [])
      else attempts i with_token [''subscriptionToken'', ''subRevokedAt''] (map draw [0..<3]) now db)"

definition with_credentials :: "drawn_user \<Rightarrow> user_row \<Rightarrow> user_row" where
  "with_credentials d u = u\<lparr>u_identities := dr_identities d, u_token := dr_token d, u_revokedAt := None\<rparr>"

definition reissueCredentials :: "string \<Rightarrow> (nat \<Rightarrow> drawn_user) \<Rightarrow> int \<Rightarrow> panel_db \<Rightarrow> panel_db \<Rightarrow> user_row outcome" where
  "reissueCredentials i draw now seen db =
     (if findActiveById i seen = None then (Inl (UserNotFoundError i), db, [])
      else attempts i with_credentials [''credentials'', ''subscriptionToken'', ''subRevokedAt''] (map draw [0..<3]) now db)"

text \<open>\<open>repo.resetTraffic\<close>, an upsert, and the event; the answer reads the row again.\<close>

definition resetTraffic :: "string \<Rightarrow> int \<Rightarrow> panel_db \<Rightarrow> panel_db" where
  "resetTraffic i now db = db\<lparr>user_traffic := map_set i \<lparr>ut_used = 0, ut_lastReset = Some now\<rparr> (user_traffic db)\<rparr>"

definition resetUserTraffic :: "string \<Rightarrow> int \<Rightarrow> panel_db \<Rightarrow> panel_db \<Rightarrow> user_row outcome" where
  "resetUserTraffic i now seen db =
     (case findActiveById i seen of
        None \<Rightarrow> (Inl (UserNotFoundError i), db, [])
      | Some existing \<Rightarrow>
          if (\<exists>u \<in> set (users db). u_id u = i) then
            (let db' = resetTraffic i now db
             in (Inr (case findActiveById i db' of Some u \<Rightarrow> u | None \<Rightarrow> existing), db',
                 [TrafficReset i (used_bytes i seen)]))
          else (Inl (Rethrown (foreign_error ''user_traffic_user_id_fkey'')), db, []))"

section \<open>Many users at once\<close>

datatype bulk_action = Extend nat | ResetAll | RevokeAll | DeleteAll | Enable | Disable

text \<open>One user of \<open>bulkUsers\<close>: what the loop's body does, from reading to writing at one moment.\<close>

definition bulk_one :: "bulk_action \<Rightarrow> int \<Rightarrow> string \<Rightarrow> panel_db \<Rightarrow> unit outcome" where
  "bulk_one action now i db =
     (let forget = (\<lambda>(r, db', evs). (case r of Inl e \<Rightarrow> Inl e | Inr _ \<Rightarrow> Inr (), db', evs)) in
      case action of
        Extend days \<Rightarrow>
          (case findActiveById i db of
             None \<Rightarrow> (Inl (UserNotFoundError i), db, [])
           | Some current \<Rightarrow>
               (let base = (case u_expireAt current of Some t \<Rightarrow> if now < t then t else now | None \<Rightarrow> now);
                    expireAt = base + int days * DAY_MS
                in if \<not> date_ok (Some expireAt) then (Inl InvalidDate, db, [])
                   else forget (updateUser i (no_edit\<lparr>ui_expireAt := Some (Some expireAt)\<rparr>) now db db)))
      | ResetAll \<Rightarrow> forget (resetUserTraffic i now db db)
      | RevokeAll \<Rightarrow> forget (revokeSubscription i now db db)
      | DeleteAll \<Rightarrow> deleteUser i now db db
      | Enable \<Rightarrow> forget (updateUser i (no_edit\<lparr>ui_status := Some Active\<rparr>) now db db)
      | Disable \<Rightarrow> forget (updateUser i (no_edit\<lparr>ui_status := Some Disabled\<rparr>) now db db))"

record bulk_result =
  br_ok :: "string list"
  br_failed :: "(string \<times> user_error) list"

fun bulk_loop :: "bulk_action \<Rightarrow> int \<Rightarrow> string list \<Rightarrow> bulk_result \<Rightarrow> panel_db \<Rightarrow> domain_event list \<Rightarrow>
    bulk_result \<times> panel_db \<times> domain_event list" where
  "bulk_loop action now [] result db evs = (result, db, evs)"
| "bulk_loop action now (i # is) result db evs =
     (case bulk_one action now i db of
        (Inr _, db', evs') \<Rightarrow> bulk_loop action now is (result\<lparr>br_ok := br_ok result @ [i]\<rparr>) db' (evs @ evs')
      | (Inl e, db', evs') \<Rightarrow> bulk_loop action now is (result\<lparr>br_failed := br_failed result @ [(i, e)]\<rparr>) db' (evs @ evs'))"

definition bulkUsers :: "bulk_action \<Rightarrow> int \<Rightarrow> string list \<Rightarrow> panel_db \<Rightarrow> bulk_result \<times> panel_db \<times> domain_event list" where
  "bulkUsers action now userIds db = bulk_loop action now userIds \<lparr>br_ok = [], br_failed = []\<rparr> db []"

end
