(* ===== verification/UserRules.thy ===== *)
theory UserRules
  imports UserService "HOL-Library.Multiset"
begin

text \<open>
  What the user service keeps and what it decides: the constraints of the tables and the rule that
  everyone is in a squad, for any interleaving of the calls, the refusals of a lost race, and the
  status an edit leaves.
\<close>

section \<open>The invariant of the tables\<close>

definition uniq :: "('a \<Rightarrow> bool) \<Rightarrow> ('a \<Rightarrow> 'k) \<Rightarrow> 'a list \<Rightarrow> bool" where
  "uniq P k xs \<longleftrightarrow> distinct (map k (filter P xs))"

definition users_wf :: "panel_db \<Rightarrow> bool" where
  "users_wf db \<longleftrightarrow>
     distinct (map u_id (users db)) \<and>
     uniq (\<lambda>_. True) u_shortId (users db) \<and> uniq (\<lambda>_. True) u_token (users db) \<and>
     uniq (\<lambda>u. u_deletedAt u = None) u_username (users db) \<and>
     uniq (\<lambda>u. u_sourceId u \<noteq> None) u_sourceId (users db) \<and>
     (\<forall>u \<in> set (users db). one_preset u \<and> (\<forall>p. u_customPreset u = Some p \<longrightarrow> p \<in> set (presets db))) \<and>
     distinct (members db) \<and>
     (\<forall>m \<in> set (members db). fst m \<in> s_id ` set (squads db) \<and> snd m \<in> u_id ` set (users db)) \<and>
     (\<forall>u \<in> set (users db). squads_of (u_id u) db \<noteq> []) \<and>
     distinct (map s_id (squads db)) \<and> distinct (map s_name (squads db))"

lemma uniq_snoc: "uniq P k (xs @ [x]) \<longleftrightarrow> uniq P k xs \<and> (P x \<longrightarrow> (\<forall>y \<in> set xs. P y \<longrightarrow> k y \<noteq> k x))"
  by (auto simp: uniq_def image_iff)

lemma uniq_replace:
  assumes "distinct (map i xs)" and "i x = j" and "uniq P k xs"
    and "P x \<Longrightarrow> \<forall>y \<in> set xs. i y \<noteq> j \<longrightarrow> P y \<longrightarrow> k y \<noteq> k x"
  shows "uniq P k (map (\<lambda>y. if i y = j then x else y) xs)"
  using assms
proof (induction xs)
  case (Cons y ys)
  have rest: "uniq P k (map (\<lambda>y. if i y = j then x else y) ys)"
    using Cons by (auto simp: uniq_def split: if_splits)
  show ?case
  proof (cases "i y = j")
    case True
    then have "map (\<lambda>y. if i y = j then x else y) ys = ys"
      using Cons.prems(1) by (intro map_idI) (auto simp: image_iff)
    have "k x \<notin> k ` set (filter P ys)" if "P x"
      using that Cons.prems(1,4) True by (fastforce simp: image_iff)
    then show ?thesis
      using rest True \<open>map (\<lambda>y. if i y = j then x else y) ys = ys\<close> by (simp add: uniq_def)
  next
    case False
    have "k y \<notin> k ` set (filter P (map (\<lambda>y. if i y = j then x else y) ys))" if "P y"
      using that Cons.prems False by (fastforce simp: uniq_def split: if_splits)
    then show ?thesis
      using rest False by (auto simp: uniq_def)
  qed
qed (simp add: uniq_def)

lemma replaced_ids: "i x = j \<Longrightarrow> map i (map (\<lambda>y. if i y = j then x else y) xs) = map i xs"
  by auto

lemma insert_members_Inr:
  "insert_members i gs db = Inr db' \<longleftrightarrow>
     db' = db\<lparr>members := members db @ map (\<lambda>g. (g, i)) gs\<rparr> \<and> distinct gs \<and>
     (\<forall>g \<in> set gs. g \<in> s_id ` set (squads db) \<and> (g, i) \<notin> set (members db))"
proof (induction gs arbitrary: db)
  case (Cons g gs)
  show ?case
    by (auto simp: Cons.IH)
qed auto

lemma user_conflict_None:
  "user_conflict u others = None \<longleftrightarrow>
   (\<forall>v \<in> set others. u_id v \<noteq> u_id u \<and> u_shortId v \<noteq> u_shortId u \<and> u_token v \<noteq> u_token u \<and>
      (u_deletedAt u = None \<longrightarrow> u_deletedAt v = None \<longrightarrow> u_username v \<noteq> u_username u) \<and>
      (u_sourceId u \<noteq> None \<longrightarrow> u_sourceId v \<noteq> u_sourceId u))"
  by (auto simp: user_conflict_def)

lemma user_refused_None:
  "user_refused u others db = None \<longleftrightarrow>
   bigint_ok (u_limitBytes u) \<and> bigint_ok (u_telegramId u) \<and> one_preset u \<and> user_conflict u others = None \<and>
   (\<forall>p. u_customPreset u = Some p \<longrightarrow> p \<in> set (presets db))"
  by (auto simp: user_refused_def split: option.split)

lemma ensureAllSquad_Inr:
  assumes "ensureAllSquad db = Inr db'"
  shows "\<exists>extra. db' = db\<lparr>squads := squads db @ extra\<rparr> \<and> ALL_SQUAD_ID \<in> s_id ` set (squads db') \<and>
    (distinct (map s_id (squads db)) \<longrightarrow> distinct (map s_id (squads db'))) \<and>
    (distinct (map s_name (squads db)) \<longrightarrow> distinct (map s_name (squads db')))"
proof (cases "\<exists>s \<in> set (squads db). s_id s = ALL_SQUAD_ID")
  case True
  then have "ALL_SQUAD_ID \<in> s_id ` set (squads db)"
    by force
  then show ?thesis
    using assms True by (intro exI [of _ "[]"]) (auto simp: ensureAllSquad_def)
next
  case False
  then have "ALL_SQUAD_ID \<notin> s_id ` set (squads db)"
    by force
  then show ?thesis
    using assms False unfolding ensureAllSquad_def Let_def
    by (auto simp: image_iff split: if_splits) metis+
qed

lemma maybe_ensured:
  assumes "(if b then ensureAllSquad db else Inr db) = Inr db'"
  shows "\<exists>extra. db' = db\<lparr>squads := squads db @ extra\<rparr> \<and>
    (distinct (map s_id (squads db)) \<longrightarrow> distinct (map s_id (squads db'))) \<and>
    (distinct (map s_name (squads db)) \<longrightarrow> distinct (map s_name (squads db')))"
proof (cases b)
  case True
  then show ?thesis
    using assms ensureAllSquad_Inr [of db db'] by auto
next
  case False
  then show ?thesis
    using assms by (intro exI [of _ "[]"]) auto
qed

section \<open>Every call keeps the invariant\<close>

lemma squads_of_append: "squads_of i (db\<lparr>members := ms @ map (\<lambda>g. (g, j)) gs\<rparr>) =
  map fst (filter (\<lambda>m. snd m = i) ms) @ (if i = j then gs else [])"
  by (auto simp: squads_of_def filter_map comp_def)

lemma insert_user_wf:
  assumes "users_wf db" and "insert_user u gs db = Inr db'" and "gs \<noteq> []"
  shows "users_wf db' \<and> users db' = users db @ [u]"
proof -
  have ok: "user_refused u (users db) db = None"
    and db': "db' = db\<lparr>users := users db @ [u],
        user_traffic := map_set (u_id u) \<lparr>ut_used = 0, ut_lastReset = None\<rparr> (user_traffic db),
        members := members db @ map (\<lambda>g. (g, u_id u)) gs\<rparr>"
    and gs: "distinct gs" "\<forall>g \<in> set gs. g \<in> s_id ` set (squads db) \<and> (g, u_id u) \<notin> set (members db)"
    using assms(2) by (auto simp: insert_user_def insert_members_Inr split: option.splits if_splits)
  have "u_id u \<notin> u_id ` set (users db)"
    using ok by (auto simp: user_refused_None user_conflict_None)
  then show ?thesis
    using assms(1,3) ok gs
    unfolding db' users_wf_def user_refused_None user_conflict_None
    by (auto simp: uniq_snoc squads_of_def filter_map comp_def distinct_map inj_on_def)
qed

lemma users_wf_squads:
  assumes "users_wf db" and "distinct (map s_id (squads db @ extra))" and "distinct (map s_name (squads db @ extra))"
  shows "users_wf (db\<lparr>squads := squads db @ extra\<rparr>)"
  using assms unfolding users_wf_def squads_of_def by (simp add: image_Un)

lemma maybe_ensured_wf:
  assumes "users_wf db" and "(if b then ensureAllSquad db else Inr db) = Inr db'"
  shows "users_wf db' \<and> users db' = users db"
proof -
  obtain extra where x: "db' = db\<lparr>squads := squads db @ extra\<rparr>" "distinct (map s_id (squads db'))" "distinct (map s_name (squads db'))"
    using maybe_ensured [OF assms(2)] assms(1) unfolding users_wf_def by blast
  then show ?thesis
    using users_wf_squads [OF assms(1)] by simp
qed

lemma repo_create_wf:
  assumes "users_wf db" and "repo_create u gs b db = Inr db'" and "gs \<noteq> []"
  shows "users_wf db' \<and> users db' = users db @ [u]"
proof -
  obtain db1 where db1: "(if b then ensureAllSquad db else Inr db) = Inr db1" "insert_user u gs db1 = Inr db'"
    using assms(2) unfolding repo_create_def rbind_Inr_iff by blast
  show ?thesis
    using insert_user_wf [OF _ db1(2) assms(3)] maybe_ensured_wf [OF assms(1) db1(1)] by simp
qed

text \<open>What a successful \<open>updateById\<close> leaves.\<close>

lemma updateById_Inr:
  assumes "updateById i f gs b now db = Inr (u', db')"
  obtains db1 u where "(if b then ensureAllSquad db else Inr db) = Inr db1"
    and "find_user (\<lambda>u. u_id u = i) db1 = Some u" and "u' = (f u)\<lparr>u_updatedAt := now\<rparr>"
    and "user_refused u' (filter (\<lambda>v. u_id v \<noteq> i) (users db1)) db1 = None"
    and "db' = db1\<lparr>users := map (\<lambda>v. if u_id v = i then u' else v) (users db1),
           members := (case gs of None \<Rightarrow> members db1
             | Some g \<Rightarrow> filter (\<lambda>m. snd m \<noteq> i) (members db1) @ map (\<lambda>x. (x, i)) g)\<rparr>"
    and "\<forall>g. gs = Some g \<longrightarrow> distinct g \<and> (\<forall>x \<in> set g. x \<in> s_id ` set (squads db1))"
proof -
  obtain db1 where db1: "(if b then ensureAllSquad db else Inr db) = Inr db1"
    and r: "(case find_user (\<lambda>u. u_id u = i) db1 of
       None \<Rightarrow> Inl (missing_error ''User'')
     | Some u \<Rightarrow>
         (let u' = (f u)\<lparr>u_updatedAt := now\<rparr> in
          case user_refused u' (filter (\<lambda>v. u_id v \<noteq> i) (users db1)) db1 of
            Some e \<Rightarrow> Inl e
          | None \<Rightarrow>
              (let db2 = db1\<lparr>users := map (\<lambda>v. if u_id v = i then u' else v) (users db1)\<rparr>
               in rbind (case gs of
                    None \<Rightarrow> Inr db2
                  | Some gs \<Rightarrow> insert_members i gs (db2\<lparr>members := filter (\<lambda>m. snd m \<noteq> i) (members db2)\<rparr>))
                  (\<lambda>db3. Inr (u', db3))))) = Inr (u', db')"
    using assms unfolding updateById_def rbind_Inr_iff by blast
  obtain u where u: "find_user (\<lambda>u. u_id u = i) db1 = Some u"
    using r by (auto split: option.splits)
  show ?thesis
    using r u by (intro that [OF db1 u]) (auto simp: Let_def insert_members_Inr split: option.splits)
qed

lemma find_user_Some: "find_user P db = Some u \<Longrightarrow> u \<in> set (users db) \<and> P u"
  by (auto simp: find_user_def dest: find_Some_in)

lemma updateById_wf:
  assumes wf: "users_wf db" and upd: "updateById i f gs b now db = Inr (u', db')"
    and keeps: "\<And>u. u_id (f u) = u_id u" and some: "gs \<noteq> Some []"
  shows "users_wf db'"
proof -
  obtain db1 u where db1: "(if b then ensureAllSquad db else Inr db) = Inr db1"
    and u: "find_user (\<lambda>u. u_id u = i) db1 = Some u" and u': "u' = (f u)\<lparr>u_updatedAt := now\<rparr>"
    and ok: "user_refused u' (filter (\<lambda>v. u_id v \<noteq> i) (users db1)) db1 = None"
    and db': "db' = db1\<lparr>users := map (\<lambda>v. if u_id v = i then u' else v) (users db1),
           members := (case gs of None \<Rightarrow> members db1
             | Some g \<Rightarrow> filter (\<lambda>m. snd m \<noteq> i) (members db1) @ map (\<lambda>x. (x, i)) g)\<rparr>"
    and g: "\<forall>g. gs = Some g \<longrightarrow> distinct g \<and> (\<forall>x \<in> set g. x \<in> s_id ` set (squads db1))"
    by (rule updateById_Inr [OF upd]) blast
  have wf1: "users_wf db1"
    using maybe_ensured_wf [OF wf db1] by simp
  have uid: "u_id u' = i" and mem: "u \<in> set (users db1)" "u_id u = i"
    using find_user_Some [OF u] by (simp_all add: u' keeps)
  have ids: "map u_id (users db') = map u_id (users db1)"
    using uid by (simp add: db' replaced_ids del: map_map)
  have dist: "distinct (map u_id (users db1))"
    using wf1 by (simp add: users_wf_def)
  have uniq: "uniq P k (users db')"
    if "uniq P k (users db1)" and "P u' \<Longrightarrow> \<forall>v \<in> set (users db1). u_id v \<noteq> i \<longrightarrow> P v \<longrightarrow> k v \<noteq> k u'" for P and k :: "user_row \<Rightarrow> 'k"
    using uniq_replace [where i = u_id and x = u' and j = i and xs = "users db1", OF dist uid that] by (simp add: db')
  have rows: "\<forall>v \<in> set (users db'). one_preset v \<and> (\<forall>p. u_customPreset v = Some p \<longrightarrow> p \<in> set (presets db'))"
    using wf1 ok by (auto simp: db' users_wf_def user_refused_None)
  have ms: "distinct (members db')" "\<forall>m \<in> set (members db'). fst m \<in> s_id ` set (squads db') \<and> snd m \<in> u_id ` set (users db1)"
    using wf1 g mem by (auto simp: db' users_wf_def distinct_map inj_on_def split: option.splits)
  have "squads_of (u_id v) db' \<noteq> []" if "v \<in> set (users db1)" for v
  proof (cases "u_id v = i")
    case True
    then show ?thesis
      using wf1 that some by (auto simp: db' users_wf_def squads_of_def filter_map comp_def split: option.splits)
  next
    case False
    then have "filter (\<lambda>m. snd m \<noteq> i \<and> snd m = u_id v) (members db1) = filter (\<lambda>m. snd m = u_id v) (members db1)"
      by (intro filter_cong) auto
    then show ?thesis
      using wf1 that False by (auto simp: db' users_wf_def squads_of_def filter_map comp_def split: option.splits)
  qed
  moreover have idset: "u_id ` set (users db') = u_id ` set (users db1)"
    using arg_cong [OF ids, of set] by simp
  ultimately have in_squad: "\<forall>v \<in> set (users db'). squads_of (u_id v) db' \<noteq> []"
    by (metis (no_types, lifting) imageE imageI)
  show ?thesis
    unfolding users_wf_def
  proof (intro conjI)
    show "distinct (map u_id (users db'))"
      using ids dist by simp
    show "uniq (\<lambda>_. True) u_shortId (users db')" "uniq (\<lambda>_. True) u_token (users db')"
      "uniq (\<lambda>u. u_deletedAt u = None) u_username (users db')" "uniq (\<lambda>u. u_sourceId u \<noteq> None) u_sourceId (users db')"
      by (rule uniq; use wf1 ok in \<open>simp add: users_wf_def user_refused_None user_conflict_None\<close>)+
    show "distinct (map s_id (squads db'))" "distinct (map s_name (squads db'))"
      using wf1 by (simp_all add: db' users_wf_def)
  qed (use rows ms in_squad idset in auto)
qed

lemma picked_squads_some [simp]: "picked_squads gs \<noteq> []"
  by (simp add: picked_squads_def)

lemma createUser_wf: "users_wf db \<Longrightarrow> createUser sha inp drawn now seen db = (r, db', evs) \<Longrightarrow> users_wf db'"
  by (auto simp: createUser_def Let_def dest: repo_create_wf split: sum.splits if_splits)

lemma edit_row_id [simp]: "u_id (edit_row inp next u) = u_id u"
  by (simp add: edit_row_def Let_def)

lemma updateUser_wf: "users_wf db \<Longrightarrow> updateUser i inp now seen db = (r, db', evs) \<Longrightarrow> users_wf db'"
  unfolding updateUser_def Let_def
  by (auto dest: updateById_wf split: option.splits sum.splits if_splits prod.splits)

lemma deleteUser_wf: "users_wf db \<Longrightarrow> deleteUser i now seen db = (r, db', evs) \<Longrightarrow> users_wf db'"
  unfolding deleteUser_def by (auto dest: updateById_wf split: sum.splits if_splits)

lemma revokeSubscription_wf: "users_wf db \<Longrightarrow> revokeSubscription i now seen db = (r, db', evs) \<Longrightarrow> users_wf db'"
  unfolding revokeSubscription_def by (auto dest: updateById_wf split: sum.splits if_splits)

lemma attempts_wf:
  "users_wf db \<Longrightarrow> (\<And>d u. u_id (f d u) = u_id u) \<Longrightarrow> attempts i f ch ds now db = (r, db', evs) \<Longrightarrow> users_wf db'"
  by (induction ds) (auto dest: updateById_wf split: sum.splits if_splits)

lemma rotateSubscription_wf: "users_wf db \<Longrightarrow> rotateSubscription i draw now seen db = (r, db', evs) \<Longrightarrow> users_wf db'"
  unfolding rotateSubscription_def
  by (auto simp del: attempts.simps simp: with_token_def dest: attempts_wf [rotated 2] split: if_splits)

lemma reissueCredentials_wf: "users_wf db \<Longrightarrow> reissueCredentials i draw' now seen db = (r, db', evs) \<Longrightarrow> users_wf db'"
  unfolding reissueCredentials_def
  by (auto simp del: attempts.simps simp: with_credentials_def dest: attempts_wf [rotated 2] split: if_splits)

lemma users_wf_traffic: "users_wf (db\<lparr>user_traffic := t\<rparr>) \<longleftrightarrow> users_wf db"
  by (simp add: users_wf_def squads_of_def)

lemma resetUserTraffic_wf: "users_wf db \<Longrightarrow> resetUserTraffic i now seen db = (r, db', evs) \<Longrightarrow> users_wf db'"
  unfolding resetUserTraffic_def
  by (auto simp: Let_def resetTraffic_def users_wf_traffic split: option.splits if_splits)

lemma bulk_one_wf: "users_wf db \<Longrightarrow> bulk_one action now i db = (r, db', evs) \<Longrightarrow> users_wf db'"
  unfolding bulk_one_def Let_def
  by (cases action)
    (auto dest: updateUser_wf deleteUser_wf revokeSubscription_wf resetUserTraffic_wf split: option.splits if_splits prod.splits)

lemma bulk_loop_wf: "users_wf db \<Longrightarrow> bulk_loop action now ids res db evs = (res', db', evs') \<Longrightarrow> users_wf db'"
  by (induction action now ids res db evs rule: bulk_loop.induct)
    (auto dest: bulk_one_wf split: prod.splits sum.splits)

lemmas service_wf = createUser_wf updateUser_wf deleteUser_wf revokeSubscription_wf rotateSubscription_wf
  reissueCredentials_wf resetUserTraffic_wf

section \<open>The row an edit leaves\<close>

lemma findActiveById_Some:
  "users_wf db \<Longrightarrow> findActiveById i db = Some u \<longleftrightarrow> u \<in> set (users db) \<and> u_id u = i \<and> u_deletedAt u = None"
proof
  assume "findActiveById i db = Some u"
  then show "u \<in> set (users db) \<and> u_id u = i \<and> u_deletedAt u = None"
    unfolding findActiveById_def by (rule find_user_Some)
next
  assume wf: "users_wf db" and u: "u \<in> set (users db) \<and> u_id u = i \<and> u_deletedAt u = None"
  have "v = u" if "v \<in> set (users db)" "u_id v = i" for v
    using wf u that by (auto simp: users_wf_def distinct_map inj_on_def)
  then show "findActiveById i db = Some u"
    using u unfolding findActiveById_def find_user_def by (intro find_unique) auto
qed

lemma updateUser_row:
  assumes wf: "users_wf db" and upd: "updateUser i inp now db db = (Inr u', db', evs)"
  shows "\<exists>u. findActiveById i db = Some u \<and>
    u' = (edit_row inp (statusAfterEdit u (used_bytes i db) inp now) u)\<lparr>u_updatedAt := now\<rparr> \<and>
    findActiveById i db' = Some u' \<and> user_traffic db' = user_traffic db"
proof -
  obtain u own b where u: "findActiveById i db = Some u"
    and w: "updateById i (edit_row inp (statusAfterEdit u (used_bytes i db) inp now)) (map_option picked_squads (ui_groupIds inp)) b now db = Inr (u', db')"
    using upd unfolding updateUser_def Let_def by (auto split: option.splits sum.splits if_splits prod.splits)
  obtain db1 v where db1: "(if b then ensureAllSquad db else Inr db) = Inr db1"
    and v: "find_user (\<lambda>u. u_id u = i) db1 = Some v"
    and u': "u' = (edit_row inp (statusAfterEdit u (used_bytes i db) inp now) v)\<lparr>u_updatedAt := now\<rparr>"
    and db': "users db' = map (\<lambda>v. if u_id v = i then u' else v) (users db1)" "user_traffic db' = user_traffic db1"
    by (rule updateById_Inr [OF w]) auto
  have same: "users db1 = users db" "user_traffic db1 = user_traffic db"
    using maybe_ensured [OF db1] by auto
  have "v = u"
    using wf u find_user_Some [OF v] by (auto simp: findActiveById_Some same users_wf_def distinct_map inj_on_def)
  moreover have "findActiveById i db' = Some u'"
    using u find_user_Some [OF v] updateUser_wf [OF wf upd] wf
    by (auto simp: findActiveById_Some db' u' same \<open>v = u\<close> edit_row_def Let_def image_iff)
  ultimately show ?thesis
    using u by (simp add: u' db' same)
qed

section \<open>What an edit decides\<close>

lemma byFacts_simps [simp]:
  "byFacts e l used now = Expired \<longleftrightarrow> (\<exists>t. e = Some t \<and> t < now)"
  "byFacts e l used now = Limited \<longleftrightarrow> \<not> (\<exists>t. e = Some t \<and> t < now) \<and> (\<exists>b. l = Some b \<and> b \<le> used)"
  "byFacts e l used now = Active \<longleftrightarrow> \<not> (\<exists>t. e = Some t \<and> t < now) \<and> \<not> (\<exists>b. l = Some b \<and> b \<le> used)"
  "byFacts e l used now \<noteq> Disabled"
  by (auto simp: byFacts_def split: option.splits)

lemma byFacts_Expired_sym [simp]: "Expired = byFacts e l used now \<longleftrightarrow> (\<exists>t. e = Some t \<and> t < now)"
  by (metis byFacts_simps(1))

definition facts_of :: "user_row \<Rightarrow> panel_db \<Rightarrow> int \<Rightarrow> user_status" where
  "facts_of u db now = byFacts (u_expireAt u) (u_limitBytes u) (used_bytes (u_id u) db) now"

text \<open>A status an edit sets is the one the facts of the edited row give, or the operator's
  \<open>disabled\<close>; a status it does not set is the one there was.\<close>

lemma edited_status:
  assumes wf: "users_wf db" and upd: "updateUser i inp now db db = (Inr u', db', evs)"
    and admitted: "ui_status inp \<in> {None, Some Active, Some Disabled}"
  obtains u where "findActiveById i db = Some u" and "findActiveById i db' = Some u'"
    and "(case ui_status inp of
        Some Disabled \<Rightarrow> u_status u' = Disabled
      | Some _ \<Rightarrow> u_status u' = facts_of u' db' now
      | None \<Rightarrow> if u_status u = Expired \<and> ui_expireAt inp \<noteq> None \<or> u_status u = Limited \<and> ui_trafficLimitGb inp \<noteq> None
          then u_status u' = facts_of u' db' now else u_status u' = u_status u)"
    and "(StatusChanged i (u_status u) (u_status u') \<in> set evs) \<longleftrightarrow> u_status u' \<noteq> u_status u"
proof -
  obtain u where u: "findActiveById i db = Some u"
    and u': "u' = (edit_row inp (statusAfterEdit u (used_bytes i db) inp now) u)\<lparr>u_updatedAt := now\<rparr>"
    and live: "findActiveById i db' = Some u'" and traffic: "user_traffic db' = user_traffic db"
    using updateUser_row [OF wf upd] by blast
  have i: "u_id u' = i" "used_bytes i db' = used_bytes i db"
    using live updateUser_wf [OF wf upd] by (auto simp: findActiveById_Some used_bytes_def traffic)
  have facts: "facts_of u' db' now =
      byFacts (or_keep (ui_expireAt inp) (u_expireAt u)) (or_keep (map_option gbToBytes (ui_trafficLimitGb inp)) (u_limitBytes u)) (used_bytes i db) now"
    unfolding facts_of_def i by (simp add: u' edit_row_def Let_def)
  have status: "u_status u' = or_keep (statusAfterEdit u (used_bytes i db) inp now) (u_status u)"
    by (simp add: u' edit_row_def Let_def)
  have evs: "evs = (case changedFields u inp (statusAfterEdit u (used_bytes i db) inp now) of [] \<Rightarrow> [] | ch \<Rightarrow> [Updated i ch]) @
      (case statusAfterEdit u (used_bytes i db) inp now of
         Some s \<Rightarrow> if s \<noteq> u_status u then [StatusChanged i (u_status u) s] else [] | None \<Rightarrow> [])"
    using upd u unfolding updateUser_def Let_def by (auto split: sum.splits if_splits prod.splits)
  show ?thesis
  proof (rule that [OF u live])
    show "case ui_status inp of
        Some Disabled \<Rightarrow> u_status u' = Disabled
      | Some _ \<Rightarrow> u_status u' = facts_of u' db' now
      | None \<Rightarrow> if u_status u = Expired \<and> ui_expireAt inp \<noteq> None \<or> u_status u = Limited \<and> ui_trafficLimitGb inp \<noteq> None
          then u_status u' = facts_of u' db' now else u_status u' = u_status u"
    proof -
      define F where "F = byFacts (or_keep (ui_expireAt inp) (u_expireAt u))
        (or_keep (map_option gbToBytes (ui_trafficLimitGb inp)) (u_limitBytes u)) (used_bytes i db) now"
      show ?thesis
        using admitted unfolding status facts statusAfterEdit_def Let_def F_def [symmetric]
        by (auto simp: or_keep_def)
    qed
    show "StatusChanged i (u_status u) (u_status u') \<in> set evs \<longleftrightarrow> u_status u' \<noteq> u_status u"
      unfolding evs status by (auto simp: or_keep_def split: option.split list.split)
  qed
qed

section \<open>Many users at once\<close>

lemma updateUser_Inl: "updateUser i inp now seen db = (Inl e, db', evs) \<Longrightarrow> db' = db \<and> evs = []"
  unfolding updateUser_def Let_def by (auto split: option.splits sum.splits if_splits prod.splits)

lemma bulk_one_Inl: "bulk_one action now i db = (Inl e, db', evs) \<Longrightarrow> db' = db \<and> evs = []"
  unfolding bulk_one_def Let_def
  by (cases action)
    (auto simp: deleteUser_def revokeSubscription_def resetUserTraffic_def Let_def dest: updateUser_Inl
      split: option.splits if_splits prod.splits sum.splits)

lemma bulk_loop_successes:
  "bulk_loop action now ids res db evs = (res', db', evs') \<Longrightarrow>
   \<exists>oks. br_ok res' = br_ok res @ oks \<and>
     (\<forall>r. bulk_loop action now oks r db evs = (r\<lparr>br_ok := br_ok r @ oks\<rparr>, db', evs')) \<and>
     mset (br_ok res') + mset (map fst (br_failed res')) = mset (br_ok res) + mset (map fst (br_failed res)) + mset ids"
proof (induction action now ids res db evs rule: bulk_loop.induct)
  case (2 action now i ids res db evs)
  obtain r db1 evs1 where one: "bulk_one action now i db = (r, db1, evs1)"
    by (cases "bulk_one action now i db")
  show ?case
  proof (cases r)
    case (Inl e)
    have "db1 = db" "evs1 = []"
      using bulk_one_Inl one Inl by blast+
    then show ?thesis
      using 2 one Inl by (fastforce simp: ac_simps)
  next
    case (Inr x)
    then obtain oks where oks: "br_ok res' = br_ok res @ i # oks"
      "\<forall>r. bulk_loop action now oks r db1 (evs @ evs1) = (r\<lparr>br_ok := br_ok r @ oks\<rparr>, db', evs')"
      "mset (br_ok res') + mset (map fst (br_failed res')) = mset (br_ok res) + mset (map fst (br_failed res)) + mset (i # ids)"
      using 2 one by fastforce
    then show ?thesis
      by (intro exI [of _ "i # oks"]) (simp add: one Inr)
  qed
qed (auto simp: ac_simps)

lemma bulk_extend:
  assumes wf: "users_wf db" and ext: "bulk_one (Extend d) now i db = (Inr (), db', evs)"
  obtains u u' where "findActiveById i db = Some u" and "findActiveById i db' = Some u'"
    and "u_expireAt u' = Some ((case u_expireAt u of Some t \<Rightarrow> max now t | None \<Rightarrow> now) + int d * DAY_MS)"
    and "u_limitBytes u' = u_limitBytes u" and "user_traffic db' = user_traffic db"
    and "u_status u' = (if u_status u = Expired
           then byFacts (u_expireAt u') (u_limitBytes u) (used_bytes i db) now else u_status u)"
proof -
  obtain u where u: "findActiveById i db = Some u"
    using ext by (auto simp: bulk_one_def Let_def split: option.splits)
  define t where "t = (case u_expireAt u of Some t \<Rightarrow> max now t | None \<Rightarrow> now) + int d * DAY_MS"
  have t: "t = (case u_expireAt u of Some t \<Rightarrow> if now < t then t else now | None \<Rightarrow> now) + int d * DAY_MS"
    by (auto simp: t_def split: option.split)
  obtain u' where up: "updateUser i (no_edit\<lparr>ui_expireAt := Some (Some t)\<rparr>) now db db = (Inr u', db', evs)"
    using ext u unfolding bulk_one_def Let_def
    by (auto simp: t [symmetric] split: if_splits prod.splits sum.splits)
  obtain v where v: "findActiveById i db = Some v"
    and u': "u' = (edit_row (no_edit\<lparr>ui_expireAt := Some (Some t)\<rparr>)
      (statusAfterEdit v (used_bytes i db) (no_edit\<lparr>ui_expireAt := Some (Some t)\<rparr>) now) v)\<lparr>u_updatedAt := now\<rparr>"
    and live: "findActiveById i db' = Some u'" "user_traffic db' = user_traffic db"
    using updateUser_row [OF wf up] by blast
  have [simp]: "v = u"
    using u v by simp
  show ?thesis
  proof (rule that [OF u live(1) _ _ live(2)])
    show "u_expireAt u' = Some ((case u_expireAt u of Some t \<Rightarrow> max now t | None \<Rightarrow> now) + int d * DAY_MS)"
      by (simp add: u' edit_row_def no_edit_def or_keep_def presetUpdateData_def t_def)
    show "u_limitBytes u' = u_limitBytes u"
      by (simp add: u' edit_row_def no_edit_def or_keep_def presetUpdateData_def)
    show "u_status u' = (if u_status u = Expired
           then byFacts (u_expireAt u') (u_limitBytes u) (used_bytes i db) now else u_status u)"
      by (simp add: u' edit_row_def no_edit_def or_keep_def presetUpdateData_def statusAfterEdit_def Let_def
          split: option.split)
  qed
qed

section \<open>A database to try the rules on\<close>

definition demo_identities :: "string \<Rightarrow> identities" where
  "demo_identities tail = \<lparr>xrayUuid = ''x'' @ tail, hysteriaPassword = ''h'' @ tail, naivePassword = ''n'' @ tail,
     amneziawgPrivateKey = ''k'' @ tail, amneziawgPublicKey = ''p'' @ tail\<rparr>"

definition demo_user :: "string \<Rightarrow> user_status \<Rightarrow> int option \<Rightarrow> int option \<Rightarrow> user_row" where
  "demo_user i s expireAt limit =
     \<lparr>u_id = i, u_sourceId = None, u_shortId = ''s'' @ i, u_username = i, u_status = s, u_expireAt = expireAt,
      u_limitBytes = limit, u_strategy = NoReset, u_token = ''t'' @ i, u_revokedAt = None,
      u_identities = demo_identities i, u_protocols = [], u_hwidLimit = None, u_preset = None, u_customPreset = None,
      u_description = None, u_tag = None, u_telegramId = None, u_email = None, u_createdAt = 0, u_updatedAt = 0,
      u_deletedAt = None\<rparr>"

definition empty_db :: panel_db where
  "empty_db = \<lparr>users = [], user_traffic = [], members = [],
     squads = [\<lparr>s_id = ALL_SQUAD_ID, s_name = ALL_SQUAD_NAME, s_description = None, s_preset = None,
       s_customPreset = None, s_hwidLimit = None\<rparr>],
     group_profiles = [], group_hosts = [], cascade_exits = [], cascades_off = [], group_policies = [], presets = [],
     policies = [], profiles = [], bindings = [], nodes = [], cascades = [], peers = [], devices = [],
     erased_sources = [], user_snapshots = []\<rparr>"

text \<open>Ann ran out on day 1, Bob never runs out.\<close>

definition demo_db :: panel_db where
  "demo_db = empty_db\<lparr>users := [demo_user ''ann'' Expired (Some 86400000) None, demo_user ''bob'' Active None None],
     user_traffic := [(''ann'', \<lparr>ut_used = 7, ut_lastReset = None\<rparr>)],
     members := [(ALL_SQUAD_ID, ''ann''), (ALL_SQUAD_ID, ''bob'')]\<rparr>"

named_theorems demo_defs \<open>the demonstration data, unfolded\<close>

declare demo_identities_def [demo_defs] demo_user_def [demo_defs] empty_db_def [demo_defs] demo_db_def [demo_defs]
  ALL_SQUAD_ID_def [demo_defs] ALL_SQUAD_NAME_def [demo_defs]

lemma demo_db_wf: "users_wf demo_db"
  by (simp add: users_wf_def uniq_def demo_defs squads_of_def one_preset_def)

definition demo_extended :: panel_db where
  "demo_extended = demo_db\<lparr>users :=
     [(demo_user ''ann'' Active (Some 2692000000) None)\<lparr>u_updatedAt := 100000000\<rparr>, demo_user ''bob'' Active None None]\<rparr>"

named_theorems service_defs \<open>the calls of the user service, unfolded\<close>

declare updateUser_def [service_defs] updateById_def [service_defs] findActiveById_def [service_defs]
  find_user_def [service_defs] statusAfterEdit_def [service_defs] edit_row_def [service_defs] no_edit_def [service_defs]
  or_keep_def [service_defs] presetUpdateData_def [service_defs] used_bytes_def [service_defs] byFacts_def [service_defs]
  truthy_id_def [service_defs] user_refused_def [service_defs] user_conflict_def [service_defs] one_preset_def [service_defs]
  bigint_ok_def [service_defs] changedFields_def [service_defs] changed_if_def [service_defs] gbToBytes_def [service_defs]
  deleteUser_def [service_defs] existsActive_def [service_defs] revokeSubscription_def [service_defs]
  resetUserTraffic_def [service_defs] resetTraffic_def [service_defs]

lemma demo_update:
  "updateUser ''ann'' (no_edit\<lparr>ui_expireAt := Some (Some 2692000000)\<rparr>) 100000000 demo_db demo_db =
     (Inr ((demo_user ''ann'' Active (Some 2692000000) None)\<lparr>u_updatedAt := 100000000\<rparr>), demo_extended,
      [Updated ''ann'' [''status'', ''expireAt''], StatusChanged ''ann'' Expired Active])"
  by (simp add: service_defs demo_defs demo_extended_def Let_def)

lemma demo_bulk:
  "bulk_one (Extend 30) 100000000 ''ann'' demo_db =
     (Inr (), demo_extended, [Updated ''ann'' [''status'', ''expireAt''], StatusChanged ''ann'' Expired Active])"
proof -
  have "findActiveById ''ann'' demo_db = Some (demo_user ''ann'' Expired (Some 86400000) None)"
    by (simp add: service_defs demo_defs)
  then show ?thesis
    using demo_update by (simp add: bulk_one_def Let_def demo_user_def date_ok_def DAY_MS_def)
qed

section \<open>The properties\<close>


text \<open>C12. A batch equals the batch of its successes: every id ends up in exactly one of the two lists,
  and a user whose change failed leaves neither a row nor an event behind, so replaying only the
  ids reported as done gives the same database and the same events.
\<close>

theorem bulk_failures_leave_no_trace:
  assumes "bulkUsers action now ids db = (res, db', evs)"
  shows "bulkUsers action now (br_ok res) db = (\<lparr>br_ok = br_ok res, br_failed = []\<rparr>, db', evs) \<and>
    mset ids = mset (br_ok res) + mset (map fst (br_failed res))"
proof -
  obtain oks where "br_ok res = oks"
    "\<forall>r. bulk_loop action now oks r db [] = (r\<lparr>br_ok := br_ok r @ oks\<rparr>, db', evs)"
    "mset (br_ok res) + mset (map fst (br_failed res)) = mset ids"
    using bulk_loop_successes [OF assms [unfolded bulkUsers_def]] by auto
  then show ?thesis
    by (simp add: bulkUsers_def)
qed

text \<open>Extending a user in a batch never takes time away from a user who has a date: the new date is the
  given number of days after the later of now and the old date, so it lies after both; a user who had
  run out is active again unless the quota is spent, and nobody else's status moves.
\<close>

theorem extension_outcome:
  assumes "users_wf db" and "bulk_one (Extend d) now i db = (Inr (), db', evs)" and "0 < d"
  shows "\<exists>u u'. findActiveById i db = Some u \<and> findActiveById i db' = Some u' \<and>
    (\<exists>t. u_expireAt u' = Some t \<and> now + int d * DAY_MS \<le> t \<and>
       (\<forall>t0. u_expireAt u = Some t0 \<longrightarrow> t0 + int d * DAY_MS \<le> t \<and> (now \<le> t0 \<longrightarrow> t = t0 + int d * DAY_MS))) \<and>
    u_status u' = (if u_status u \<noteq> Expired then u_status u
      else if \<exists>l. u_limitBytes u = Some l \<and> l \<le> used_bytes i db then Limited else Active)"
proof -
  obtain u u' where u: "findActiveById i db = Some u" "findActiveById i db' = Some u'"
    "u_expireAt u' = Some ((case u_expireAt u of Some t \<Rightarrow> max now t | None \<Rightarrow> now) + int d * DAY_MS)"
    "u_status u' = (if u_status u = Expired
       then byFacts (u_expireAt u') (u_limitBytes u) (used_bytes i db) now else u_status u)"
    by (rule bulk_extend [OF assms(1,2)]) blast
  have later: "0 < int d * DAY_MS"
    using assms(3) by (simp add: DAY_MS_def)
  have "\<not> (case u_expireAt u of Some t \<Rightarrow> max now t | None \<Rightarrow> now) + int d * DAY_MS < now"
    using later by (auto split: option.split)
  then have "u_status u' = (if u_status u \<noteq> Expired then u_status u
      else if \<exists>l. u_limitBytes u = Some l \<and> l \<le> used_bytes i db then Limited else Active)"
    using u(3,4) by (auto simp: byFacts_def split: option.split)
  then show ?thesis
    using u(1-3) by (intro exI [of _ u] exI [of _ u'] conjI) (auto split: option.split)
qed


theorem extension_outcome_witness:
  "\<exists>u'. findActiveById ''ann'' demo_extended = Some u' \<and> u_status u' = Active"
proof -
  have "findActiveById ''ann'' demo_db = Some (demo_user ''ann'' Expired (Some 86400000) None)"
    by (simp add: service_defs demo_defs)
  with extension_outcome [OF demo_db_wf demo_bulk] show ?thesis
    by (auto simp: demo_user_def)
qed

theorem bulk_failures_leave_no_trace_witness:
  "\<exists>res db' evs. bulkUsers (Extend 30) 100000000 [''cid'', ''ann''] demo_db = (res, db', evs) \<and> br_ok res = [''ann''] \<and>
     bulkUsers (Extend 30) 100000000 [''ann''] demo_db = (\<lparr>br_ok = [''ann''], br_failed = []\<rparr>, db', evs)"
proof -
  have "bulk_one (Extend 30) 100000000 ''cid'' demo_db = (Inl (UserNotFoundError ''cid''), demo_db, [])"
    by (simp add: bulk_one_def service_defs demo_defs)
  then have run: "bulkUsers (Extend 30) 100000000 [''cid'', ''ann''] demo_db =
      (\<lparr>br_ok = [''ann''], br_failed = [(''cid'', UserNotFoundError ''cid'')]\<rparr>, demo_extended,
       [Updated ''ann'' [''status'', ''expireAt''], StatusChanged ''ann'' Expired Active])"
    by (simp add: bulkUsers_def demo_bulk)
  from bulk_failures_leave_no_trace [OF this] show ?thesis
    unfolding run by simp
qed

section \<open>Two creates at once\<close>

definition demo_create :: "string \<Rightarrow> create_input" where
  "demo_create name = \<lparr>ci_username = name, ci_subscriptionToken = None, ci_trafficLimitGb = None,
     ci_trafficLimitStrategy = NoReset, ci_expireDays = None, ci_expireAt = None, ci_vlessUuid = None, ci_createdAt = None,
     ci_sourceId = None, ci_hwidDeviceLimit = None, ci_description = None, ci_tag = None, ci_telegramId = None,
     ci_email = None, ci_groupIds = [], ci_routingPreset = None, ci_customRoutingPresetId = None, ci_enabledProtocols = []\<rparr>"

definition demo_drawn :: "string \<Rightarrow> drawn_user" where
  "demo_drawn tail = \<lparr>dr_id = tail, dr_shortId = ''s'' @ tail, dr_token = ''t'' @ tail, dr_identities = demo_identities tail\<rparr>"

text \<open>What the write needs besides the unique columns: values that fit, one preset that exists, squads
  that exist and are named once, and draws nobody holds.\<close>

definition writable :: "create_input \<Rightarrow> drawn_user \<Rightarrow> int \<Rightarrow> panel_db \<Rightarrow> bool" where
  "writable inp drawn now db \<longleftrightarrow>
     (let u = new_user inp drawn now in
      date_ok (u_expireAt u) \<and> bigint_ok (u_limitBytes u) \<and> bigint_ok (u_telegramId u) \<and> one_preset u \<and>
      (\<forall>p. u_customPreset u = Some p \<longrightarrow> p \<in> set (presets db)) \<and>
      distinct (ci_groupIds inp) \<and> set (picked_squads (ci_groupIds inp)) \<subseteq> s_id ` set (squads db) \<and>
      (\<forall>v \<in> set (users db). u_id v \<noteq> u_id u \<and> u_shortId v \<noteq> u_shortId u \<and>
         (ci_subscriptionToken inp = None \<longrightarrow> u_token v \<noteq> u_token u)))"

lemma ensureAllSquad_present: "ALL_SQUAD_ID \<in> s_id ` set (squads db) \<Longrightarrow> ensureAllSquad db = Inr db"
  by (auto simp: ensureAllSquad_def)

lemma create_refusal_named:
  "create_refusal inp (unique_error ''users_username_active_key'') = UserAlreadyExistsError (ci_username inp)"
  "ci_subscriptionToken inp = Some t \<Longrightarrow> create_refusal inp (unique_error ''users_subscription_token_key'') = SubscriptionTokenTakenError t"
  "ci_sourceId inp = Some s \<Longrightarrow> create_refusal inp (unique_error ''users_source_id_key'') = SourceIdTakenError s"
  by (simp_all add: create_refusal_def isUniqueViolation_def unique_error_def userUniqueField_def uniqueViolationOf_def
      USER_UNIQUE_def)

lemma createUser_write:
  assumes "create_checks sha inp seen = Inr ()" and "writable inp drawn now db" and "users_wf db"
  shows "createUser sha inp drawn now seen db =
    (case user_conflict (new_user inp drawn now) (users db) of
       Some index \<Rightarrow> (Inl (create_refusal inp (unique_error index)), db, [])
     | None \<Rightarrow> (let u = new_user inp drawn now in
         (Inr u, db\<lparr>users := users db @ [u],
                   user_traffic := map_set (u_id u) \<lparr>ut_used = 0, ut_lastReset = None\<rparr> (user_traffic db),
                   members := members db @ map (\<lambda>g. (g, u_id u)) (picked_squads (ci_groupIds inp))\<rparr>,
          [Created (u_id u) (u_username u)])))"
proof -
  define u where "u = new_user inp drawn now"
  have w: "date_ok (u_expireAt u)" "bigint_ok (u_limitBytes u)" "bigint_ok (u_telegramId u)" "one_preset u"
      "\<forall>p. u_customPreset u = Some p \<longrightarrow> p \<in> set (presets db)" "distinct (picked_squads (ci_groupIds inp))"
      "set (picked_squads (ci_groupIds inp)) \<subseteq> s_id ` set (squads db)" "u_id u \<notin> u_id ` set (users db)"
    using assms(2) by (auto simp: writable_def Let_def u_def picked_squads_def)
  have ensured: "(if ci_groupIds inp = [] then ensureAllSquad db else Inr db) = Inr db"
    using w(7) by (auto simp: picked_squads_def ensureAllSquad_present)
  have fresh: "(g, u_id u) \<notin> set (members db)" for g
    using assms(3) w(8) by (force simp: users_wf_def)
  have ins: "insert_members (u_id u) (picked_squads (ci_groupIds inp)) (db\<lparr>users := us, user_traffic := t\<rparr>) =
      Inr (db\<lparr>users := us, user_traffic := t, members := members db @ map (\<lambda>g. (g, u_id u)) (picked_squads (ci_groupIds inp))\<rparr>)" for us t
    using w(6,7) fresh by (auto simp: insert_members_Inr)
  have preset: "(case u_customPreset u of Some p \<Rightarrow> if p \<in> set (presets db) then Inr () else Inl (missing_error ''RoutingPreset'')
      | None \<Rightarrow> Inr ()) = Inr ()"
    using w(5) by (auto split: option.split)
  have refused: "user_refused u (users db) db = map_option unique_error (user_conflict u (users db))"
    using w by (auto simp: user_refused_def split: option.split)
  show ?thesis
    unfolding createUser_def assms(1) repo_create_def u_def [symmetric] Let_def
    using w(1) by (auto simp: ensured insert_user_def preset refused ins split: option.split)
qed

text \<open>Two creates can pass the checks and race to the write: the loser changes nothing and is told
  the very field it lost, a token another user took meanwhile, a name a live user took meanwhile or
  the source id of a user imported meanwhile, and when none of the three was taken the create goes
  through.
\<close>

theorem lost_races_are_named:
  assumes "create_checks sha inp seen = Inr ()" and "writable inp drawn now db" and "users_wf db"
  shows "createUser sha inp drawn now seen db =
    (if \<exists>t. ci_subscriptionToken inp = Some t \<and> (\<exists>v \<in> set (users db). u_token v = t)
     then (Inl (SubscriptionTokenTakenError (the (ci_subscriptionToken inp))), db, [])
     else if \<exists>v \<in> set (users db). u_deletedAt v = None \<and> u_username v = ci_username inp
     then (Inl (UserAlreadyExistsError (ci_username inp)), db, [])
     else if \<exists>s. ci_sourceId inp = Some s \<and> (\<exists>v \<in> set (users db). u_sourceId v = Some s)
     then (Inl (SourceIdTakenError (the (ci_sourceId inp))), db, [])
     else (Inr (new_user inp drawn now),
           db\<lparr>users := users db @ [new_user inp drawn now],
              user_traffic := map_set (dr_id drawn) \<lparr>ut_used = 0, ut_lastReset = None\<rparr> (user_traffic db),
              members := members db @ map (\<lambda>g. (g, dr_id drawn)) (picked_squads (ci_groupIds inp))\<rparr>,
           [Created (dr_id drawn) (ci_username inp)]))"
proof -
  define u where "u = new_user inp drawn now"
  have fields: "u_id u = dr_id drawn" "u_username u = ci_username inp" "u_sourceId u = ci_sourceId inp"
      "u_deletedAt u = None" "\<And>t. ci_subscriptionToken inp = Some t \<Longrightarrow> u_token u = t"
    by (simp_all add: u_def new_user_def)
  have fresh: "\<forall>v \<in> set (users db). u_id v \<noteq> u_id u \<and> u_shortId v \<noteq> u_shortId u \<and>
      (ci_subscriptionToken inp = None \<longrightarrow> u_token v \<noteq> u_token u)"
    using assms(2) by (simp add: writable_def Let_def u_def)
  have token: "(\<exists>v \<in> set (users db). u_token v = u_token u) \<longleftrightarrow>
      (\<exists>t. ci_subscriptionToken inp = Some t \<and> (\<exists>v \<in> set (users db). u_token v = t))"
    using fresh fields(5) by (cases "ci_subscriptionToken inp") auto
  have conflict: "user_conflict u (users db) =
      (if \<exists>t. ci_subscriptionToken inp = Some t \<and> (\<exists>v \<in> set (users db). u_token v = t) then Some ''users_subscription_token_key''
       else if \<exists>v \<in> set (users db). u_deletedAt v = None \<and> u_username v = ci_username inp then Some ''users_username_active_key''
       else if \<exists>s. ci_sourceId inp = Some s \<and> (\<exists>v \<in> set (users db). u_sourceId v = Some s) then Some ''users_source_id_key''
       else None)"
    unfolding token [symmetric] using fresh by (auto simp: user_conflict_def fields)
  show ?thesis
    unfolding createUser_write [OF assms] u_def [symmetric] conflict
    by (auto simp: create_refusal_named fields Let_def)
qed

theorem lost_races_are_named_witness:
  "createUser id (demo_create ''bob'') (demo_drawn ''dan'') 5 empty_db demo_db = (Inl (UserAlreadyExistsError ''bob''), demo_db, [])"
proof -
  have checks: "create_checks id (demo_create ''bob'') empty_db = Inr ()"
    by (simp add: create_checks_def findActiveByUsername_def find_user_def empty_db_def demo_create_def truthy_id_def
        assertCustomPresetExists_def)
  have w: "writable (demo_create ''bob'') (demo_drawn ''dan'') 5 demo_db"
    by (simp add: writable_def new_user_def demo_create_def demo_drawn_def demo_defs date_ok_def bigint_ok_def one_preset_def
        daysFromNow_def gbToBytes_def truthy_id_def picked_squads_def Let_def)
  show ?thesis
    unfolding lost_races_are_named [OF checks w demo_db_wf]
    by (simp add: demo_create_def demo_defs)
qed

end
