(* ===== verification/UserCrons.thy ===== *)
theory UserCrons
  imports UserRules
begin

text \<open>
  The scheduled jobs on users (\<open>modules/users/users.cron.ts\<close>): the counters reset by strategy and by
  the rolling window, the status flips, the reconciliation of users left on nodes and the daily
  digest. A statement that selects and writes is one step on the database; a job gives the database,
  what it queues for the nodes and the events it emits. \<open>now\<close> is the moment of the tick, for the
  panel and the database alike.
\<close>

section \<open>Jobs for the nodes\<close>

datatype node_job = AddUser string | RemoveUser string | BackfillNode string

text \<open>A queued job and the id it is queued under, if any.\<close>

type_synonym job_spec = "node_job \<times> string option"

section \<open>Counters\<close>

definition ROLLING_WINDOW_MS :: int where
  "ROLLING_WINDOW_MS = 30 * 24 * 60 * 60 * 1000"

definition zero_counters :: "string list \<Rightarrow> int \<Rightarrow> panel_db \<Rightarrow> panel_db" where
  "zero_counters ids now db =
     db\<lparr>user_traffic := map (\<lambda>(i, t). (i, if i \<in> set ids then t\<lparr>ut_used := 0, ut_lastReset := Some now\<rparr> else t)) (user_traffic db)\<rparr>"

definition resetTrafficForStrategy :: "reset_strategy \<Rightarrow> int \<Rightarrow> panel_db \<Rightarrow> nat \<times> panel_db \<times> domain_event list" where
  "resetTrafficForStrategy strategy now db =
     (let us = filter (\<lambda>u. u_strategy u = strategy \<and> u_deletedAt u = None) (users db)
      in if us = [] then (0, db, [])
         else (length us, zero_counters (map u_id us) now db, map (\<lambda>u. TrafficReset (u_id u) (used_bytes (u_id u) db)) us))"

definition last_reset :: "string \<Rightarrow> panel_db \<Rightarrow> int option" where
  "last_reset i db = (case map_get (user_traffic db) i of Some t \<Rightarrow> ut_lastReset t | None \<Rightarrow> None)"

definition rolling_due :: "int \<Rightarrow> panel_db \<Rightarrow> user_row \<Rightarrow> bool" where
  "rolling_due now db u \<longleftrightarrow> u_strategy u = Rolling \<and> u_deletedAt u = None \<and>
     (case last_reset (u_id u) db of None \<Rightarrow> True | Some t \<Rightarrow> t < now - ROLLING_WINDOW_MS)"

definition resetTrafficRolling :: "int \<Rightarrow> panel_db \<Rightarrow> nat \<times> panel_db \<times> domain_event list" where
  "resetTrafficRolling now db =
     (let us = filter (rolling_due now db) (users db)
      in if us = [] then (0, db, [])
         else (length us, zero_counters (map u_id us) now db, map (\<lambda>u. TrafficReset (u_id u) (used_bytes (u_id u) db)) us))"

section \<open>Status flips\<close>

text \<open>\<open>UPDATE users SET status = s, updated_at = now() WHERE ... RETURNING id\<close>, and what follows it.\<close>

definition flip_users :: "user_status \<Rightarrow> (user_row \<Rightarrow> bool) \<Rightarrow> int \<Rightarrow> panel_db \<Rightarrow> nat \<times> panel_db \<times> job_spec list \<times> domain_event list" where
  "flip_users s due now db =
     (let ids = map u_id (filter due (users db))
      in if ids = [] then (0, db, [], [])
         else (length ids,
           db\<lparr>users := map (\<lambda>u. if due u then u\<lparr>u_status := s, u_updatedAt := now\<rparr> else u) (users db)\<rparr>,
           map (\<lambda>i. (RemoveUser i, None)) ids,
           map (\<lambda>i. StatusChanged i Active s) ids))"

definition expiry_due :: "int \<Rightarrow> user_row \<Rightarrow> bool" where
  "expiry_due now u \<longleftrightarrow> u_status u = Active \<and> u_deletedAt u = None \<and>
     (case u_expireAt u of Some t \<Rightarrow> t < now | None \<Rightarrow> False)"

definition findExpiredUsers :: "int \<Rightarrow> panel_db \<Rightarrow> nat \<times> panel_db \<times> job_spec list \<times> domain_event list" where
  "findExpiredUsers now db = flip_users Expired (expiry_due now) now db"

definition quota_due :: "panel_db \<Rightarrow> user_row \<Rightarrow> bool" where
  "quota_due db u \<longleftrightarrow> u_status u = Active \<and> u_deletedAt u = None \<and>
     (case (u_limitBytes u, map_get (user_traffic db) (u_id u)) of
        (Some l, Some t) \<Rightarrow> l \<le> ut_used t | _ \<Rightarrow> False)"

definition findExceededTrafficUsers :: "int \<Rightarrow> panel_db \<Rightarrow> nat \<times> panel_db \<times> job_spec list \<times> domain_event list" where
  "findExceededTrafficUsers now db = flip_users Limited (quota_due db) now db"

section \<open>Users left on nodes\<close>

definition orphan :: "int \<Rightarrow> user_row \<Rightarrow> bool" where
  "orphan now u \<longleftrightarrow> now - 24 * 60 * 60 * 1000 \<le> u_updatedAt u \<and> u_updatedAt u \<le> now - 15 * 60 * 1000 \<and>
     (u_status u \<noteq> Active \<or> u_deletedAt u \<noteq> None)"

definition dec_of_int :: "int \<Rightarrow> string" where
  "dec_of_int n = (if n < 0 then ''-'' @ dec_of_nat (nat (- n)) else dec_of_nat (nat n))"

definition orphan_job_id :: "int \<Rightarrow> string \<Rightarrow> string" where
  "orphan_job_id now i = ''removeUser-'' @ i @ ''-d'' @ dec_of_int (now div 86400000)"

definition reconcileOrphanNodeUsers :: "int \<Rightarrow> panel_db \<Rightarrow> nat \<times> job_spec list" where
  "reconcileOrphanNodeUsers now db =
     (let orphans = filter (orphan now) (users db)
      in (length orphans, map (\<lambda>u. (RemoveUser (u_id u), Some (orphan_job_id now (u_id u)))) orphans))"

section \<open>The digest\<close>

text \<open>\<open>new Date(ms).toISOString().slice(0, 10)\<close>: the day of the proleptic Gregorian calendar.\<close>

definition civil_day :: "int \<Rightarrow> int \<times> int \<times> int" where
  "civil_day ms =
     (let z = ms div 86400000 + 719468;
          era = z div 146097;
          doe = z mod 146097;
          yoe = (doe - doe div 1460 + doe div 36524 - doe div 146096) div 365;
          doy = doe - (365 * yoe + yoe div 4 - yoe div 100);
          mp = (5 * doy + 2) div 153;
          d = doy - (153 * mp + 2) div 5 + 1;
          m = (if mp < 10 then mp + 3 else mp - 9)
      in (yoe + era * 400 + (if m \<le> 2 then 1 else 0), m, d))"

definition pad_left :: "nat \<Rightarrow> string \<Rightarrow> string" where
  "pad_left n s = replicate (n - length s) (CHR ''0'') @ s"

definition iso_day :: "int \<Rightarrow> string" where
  "iso_day ms =
     (let (y, m, d) = civil_day ms;
          year = (if 0 \<le> y \<and> y \<le> 9999 then pad_left 4 (dec_of_nat (nat y))
                  else (if y < 0 then ''-'' else ''+'') @ pad_left 6 (dec_of_nat (nat \<bar>y\<bar>)))
      in take 10 (year @ ''-'' @ pad_left 2 (dec_of_nat (nat m)) @ ''-'' @ pad_left 2 (dec_of_nat (nat d))))"

text \<open>\<open>s.replace(/([_*`[\]])/g, '\\$1')\<close>.\<close>

definition escapeMarkdown :: "string \<Rightarrow> string" where
  "escapeMarkdown s = concat (map (\<lambda>c. if c \<in> set ''_*`[]'' then [CHR 0x5C, c] else [c]) s)"

definition NEAR_EXPIRY_DAYS :: int where
  "NEAR_EXPIRY_DAYS = 3"

definition NEAR_CAP_PERCENT :: int where
  "NEAR_CAP_PERCENT = 90"

definition formatNearLimitsDigest :: "(string \<times> int option) list \<Rightarrow> (string \<times> int) list \<Rightarrow> string option" where
  "formatNearLimitsDigest expiring nearCap =
     (if expiring = [] \<and> nearCap = [] then None
      else Some (js_join [CHR 0x0A]
        ([''*Iceslab daily digest*''] @
         (if expiring = [] then [] else
            (''*Expiring soon (<= '' @ dec_of_int NEAR_EXPIRY_DAYS @ ''d):*'') #
            map (\<lambda>(name, expires). ''- '' @ escapeMarkdown name @ '': '' @ (case expires of Some t \<Rightarrow> iso_day t | None \<Rightarrow> ''?'')) expiring) @
         (if nearCap = [] then [] else
            (''*Near traffic cap (>= '' @ dec_of_int NEAR_CAP_PERCENT @ ''%):*'') #
            map (\<lambda>(name, pct). ''- '' @ escapeMarkdown name @ '': '' @ dec_of_int pct @ ''%'') nearCap))))"

definition near_expiry :: "int \<Rightarrow> user_row \<Rightarrow> bool" where
  "near_expiry now u \<longleftrightarrow> u_status u = Active \<and> u_deletedAt u = None \<and>
     (case u_expireAt u of Some t \<Rightarrow> now \<le> t \<and> t \<le> now + NEAR_EXPIRY_DAYS * 86400000 | None \<Rightarrow> False)"

text \<open>The share of its cap a row has used, for a row the query selects. Both numbers are positive, so
  the \<open>bigint\<close> division truncates as \<open>div\<close> does.\<close>

definition near_cap :: "panel_db \<Rightarrow> user_row \<Rightarrow> (string \<times> int) option" where
  "near_cap db u =
     (case (u_limitBytes u, map_get (user_traffic db) (u_id u)) of
        (Some l, Some t) \<Rightarrow>
          if u_status u = Active \<and> u_deletedAt u = None \<and> 0 < l \<and> l * NEAR_CAP_PERCENT div 100 \<le> ut_used t \<and> ut_used t < l
          then Some (u_username u, ut_used t * 100 div l) else None
      | _ \<Rightarrow> None)"

definition alertNearLimits :: "int \<Rightarrow> panel_db \<Rightarrow> nat \<times> string option" where
  "alertNearLimits now db =
     (let expiring = take 50 (sort_key (\<lambda>(_, expires). the expires)
            (map (\<lambda>u. (u_username u, u_expireAt u)) (filter (near_expiry now) (users db))));
          nearCap = take 50 (sort_key (\<lambda>(_, pct). - pct) (List.map_filter (near_cap db) (users db)))
      in (case formatNearLimitsDigest expiring nearCap of
            None \<Rightarrow> (0, None)
          | Some msg \<Rightarrow> (length expiring + length nearCap, Some msg)))"

section \<open>What the jobs do\<close>

lemma users_wf_map:
  assumes "users_wf db"
    and "\<And>u. u_id (f u) = u_id u \<and> u_shortId (f u) = u_shortId u \<and> u_token (f u) = u_token u \<and> u_username (f u) = u_username u \<and>
      u_deletedAt (f u) = u_deletedAt u \<and> u_sourceId (f u) = u_sourceId u \<and> u_preset (f u) = u_preset u \<and>
      u_customPreset (f u) = u_customPreset u"
  shows "users_wf (db\<lparr>users := map f (users db)\<rparr>)"
proof -
  have same: "map k (map f us) = map k us" if "\<And>u. k (f u) = k u" for k :: "user_row \<Rightarrow> 'k" and us
    using that by simp
  have kept: "filter P (map f us) = map f (filter P us)" if "\<And>u. P (f u) = P u" for P us
    using that by (induction us) auto
  have ids: "u_id ` set (map f (users db)) = u_id ` set (users db)"
    using assms(2) by (simp add: image_image)
  show ?thesis
    using assms unfolding users_wf_def uniq_def squads_of_def one_preset_def by (simp add: kept comp_def image_image)
qed

lemma find_map_same:
  "(\<And>u. P (f u) = P u) \<Longrightarrow> List.find P (map f us) = map_option f (List.find P us)"
  by (induction us) auto

definition flipped :: "user_status \<Rightarrow> int \<Rightarrow> (user_row \<Rightarrow> bool) \<Rightarrow> user_row \<Rightarrow> user_row" where
  "flipped s now due u = (if due u then u\<lparr>u_status := s, u_updatedAt := now\<rparr> else u)"

lemma flip_users_wf: "users_wf db \<Longrightarrow> users_wf (db\<lparr>users := map (flipped s now due) (users db)\<rparr>)"
  by (rule users_wf_map) (simp_all add: flipped_def)

lemma flipped_simps [simp]:
  "u_id (flipped s now due u) = u_id u" "u_deletedAt (flipped s now due u) = u_deletedAt u"
  "u_expireAt (flipped s now due u) = u_expireAt u" "u_limitBytes (flipped s now due u) = u_limitBytes u"
  "u_status (flipped s now due u) = (if due u then s else u_status u)"
  by (simp_all add: flipped_def)

lemma flip_users_db:
  "flip_users s due now db =
   (length (filter due (users db)), db\<lparr>users := map (flipped s now due) (users db)\<rparr>,
    map (\<lambda>u. (RemoveUser (u_id u), None)) (filter due (users db)),
    map (\<lambda>u. StatusChanged (u_id u) Active s) (filter due (users db)))"
proof (cases "filter due (users db) = []")
  case True
  then have "map (flipped s now due) (users db) = users db"
    by (intro map_idI) (auto simp: flipped_def filter_empty_conv)
  then show ?thesis
    using True by (simp add: flip_users_def)
qed (simp add: flip_users_def flipped_def [abs_def] comp_def)

lemma quota_due_flipped: "quota_due (db\<lparr>users := us\<rparr>) = quota_due db"
  by (simp add: fun_eq_iff quota_due_def)

text \<open>What the two ticks leave of one row, and what they send.\<close>

lemma ticked_row:
  fixes now db
  defines "f \<equiv> flipped Expired now (expiry_due now)" and "g \<equiv> flipped Limited now (quota_due db)"
  shows "\<not> expiry_due now (g (f u))" and "\<not> quota_due db (g (f u))"
    and "expiry_due now u \<Longrightarrow> g (f u) = u\<lparr>u_status := Expired, u_updatedAt := now\<rparr> \<and>
      byFacts (u_expireAt u) (u_limitBytes u) (used_bytes (u_id u) db) now = Expired"
    and "\<not> expiry_due now u \<Longrightarrow> f u = u"
    and "\<not> expiry_due now u \<Longrightarrow> quota_due db u \<Longrightarrow> g u = u\<lparr>u_status := Limited, u_updatedAt := now\<rparr> \<and>
      byFacts (u_expireAt u) (u_limitBytes u) (used_bytes (u_id u) db) now = Limited"
    and "\<not> expiry_due now u \<Longrightarrow> \<not> quota_due db u \<Longrightarrow> g (f u) = u"
proof -
  show "\<not> expiry_due now (g (f u))" "\<not> quota_due db (g (f u))"
    by (auto simp: f_def g_def expiry_due_def quota_due_def split: option.splits if_splits)
  show "g (f u) = u\<lparr>u_status := Expired, u_updatedAt := now\<rparr> \<and> byFacts (u_expireAt u) (u_limitBytes u) (used_bytes (u_id u) db) now = Expired"
    if "expiry_due now u"
  proof -
    have "f u = u\<lparr>u_status := Expired, u_updatedAt := now\<rparr>"
      using that by (simp add: f_def flipped_def)
    moreover have "\<not> quota_due db (u\<lparr>u_status := Expired, u_updatedAt := now\<rparr>)"
      by (simp add: quota_due_def)
    ultimately show ?thesis
      using that by (auto simp: g_def flipped_def expiry_due_def split: option.splits)
  qed
  show "g u = u\<lparr>u_status := Limited, u_updatedAt := now\<rparr> \<and> byFacts (u_expireAt u) (u_limitBytes u) (used_bytes (u_id u) db) now = Limited"
    if "\<not> expiry_due now u" "quota_due db u"
    using that by (auto simp: g_def flipped_def quota_due_def expiry_due_def used_bytes_def split: option.splits)
qed (simp_all add: f_def g_def flipped_def)


text \<open>Eve's date has passed, Bob has used 12 of his 10 bytes.\<close>

definition demo_due :: panel_db where
  "demo_due = demo_db\<lparr>users := [demo_user ''eve'' Active (Some 5) None, demo_user ''bob'' Active None (Some 10)],
     user_traffic := [(''bob'', \<lparr>ut_used = 12, ut_lastReset = None\<rparr>)]\<rparr>"


section \<open>The digest\<close>

lemma iso_day_examples:
  "iso_day 0 = ''1970-01-01''" "iso_day (- 1) = ''1969-12-31''"
  by code_simp+

lemma digest_example:
  "formatNearLimitsDigest [] [(''a_b*c'', 90)] = Some (''*Iceslab daily digest*'' @ [CHR 0x0A] @
     ''*Near traffic cap (>= 90%):*'' @ [CHR 0x0A] @ ''- a'' @ [CHR 0x5C] @ ''_b'' @ [CHR 0x5C] @ ''*c: 90%'')"
  by code_simp

end
