(* ===== verification/UserReach.thy ===== *)
theory UserReach
  imports CascadeOwnership UserCrons
begin

text \<open>
  Which inbounds of which nodes a user is served on (\<open>modules/users/user-reach.ts\<close>): the bindings each
  squad reaches, the cascade entries it switched off, and the union over a user's squads. The dead
  cascades are an argument; the caller reads them from \<open>deadCascadeIds\<close>, whose minute of cache is
  dropped with every change of a cascade.
\<close>

section \<open>What a squad reaches\<close>

definition entry_key :: "string \<Rightarrow> string option \<Rightarrow> string" where
  "entry_key node protocol = node @ ''|'' @ (case protocol of Some p \<Rightarrow> p | None \<Rightarrow> ''null'')"

definition entry_positions :: "cascade_row \<Rightarrow> position_input list" where
  "entry_positions c = filter (\<lambda>p. po_position p = 0) (cs_positions c)"

definition entersThroughChain :: "string list \<Rightarrow> cascade_row \<Rightarrow> bool" where
  "entersThroughChain dead c \<longleftrightarrow> cs_enabled c \<and> cs_id c \<notin> set dead \<and>
     (\<exists>p \<in> set (entry_positions c). po_entryProtocol p = Some ''hysteria'' \<or> po_entryProtocol p = Some ''amneziawg'')"

text \<open>The keys of the entries a squad switched off.\<close>

definition entriesSwitchedOff :: "string list \<Rightarrow> string \<Rightarrow> panel_db \<Rightarrow> string list" where
  "entriesSwitchedOff dead g db =
     concat (map (\<lambda>c. concat (map (\<lambda>p. map (\<lambda>n. entry_key n (po_entryProtocol p)) (po_nodeIds p)) (entry_positions c)))
       (filter (\<lambda>c. (g, cs_id c) \<in> set (cascades_off db) \<and> entersThroughChain dead c) (cascades db)))"

definition profile_of :: "binding_row \<Rightarrow> panel_db \<Rightarrow> profile_row option" where
  "profile_of b db = List.find (\<lambda>p. p_id p = b_profile b) (profiles db)"

definition node_of :: "binding_row \<Rightarrow> panel_db \<Rightarrow> node_row option" where
  "node_of b db = List.find (\<lambda>n. n_id n = b_node b) (nodes db)"

text \<open>The query of the bindings: enabled, of an enabled profile some asked squad grants, on a live node.\<close>

definition binding_asked :: "string list \<Rightarrow> string option \<Rightarrow> panel_db \<Rightarrow> binding_row \<Rightarrow> bool" where
  "binding_asked groupIds nodeId db b \<longleftrightarrow> b_enabled b \<and> (nodeId = None \<or> nodeId = Some (b_node b)) \<and>
     (case profile_of b db of Some p \<Rightarrow> p_enabled p | None \<Rightarrow> False) \<and>
     (\<exists>g \<in> set groupIds. (g, b_profile b) \<in> set (group_profiles db)) \<and>
     (case node_of b db of Some n \<Rightarrow> \<not> n_deleted n \<and> \<not> n_disabled n | None \<Rightarrow> False)"

definition enabled_hosts :: "binding_row \<Rightarrow> string list" where
  "enabled_hosts b = map fst (filter snd (b_hosts b))"

definition binding_protocol :: "binding_row \<Rightarrow> panel_db \<Rightarrow> string" where
  "binding_protocol b db = (case profile_of b db of Some p \<Rightarrow> p_protocol p | None \<Rightarrow> [])"

definition hosts_of :: "string \<Rightarrow> panel_db \<Rightarrow> string list" where
  "hosts_of g db = map snd (filter (\<lambda>r. fst r = g) (group_hosts db))"

definition squad_reaches :: "string list \<Rightarrow> string \<Rightarrow> panel_db \<Rightarrow> binding_row \<Rightarrow> bool" where
  "squad_reaches dead g db b \<longleftrightarrow> (g, b_profile b) \<in> set (group_profiles db) \<and> enabled_hosts b \<noteq> [] \<and>
     (hosts_of g db = [] \<or> (\<exists>h \<in> set (enabled_hosts b). h \<in> set (hosts_of g db))) \<and>
     entry_key (b_node b) (Some (binding_protocol b db)) \<notin> set (entriesSwitchedOff dead g db)"

definition bindingsReachedBySquads ::
  "string list \<Rightarrow> string list \<Rightarrow> string option \<Rightarrow> panel_db \<Rightarrow> (string, (string \<times> string) list) jsmap" where
  "bindingsReachedBySquads dead groupIds nodeId db =
     (let rows = filter (binding_asked groupIds nodeId db) (bindings db)
      in foldl (\<lambda>out g.
           if \<exists>r \<in> set (group_profiles db). fst r = g
           then map_set g (map (\<lambda>b. (b_id b, b_node b)) (filter (squad_reaches dead g db) rows)) out
           else out) [] groupIds)"

section \<open>What a user reaches\<close>

type_synonym user_reach = "(string, (string, string list) jsmap) jsmap"

definition reach_add :: "user_reach \<Rightarrow> string \<times> string \<times> string \<Rightarrow> user_reach" where
  "reach_add out x =
     (let (u, i, n) = x;
          byNode = (case map_get out u of Some m \<Rightarrow> m | None \<Rightarrow> []);
          ids = (case map_get byNode n of Some l \<Rightarrow> l | None \<Rightarrow> [])
      in map_set u (map_set n (set_add i ids) byNode) out)"

definition reach_memberships :: "string list option \<Rightarrow> panel_db \<Rightarrow> (string \<times> string) list" where
  "reach_memberships userIds db =
     (case userIds of
        None \<Rightarrow> filter (\<lambda>m. \<exists>u \<in> set (users db). u_id u = snd m \<and> u_deletedAt u = None \<and> u_status u = Active) (members db)
      | Some ids \<Rightarrow> filter (\<lambda>m. snd m \<in> set ids) (members db))"

definition reach_pairs :: "string list \<Rightarrow> (string \<times> string) list \<Rightarrow> string option \<Rightarrow> panel_db \<Rightarrow> (string \<times> string \<times> string) list" where
  "reach_pairs dead ms nodeId db =
     (let reachedBy = bindingsReachedBySquads dead (set_from (map fst ms)) nodeId db
      in concat (map (\<lambda>(g, u). map (\<lambda>(i, n). (u, i, n)) (case map_get reachedBy g of Some bs \<Rightarrow> bs | None \<Rightarrow> [])) ms))"

definition sort_reach :: "user_reach \<Rightarrow> user_reach" where
  "sort_reach out = map (\<lambda>(u, m). (u, map (\<lambda>(n, ids). (n, sort ids)) m)) out"

definition reachOfUsers :: "string list \<Rightarrow> string list option \<Rightarrow> string option \<Rightarrow> panel_db \<Rightarrow> user_reach" where
  "reachOfUsers dead userIds nodeId db =
     (if userIds = Some [] then []
      else sort_reach (foldl reach_add [] (reach_pairs dead (reach_memberships userIds db) nodeId db)))"

section \<open>The reach, as a relation\<close>

text \<open>The rule: some squad of the user grants the profile of a live binding, hands out one of its
  enabled hosts, and has not switched off the entry it is.\<close>

definition reaches :: "string list \<Rightarrow> panel_db \<Rightarrow> string \<Rightarrow> binding_row \<Rightarrow> bool" where
  "reaches dead db u b \<longleftrightarrow>
     (\<exists>g. (g, u) \<in> set (members db) \<and> squad_reaches dead g db b) \<and> b_enabled b \<and>
     (\<exists>p. profile_of b db = Some p \<and> p_enabled p) \<and> (\<exists>n. node_of b db = Some n \<and> \<not> n_deleted n \<and> \<not> n_disabled n)"

definition looked_up :: "user_reach \<Rightarrow> string \<Rightarrow> string \<Rightarrow> string list option" where
  "looked_up m u n = (case map_get m u of None \<Rightarrow> None | Some byNode \<Rightarrow> map_get byNode n)"

lemma reached_get:
  "map_get (bindingsReachedBySquads dead gs nodeId db) g =
   (if g \<in> set gs \<and> (\<exists>r \<in> set (group_profiles db). fst r = g)
    then Some (map (\<lambda>b. (b_id b, b_node b)) (filter (squad_reaches dead g db) (filter (binding_asked gs nodeId db) (bindings db))))
    else None)"
proof -
  define row where "row g = map (\<lambda>b. (b_id b, b_node b)) (filter (squad_reaches dead g db) (filter (binding_asked gs nodeId db) (bindings db)))" for g
  have "map_get (foldl (\<lambda>out g. if \<exists>r \<in> set (group_profiles db). fst r = g then map_set g (row g) out else out) m hs) g =
      (if g \<in> set hs \<and> (\<exists>r \<in> set (group_profiles db). fst r = g) then Some (row g) else map_get m g)" for m hs
    by (induction hs arbitrary: m) auto
  then show ?thesis
    unfolding bindingsReachedBySquads_def Let_def row_def [symmetric] by simp
qed

lemma member_triples:
  "(u, i, n) \<in> set (concat (map (\<lambda>(g, u). map (\<lambda>(i, n). (u, i, n)) (F g)) ms)) \<longleftrightarrow> (\<exists>g. (g, u) \<in> set ms \<and> (i, n) \<in> set (F g))"
  by (induction ms) auto

lemma reach_pairs_set:
  "(u, i, n) \<in> set (reach_pairs dead ms nodeId db) \<longleftrightarrow>
   (\<exists>b \<in> set (bindings db). b_id b = i \<and> b_node b = n \<and> binding_asked (map fst ms) nodeId db b \<and>
     (\<exists>g. (g, u) \<in> set ms \<and> squad_reaches dead g db b))"
proof -
  have asked: "binding_asked (set_from (map fst ms)) nodeId db = binding_asked (map fst ms) nodeId db"
    by (simp add: fun_eq_iff binding_asked_def)
  let ?of = "\<lambda>g. case map_get (bindingsReachedBySquads dead (set_from (map fst ms)) nodeId db) g of Some bs \<Rightarrow> bs | None \<Rightarrow> []"
  have "(u, i, n) \<in> set (reach_pairs dead ms nodeId db) \<longleftrightarrow> (\<exists>g. (g, u) \<in> set ms \<and> (i, n) \<in> set (?of g))"
    unfolding reach_pairs_def Let_def by (rule member_triples)
  also have "\<dots> \<longleftrightarrow> (\<exists>g. (g, u) \<in> set ms \<and>
      (\<exists>b \<in> set (bindings db). b_id b = i \<and> b_node b = n \<and> binding_asked (map fst ms) nodeId db b \<and> squad_reaches dead g db b))"
  proof (intro ex_cong1 conj_cong refl)
    fix g
    assume "(g, u) \<in> set ms"
    then have g: "g \<in> set (map fst ms)"
      by force
    have grants: "\<exists>r \<in> set (group_profiles db). fst r = g" if "squad_reaches dead g db b" for b
      using that by (force simp: squad_reaches_def)
    show "(i, n) \<in> set (?of g) \<longleftrightarrow>
      (\<exists>b \<in> set (bindings db). b_id b = i \<and> b_node b = n \<and> binding_asked (map fst ms) nodeId db b \<and> squad_reaches dead g db b)"
    proof (cases "\<exists>r \<in> set (group_profiles db). fst r = g")
      case True
      then have "?of g = map (\<lambda>b. (b_id b, b_node b)) (filter (squad_reaches dead g db) (filter (binding_asked (map fst ms) nodeId db) (bindings db)))"
        using g unfolding reached_get asked set_from_set by simp
      then show ?thesis
        by auto
    next
      case False
      then show ?thesis
        using grants unfolding reached_get by auto
    qed
  qed
  finally show ?thesis
    by blast
qed

lemma looked_up_add:
  "looked_up (reach_add out (u, i, n)) u' n' =
   (if u' = u \<and> n' = n then Some (set_add i (case looked_up out u n of Some l \<Rightarrow> l | None \<Rightarrow> [])) else looked_up out u' n')"
  by (auto simp: looked_up_def reach_add_def split: option.split)

lemma looked_up_fold:
  "looked_up (foldl reach_add out xs) u n =
   (case map (fst \<circ> snd) (filter (\<lambda>x. fst x = u \<and> snd (snd x) = n) xs) of
      [] \<Rightarrow> looked_up out u n
    | is \<Rightarrow> Some (foldl (\<lambda>acc i. set_add i acc) (case looked_up out u n of Some l \<Rightarrow> l | None \<Rightarrow> []) is))"
proof (induction xs arbitrary: out)
  case (Cons x xs)
  obtain v i m where x: "x = (v, i, m)"
    by (cases x)
  show ?case
    unfolding x by (auto simp: Cons.IH looked_up_add split: list.split option.split)
qed simp

lemma map_get_map: "map_get (map (\<lambda>(k, v). (k, f v)) xs) k = map_option f (map_get xs k)"
  by (induction xs) auto

lemma looked_up_sort: "looked_up (sort_reach out) u n = map_option sort (looked_up out u n)"
  by (simp add: looked_up_def sort_reach_def map_get_map split: option.split)

lemma sort_set_from: "set (sort (set_from xs)) = set xs \<and> sorted (sort (set_from xs)) \<and> distinct (sort (set_from xs))"
  by simp

definition asked_about :: "string list option \<Rightarrow> panel_db \<Rightarrow> string \<Rightarrow> bool" where
  "asked_about userIds db u \<longleftrightarrow>
     (case userIds of
        None \<Rightarrow> \<exists>v \<in> set (users db). u_id v = u \<and> u_deletedAt v = None \<and> u_status v = Active
      | Some ids \<Rightarrow> u \<in> set ids)"

lemma looked_up_reach:
  assumes "userIds \<noteq> Some []"
  shows "looked_up (reachOfUsers dead userIds nodeId db) u n =
    (let is = map (fst \<circ> snd) (filter (\<lambda>x. fst x = u \<and> snd (snd x) = n) (reach_pairs dead (reach_memberships userIds db) nodeId db))
     in if is = [] then None else Some (sort (set_from is)))"
  using assms
  by (simp add: reachOfUsers_def looked_up_sort looked_up_fold set_from_def Let_def split: list.split)
    (simp add: looked_up_def)

lemma reach_memberships_iff: "(g, u) \<in> set (reach_memberships userIds db) \<longleftrightarrow> (g, u) \<in> set (members db) \<and> asked_about userIds db u"
  by (auto simp: reach_memberships_def asked_about_def split: option.split)

lemma triples_image: "fst ` snd ` {x \<in> S. fst x = u \<and> snd (snd x) = n} = {i. (u, i, n) \<in> S}"
  by force

lemma reached_ids:
  assumes "asked_about userIds db u"
  shows "fst ` snd ` {x \<in> set (reach_pairs dead (reach_memberships userIds db) None db). fst x = u \<and> snd (snd x) = n} =
    b_id ` {b \<in> set (bindings db). b_node b = n \<and> reaches dead db u b}"
proof -
  have pair: "(u, i, n) \<in> set (reach_pairs dead (reach_memberships userIds db) None db) \<longleftrightarrow>
      (\<exists>b \<in> set (bindings db). b_id b = i \<and> b_node b = n \<and> reaches dead db u b)" for i
  proof -
    have "binding_asked (map fst (reach_memberships userIds db)) None db b \<and>
          (\<exists>g. (g, u) \<in> set (reach_memberships userIds db) \<and> squad_reaches dead g db b) \<longleftrightarrow> reaches dead db u b" for b
    proof -
      have granted: "\<exists>g \<in> set (map fst (reach_memberships userIds db)). (g, b_profile b) \<in> set (group_profiles db)"
        if "(g, u) \<in> set (members db)" "squad_reaches dead g db b" for g
      proof -
        have "(g, u) \<in> set (reach_memberships userIds db)"
          using that(1) assms by (simp add: reach_memberships_iff)
        then have "g \<in> set (map fst (reach_memberships userIds db))"
          by force
        then show ?thesis
          using that(2) by (auto simp: squad_reaches_def)
      qed
      have some: "(case x of None \<Rightarrow> False | Some y \<Rightarrow> P y) \<longleftrightarrow> (\<exists>y. x = Some y \<and> P y)" for x :: "'a option" and P
        by (cases x) auto
      show ?thesis
        unfolding reaches_def binding_asked_def reach_memberships_iff some using assms granted by blast
    qed
    then show ?thesis
      unfolding reach_pairs_set by blast
  qed
  show ?thesis
    unfolding triples_image pair by blast
qed

lemma reach_spec:
  assumes "userIds \<noteq> Some []" and "asked_about userIds db u"
  shows "case looked_up (reachOfUsers dead userIds None db) u n of
      None \<Rightarrow> \<not> (\<exists>b \<in> set (bindings db). b_node b = n \<and> reaches dead db u b)
    | Some l \<Rightarrow> l \<noteq> [] \<and> sorted l \<and> distinct l \<and> set l = b_id ` {b \<in> set (bindings db). b_node b = n \<and> reaches dead db u b}"
proof -
  define ids where "ids = map (fst \<circ> snd) (filter (\<lambda>x. fst x = u \<and> snd (snd x) = n)
    (reach_pairs dead (reach_memberships userIds db) None db))"
  define S where "S = {b \<in> set (bindings db). b_node b = n \<and> reaches dead db u b}"
  have set_ids: "set ids = b_id ` S"
    using reached_ids [OF assms(2), of dead n] by (simp add: ids_def S_def image_image comp_def)
  have found: "looked_up (reachOfUsers dead userIds None db) u n = (if ids = [] then None else Some (sort (set_from ids)))"
    unfolding looked_up_reach [OF assms(1)] Let_def ids_def ..
  have none: "ids = [] \<longleftrightarrow> \<not> (\<exists>b \<in> set (bindings db). b_node b = n \<and> reaches dead db u b)"
    using arg_cong [OF set_ids, of "\<lambda>A. A = {}"] by (auto simp: S_def)
  have some: "sort (set_from ids) \<noteq> []" if "ids \<noteq> []"
    using that by (metis set_empty set_from_set set_sort)
  show ?thesis
    unfolding found using none some sort_set_from [of ids] set_ids [unfolded S_def] by simp
qed


text \<open>A squad of two users that hands out one of the two hosts of a profile bound on a node.\<close>

definition demo_binding :: binding_row where
  "demo_binding = \<lparr>b_id = ''b1'', b_node = ''n1'', b_profile = ''p1'', b_enabled = True, b_port = 443,
     b_hosts = [(''h1'', True), (''h2'', False)]\<rparr>"

definition demo_reach :: panel_db where
  "demo_reach = demo_cascades\<lparr>cascades := [], users := [demo_user ''eve'' Active None None],
     members := [(''g1'', ''eve'')], group_profiles := [(''g1'', ''p1'')], group_hosts := [(''g1'', ''h1'')],
     profiles := [\<lparr>p_id = ''p1'', p_enabled = True, p_protocol = ''xray'', p_awgProtocol3 = False, p_subnet = None\<rparr>],
     bindings := [demo_binding],
     nodes := [\<lparr>n_id = ''n1'', n_name = ''n1'', n_disabled = False, n_deleted = False, n_lastInboundSyncAt = Some 1\<rparr>]\<rparr>"

lemma demo_reaches: "reaches [] demo_reach ''eve'' demo_binding"
  by (simp add: reaches_def squad_reaches_def demo_reach_def demo_cascades_def demo_binding_def enabled_hosts_def hosts_of_def
      entriesSwitchedOff_def profile_of_def node_of_def)


end
