(* ===== verification/Squads.thy ===== *)
theory Squads
  imports UserCrons
begin

text \<open>
  The squad service (\<open>modules/squads/squads.service.ts\<close>, \<open>squads.mapper.ts\<close>): what a squad grants, which
  cascades it narrows or switches off, and what its deletion does to its members. As in the user
  service a call reads \<open>seen\<close> and its transaction meets \<open>db\<close>.
\<close>

section \<open>Errors and input\<close>

datatype squad_error =
    SquadNotFoundError string
  | SquadAlreadyExistsError string
  | SquadProtectedError
  | SquadExitAclError string
  | SquadRefused user_error

text \<open>An entry of \<open>exitAcl\<close>; the schema admits one per cascade, with at least one of the two lists.\<close>

record acl_entry =
  ae_cascade :: string
  ae_directions :: "string list option"
  ae_exits :: "string list option"

record squad_input =
  si_name :: string
  si_description :: "string option"
  si_preset :: "string option"
  si_customPreset :: "string option"
  si_hwidLimit :: "nat option"
  si_profiles :: "string list"
  si_hosts :: "string list"
  si_exitAcl :: "acl_entry list"
  si_policies :: "string list"

record squad_update =
  su_name :: "string option"
  su_description :: "string option option"
  su_preset :: "string option option"
  su_customPreset :: "string option option"
  su_hwidLimit :: "nat option option"
  su_profiles :: "string list option"
  su_hosts :: "string list option"
  su_exitAcl :: "acl_entry list option"
  su_policies :: "string list option"

definition acl_ok :: "acl_entry list \<Rightarrow> bool" where
  "acl_ok acl \<longleftrightarrow> distinct (map ae_cascade acl) \<and> (\<forall>e \<in> set acl. ae_directions e \<noteq> None \<or> ae_exits e \<noteq> None)"

section \<open>The exit allow-list\<close>

definition givenList :: "acl_entry \<Rightarrow> string list" where
  "givenList e = (case ae_directions e of Some ds \<Rightarrow> ds | None \<Rightarrow> (case ae_exits e of Some ns \<Rightarrow> ns | None \<Rightarrow> []))"

text \<open>The entry positions of the named cascades that hand everybody to the chain, with the cascade's name.\<close>

definition throughChain :: "string list \<Rightarrow> panel_db \<Rightarrow> (string \<times> string) list" where
  "throughChain cascadeIds db =
     concat (map (\<lambda>c. List.map_filter (\<lambda>p.
         if po_position p = 0 \<and> (po_entryProtocol p = Some ''hysteria'' \<or> po_entryProtocol p = Some ''amneziawg'')
         then map_option (\<lambda>proto. (proto, cs_name c)) (po_entryProtocol p) else None) (cs_positions c))
       (filter (\<lambda>c. cs_id c \<in> set cascadeIds) (cascades db)))"

definition in_quotes :: "string \<Rightarrow> string" where
  "in_quotes s = [CHR 0x22] @ s @ [CHR 0x22]"

definition through_chain_message :: "string \<times> string \<Rightarrow> string" where
  "through_chain_message c =
     ''cascade '' @ in_quotes (snd c) @ '' is entered through '' @ fst c @
     '', which hands every user to the chain without telling them apart, so its ways out cannot be narrowed for a squad. '' @
     ''Switch the cascade on or off for the squad instead.''"

definition own_directions :: "string \<Rightarrow> panel_db \<Rightarrow> (string \<times> string list) list" where
  "own_directions c db = concat (map cs_directions (filter (\<lambda>x. cs_id x = c) (cascades db)))"

text \<open>The rows one entry with a non-empty list stands for.\<close>

definition by_direction :: "string \<Rightarrow> acl_entry \<Rightarrow> string \<Rightarrow> exit_row" where
  "by_direction g e d = \<lparr>x_group = g, x_cascade = ae_cascade e, x_direction = Some d, x_node = None\<rparr>"

definition by_node :: "string \<Rightarrow> acl_entry \<Rightarrow> string \<Rightarrow> exit_row" where
  "by_node g e n = \<lparr>x_group = g, x_cascade = ae_cascade e, x_direction = None, x_node = Some n\<rparr>"

definition directions_under :: "acl_entry \<Rightarrow> (string \<times> string list) list \<Rightarrow> string \<Rightarrow> squad_error + string list" where
  "directions_under e own n =
     (case filter (\<lambda>d. n \<in> set (snd d)) own of
        [] \<Rightarrow> Inl (SquadExitAclError (''node '' @ n @ '' is in no direction of cascade '' @ ae_cascade e))
      | ds \<Rightarrow> Inr (map fst ds))"

definition entry_rows :: "string \<Rightarrow> panel_db \<Rightarrow> acl_entry \<Rightarrow> squad_error + exit_row list" where
  "entry_rows g db e =
     (let own = own_directions (ae_cascade e) db in
      case ae_directions e of
        Some ids \<Rightarrow>
          rmap (\<lambda>d. if d \<in> fst ` set own then Inr (by_direction g e d)
            else Inl (SquadExitAclError (''direction '' @ d @ '' is not a direction of cascade '' @ ae_cascade e))) (set_from ids)
      | None \<Rightarrow>
          (let nodeIds = set_from (case ae_exits e of Some ns \<Rightarrow> ns | None \<Rightarrow> []) in
           if own = [] then Inr (map (by_node g e) nodeIds)
           else rbind (rmap (directions_under e own) nodeIds)
             (\<lambda>under. Inr (map (by_direction g e) (set_from (concat under))))))"

definition exitAclRows :: "string \<Rightarrow> acl_entry list \<Rightarrow> panel_db \<Rightarrow> squad_error + exit_row list" where
  "exitAclRows g acl db =
     (let live = filter (\<lambda>e. givenList e \<noteq> []) acl in
      if live = [] then Inr []
      else case throughChain (map ae_cascade live) db of
        c # _ \<Rightarrow> Inl (SquadExitAclError (through_chain_message c))
      | [] \<Rightarrow> rbind (rmap (entry_rows g db) live) (\<lambda>rows. Inr (concat rows)))"

definition offRows :: "string \<Rightarrow> acl_entry list \<Rightarrow> (string \<times> string) list" where
  "offRows g acl = map (\<lambda>e. (g, ae_cascade e)) (filter (\<lambda>e. givenList e = []) acl)"

section \<open>Writing a squad\<close>

text \<open>Rows of a join table for one squad: each pair once, the other end must exist.\<close>

fun insert_links :: "db_error \<Rightarrow> db_error \<Rightarrow> string list \<Rightarrow> string \<Rightarrow> string list \<Rightarrow> (string \<times> string) list \<Rightarrow>
    db_error + (string \<times> string) list" where
  "insert_links taken gone known g [] rows = Inr rows"
| "insert_links taken gone known g (x # xs) rows =
     (if (g, x) \<in> set rows then Inl taken
      else if x \<notin> set known then Inl gone
      else insert_links taken gone known g xs (rows @ [(g, x)]))"

text \<open>The unique indexes of \<open>group_cascade_exits\<close>; nulls never collide.\<close>

definition exit_conflict :: "exit_row \<Rightarrow> exit_row list \<Rightarrow> string option" where
  "exit_conflict r rows =
     (if x_direction r \<noteq> None \<and> (\<exists>q \<in> set rows. x_group q = x_group r \<and> x_direction q = x_direction r)
        then Some ''group_cascade_exits_group_id_direction_id_key''
      else if x_node r \<noteq> None \<and> (\<exists>q \<in> set rows. x_group q = x_group r \<and> x_cascade q = x_cascade r \<and> x_node q = x_node r)
        then Some ''group_cascade_exits_group_id_cascade_id_exit_node_id_key''
      else None)"

definition all_directions :: "panel_db \<Rightarrow> string list" where
  "all_directions db = concat (map (\<lambda>c. map fst (cs_directions c)) (cascades db))"

definition exit_ends_exist :: "exit_row \<Rightarrow> panel_db \<Rightarrow> bool" where
  "exit_ends_exist r db \<longleftrightarrow> x_cascade r \<in> cs_id ` set (cascades db) \<and>
     (case x_direction r of Some d \<Rightarrow> d \<in> set (all_directions db) | None \<Rightarrow> True) \<and>
     (case x_node r of Some n \<Rightarrow> n \<in> n_id ` set (nodes db) | None \<Rightarrow> True)"

fun insert_exits :: "db_error \<Rightarrow> exit_row list \<Rightarrow> panel_db \<Rightarrow> exit_row list \<Rightarrow> db_error + exit_row list" where
  "insert_exits gone [] db rows = Inr rows"
| "insert_exits gone (r # rs) db rows =
     (case exit_conflict r rows of
        Some i \<Rightarrow> Inl (unique_error i)
      | None \<Rightarrow> if exit_ends_exist r db then insert_exits gone rs db (rows @ [r]) else Inl gone)"

definition all_hosts :: "panel_db \<Rightarrow> string list" where
  "all_hosts db = concat (map (\<lambda>b. map fst (b_hosts b)) (bindings db))"

definition squad_one_preset :: "squad_row \<Rightarrow> bool" where
  "squad_one_preset s \<longleftrightarrow> s_preset s = None \<or> s_customPreset s = None"

text \<open>The constraints of one row of \<open>groups\<close>.\<close>

definition squad_refused :: "squad_row \<Rightarrow> squad_row list \<Rightarrow> panel_db \<Rightarrow> db_error option" where
  "squad_refused s others db =
     (if \<not> squad_one_preset s then Some (check_error ''groups_one_routing_preset'')
      else if \<exists>t \<in> set others. s_id t = s_id s then Some (unique_error ''groups_pkey'')
      else if \<exists>t \<in> set others. s_name t = s_name s then Some (unique_error ''groups_name_key'')
      else case s_customPreset s of
        Some p \<Rightarrow> if p \<in> set (presets db) then None else Some (foreign_error ''groups_custom_routing_preset_id_fkey'')
      | None \<Rightarrow> None)"

text \<open>\<open>prisma.group.create\<close> with its nested rows; the preset is connected first.\<close>

definition insert_squad :: "squad_row \<Rightarrow> squad_input \<Rightarrow> exit_row list \<Rightarrow> panel_db \<Rightarrow> db_error + panel_db" where
  "insert_squad s inp exits db =
     rbind (case s_customPreset s of
        Some p \<Rightarrow> if p \<in> set (presets db) then Inr () else Inl (missing_error ''RoutingPreset'')
      | None \<Rightarrow> Inr ()) (\<lambda>_.
      case squad_refused s (squads db) db of
        Some e \<Rightarrow> Inl e
      | None \<Rightarrow>
          rbind (insert_links (unique_error ''group_profiles_pkey'') (foreign_error ''group_profiles_profile_id_fkey'')
             (map p_id (profiles db)) (s_id s) (si_profiles inp) (group_profiles db)) (\<lambda>gp.
          rbind (insert_links (unique_error ''group_hosts_pkey'') (foreign_error ''group_hosts_host_id_fkey'')
             (all_hosts db) (s_id s) (si_hosts inp) (group_hosts db)) (\<lambda>gh.
          rbind (insert_exits (missing_error ''GroupCascadeExit'') exits db (cascade_exits db)) (\<lambda>ce.
          rbind (insert_links (unique_error ''group_cascades_off_pkey'') (missing_error ''Cascade'')
             (map cs_id (cascades db)) (s_id s) (map snd (offRows [] (si_exitAcl inp))) (cascades_off db)) (\<lambda>co.
          rbind (insert_links (unique_error ''group_route_policies_pkey'') (missing_error ''RoutePolicy'')
             (policies db) (s_id s) (si_policies inp) (group_policies db)) (\<lambda>pol.
          Inr (db\<lparr>squads := squads db @ [s], group_profiles := gp, group_hosts := gh, cascade_exits := ce,
                  cascades_off := co, group_policies := pol\<rparr>)))))))"

definition squad_refusal :: "string option \<Rightarrow> string option \<Rightarrow> db_error \<Rightarrow> squad_error" where
  "squad_refusal name own err =
     (case name of
        Some n \<Rightarrow> if isUniqueViolationOn err ''groups_name_key'' [''name''] then SquadAlreadyExistsError n
                   else SquadRefused (rethrowPresetGone err own)
      | None \<Rightarrow> SquadRefused (rethrowPresetGone err own))"

type_synonym 'a squad_outcome = "(squad_error + 'a) \<times> panel_db \<times> domain_event list"

definition new_squad :: "string \<Rightarrow> squad_input \<Rightarrow> squad_row" where
  "new_squad i inp = \<lparr>s_id = i, s_name = si_name inp, s_description = si_description inp, s_preset = si_preset inp,
     s_customPreset = (if truthy_id (si_customPreset inp) then si_customPreset inp else None), s_hwidLimit = si_hwidLimit inp\<rparr>"

definition find_squad :: "(squad_row \<Rightarrow> bool) \<Rightarrow> panel_db \<Rightarrow> squad_row option" where
  "find_squad P db = List.find P (squads db)"

definition createSquad :: "string \<Rightarrow> squad_input \<Rightarrow> panel_db \<Rightarrow> panel_db \<Rightarrow> squad_row squad_outcome" where
  "createSquad i inp seen db =
     (if find_squad (\<lambda>s. s_name s = si_name inp) seen \<noteq> None then (Inl (SquadAlreadyExistsError (si_name inp)), db, [])
      else case exitAclRows [] (si_exitAcl inp) seen of
        Inl e \<Rightarrow> (Inl e, db, [])
      | Inr exits \<Rightarrow>
          (case assertCustomPresetExists (si_customPreset inp) seen of
             Inl e \<Rightarrow> (Inl (SquadRefused e), db, [])
           | Inr _ \<Rightarrow>
               (let s = new_squad i inp in
                case insert_squad s inp (map (\<lambda>r. r\<lparr>x_group := i\<rparr>) exits) db of
                  Inl err \<Rightarrow> (Inl (squad_refusal (Some (si_name inp)) (si_customPreset inp) err), db, [])
                | Inr db' \<Rightarrow> (Inr s, db', [SquadChanged i]))))"

section \<open>Editing a squad\<close>

text \<open>A replaced list: \<open>deleteMany\<close> of the squad's rows, then \<open>createMany\<close>.\<close>

definition replace_links :: "db_error \<Rightarrow> db_error \<Rightarrow> string list \<Rightarrow> string \<Rightarrow> string list option \<Rightarrow> (string \<times> string) list \<Rightarrow>
    db_error + (string \<times> string) list" where
  "replace_links taken gone known g given rows =
     (case given of None \<Rightarrow> Inr rows | Some xs \<Rightarrow> insert_links taken gone known g xs (filter (\<lambda>r. fst r \<noteq> g) rows))"

definition replace_exits :: "string \<Rightarrow> acl_entry list option \<Rightarrow> exit_row list \<Rightarrow> panel_db \<Rightarrow> db_error + exit_row list" where
  "replace_exits g acl exits db =
     (case acl of None \<Rightarrow> Inr (cascade_exits db)
      | Some _ \<Rightarrow> insert_exits (foreign_error ''group_cascade_exits_fkey'') exits db (filter (\<lambda>r. x_group r \<noteq> g) (cascade_exits db)))"

definition edit_squad :: "squad_update \<Rightarrow> squad_row \<Rightarrow> squad_row" where
  "edit_squad inp s =
     (let preset = presetUpdateData (su_preset inp) (su_customPreset inp)
      in s\<lparr>s_name := or_keep (su_name inp) (s_name s), s_description := or_keep (su_description inp) (s_description s),
           s_preset := or_keep (fst preset) (s_preset s), s_customPreset := or_keep (snd preset) (s_customPreset s),
           s_hwidLimit := or_keep (su_hwidLimit inp) (s_hwidLimit s)\<rparr>)"

text \<open>When the squad is gone: the first list with something in it fails on its foreign key, an edit of the
  row alone finds nothing to update.\<close>

definition squad_gone :: "squad_update \<Rightarrow> exit_row list \<Rightarrow> db_error" where
  "squad_gone inp exits =
     (if (su_profiles inp \<noteq> None \<and> su_profiles inp \<noteq> Some []) \<or> (su_hosts inp \<noteq> None \<and> su_hosts inp \<noteq> Some []) \<or> exits \<noteq> [] \<or>
         (case su_exitAcl inp of Some acl \<Rightarrow> offRows [] acl \<noteq> [] | None \<Rightarrow> False) \<or>
         (su_policies inp \<noteq> None \<and> su_policies inp \<noteq> Some [])
      then foreign_error ''group_id_fkey'' else missing_error ''Group'')"

definition write_squad :: "string \<Rightarrow> squad_update \<Rightarrow> exit_row list \<Rightarrow> panel_db \<Rightarrow> db_error + squad_row \<times> panel_db" where
  "write_squad i inp exits db =
     (case find_squad (\<lambda>s. s_id s = i) db of
        None \<Rightarrow> Inl (squad_gone inp exits)
      | Some s \<Rightarrow>
          rbind (replace_links (unique_error ''group_profiles_pkey'') (foreign_error ''group_profiles_profile_id_fkey'')
             (map p_id (profiles db)) i (su_profiles inp) (group_profiles db)) (\<lambda>gp.
          rbind (replace_links (unique_error ''group_hosts_pkey'') (foreign_error ''group_hosts_host_id_fkey'')
             (all_hosts db) i (su_hosts inp) (group_hosts db)) (\<lambda>gh.
          rbind (replace_exits i (su_exitAcl inp) exits db) (\<lambda>ce.
          rbind (replace_links (unique_error ''group_cascades_off_pkey'') (foreign_error ''group_cascades_off_cascade_id_fkey'')
             (map cs_id (cascades db)) i (map_option (\<lambda>acl. map snd (offRows i acl)) (su_exitAcl inp)) (cascades_off db)) (\<lambda>co.
          rbind (replace_links (unique_error ''group_route_policies_pkey'') (foreign_error ''group_route_policies_policy_id_fkey'')
             (policies db) i (su_policies inp) (group_policies db)) (\<lambda>pol.
          (let s' = edit_squad inp s in
           case squad_refused s' (filter (\<lambda>t. s_id t \<noteq> i) (squads db)) db of
             Some e \<Rightarrow> Inl e
           | None \<Rightarrow> Inr (s', db\<lparr>squads := map (\<lambda>t. if s_id t = i then s' else t) (squads db), group_profiles := gp,
               group_hosts := gh, cascade_exits := ce, cascades_off := co, group_policies := pol\<rparr>))))))))"

definition update_checks :: "string \<Rightarrow> squad_update \<Rightarrow> panel_db \<Rightarrow> squad_error + exit_row list" where
  "update_checks i inp seen =
     (if i = ALL_SQUAD_ID then Inl SquadProtectedError
      else case find_squad (\<lambda>s. s_id s = i) seen of
        None \<Rightarrow> Inl (SquadNotFoundError i)
      | Some existing \<Rightarrow>
          if truthy_id (su_name inp) \<and> su_name inp \<noteq> Some (s_name existing) \<and> find_squad (\<lambda>s. Some (s_name s) = su_name inp) seen \<noteq> None
          then Inl (SquadAlreadyExistsError (the (su_name inp)))
          else rbind (case su_exitAcl inp of None \<Rightarrow> Inr [] | Some acl \<Rightarrow> exitAclRows i acl seen) (\<lambda>exits.
               case snd (presetUpdateData (su_preset inp) (su_customPreset inp)) of
                 Some own \<Rightarrow> (case assertCustomPresetExists own seen of Inl e \<Rightarrow> Inl (SquadRefused e) | Inr _ \<Rightarrow> Inr exits)
               | None \<Rightarrow> Inr exits))"

definition updateSquad :: "string \<Rightarrow> squad_update \<Rightarrow> panel_db \<Rightarrow> panel_db \<Rightarrow> squad_row squad_outcome" where
  "updateSquad i inp seen db =
     (case update_checks i inp seen of
        Inl e \<Rightarrow> (Inl e, db, [])
      | Inr exits \<Rightarrow>
          (case write_squad i inp exits db of
             Inl err \<Rightarrow> (Inl (squad_refusal (su_name inp)
               (case snd (presetUpdateData (su_preset inp) (su_customPreset inp)) of Some own \<Rightarrow> own | None \<Rightarrow> None) err), db, [])
           | Inr (s, db') \<Rightarrow> (Inr s, db', [SquadChanged i])))"

section \<open>Deleting a squad\<close>

text \<open>\<open>group.delete\<close>: the rows of the join tables go with it.\<close>

definition drop_squad :: "string \<Rightarrow> panel_db \<Rightarrow> panel_db" where
  "drop_squad i db =
     db\<lparr>squads := filter (\<lambda>s. s_id s \<noteq> i) (squads db), members := filter (\<lambda>m. fst m \<noteq> i) (members db),
        group_profiles := filter (\<lambda>r. fst r \<noteq> i) (group_profiles db), group_hosts := filter (\<lambda>r. fst r \<noteq> i) (group_hosts db),
        cascade_exits := filter (\<lambda>r. x_group r \<noteq> i) (cascade_exits db), cascades_off := filter (\<lambda>r. fst r \<noteq> i) (cascades_off db),
        group_policies := filter (\<lambda>r. fst r \<noteq> i) (group_policies db)\<rparr>"

definition reallyOrphaned :: "string \<Rightarrow> panel_db \<Rightarrow> string list" where
  "reallyOrphaned i db =
     (let orphanedUserIds = map snd (filter (\<lambda>m. fst m = i) (members db));
          stillHaveAGroup = map snd (filter (\<lambda>m. snd m \<in> set orphanedUserIds) (members (drop_squad i db)))
      in filter (\<lambda>u. u \<notin> set stillHaveAGroup) orphanedUserIds)"

text \<open>\<open>createMany\<close> with \<open>skipDuplicates\<close> into the system squad.\<close>

definition backstop :: "string list \<Rightarrow> panel_db \<Rightarrow> db_error + panel_db" where
  "backstop us db =
     (if us = [] then Inr db
      else if ALL_SQUAD_ID \<notin> s_id ` set (squads db) then Inl (foreign_error ''group_members_group_id_fkey'')
      else Inr (db\<lparr>members := members db @ map (Pair ALL_SQUAD_ID) (filter (\<lambda>u. (ALL_SQUAD_ID, u) \<notin> set (members db)) us)\<rparr>))"

definition deleteSquad :: "string \<Rightarrow> panel_db \<Rightarrow> panel_db \<Rightarrow> unit squad_outcome" where
  "deleteSquad i seen db =
     (if i = ALL_SQUAD_ID then (Inl SquadProtectedError, db, [])
      else if find_squad (\<lambda>s. s_id s = i) seen = None then (Inl (SquadNotFoundError i), db, [])
      else if find_squad (\<lambda>s. s_id s = i) db = None then (Inl (SquadRefused (Rethrown (missing_error ''Group''))), db, [])
      else case backstop (reallyOrphaned i db) (drop_squad i db) of
        Inl err \<Rightarrow> (Inl (SquadRefused (Rethrown err)), db, [])
      | Inr db' \<Rightarrow> (Inr (), db', []))"

section \<open>Reading a squad\<close>

text \<open>One entry of the list a screen reads: the cascade, its directions and the exits derived from them.\<close>

type_synonym acl_view = "(string, string list \<times> string list) jsmap"

definition direction_pool :: "string \<Rightarrow> panel_db \<Rightarrow> string list" where
  "direction_pool d db =
     (case List.find (\<lambda>x. fst x = d) (concat (map cs_directions (cascades db))) of Some x \<Rightarrow> snd x | None \<Rightarrow> [])"

definition acl_add :: "panel_db \<Rightarrow> acl_view \<Rightarrow> exit_row \<Rightarrow> acl_view" where
  "acl_add db out r =
     (let (ds, ns) = (case map_get out (x_cascade r) of Some e \<Rightarrow> e | None \<Rightarrow> ([], []));
          ds1 = (case x_direction r of Some d \<Rightarrow> set_add d ds | None \<Rightarrow> ds);
          ns1 = (case x_direction r of Some d \<Rightarrow> foldl (\<lambda>acc n. set_add n acc) ns (direction_pool d db) | None \<Rightarrow> ns);
          ns2 = (case x_node r of Some n \<Rightarrow> set_add n ns1 | None \<Rightarrow> ns1)
      in map_set (x_cascade r) (ds1, ns2) out)"

definition groupExitAcl :: "panel_db \<Rightarrow> exit_row list \<Rightarrow> string list \<Rightarrow> acl_view" where
  "groupExitAcl db rows off = foldl (\<lambda>out c. map_set c ([], []) out) (foldl (acl_add db) [] rows) off"

record squad_view =
  sv_row :: squad_row
  sv_profiles :: "string list"
  sv_hosts :: "string list"
  sv_exitAcl :: acl_view
  sv_policies :: "string list"
  sv_memberCount :: nat

definition of_squad :: "string \<Rightarrow> (string \<times> string) list \<Rightarrow> string list" where
  "of_squad i rows = map snd (filter (\<lambda>r. fst r = i) rows)"

definition mapSquadToPublic :: "panel_db \<Rightarrow> squad_row \<Rightarrow> squad_view" where
  "mapSquadToPublic db s =
     \<lparr>sv_row = s, sv_profiles = of_squad (s_id s) (group_profiles db), sv_hosts = of_squad (s_id s) (group_hosts db),
      sv_exitAcl = groupExitAcl db (filter (\<lambda>r. x_group r = s_id s) (cascade_exits db)) (of_squad (s_id s) (cascades_off db)),
      sv_policies = of_squad (s_id s) (group_policies db),
      sv_memberCount = length (filter (\<lambda>m. fst m = s_id s \<and>
        (\<exists>u \<in> set (users db). u_id u = snd m \<and> u_deletedAt u = None)) (members db))\<rparr>"

definition listSquads :: "panel_db \<Rightarrow> squad_view list" where
  "listSquads db = map (mapSquadToPublic db) (squads db)"

definition getSquadById :: "string \<Rightarrow> panel_db \<Rightarrow> squad_error + squad_view" where
  "getSquadById i db =
     (case find_squad (\<lambda>s. s_id s = i) db of Some s \<Rightarrow> Inr (mapSquadToPublic db s) | None \<Rightarrow> Inl (SquadNotFoundError i))"

end
