(* ===== verification/UserSync.thy ===== *)
theory UserSync
  imports UserReach Squads
begin

text \<open>
  How nodes learn about users: the events of the services become jobs (\<open>users.events.ts\<close>), and a job
  calls every live node (\<open>users.queue.ts\<close>). A job reads the database (\<open>seen\<close>) and then makes its calls,
  one per node; a call is answered, or lost before or after the node took it. What a node does with a
  call is what the contract of the wire says (\<open>packages/shared/src/transport.ts\<close>): \<open>addUser\<close> puts the user
  on exactly the inbounds it names, \<open>removeUser\<close> takes them off. The dead cascades are an argument, as in
  \<open>UserReach\<close>.
\<close>

section \<open>Events\<close>

definition active_row :: "string \<Rightarrow> panel_db \<Rightarrow> user_row option" where
  "active_row i db = (case findActiveById i db of Some u \<Rightarrow> if u_status u = Active then Some u else None | None \<Rightarrow> None)"

text \<open>The handler of an event: the database it leaves, the jobs it queues and the events it emits.\<close>

definition revive :: "string \<Rightarrow> int \<Rightarrow> panel_db \<Rightarrow> panel_db" where
  "revive i now db = db\<lparr>users := map (\<lambda>u. if u_id u = i then u\<lparr>u_status := Active, u_updatedAt := now\<rparr> else u) (users db)\<rparr>"

definition handle_event :: "int \<Rightarrow> domain_event \<Rightarrow> panel_db \<Rightarrow> panel_db \<Rightarrow> panel_db \<times> node_job list \<times> domain_event list" where
  "handle_event now e seen db =
     (case e of
        Created i _ \<Rightarrow> (db, [AddUser i], [])
      | Updated i changes \<Rightarrow>
          (db, if ''groupIds'' \<in> set changes \<or> ''credentials'' \<in> set changes then [AddUser i] else [], [])
      | SquadChanged g \<Rightarrow>
          (db, map AddUser (filter (\<lambda>i. \<exists>u \<in> set (users seen). u_id u = i \<and> u_deletedAt u = None \<and> u_status u = Active)
             (map snd (filter (\<lambda>m. fst m = g) (members seen)))), [])
      | StatusChanged i from to \<Rightarrow>
          (db, (if to \<noteq> Active then [RemoveUser i] else []) @ (if to = Active \<and> from \<noteq> Active then [AddUser i] else []), [])
      | Deleted i \<Rightarrow> (db, [RemoveUser i], [])
      | TrafficReset i _ \<Rightarrow>
          (case findActiveById i seen of
             Some u \<Rightarrow>
               if u_status u = Limited \<and> (\<exists>v \<in> set (users db). u_id v = i)
               then (revive i now db, [], [StatusChanged i Limited Active]) else (db, [], [])
           | None \<Rightarrow> (db, [], [])))"

section \<open>Calls\<close>

datatype call_result = Answered | LostBefore | LostAfter

text \<open>The credentials on the wire; three of them are derived from the UUID. \<open>sha\<close> stands for the hash, written
  as base64url.\<close>

definition deriveTuicPassword :: "(string \<Rightarrow> string) \<Rightarrow> string \<Rightarrow> string" where
  "deriveTuicPassword sha uuid = sha (uuid @ '':tuic'')"

definition deriveAnytlsPassword :: "(string \<Rightarrow> string) \<Rightarrow> string \<Rightarrow> string" where
  "deriveAnytlsPassword sha uuid = sha (uuid @ '':anytls'')"

definition deriveShadowtlsPassword :: "(string \<Rightarrow> string) \<Rightarrow> string \<Rightarrow> string" where
  "deriveShadowtlsPassword sha uuid = sha (uuid @ '':shadowtls'')"

record wire_credentials =
  wc_hysteriaPassword :: string
  wc_naivePassword :: string
  wc_xrayUuid :: string
  wc_amneziawgPublicKey :: string
  wc_tuicUuid :: string
  wc_tuicPassword :: string
  wc_anytlsPassword :: string
  wc_shadowtlsPassword :: string

definition wire_of :: "(string \<Rightarrow> string) \<Rightarrow> identities \<Rightarrow> wire_credentials" where
  "wire_of sha c =
     \<lparr>wc_hysteriaPassword = hysteriaPassword c, wc_naivePassword = naivePassword c, wc_xrayUuid = xrayUuid c,
      wc_amneziawgPublicKey = amneziawgPublicKey c, wc_tuicUuid = xrayUuid c, wc_tuicPassword = deriveTuicPassword sha (xrayUuid c),
      wc_anytlsPassword = deriveAnytlsPassword sha (xrayUuid c), wc_shadowtlsPassword = deriveShadowtlsPassword sha (xrayUuid c)\<rparr>"

record add_request =
  ar_user :: string
  ar_shortId :: string
  ar_username :: string
  ar_credentials :: wire_credentials
  ar_inboundIds :: "string list"
  ar_awgIp :: "string option"
  ar_awgIp3 :: "string option"

text \<open>The nodes: who is on each, with the last request it took.\<close>

type_synonym fleet = "string \<Rightarrow> string \<Rightarrow> add_request option"

definition take_call :: "call_result \<Rightarrow> string \<Rightarrow> string \<Rightarrow> add_request option \<Rightarrow> fleet \<Rightarrow> fleet" where
  "take_call r n i req held = (if r = LostBefore then held else held(n := (held n)(i := req)))"

definition fetchActiveNodes :: "panel_db \<Rightarrow> node_row list" where
  "fetchActiveNodes db = filter (\<lambda>n. \<not> n_deleted n \<and> \<not> n_disabled n) (nodes db)"

definition awg_rows :: "string \<Rightarrow> panel_db \<Rightarrow> awg_binding list" where
  "awg_rows n db = List.map_filter (\<lambda>b. case profile_of b db of
       Some p \<Rightarrow> if b_node b = n \<and> b_enabled b \<and> p_enabled p \<and> p_protocol p = ''amneziawg''
                  then Some \<lparr>ab_id = b_id b, ab_port = b_port b, ab_protocol3 = p_awgProtocol3 p\<rparr> else None
     | None \<Rightarrow> None) (bindings db)"

definition awg_profile :: "panel_db \<Rightarrow> string \<Rightarrow> (string \<times> string option) option" where
  "awg_profile db i =
     (case List.find (\<lambda>b. b_id b = i) (bindings db) of
        Some b \<Rightarrow> (case profile_of b db of Some p \<Rightarrow> Some (p_id p, p_subnet p) | None \<Rightarrow> None)
      | None \<Rightarrow> None)"

text \<open>The address of one generation, where the node serves it and the user reaches it.\<close>

definition awg_address :: "string option \<Rightarrow> string list \<Rightarrow> user_row \<Rightarrow> panel_db \<Rightarrow> string option \<times> panel_db" where
  "awg_address b inboundIds u db =
     (case b of
        Some i \<Rightarrow>
          if i \<in> set inboundIds then
            (let (out, t) = allocateAwgAddresses id id (\<lambda>_. quiet) (Some i) (awg_profile db)
                   [\<lparr>au_id = u_id u, au_key = Some (amneziawgPublicKey (u_identities u))\<rparr>] (peers db)
             in (map_get out (u_id u), db\<lparr>peers := t\<rparr>))
          else (None, db)
      | None \<Rightarrow> (None, db))"

definition add_request_for :: "(string \<Rightarrow> string) \<Rightarrow> user_row \<Rightarrow> string list \<Rightarrow> string option \<Rightarrow> string option \<Rightarrow> add_request" where
  "add_request_for sha u inboundIds one three =
     \<lparr>ar_user = u_id u, ar_shortId = u_shortId u, ar_username = u_username u, ar_credentials = wire_of sha (u_identities u),
      ar_inboundIds = inboundIds, ar_awgIp = one, ar_awgIp3 = three\<rparr>"

section \<open>Jobs\<close>

text \<open>The calls of \<open>addUser\<close>, node by node: whether each was answered, the database after the addresses and the nodes.\<close>

definition add_call ::
  "(string \<Rightarrow> string) \<Rightarrow> (string \<Rightarrow> call_result) \<Rightarrow> user_row \<Rightarrow> (string, string list) jsmap \<Rightarrow> node_row \<Rightarrow> bool \<times> panel_db \<times> fleet \<Rightarrow> bool \<times> panel_db \<times> fleet" where
  "add_call sha outcome u reach n st =
     (let (ok, db, held) = st; r = outcome (n_id n) in
      case map_get reach (n_id n) of
        None \<Rightarrow> (ok \<and> r = Answered, db, take_call r (n_id n) (u_id u) None held)
      | Some inboundIds \<Rightarrow>
          if n_lastInboundSyncAt n = None then st
          else let (one, three) = awgBindingsOfNode (awg_rows (n_id n) db);
                   (ip, db1) = awg_address one inboundIds u db;
                   (ip3, db2) = awg_address three inboundIds u db1
               in (ok \<and> r = Answered, db2, take_call r (n_id n) (u_id u) (Some (add_request_for sha u inboundIds ip ip3)) held))"

definition add_calls ::
  "(string \<Rightarrow> string) \<Rightarrow> (string \<Rightarrow> call_result) \<Rightarrow> user_row \<Rightarrow> (string, string list) jsmap \<Rightarrow> node_row list \<Rightarrow> bool \<times> panel_db \<times> fleet \<Rightarrow> bool \<times> panel_db \<times> fleet" where
  "add_calls sha outcome u reach ns st = foldl (\<lambda>st n. add_call sha outcome u reach n st) st ns"

definition reach_of :: "string list \<Rightarrow> string \<Rightarrow> panel_db \<Rightarrow> (string, string list) jsmap" where
  "reach_of dead i db = (case map_get (reachOfUsers dead (Some [i]) None db) i of Some m \<Rightarrow> m | None \<Rightarrow> [])"

text \<open>The cascade entries a user reaches are pushed again.\<close>

definition entries_to_push :: "(string, string list) jsmap \<Rightarrow> panel_db \<Rightarrow> string list" where
  "entries_to_push reach db =
     set_from (filter (\<lambda>n. n \<in> set (map_keys reach))
       (concat (map (\<lambda>c. concat (map po_nodeIds (filter (\<lambda>p. \<exists>n \<in> set (po_nodeIds p). n \<in> set (map_keys reach)) (entry_positions c))))
          (filter cs_enabled (cascades db)))))"

text \<open>A job: whether it succeeded, the database, the nodes and the pushes it queued.\<close>

type_synonym job_outcome = "bool \<times> panel_db \<times> fleet \<times> string list"

definition syncAddUser :: "(string \<Rightarrow> string) \<Rightarrow> string list \<Rightarrow> (string \<Rightarrow> call_result) \<Rightarrow> string \<Rightarrow> panel_db \<Rightarrow> panel_db \<Rightarrow> fleet \<Rightarrow> job_outcome" where
  "syncAddUser sha dead outcome i seen db held =
     (case findActiveById i seen of
        None \<Rightarrow> (True, db, held, [])
      | Some u \<Rightarrow>
          if u_status u \<noteq> Active then (True, db, held, [])
          else let reach = reach_of dead i seen;
                   (ok, db', held') = add_calls sha outcome u reach (fetchActiveNodes seen) (True, db, held)
               in (ok, db', held', if ok then entries_to_push reach seen else []))"

definition removes :: "string \<Rightarrow> panel_db \<Rightarrow> bool" where
  "removes i db \<longleftrightarrow>
     (case find_user (\<lambda>u. u_id u = i) db of Some u \<Rightarrow> \<not> (u_deletedAt u = None \<and> u_status u = Active) | None \<Rightarrow> True)"

definition remove_calls :: "(string \<Rightarrow> call_result) \<Rightarrow> string \<Rightarrow> node_row list \<Rightarrow> fleet \<Rightarrow> fleet" where
  "remove_calls outcome i ns held = foldl (\<lambda>held n. take_call (outcome (n_id n)) (n_id n) i None held) held ns"

definition syncRemoveUser :: "(string \<Rightarrow> call_result) \<Rightarrow> string \<Rightarrow> panel_db \<Rightarrow> panel_db \<Rightarrow> fleet \<Rightarrow> job_outcome" where
  "syncRemoveUser outcome i seen db held =
     (if removes i seen
      then (list_all (\<lambda>n. outcome (n_id n) = Answered) (fetchActiveNodes seen), db, remove_calls outcome i (fetchActiveNodes seen) held, [])
      else (True, db, held, []))"

definition run_job :: "(string \<Rightarrow> string) \<Rightarrow> string list \<Rightarrow> (string \<Rightarrow> call_result) \<Rightarrow> node_job \<Rightarrow> panel_db \<Rightarrow> panel_db \<Rightarrow> fleet \<Rightarrow> job_outcome" where
  "run_job sha dead outcome j seen db held =
     (case j of
        AddUser i \<Rightarrow> syncAddUser sha dead outcome i seen db held
      | RemoveUser i \<Rightarrow> syncRemoveUser outcome i seen db held
      | BackfillNode n \<Rightarrow> (True, db, held, []))"

section \<open>The machine\<close>

definition JOB_ATTEMPTS :: nat where
  "JOB_ATTEMPTS = 3"

record sync_state =
  sy_db :: panel_db
  sy_events :: "domain_event list"
  sy_jobs :: "(node_job \<times> nat) list"
  sy_pushes :: "string list"
  sy_held :: fleet
  sy_failed :: "node_job list"

definition queue_job :: "node_job \<Rightarrow> node_job \<times> nat" where
  "queue_job j = (j, JOB_ATTEMPTS)"

text \<open>One delivery of the event at a place of the backlog, its handler at one moment.\<close>

definition deliver :: "int \<Rightarrow> nat \<Rightarrow> sync_state \<Rightarrow> sync_state" where
  "deliver now k st =
     (let (db', js, es) = handle_event now (sy_events st ! k) (sy_db st) (sy_db st)
      in st\<lparr>sy_db := db', sy_events := take k (sy_events st) @ drop (Suc k) (sy_events st) @ es,
            sy_jobs := sy_jobs st @ map queue_job js\<rparr>)"

text \<open>One attempt at a job of the queue: done, left for another attempt, or failed for good.\<close>

definition attempt :: "(string \<Rightarrow> string) \<Rightarrow> string list \<Rightarrow> (string \<Rightarrow> call_result) \<Rightarrow> nat \<Rightarrow> sync_state \<Rightarrow> sync_state" where
  "attempt sha dead outcome k st =
     (let (j, left) = sy_jobs st ! k;
          (ok, db', held', pushes) = run_job sha dead outcome j (sy_db st) (sy_db st) (sy_held st);
          rest = take k (sy_jobs st) @ drop (Suc k) (sy_jobs st)
      in st\<lparr>sy_db := db', sy_held := held', sy_pushes := sy_pushes st @ pushes,
            sy_jobs := (if ok \<or> left \<le> 1 then rest else rest @ [(j, left - 1)]),
            sy_failed := (if ok \<or> 1 < left then sy_failed st else sy_failed st @ [j])\<rparr>)"

end
