(* ===== verification/Devices.thy ===== *)
theory Devices
  imports UserRules
begin

text \<open>
  The devices of a user (\<open>modules/hwid/hwid.service.ts\<close>): the limit a user is held to and the check of
  one subscription request. The device is looked up in \<open>seen\<close>; the write, behind the user's advisory
  lock, meets \<open>db\<close>, which other requests may have changed in between.
\<close>

section \<open>The limit\<close>

definition effectiveDeviceCeiling :: "nat option \<Rightarrow> nat \<Rightarrow> nat" where
  "effectiveDeviceCeiling limit systemMax = (case limit of None \<Rightarrow> systemMax | Some l \<Rightarrow> min l systemMax)"

definition resolveSquadHwidLimit :: "nat option list \<Rightarrow> nat option" where
  "resolveSquadHwidLimit squadDefaults =
     (case List.map_filter (\<lambda>n. case n of Some k \<Rightarrow> if 0 < k then Some k else None | None \<Rightarrow> None) squadDefaults of
        [] \<Rightarrow> None
      | v # vs \<Rightarrow> Some (foldl max v vs))"

definition effectiveHwidLimit :: "nat option \<Rightarrow> nat option list \<Rightarrow> nat option" where
  "effectiveHwidLimit userLimit squadDefaults =
     (if userLimit = Some 0 then None else if userLimit \<noteq> None then userLimit else resolveSquadHwidLimit squadDefaults)"

section \<open>The check of a request\<close>

datatype hwid_status = NotEnforced | Allowed | Denied

record hwid_result =
  hr_status :: hwid_status
  hr_active :: nat
  hr_limit :: "nat option"

definition device_count :: "string \<Rightarrow> panel_db \<Rightarrow> nat" where
  "device_count u db = length (filter (\<lambda>d. d_user d = u) (devices db))"

definition find_device :: "string \<Rightarrow> string \<Rightarrow> panel_db \<Rightarrow> device_row option" where
  "find_device u h db = List.find (\<lambda>d. d_user d = u \<and> d_hwid d = h) (devices db)"

definition touch_device :: "string \<Rightarrow> int \<Rightarrow> panel_db \<Rightarrow> panel_db" where
  "touch_device i now db = db\<lparr>devices := map (\<lambda>d. if d_id d = i then d\<lparr>d_lastSeenAt := now\<rparr> else d) (devices db)\<rparr>"

definition insert_device :: "device_row \<Rightarrow> panel_db \<Rightarrow> db_error + panel_db" where
  "insert_device d db =
     (if \<exists>e \<in> set (devices db). d_id e = d_id d then Inl (unique_error ''hwid_user_devices_pkey'')
      else if find_device (d_user d) (d_hwid d) db \<noteq> None then Inl (unique_error ''hwid_user_devices_user_id_hwid_key'')
      else if d_user d \<notin> u_id ` set (users db) then Inl (foreign_error ''hwid_user_devices_user_id_fkey'')
      else Inr (db\<lparr>devices := devices db @ [d]\<rparr>))"

text \<open>A device the request found: the update, then the count for the gauge.\<close>

definition known_device :: "string \<Rightarrow> nat option \<Rightarrow> device_row \<Rightarrow> int \<Rightarrow> panel_db \<Rightarrow> (db_error + hwid_result) \<times> panel_db" where
  "known_device u limit existing now db =
     (if \<exists>d \<in> set (devices db). d_id d = d_id existing
      then (let db' = touch_device (d_id existing) now db
            in (Inr \<lparr>hr_status = Allowed, hr_active = (if limit = None then 0 else device_count u db'), hr_limit = limit\<rparr>, db'))
      else (Inl (missing_error ''HwidUserDevice''), db))"

text \<open>A new device: the transaction behind the lock. \<open>i\<close> is the id the database draws.\<close>

definition new_device :: "nat \<Rightarrow> string \<Rightarrow> string \<Rightarrow> nat option \<Rightarrow> string \<Rightarrow> int \<Rightarrow> panel_db \<Rightarrow> (db_error + hwid_result) \<times> panel_db" where
  "new_device systemMax u h limit i now db =
     (let ceiling = effectiveDeviceCeiling limit systemMax; current = device_count u db in
      if ceiling \<le> current
      then (Inr (if limit = None then \<lparr>hr_status = Allowed, hr_active = 0, hr_limit = None\<rparr>
                 else \<lparr>hr_status = Denied, hr_active = current, hr_limit = limit\<rparr>), db)
      else case insert_device \<lparr>d_id = i, d_user = u, d_hwid = h, d_lastSeenAt = now\<rparr> db of
        Inl e \<Rightarrow> (Inl e, db)
      | Inr db' \<Rightarrow> (Inr \<lparr>hr_status = Allowed, hr_active = (if limit = None then 0 else current + 1), hr_limit = limit\<rparr>, db'))"

definition enforceHwid ::
  "nat \<Rightarrow> string \<Rightarrow> string option \<Rightarrow> nat option \<Rightarrow> string \<Rightarrow> int \<Rightarrow> panel_db \<Rightarrow> panel_db \<Rightarrow> (db_error + hwid_result) \<times> panel_db" where
  "enforceHwid systemMax u hwid limit i now seen db =
     (case hwid of
        Some h \<Rightarrow>
          if h = [] then (Inr \<lparr>hr_status = NotEnforced, hr_active = 0, hr_limit = limit\<rparr>, db)
          else (case find_device u h seen of
            Some existing \<Rightarrow> known_device u limit existing now db
          | None \<Rightarrow> new_device systemMax u h limit i now db)
      | None \<Rightarrow> (Inr \<lparr>hr_status = NotEnforced, hr_active = 0, hr_limit = limit\<rparr>, db))"

definition listUserDevices :: "string \<Rightarrow> panel_db \<Rightarrow> device_row list" where
  "listUserDevices u db = sort_key (\<lambda>d. - d_lastSeenAt d) (filter (\<lambda>d. d_user d = u) (devices db))"

definition deleteDevice :: "string \<Rightarrow> panel_db \<Rightarrow> (db_error + unit) \<times> panel_db" where
  "deleteDevice i db =
     (if \<exists>d \<in> set (devices db). d_id d = i
      then (Inr (), db\<lparr>devices := filter (\<lambda>d. d_id d \<noteq> i) (devices db)\<rparr>)
      else (Inl (missing_error ''HwidUserDevice''), db))"

section \<open>Runs\<close>

text \<open>Requests and deletions in any order, each request with any earlier state as the one it read;
  \<open>Forget\<close> is every other deletion of rows: the retention, or a user erased.\<close>

datatype device_event =
    Request string "string option" string int panel_db
  | DeleteOne string
  | Forget "device_row \<Rightarrow> bool"

definition device_step :: "nat \<Rightarrow> (string \<Rightarrow> nat option) \<Rightarrow> device_event \<Rightarrow> panel_db \<Rightarrow> panel_db" where
  "device_step systemMax limits ev db =
     (case ev of
        Request u hwid i now seen \<Rightarrow> snd (enforceHwid systemMax u hwid (limits u) i now seen db)
      | DeleteOne i \<Rightarrow> snd (deleteDevice i db)
      | Forget gone \<Rightarrow> db\<lparr>devices := filter (\<lambda>d. \<not> gone d) (devices db)\<rparr>)"

definition devices_wf :: "panel_db \<Rightarrow> bool" where
  "devices_wf db \<longleftrightarrow> distinct (map d_id (devices db)) \<and> distinct (map (\<lambda>d. (d_user d, d_hwid d)) (devices db))"

lemma touch_same:
  "device_count u (touch_device i now db) = device_count u db" "devices_wf (touch_device i now db) = devices_wf db"
proof -
  let ?f = "\<lambda>d. if d_id d = i then d\<lparr>d_lastSeenAt := now\<rparr> else d"
  have "length (filter (\<lambda>d. d_user d = u) (map ?f ds)) = length (filter (\<lambda>d. d_user d = u) ds)" for ds
    by (induction ds) auto
  then show "device_count u (touch_device i now db) = device_count u db"
    by (simp add: device_count_def touch_device_def del: length_filter_map)
  have keys: "map d_id (map ?f ds) = map d_id ds" "map (\<lambda>d. (d_user d, d_hwid d)) (map ?f ds) = map (\<lambda>d. (d_user d, d_hwid d)) ds" for ds
    by (induction ds) auto
  have touched: "devices (touch_device i now db) = map ?f (devices db)"
    by (simp add: touch_device_def)
  show "devices_wf (touch_device i now db) = devices_wf db"
    unfolding devices_wf_def touched keys ..
qed

lemma insert_device_Inr:
  assumes "insert_device d db = Inr db'"
  shows "db' = db\<lparr>devices := devices db @ [d]\<rparr>" and "devices_wf db \<Longrightarrow> devices_wf db'"
proof -
  show db': "db' = db\<lparr>devices := devices db @ [d]\<rparr>"
    using assms by (auto simp: insert_device_def split: if_splits)
  show "devices_wf db'" if "devices_wf db"
    using assms that unfolding db' devices_wf_def
    by (auto simp: insert_device_def find_device_def find_None_iff split: if_splits)
qed

lemma new_device_step:
  assumes "new_device systemMax u h limit i now db = (r, db')"
  shows "devices_wf db \<Longrightarrow> devices_wf db'"
    and "device_count v db' \<le> max (device_count v db) (if v = u then effectiveDeviceCeiling limit systemMax else 0)"
proof -
  have "db' = db \<or> device_count u db < effectiveDeviceCeiling limit systemMax \<and>
      insert_device \<lparr>d_id = i, d_user = u, d_hwid = h, d_lastSeenAt = now\<rparr> db = Inr db'"
    using assms by (auto simp: new_device_def Let_def split: if_splits sum.splits)
  then show "devices_wf db \<Longrightarrow> devices_wf db'"
    "device_count v db' \<le> max (device_count v db) (if v = u then effectiveDeviceCeiling limit systemMax else 0)"
    by (auto dest: insert_device_Inr(2)) (auto simp: device_count_def dest!: insert_device_Inr(1))
qed

lemma known_device_step:
  assumes "known_device u limit existing now db = (r, db')"
  shows "devices_wf db \<Longrightarrow> devices_wf db'" and "device_count v db' = device_count v db"
  using assms touch_same by (auto simp: known_device_def Let_def split: if_splits)

lemma enforceHwid_step:
  assumes "enforceHwid systemMax u hwid limit i now seen db = (r, db')"
  shows "devices_wf db \<Longrightarrow> devices_wf db'"
    and "device_count v db' \<le> max (device_count v db) (if v = u then effectiveDeviceCeiling limit systemMax else 0)"
proof -
  consider "db' = db" | existing where "known_device u limit existing now db = (r, db')"
    | h where "new_device systemMax u h limit i now db = (r, db')"
    using assms by (auto simp: enforceHwid_def split: option.splits if_splits)
  then show "devices_wf db \<Longrightarrow> devices_wf db'"
    "device_count v db' \<le> max (device_count v db) (if v = u then effectiveDeviceCeiling limit systemMax else 0)"
    by (cases; simp add: known_device_step new_device_step)+
qed

lemma device_step_bounds:
  "devices_wf db \<Longrightarrow> devices_wf (device_step systemMax limits ev db)"
  "device_count u (device_step systemMax limits ev db) \<le> max (device_count u db) (effectiveDeviceCeiling (limits u) systemMax)"
proof -
  have gone: "devices_wf db \<Longrightarrow> devices_wf (db\<lparr>devices := filter P (devices db)\<rparr>)"
    "device_count u (db\<lparr>devices := filter P (devices db)\<rparr>) \<le> device_count u db" for P
  proof -
    have "length (filter Q (filter P ds)) \<le> length (filter Q ds)" for Q and ds :: "device_row list"
      by (induction ds) auto
    then show "device_count u (db\<lparr>devices := filter P (devices db)\<rparr>) \<le> device_count u db"
      by (simp add: device_count_def del: filter_filter)
  qed (simp add: devices_wf_def distinct_map_filter)
  have "(devices_wf db \<longrightarrow> devices_wf (device_step systemMax limits ev db)) \<and>
    device_count u (device_step systemMax limits ev db) \<le> max (device_count u db) (effectiveDeviceCeiling (limits u) systemMax)"
  proof (cases ev)
    case (Request v hwid i now seen)
    obtain r db' where run: "enforceHwid systemMax v hwid (limits v) i now seen db = (r, db')"
      by (cases "enforceHwid systemMax v hwid (limits v) i now seen db")
    show ?thesis
      using enforceHwid_step(1) [OF run] enforceHwid_step(2) [OF run, of u] by (auto simp: Request device_step_def run split: if_splits)
  next
    case (DeleteOne i)
    then show ?thesis
      using gone [of "\<lambda>d. d_id d \<noteq> i"] by (auto simp: device_step_def deleteDevice_def max_def)
  next
    case (Forget g)
    then show ?thesis
      using gone [of "\<lambda>d. \<not> g d"] by (auto simp: device_step_def max_def)
  qed
  then show "devices_wf db \<Longrightarrow> devices_wf (device_step systemMax limits ev db)"
    "device_count u (device_step systemMax limits ev db) \<le> max (device_count u db) (effectiveDeviceCeiling (limits u) systemMax)"
    by blast+
qed

section \<open>The properties\<close>

definition device_run :: "nat \<Rightarrow> (string \<Rightarrow> nat option) \<Rightarrow> device_event list \<Rightarrow> panel_db \<Rightarrow> panel_db" where
  "device_run systemMax limits evs db = foldl (\<lambda>db ev. device_step systemMax limits ev db) db evs"

lemma device_run_bounds:
  "devices_wf db \<Longrightarrow> devices_wf (device_run systemMax limits evs db) \<and>
   device_count u (device_run systemMax limits evs db) \<le> max (device_count u db) (effectiveDeviceCeiling (limits u) systemMax)"
  unfolding device_run_def
proof (induction evs arbitrary: db)
  case (Cons ev evs)
  have "devices_wf (device_step systemMax limits ev db)"
    by (rule device_step_bounds(1) [OF Cons.prems])
  then show ?case
    using Cons.IH [of "device_step systemMax limits ev db"] device_step_bounds(2) [of u systemMax limits ev db] by (simp add: le_max_iff_disj, linarith)
qed simp

lemma new_device_fresh:
  assumes "find_device u h db = None" and "i \<notin> d_id ` set (devices db)" and "u \<in> u_id ` set (users db)"
  shows "insert_device \<lparr>d_id = i, d_user = u, d_hwid = h, d_lastSeenAt = now\<rparr> db =
    Inr (db\<lparr>devices := devices db @ [\<lparr>d_id = i, d_user = u, d_hwid = h, d_lastSeenAt = now\<rparr>]\<rparr>)"
proof -
  have "\<not> (\<exists>e \<in> set (devices db). d_id e = i)"
    using assms(2) by (metis imageI)
  then show ?thesis
    using assms(1,3) unfolding insert_device_def by simp
qed

lemma find_device_Some: "find_device u h db = Some d \<Longrightarrow> d \<in> set (devices db) \<and> d_user d = u \<and> d_hwid d = h"
  unfolding find_device_def by (rule find_Some_in)

lemma squad_limits:
  "List.map_filter (\<lambda>n. case n of Some k \<Rightarrow> if 0 < k then Some k else None | None \<Rightarrow> None) ds = filter (\<lambda>k. 0 < k) (List.map_filter id ds)"
  by (induction ds) (auto simp: map_filter_simps split: option.split)


text \<open>What one undisturbed request gets: a device the panel knows is let through whatever the limit and
  only its last visit is written, a new one below the ceiling gets a row, a new one at the ceiling
  writes nothing and is refused only where there is a limit, and the gauge shows the rows there are.\<close>

theorem request_outcome:
  assumes "h \<noteq> []" and "i \<notin> d_id ` set (devices db)" and "u \<in> u_id ` set (users db)"
  shows "enforceHwid systemMax u (Some h) limit i now db db =
    (let gauge = (\<lambda>n. if limit = None then 0 else n); n = device_count u db in
     case find_device u h db of
       Some d \<Rightarrow> (Inr \<lparr>hr_status = Allowed, hr_active = gauge n, hr_limit = limit\<rparr>, touch_device (d_id d) now db)
     | None \<Rightarrow>
         if n < effectiveDeviceCeiling limit systemMax
         then (Inr \<lparr>hr_status = Allowed, hr_active = gauge (n + 1), hr_limit = limit\<rparr>,
               db\<lparr>devices := devices db @ [\<lparr>d_id = i, d_user = u, d_hwid = h, d_lastSeenAt = now\<rparr>]\<rparr>)
         else (Inr \<lparr>hr_status = (if limit = None then Allowed else Denied), hr_active = gauge n, hr_limit = limit\<rparr>, db))"
proof (cases "find_device u h db")
  case None
  then show ?thesis
    using assms(1) new_device_fresh [OF None assms(2,3)] by (auto simp: enforceHwid_def new_device_def Let_def)
next
  case (Some d)
  then show ?thesis
    using assms(1) find_device_Some [OF Some] by (auto simp: enforceHwid_def known_device_def Let_def touch_same)
qed

text \<open>C22. Two first requests of one new device, both sent before either was served: the second is told it is
  one device too many when the first took the last place, and fails on the unique index otherwise,
  though its device is registered; neither adds a second row.\<close>

theorem same_device_race:
  assumes "find_device u h db = None" and "enforceHwid systemMax u (Some h) limit i now db db = (Inr r, db1)" and "db1 \<noteq> db"
    and "j \<notin> d_id ` set (devices db1)"
  shows "enforceHwid systemMax u (Some h) limit j now' db db1 =
    (if device_count u db1 < effectiveDeviceCeiling limit systemMax
     then (Inl (unique_error ''hwid_user_devices_user_id_hwid_key''), db1)
     else (Inr (if limit = None then \<lparr>hr_status = Allowed, hr_active = 0, hr_limit = None\<rparr>
            else \<lparr>hr_status = Denied, hr_active = device_count u db1, hr_limit = limit\<rparr>), db1)) \<and>
    find_device u h db1 \<noteq> None"
proof -
  have h: "h \<noteq> []" and run: "new_device systemMax u h limit i now db = (Inr r, db1)"
    using assms(1-3) by (auto simp: enforceHwid_def split: if_splits)
  have "insert_device \<lparr>d_id = i, d_user = u, d_hwid = h, d_lastSeenAt = now\<rparr> db = Inr db1"
    using run assms(3) by (auto simp: new_device_def Let_def split: if_splits sum.splits)
  then have db1: "db1 = db\<lparr>devices := devices db @ [\<lparr>d_id = i, d_user = u, d_hwid = h, d_lastSeenAt = now\<rparr>]\<rparr>"
    by (rule insert_device_Inr(1))
  have found: "find_device u h db1 \<noteq> None"
    unfolding find_device_def find_None_all db1
    by (intro notI) (drule bspec [of _ _ "\<lparr>d_id = i, d_user = u, d_hwid = h, d_lastSeenAt = now\<rparr>"], simp_all)
  have "insert_device \<lparr>d_id = j, d_user = u, d_hwid = h, d_lastSeenAt = now'\<rparr> db1 = Inl (unique_error ''hwid_user_devices_user_id_hwid_key'')"
    using found assms(4) unfolding insert_device_def by auto
  then show ?thesis
    using found h assms(1) by (simp add: enforceHwid_def new_device_def Let_def not_less)
qed

text \<open>The limit a user is held to: their own, zero for none at all, or else the most generous positive one of their squads.\<close>

lemma effective_limit:
  "effectiveHwidLimit userLimit ds =
   (case userLimit of
      Some n \<Rightarrow> if n = 0 then None else Some n
    | None \<Rightarrow> let vs = {k. Some k \<in> set ds \<and> 0 < k} in if vs = {} then None else Some (Max vs))"
proof -
  define vs where "vs = filter (\<lambda>k. 0 < k) (List.map_filter id ds)"
  have fold: "foldl max v us = Max (insert v (set us))" for v :: nat and us
  proof (induction us arbitrary: v)
    case (Cons a us)
    show ?case
      by (cases "us = []") (simp_all add: Cons.IH max.assoc)
  qed simp
  have given: "k \<in> set (List.map_filter id ds) \<longleftrightarrow> Some k \<in> set ds" for k
    by (induction ds) (auto simp: map_filter_simps split: option.split)
  have vs: "set vs = {k. Some k \<in> set ds \<and> 0 < k}"
    unfolding vs_def set_filter given ..
  have resolved: "resolveSquadHwidLimit ds = (if vs = [] then None else Some (Max (set vs)))"
    unfolding resolveSquadHwidLimit_def squad_limits vs_def [symmetric] by (cases vs) (simp_all add: fold)
  show ?thesis
    unfolding effectiveHwidLimit_def resolved Let_def vs [symmetric] by (cases userLimit) simp_all
qed

section \<open>A user with room for two devices\<close>

definition demo_devices :: panel_db where
  "demo_devices = demo_db\<lparr>devices := [\<lparr>d_id = ''x1'', d_user = ''bob'', d_hwid = ''phone'', d_lastSeenAt = 1\<rparr>]\<rparr>"


theorem same_device_race_witness:
  "\<exists>r db1. enforceHwid 1000 ''bob'' (Some ''tab'') (Some 3) ''x2'' 5 demo_devices demo_devices = (Inr r, db1) \<and>
     hr_status r = Allowed \<and>
     fst (enforceHwid 1000 ''bob'' (Some ''tab'') (Some 3) ''x3'' 5 demo_devices db1) =
       Inl (unique_error ''hwid_user_devices_user_id_hwid_key'')"
proof -
  let ?d = "\<lparr>d_id = ''x2'', d_user = ''bob'', d_hwid = ''tab'', d_lastSeenAt = 5\<rparr>"
  let ?db1 = "demo_devices\<lparr>devices := devices demo_devices @ [?d]\<rparr>"
  have new: "find_device ''bob'' ''tab'' demo_devices = None"
    by (simp add: find_device_def demo_devices_def)
  have ins: "insert_device ?d demo_devices = Inr ?db1"
    by (rule new_device_fresh [OF new]) (simp_all add: demo_devices_def demo_db_def demo_user_def)
  have one: "device_count ''bob'' demo_devices = 1"
    by (simp add: device_count_def demo_devices_def)
  have run: "enforceHwid 1000 ''bob'' (Some ''tab'') (Some 3) ''x2'' 5 demo_devices demo_devices =
      (Inr \<lparr>hr_status = Allowed, hr_active = 2, hr_limit = Some 3\<rparr>, ?db1)"
    by (simp add: enforceHwid_def new new_device_def effectiveDeviceCeiling_def one ins)
  have "devices ?db1 \<noteq> devices demo_devices"
    by simp
  then have "?db1 \<noteq> demo_devices"
    by metis
  moreover have "''x3'' \<notin> d_id ` set (devices ?db1)"
    by (simp add: demo_devices_def)
  ultimately have "?db1 \<noteq> demo_devices" "''x3'' \<notin> d_id ` set (devices ?db1)"
    by simp_all
  from same_device_race [OF new run this, of 5]
  have "fst (enforceHwid 1000 ''bob'' (Some ''tab'') (Some 3) ''x3'' 5 demo_devices ?db1) =
      Inl (unique_error ''hwid_user_devices_user_id_hwid_key'')"
    by (simp add: effectiveDeviceCeiling_def device_count_def demo_devices_def)
  then show ?thesis
    by (intro exI [of _ "\<lparr>hr_status = Allowed, hr_active = 2, hr_limit = Some 3\<rparr>"] exI [of _ ?db1] conjI)
      (simp_all only: run hwid_result.simps)
qed

end
