(* ===== verification/Retention.thy ===== *)
theory Retention
  imports Devices
begin

text \<open>
  The daily erasure (\<open>modules/maintenance/retention.cron.ts\<close>) of the users deleted a month ago and of the
  devices unseen for three, with the tombstones of imported users (\<open>users/erased-sources.ts\<close>). The
  batches run undisturbed, in the order of the table; the other history tables are not modelled.
\<close>

section \<open>Erasing users\<close>

definition DELETED_USER_RETENTION_DAYS :: int where
  "DELETED_USER_RETENTION_DAYS = 30"

definition HWID_DEVICE_RETENTION_DAYS :: int where
  "HWID_DEVICE_RETENTION_DAYS = 90"

definition USER_PURGE_BATCH :: nat where
  "USER_PURGE_BATCH = 500"

definition purge_due :: "int \<Rightarrow> user_row \<Rightarrow> bool" where
  "purge_due cutoff u \<longleftrightarrow> (case u_deletedAt u of Some t \<Rightarrow> t < cutoff | None \<Rightarrow> False)"

text \<open>\<open>user.deleteMany\<close>: the rows that hang on a user by a foreign key go with them; the traffic snapshots,
  which have none, are deleted by hand in the same transaction.\<close>

definition drop_users :: "string list \<Rightarrow> panel_db \<Rightarrow> panel_db" where
  "drop_users ids db =
     db\<lparr>users := filter (\<lambda>u. u_id u \<notin> set ids) (users db),
        user_traffic := filter (\<lambda>(i, _). i \<notin> set ids) (user_traffic db),
        members := filter (\<lambda>m. snd m \<notin> set ids) (members db),
        peers := filter (\<lambda>p. peer_user p \<notin> set ids) (peers db),
        devices := filter (\<lambda>d. d_user d \<notin> set ids) (devices db),
        user_snapshots := filter (\<lambda>i. i \<notin> set ids) (user_snapshots db)\<rparr>"

definition tombstones :: "(string \<Rightarrow> string) \<Rightarrow> user_row list \<Rightarrow> string list" where
  "tombstones sha us = List.map_filter (\<lambda>u. map_option sha (u_sourceId u)) us"

definition add_tombstones :: "string list \<Rightarrow> panel_db \<Rightarrow> panel_db" where
  "add_tombstones ts db = db\<lparr>erased_sources := foldl (\<lambda>acc t. set_add t acc) (erased_sources db) ts\<rparr>"

text \<open>One batch: the tombstones, the snapshots and the users, in one transaction.\<close>

definition purge_batch :: "(string \<Rightarrow> string) \<Rightarrow> int \<Rightarrow> user_row list \<Rightarrow> panel_db \<Rightarrow> nat \<times> panel_db" where
  "purge_batch sha cutoff rows db =
     (let ids = map u_id rows;
          gone = filter (\<lambda>u. u_id u \<in> set ids \<and> purge_due cutoff u) (users db);
          db1 = drop_users (map u_id gone) (add_tombstones (tombstones sha rows) db)
      in (length gone, db1\<lparr>user_snapshots := filter (\<lambda>i. i \<notin> set ids) (user_snapshots db)\<rparr>))"

lemma batch_shrinks:
  assumes "take USER_PURGE_BATCH (filter (purge_due cutoff) (users db)) = rows" and "rows \<noteq> []"
  shows "length (filter (purge_due cutoff) (users (snd (purge_batch sha cutoff rows db)))) < length (filter (purge_due cutoff) (users db))"
proof -
  obtain u where u: "u \<in> set rows"
    using assms(2) by (cases rows) auto
  then have due: "u \<in> set (filter (purge_due cutoff) (users db))"
    using assms(1) by (metis in_set_takeD)
  have "users (snd (purge_batch sha cutoff rows db)) = filter (\<lambda>v. u_id v \<notin> u_id ` {w \<in> set (users db). u_id w \<in> u_id ` set rows \<and> purge_due cutoff w}) (users db)"
    by (simp add: purge_batch_def Let_def drop_users_def add_tombstones_def)
  then have "filter (purge_due cutoff) (users (snd (purge_batch sha cutoff rows db))) =
      filter (\<lambda>v. u_id v \<notin> u_id ` {w \<in> set (users db). u_id w \<in> u_id ` set rows \<and> purge_due cutoff w}) (filter (purge_due cutoff) (users db))"
    by (simp add: conj_commute)
  also have "length \<dots> < length (filter (purge_due cutoff) (users db))"
    by (rule length_filter_less [OF due]) (use u due in auto)
  finally show ?thesis .
qed

function purge_loop :: "(string \<Rightarrow> string) \<Rightarrow> int \<Rightarrow> nat \<Rightarrow> panel_db \<Rightarrow> nat \<times> panel_db" where
  "purge_loop sha cutoff erased db =
     (let rows = take USER_PURGE_BATCH (filter (purge_due cutoff) (users db)) in
      if rows = [] then (erased, db)
      else let (n, db') = purge_batch sha cutoff rows db in
           if length rows < USER_PURGE_BATCH then (erased + n, db') else purge_loop sha cutoff (erased + n) db')"
  by pat_completeness auto
termination
proof (relation "measure (\<lambda>(_, cutoff, _, db). length (filter (purge_due cutoff) (users db)))")
  show "((sha, cutoff, erased + n, db'), (sha, cutoff, erased, db)) \<in> measure (\<lambda>(_, cutoff, _, db). length (filter (purge_due cutoff) (users db)))"
    if "rows = take USER_PURGE_BATCH (filter (purge_due cutoff) (users db))" "rows \<noteq> []"
      "x = purge_batch sha cutoff rows db" "(n, db') = x"
    for sha cutoff erased db rows x n db'
    using batch_shrinks [OF that(1) [symmetric] that(2), of sha] unfolding that(3) [symmetric] that(4) [symmetric] by simp
qed simp

declare purge_loop.simps [simp del]

definition purgeDeletedUsers :: "(string \<Rightarrow> string) \<Rightarrow> int \<Rightarrow> panel_db \<Rightarrow> nat \<times> panel_db" where
  "purgeDeletedUsers sha now db = purge_loop sha (now - DELETED_USER_RETENTION_DAYS * DAY_MS) 0 db"

definition forget_devices :: "int \<Rightarrow> panel_db \<Rightarrow> nat \<times> panel_db" where
  "forget_devices now db =
     (let old = (\<lambda>d. d_lastSeenAt d < now - HWID_DEVICE_RETENTION_DAYS * DAY_MS)
      in (length (filter old (devices db)), db\<lparr>devices := filter (\<lambda>d. \<not> old d) (devices db)\<rparr>))"

section \<open>What the erasure leaves\<close>

lemma drop_users_cong: "set a = set b \<Longrightarrow> drop_users a db = drop_users b db"
  by (simp add: drop_users_def)

lemma drop_users_Nil [simp]: "drop_users [] db = db"
  by (simp add: drop_users_def)

lemma drop_users_drop: "drop_users b (add_tombstones ts (drop_users a db)) = drop_users (a @ b) (add_tombstones ts db)"
  by (simp add: drop_users_def add_tombstones_def case_prod_unfold conj_commute)

lemma add_tombstones_Nil [simp]: "add_tombstones [] db = db"
  by (simp add: add_tombstones_def)

lemma add_tombstones_append: "add_tombstones ts (add_tombstones us db) = add_tombstones (us @ ts) db"
  by (simp add: add_tombstones_def)

lemma tombstones_append: "tombstones sha (us @ vs) = tombstones sha us @ tombstones sha vs"
  by (simp add: tombstones_def map_filter_def)

lemma purge_batch_exact:
  assumes "distinct (map u_id (users db))" and "rows = take n (filter (purge_due cutoff) (users db))"
  shows "purge_batch sha cutoff rows db = (length rows, drop_users (map u_id rows) (add_tombstones (tombstones sha rows) db))"
proof -
  define gone where "gone = filter (\<lambda>u. u_id u \<in> set (map u_id rows) \<and> purge_due cutoff u) (users db)"
  have sub: "set rows \<subseteq> {u \<in> set (users db). purge_due cutoff u}"
    using assms(2) set_take_subset [of n "filter (purge_due cutoff) (users db)"] by auto
  have key: "u = v" if "u \<in> set (users db)" "v \<in> set (users db)" "u_id u = u_id v" for u v
    using assms(1) that by (auto simp: distinct_map inj_on_def)
  have same: "set gone = set rows"
  proof (intro equalityI subsetI)
    fix u
    assume "u \<in> set gone"
    then have u: "u \<in> set (users db)" "u_id u \<in> u_id ` set rows"
      by (simp_all add: gone_def)
    then obtain v where "v \<in> set rows" "u_id u = u_id v"
      by blast
    then show "u \<in> set rows"
      using key [of u v] u(1) sub by blast
  next
    fix u
    assume "u \<in> set rows"
    then show "u \<in> set gone"
      using sub by (auto simp: gone_def)
  qed
  have "distinct (users db)"
    using assms(1) by (simp add: distinct_map)
  then have "distinct gone" "distinct rows"
    unfolding gone_def assms(2) by (simp_all add: distinct_take)
  then have "length gone = length rows"
    using same by (metis distinct_card)
  moreover have dropped: "drop_users (map u_id gone) db1 = drop_users (map u_id rows) db1" for db1
    by (rule drop_users_cong) (simp add: same)
  have again: "drop_users ids (add_tombstones ts db)\<lparr>user_snapshots := filter (\<lambda>i. i \<notin> set ids) (user_snapshots db)\<rparr> =
      drop_users ids (add_tombstones ts db)" for ids ts
    by (simp add: drop_users_def add_tombstones_def)
  ultimately show ?thesis
    unfolding purge_batch_def Let_def gone_def [symmetric] dropped again by simp
qed

lemma due_left:
  assumes "distinct (map u_id us)"
  shows "filter (\<lambda>u. u_id u \<notin> set (map u_id (take n (filter P us)))) (filter P us) = drop n (filter P us)"
proof -
  define L where "L = filter P us"
  have dist: "distinct (map u_id L)"
    unfolding L_def using assms by (rule distinct_map_filter)
  have "filter (\<lambda>u. u_id u \<notin> set (map u_id (take n L))) (take n L @ drop n L) = drop n L"
  proof -
    have "set (map u_id (take n L)) \<inter> set (map u_id (drop n L)) = {}"
      using dist by (metis append_take_drop_id distinct_append map_append)
    then have "filter (\<lambda>u. u_id u \<notin> set (map u_id (take n L))) (drop n L) = drop n L"
      by (intro filter_True) auto
    moreover have "filter (\<lambda>u. u_id u \<notin> set (map u_id (take n L))) (take n L) = []"
      by (simp add: filter_empty_conv)
    ultimately show ?thesis
      unfolding filter_append by (simp only: append_Nil)
  qed
  then show ?thesis
    unfolding L_def [symmetric] append_take_drop_id .
qed

lemma purge_loop_exact:
  "distinct (map u_id (users db)) \<Longrightarrow>
   purge_loop sha cutoff n db =
     (let due = filter (purge_due cutoff) (users db)
      in (n + length due, drop_users (map u_id due) (add_tombstones (tombstones sha due) db)))"
proof (induction sha cutoff n db rule: purge_loop.induct)
  case (1 sha cutoff n db)
  define due where "due = filter (purge_due cutoff) (users db)"
  define rows where "rows = take USER_PURGE_BATCH due"
  have batch: "purge_batch sha cutoff rows db = (length rows, drop_users (map u_id rows) (add_tombstones (tombstones sha rows) db))"
    using 1(2) unfolding rows_def due_def by (rule purge_batch_exact) (rule refl)
  consider "rows = []" | "rows \<noteq> []" "length rows < USER_PURGE_BATCH" | "rows \<noteq> []" "\<not> length rows < USER_PURGE_BATCH"
    by blast
  then have "purge_loop sha cutoff n db = (n + length due, drop_users (map u_id due) (add_tombstones (tombstones sha due) db))"
  proof cases
    case a: 1
    then have "due = []"
      by (simp add: rows_def USER_PURGE_BATCH_def)
    then show ?thesis
      unfolding purge_loop.simps [of sha cutoff n db] Let_def due_def [symmetric] rows_def [symmetric]
      using a by (simp add: tombstones_def map_filter_simps)
  next
    case b: 2
    then have "rows = due"
      by (simp add: rows_def)
    then show ?thesis
      unfolding purge_loop.simps [of sha cutoff n db] Let_def due_def [symmetric] rows_def [symmetric]
      using b batch by simp
  next
    case c: 3
    define db1 where "db1 = drop_users (map u_id rows) (add_tombstones (tombstones sha rows) db)"
    have us1: "users db1 = filter (\<lambda>u. u_id u \<notin> set (map u_id rows)) (users db)"
      by (simp add: db1_def drop_users_def add_tombstones_def)
    have "filter (purge_due cutoff) (users db1) = filter (\<lambda>u. u_id u \<notin> set (map u_id rows)) due"
      unfolding us1 due_def by (simp add: conj_commute)
    then have left: "filter (purge_due cutoff) (users db1) = drop USER_PURGE_BATCH due"
      unfolding rows_def due_def due_left [OF 1(2)] .
    have "distinct (map u_id (users db1))"
      unfolding us1 using 1(2) by (rule distinct_map_filter)
    then have "purge_loop sha cutoff (n + length rows) db1 =
        (n + length rows + length (drop USER_PURGE_BATCH due),
         drop_users (map u_id (drop USER_PURGE_BATCH due)) (add_tombstones (tombstones sha (drop USER_PURGE_BATCH due)) db1))"
      using 1(1) [OF _ _ batch [symmetric] refl] c unfolding rows_def due_def left [unfolded due_def, symmetric] db1_def
      by (simp add: Let_def)
    also have "\<dots> = (n + length due, drop_users (map u_id due) (add_tombstones (tombstones sha due) db))"
    proof -
      have split: "rows @ drop USER_PURGE_BATCH due = due"
        by (simp add: rows_def)
      have "length rows + length (drop USER_PURGE_BATCH due) = length due"
        by (simp only: length_append [symmetric] split)
      then show ?thesis
        unfolding db1_def drop_users_drop add_tombstones_append map_append [symmetric] tombstones_append [symmetric] split by simp
    qed
    finally show ?thesis
      unfolding purge_loop.simps [of sha cutoff n db] Let_def due_def [symmetric] rows_def [symmetric]
      using c batch by (simp add: db1_def)
  qed
  then show ?case
    by (simp add: due_def Let_def)
qed

section \<open>The properties\<close>

lemma uniq_filter: "uniq P k xs \<Longrightarrow> uniq P k (filter Q xs)"
proof -
  have "filter P (filter Q xs) = filter Q (filter P xs)"
    by (simp add: conj_commute)
  then show "uniq P k xs \<Longrightarrow> uniq P k (filter Q xs)"
    unfolding uniq_def by (simp only: distinct_map_filter)
qed

lemma dropped:
  "users (drop_users ids (add_tombstones ts db)) = filter (\<lambda>u. u_id u \<notin> set ids) (users db)"
  "members (drop_users ids (add_tombstones ts db)) = filter (\<lambda>m. snd m \<notin> set ids) (members db)"
  "squads (drop_users ids (add_tombstones ts db)) = squads db"
  "presets (drop_users ids (add_tombstones ts db)) = presets db"
  "devices (drop_users ids (add_tombstones ts db)) = filter (\<lambda>d. d_user d \<notin> set ids) (devices db)"
  "peers (drop_users ids (add_tombstones ts db)) = filter (\<lambda>p. peer_user p \<notin> set ids) (peers db)"
  "user_traffic (drop_users ids (add_tombstones ts db)) = filter (\<lambda>t. fst t \<notin> set ids) (user_traffic db)"
  "user_snapshots (drop_users ids (add_tombstones ts db)) = filter (\<lambda>i. i \<notin> set ids) (user_snapshots db)"
  "set (erased_sources (drop_users ids (add_tombstones ts db))) = set (erased_sources db) \<union> set ts"
  by (simp_all add: drop_users_def add_tombstones_def case_prod_unfold foldl_set_add_set)

lemma drop_users_wf:
  assumes "users_wf db"
  shows "users_wf (drop_users ids (add_tombstones ts db))"
proof -
  have squads: "squads_of i (drop_users ids (add_tombstones ts db)) = squads_of i db" if "i \<notin> set ids" for i
  proof -
    have "filter (\<lambda>m. snd m = i) (filter (\<lambda>m. snd m \<notin> set ids) ms) = filter (\<lambda>m. snd m = i) ms" for ms :: "(string \<times> string) list"
      using that by (induction ms) auto
    then show ?thesis
      unfolding squads_of_def dropped by (simp only:)
  qed

  have "\<forall>u \<in> set (users (drop_users ids (add_tombstones ts db))). squads_of (u_id u) (drop_users ids (add_tombstones ts db)) \<noteq> []"
    using assms squads unfolding dropped users_wf_def by simp
  moreover have "\<forall>m \<in> set (filter (\<lambda>m. snd m \<notin> set ids) (members db)). fst m \<in> s_id ` set (squads db) \<and>
      snd m \<in> u_id ` set (filter (\<lambda>u. u_id u \<notin> set ids) (users db))"
    using assms unfolding users_wf_def by fastforce
  moreover have "distinct (map u_id (filter (\<lambda>u. u_id u \<notin> set ids) (users db)))"
    using assms by (simp add: users_wf_def distinct_map_filter)
  ultimately show ?thesis
    using assms unfolding users_wf_def dropped by (simp add: uniq_filter) blast
qed

lemma tombstones_set: "set (tombstones sha us) = {sha s |s. \<exists>u \<in> set us. u_sourceId u = Some s}"
proof -
  have "x \<in> set (tombstones sha us) \<longleftrightarrow> (\<exists>u \<in> set us. \<exists>s. u_sourceId u = Some s \<and> x = sha s)" for x
    unfolding tombstones_def by (induction us) (auto simp: map_filter_simps split: option.split)
  then show ?thesis
    by blast
qed

lemma purged:
  assumes "users_wf db" and "purgeDeletedUsers sha now db = (n, db')"
  defines "due \<equiv> filter (purge_due (now - DELETED_USER_RETENTION_DAYS * DAY_MS)) (users db)"
  shows "n = length due" and "db' = drop_users (map u_id due) (add_tombstones (tombstones sha due) db)"
  using assms by (auto simp: purgeDeletedUsers_def purge_loop_exact users_wf_def Let_def)


section \<open>An imported user, erased\<close>

definition demo_erased :: panel_db where
  "demo_erased = demo_db\<lparr>users := users demo_db @ [(demo_user ''eve'' Disabled None None)\<lparr>u_sourceId := Some ''rw-1'', u_deletedAt := Some 0\<rparr>],
     members := members demo_db @ [(ALL_SQUAD_ID, ''eve'')]\<rparr>"

lemma demo_erased_wf: "users_wf demo_erased"
  by (simp add: users_wf_def uniq_def demo_erased_def demo_defs squads_of_def one_preset_def)


end
