(* ===== verification/SquadRules.thy ===== *)
theory SquadRules
  imports Squads
begin

text \<open>
  What the squad service keeps: the tables stay well formed, the allow-list a screen saved is the one it
  reads back, and the members of a deleted squad are never left without one.
\<close>

section \<open>The writers\<close>

lemma insert_links_Inr:
  "insert_links taken gone known g xs rows = Inr rows' \<longleftrightarrow>
     rows' = rows @ map (Pair g) xs \<and> distinct xs \<and> (\<forall>x \<in> set xs. x \<in> set known \<and> (g, x) \<notin> set rows)"
proof (induction xs arbitrary: rows)
  case (Cons x xs)
  show ?case
    by (auto simp: Cons.IH)
qed auto

lemma insert_exits_Inr: "insert_exits gone rs db rows = Inr rows' \<Longrightarrow> rows' = rows @ rs \<and> (\<forall>r \<in> set rs. exit_ends_exist r db)"
  by (induction rs arbitrary: rows) (fastforce split: option.splits if_splits)+

lemma squad_refused_None:
  "squad_refused s others db = None \<longleftrightarrow>
   squad_one_preset s \<and> (\<forall>t \<in> set others. s_id t \<noteq> s_id s \<and> s_name t \<noteq> s_name s) \<and>
   (\<forall>p. s_customPreset s = Some p \<longrightarrow> p \<in> set (presets db))"
  by (auto simp: squad_refused_def split: option.split)

lemma edit_squad_id [simp]: "s_id (edit_squad inp s) = s_id s"
  by (simp add: edit_squad_def Let_def)

lemma find_squad_Some: "find_squad P db = Some s \<Longrightarrow> s \<in> set (squads db) \<and> P s"
  unfolding find_squad_def by (rule find_Some_in)

text \<open>What a successful write leaves.\<close>

lemma insert_squad_Inr:
  assumes "insert_squad s inp exits db = Inr db'"
  shows "squads db' = squads db @ [s]" and "\<forall>t \<in> set (squads db). s_id t \<noteq> s_id s \<and> s_name t \<noteq> s_name s"
    and "users db' = users db" and "members db' = members db" and "presets db' = presets db"
  using assms by (auto simp: insert_squad_def squad_refused_None split: option.splits)

lemma write_squad_Inr:
  assumes "write_squad i inp exits db = Inr (s', db')"
  obtains s where "find_squad (\<lambda>t. s_id t = i) db = Some s" and "s' = edit_squad inp s"
    and "squad_refused s' (filter (\<lambda>t. s_id t \<noteq> i) (squads db)) db = None"
    and "squads db' = map (\<lambda>t. if s_id t = i then s' else t) (squads db)"
    and "users db' = users db" and "members db' = members db" and "presets db' = presets db" and "cascades db' = cascades db"
    and "replace_exits i (su_exitAcl inp) exits db = Inr (cascade_exits db')"
    and "replace_links (unique_error ''group_cascades_off_pkey'') (foreign_error ''group_cascades_off_cascade_id_fkey'')
      (map cs_id (cascades db)) i (map_option (\<lambda>acl. map snd (offRows i acl)) (su_exitAcl inp)) (cascades_off db) = Inr (cascades_off db')"
  using assms by (auto simp: write_squad_def Let_def split: option.splits)

section \<open>The tables stay well formed\<close>

lemma users_wf_cong:
  assumes "users_wf db" and "users db' = users db" and "members db' = members db" and "presets db' = presets db"
    and "s_id ` set (squads db') \<supseteq> s_id ` set (squads db)"
    and "distinct (map s_id (squads db'))" and "distinct (map s_name (squads db'))"
  shows "users_wf db'"
  using assms unfolding users_wf_def squads_of_def by (auto 0 3)

lemma createSquad_wf: "users_wf db \<Longrightarrow> createSquad i inp seen db = (r, db', evs) \<Longrightarrow> users_wf db'"
proof -
  assume wf: "users_wf db" and run: "createSquad i inp seen db = (r, db', evs)"
  have "db' = db \<or> (\<exists>s exits. insert_squad s inp exits db = Inr db')"
    using run by (auto simp: createSquad_def Let_def split: if_splits sum.splits)
  then show "users_wf db'"
  proof
    assume "\<exists>s exits. insert_squad s inp exits db = Inr db'"
    then obtain s exits where new: "insert_squad s inp exits db = Inr db'"
      by blast
    have "distinct (map s_id (squads db'))" "distinct (map s_name (squads db'))"
      using wf insert_squad_Inr(1,2) [OF new] by (auto simp: users_wf_def)
    then show ?thesis
      using insert_squad_Inr(1) [OF new] by (intro users_wf_cong [OF wf insert_squad_Inr(3-5) [OF new]]) auto
  qed (simp add: wf)
qed

lemma updateSquad_wf:
  assumes "users_wf db" and "updateSquad i inp seen db = (r, db', evs)"
  shows "users_wf db'"
proof (cases "update_checks i inp seen")
  case (Inl e)
  then show ?thesis
    using assms by (simp add: updateSquad_def)
next
  case (Inr exits)
  show ?thesis
  proof (cases "write_squad i inp exits db")
    case (Inl err)
    then show ?thesis
      using assms Inr by (simp add: updateSquad_def)
  next
    case written: (Inr p)
    obtain s' db1 where p: "p = (s', db1)"
      by (cases p)
    have db1: "db1 = db'"
      using assms(2) Inr written p by (simp add: updateSquad_def)
    obtain s where s: "find_squad (\<lambda>t. s_id t = i) db = Some s" "s' = edit_squad inp s"
      "squad_refused s' (filter (\<lambda>t. s_id t \<noteq> i) (squads db)) db = None"
      "squads db' = map (\<lambda>t. if s_id t = i then s' else t) (squads db)"
      "users db' = users db" "members db' = members db" "presets db' = presets db"
      using written unfolding p db1 by (rule write_squad_Inr) blast
    have sid: "s_id s' = i"
      using find_squad_Some [OF s(1)] s(2) by simp
    have ids: "map s_id (squads db') = map s_id (squads db)"
      unfolding s(4) by (rule replaced_ids) (rule sid)
    have apart: "\<forall>t \<in> set (squads db). s_id t \<noteq> i \<longrightarrow> s_name t \<noteq> s_name s'"
      using s(3) by (simp add: squad_refused_None)
    have "uniq (\<lambda>_. True) s_name (squads db')"
      unfolding s(4)
      by (rule uniq_replace) (use assms(1) sid apart in \<open>auto simp: users_wf_def uniq_def\<close>)
    then have "distinct (map s_name (squads db'))"
      by (simp add: uniq_def)
    moreover have "distinct (map s_id (squads db'))"
      using assms(1) unfolding ids by (simp add: users_wf_def)
    moreover have "s_id ` set (squads db') = s_id ` set (squads db)"
      using ids by (metis set_map)
    ultimately show ?thesis
      by (intro users_wf_cong [OF assms(1) s(5-7)]) simp_all
  qed
qed

lemma squads_of_iff: "squads_of u db \<noteq> [] \<longleftrightarrow> (\<exists>g. (g, u) \<in> set (members db))"
proof
  assume "squads_of u db \<noteq> []"
  then obtain m where "m \<in> set (members db)" "snd m = u"
    by (auto simp: squads_of_def filter_empty_conv)
  then show "\<exists>g. (g, u) \<in> set (members db)"
    by (metis prod.collapse)
next
  assume "\<exists>g. (g, u) \<in> set (members db)"
  then obtain g where "(g, u) \<in> set (members db)"
    by blast
  then show "squads_of u db \<noteq> []"
    unfolding squads_of_def by (auto simp: filter_empty_conv intro!: bexI [of _ "(g, u)"])
qed

lemma mem_snd_filter: "u \<in> snd ` {m \<in> S. P m} \<longleftrightarrow> (\<exists>g. (g, u) \<in> S \<and> P (g, u))"
  by force

lemma reallyOrphaned_set:
  "u \<in> set (reallyOrphaned i db) \<longleftrightarrow> (i, u) \<in> set (members db) \<and> (\<forall>g. (g, u) \<in> set (members db) \<longrightarrow> g = i)"
proof -
  have orphaned: "u \<in> set (map snd (filter (\<lambda>m. fst m = i) (members db))) \<longleftrightarrow> (i, u) \<in> set (members db)"
    unfolding set_map set_filter mem_snd_filter by simp
  have still: "u \<in> set (map snd (filter (\<lambda>m. snd m \<in> S) (members (drop_squad i db)))) \<longleftrightarrow>
      (\<exists>g. (g, u) \<in> set (members db) \<and> g \<noteq> i) \<and> u \<in> S" for S
    unfolding set_map set_filter mem_snd_filter by (auto simp: drop_squad_def)
  show ?thesis
    unfolding reallyOrphaned_def Let_def set_filter mem_Collect_eq orphaned still by blast
qed

lemma reallyOrphaned_distinct:
  assumes "distinct (members db)"
  shows "distinct (reallyOrphaned i db)"
proof -
  have "inj_on snd (set (filter (\<lambda>m. fst m = i) (members db)))"
    by (intro inj_onI) (auto simp: prod_eq_iff)
  then show ?thesis
    using assms by (simp add: reallyOrphaned_def Let_def distinct_map)
qed

lemma deleteSquad_Inr:
  assumes "deleteSquad i seen db = (Inr (), db', evs)"
  shows "backstop (reallyOrphaned i db) (drop_squad i db) = Inr db'" and "evs = []" and "i \<noteq> ALL_SQUAD_ID"
  using assms by (auto simp: deleteSquad_def split: if_splits sum.splits)

text \<open>Who is in which squad after a deletion.\<close>

lemma deleted_members:
  assumes "deleteSquad i seen db = (Inr (), db', evs)"
  shows "set (members db') = {m \<in> set (members db). fst m \<noteq> i} \<union>
      {(ALL_SQUAD_ID, u) |u. (i, u) \<in> set (members db) \<and> (\<forall>g. (g, u) \<in> set (members db) \<longrightarrow> g = i)}"
    and "users db' = users db" and "presets db' = presets db" and "squads db' = filter (\<lambda>s. s_id s \<noteq> i) (squads db)"
    and "reallyOrphaned i db \<noteq> [] \<Longrightarrow> ALL_SQUAD_ID \<in> s_id ` set (squads db')"
    and "members db' = filter (\<lambda>m. fst m \<noteq> i) (members db) @ map (Pair ALL_SQUAD_ID) (reallyOrphaned i db)"
proof -
  note written = deleteSquad_Inr(1,3) [OF assms]
  have new: "(ALL_SQUAD_ID, u) \<notin> set (members (drop_squad i db))" if "u \<in> set (reallyOrphaned i db)" for u
    using that written(2) by (auto simp: reallyOrphaned_set drop_squad_def)
  have kept: "filter (\<lambda>u. (ALL_SQUAD_ID, u) \<notin> set (members (drop_squad i db))) (reallyOrphaned i db) = reallyOrphaned i db"
    using new by (intro filter_True) blast
  show members: "members db' = filter (\<lambda>m. fst m \<noteq> i) (members db) @ map (Pair ALL_SQUAD_ID) (reallyOrphaned i db)"
    using written(1) unfolding backstop_def kept by (auto simp: drop_squad_def split: if_splits)
  show "set (members db') = {m \<in> set (members db). fst m \<noteq> i} \<union>
      {(ALL_SQUAD_ID, u) |u. (i, u) \<in> set (members db) \<and> (\<forall>g. (g, u) \<in> set (members db) \<longrightarrow> g = i)}"
  proof -
    have "Pair ALL_SQUAD_ID ` set (reallyOrphaned i db) =
        {(ALL_SQUAD_ID, u) |u. (i, u) \<in> set (members db) \<and> (\<forall>g. (g, u) \<in> set (members db) \<longrightarrow> g = i)}"
      unfolding image_def Bex_def reallyOrphaned_set by blast
    then show ?thesis
      unfolding members by simp
  qed
  show "users db' = users db" "presets db' = presets db" "squads db' = filter (\<lambda>s. s_id s \<noteq> i) (squads db)"
    using written(1) by (auto simp: backstop_def drop_squad_def split: if_splits)
  show "ALL_SQUAD_ID \<in> s_id ` set (squads db')" if "reallyOrphaned i db \<noteq> []"
    using written(1) that by (auto simp: backstop_def drop_squad_def split: if_splits)
qed

lemma deleteSquad_wf:
  assumes "users_wf db" and "deleteSquad i seen db = (r, db', evs)"
  shows "users_wf db'"
proof (cases r)
  case (Inl e)
  then show ?thesis
    using assms by (auto simp: deleteSquad_def split: if_splits sum.splits)
next
  case (Inr v)
  then have run: "deleteSquad i seen db = (Inr (), db', evs)"
    using assms(2) by simp
  note facts = deleted_members [OF run]
  have all: "i \<noteq> ALL_SQUAD_ID"
    by (rule deleteSquad_Inr(3) [OF run])
  have wf: "distinct (members db)" "\<forall>m \<in> set (members db). fst m \<in> s_id ` set (squads db) \<and> snd m \<in> u_id ` set (users db)"
    "\<forall>u \<in> set (users db). squads_of (u_id u) db \<noteq> []"
    using assms(1) by (simp_all add: users_wf_def)
  have "distinct (members db')"
  proof -
    have "set (filter (\<lambda>m. fst m \<noteq> i) (members db)) \<inter> set (map (Pair ALL_SQUAD_ID) (reallyOrphaned i db)) = {}"
      using all by (auto simp: reallyOrphaned_set)
    then show ?thesis
      unfolding facts(6) using wf(1) reallyOrphaned_distinct [OF wf(1), of i]
      by (simp add: distinct_map inj_on_def)
  qed
  moreover have "\<forall>m \<in> set (members db'). fst m \<in> s_id ` set (squads db') \<and> snd m \<in> u_id ` set (users db')"
  proof
    fix m
    assume "m \<in> set (members db')"
    then consider "m \<in> set (members db)" "fst m \<noteq> i" | "fst m = ALL_SQUAD_ID" "snd m \<in> set (reallyOrphaned i db)"
      unfolding facts(6) by auto
    then show "fst m \<in> s_id ` set (squads db') \<and> snd m \<in> u_id ` set (users db')"
    proof cases
      case 1
      then show ?thesis
        using wf(2) by (fastforce simp: facts)
    next
      case 2
      then have "reallyOrphaned i db \<noteq> []" "(i, snd m) \<in> set (members db)"
        using reallyOrphaned_set by fastforce+
      then show ?thesis
        using facts(5) 2 wf(2) by (fastforce simp: facts(2))
    qed
  qed
  moreover have "\<forall>u \<in> set (users db'). squads_of (u_id u) db' \<noteq> []"
  proof
    fix u
    assume "u \<in> set (users db')"
    then obtain g where g: "(g, u_id u) \<in> set (members db)"
      using wf(3) by (auto simp: facts(2) squads_of_iff)
    show "squads_of (u_id u) db' \<noteq> []"
    proof (cases "u_id u \<in> set (reallyOrphaned i db)")
      case True
      then have "(ALL_SQUAD_ID, u_id u) \<in> set (members db')"
        by (simp add: facts(6))
      then show ?thesis
        unfolding squads_of_iff by blast
    next
      case False
      then obtain h where "(h, u_id u) \<in> set (members db)" "h \<noteq> i"
        using g by (auto simp: reallyOrphaned_set)
      then have "(h, u_id u) \<in> set (members db')"
        by (simp add: facts(6))
      then show ?thesis
        unfolding squads_of_iff by blast
    qed
  qed
  ultimately show ?thesis
    using assms(1) unfolding users_wf_def by (auto simp: facts(2-4) distinct_map_filter)
qed

lemmas squads_wf = createSquad_wf updateSquad_wf deleteSquad_wf

section \<open>What a saved allow-list reads as\<close>

definition dirs_of :: "acl_view \<Rightarrow> string \<Rightarrow> string set" where
  "dirs_of out c = (case map_get out c of Some e \<Rightarrow> set (fst e) | None \<Rightarrow> {})"

definition row_dirs :: "exit_row list \<Rightarrow> string \<Rightarrow> string set" where
  "row_dirs rows c = {d. \<exists>r \<in> set rows. x_cascade r = c \<and> x_direction r = Some d}"

lemma acl_add_get:
  "map_get (acl_add db out r) c = None \<longleftrightarrow> map_get out c = None \<and> x_cascade r \<noteq> c"
  "dirs_of (acl_add db out r) c = dirs_of out c \<union> row_dirs [r] c"
  by (auto simp: acl_add_def Let_def dirs_of_def row_dirs_def split: prod.split option.split)

lemma acl_fold_get:
  "(map_get (foldl (acl_add db) out rows) c = None \<longleftrightarrow> map_get out c = None \<and> (\<forall>r \<in> set rows. x_cascade r \<noteq> c)) \<and>
   dirs_of (foldl (acl_add db) out rows) c = dirs_of out c \<union> row_dirs rows c"
proof (induction rows arbitrary: out)
  case (Cons r rows)
  have "row_dirs (r # rows) c = row_dirs [r] c \<union> row_dirs rows c"
    by (auto simp: row_dirs_def)
  then show ?case
    by (auto simp: Cons.IH acl_add_get)
qed (simp add: row_dirs_def)

lemma off_fold_get: "map_get (foldl (\<lambda>out c. map_set c ([], []) out) out off) c = (if c \<in> set off then Some ([], []) else map_get out c)"
  by (induction off arbitrary: out) auto

lemma groupExitAcl_get:
  "map_get (groupExitAcl db rows off) c = None \<longleftrightarrow> c \<notin> set off \<and> (\<forall>r \<in> set rows. x_cascade r \<noteq> c)"
  "dirs_of (groupExitAcl db rows off) c = (if c \<in> set off then {} else row_dirs rows c)"
  unfolding groupExitAcl_def dirs_of_def off_fold_get
  using acl_fold_get [of db "[]" rows c] by (auto simp: dirs_of_def)

text \<open>The directions an entry means: those it names, or those whose pool holds a node it names.\<close>

definition meant :: "panel_db \<Rightarrow> acl_entry \<Rightarrow> string set" where
  "meant db e = (case ae_directions e of
     Some ids \<Rightarrow> set ids
   | None \<Rightarrow> {d. \<exists>pool. (d, pool) \<in> set (own_directions (ae_cascade e) db) \<and> set pool \<inter> set (givenList e) \<noteq> {}})"

lemma directions_under_Inr:
  "directions_under e own n = Inr ds \<longleftrightarrow> ds = map fst (filter (\<lambda>d. n \<in> set (snd d)) own) \<and> ds \<noteq> []"
  by (auto simp: directions_under_def split: list.split)

lemma under_set: "set (map fst (filter (\<lambda>d. n \<in> set (snd d)) own)) = {d. \<exists>pool. (d, pool) \<in> set own \<and> n \<in> set pool}"
  by force

lemma rmap_under:
  "rmap (directions_under e own) ns = Inr us \<Longrightarrow>
   set (concat us) = {d. \<exists>pool. (d, pool) \<in> set own \<and> set pool \<inter> set ns \<noteq> {}}"
proof (induction ns arbitrary: us)
  case (Cons n ns)
  obtain vs where vs: "us = map fst (filter (\<lambda>d. n \<in> set (snd d)) own) # vs" "rmap (directions_under e own) ns = Inr vs"
    using Cons.prems by (auto simp: directions_under_Inr)
  show ?case
    unfolding vs(1) concat.simps set_append Cons.IH [OF vs(2)] under_set by auto
qed simp

lemma rmap_under_some: "rmap (directions_under e own) ns = Inr us \<Longrightarrow> ns \<noteq> [] \<Longrightarrow> concat us \<noteq> []"
  by (cases ns) (auto simp: directions_under_Inr)

lemma list_all2_concat: "list_all2 P xs yss \<Longrightarrow> y \<in> set (concat yss) \<Longrightarrow> \<exists>x \<in> set xs. \<exists>ys. P x ys \<and> y \<in> set ys"
  by (induction rule: list_all2_induct) auto

lemma list_all2_member: "list_all2 P xs yss \<Longrightarrow> x \<in> set xs \<Longrightarrow> \<exists>ys. P x ys \<and> set ys \<subseteq> set (concat yss)"
  by (induction rule: list_all2_induct) auto

lemma rmap_checked: "rmap (\<lambda>x. if P x then Inr (f x) else Inl (h x)) xs = Inr ys \<longleftrightarrow> ys = map f xs \<and> (\<forall>x \<in> set xs. P x)"
  by (induction xs arbitrary: ys) auto

lemma entry_rows_Inr:
  assumes "entry_rows g db e = Inr rs" and "givenList e \<noteq> []"
  shows "rs \<noteq> []" and "\<forall>r \<in> set rs. x_group r = g \<and> x_cascade r = ae_cascade e"
    and "{d. \<exists>r \<in> set rs. x_direction r = Some d} = meant db e"
proof -
  have some: "set_from ids \<noteq> []" if "ids \<noteq> []" for ids :: "string list"
    using that by (simp add: set_from_Nil_iff)
  have "rs \<noteq> [] \<and> (\<forall>r \<in> set rs. x_group r = g \<and> x_cascade r = ae_cascade e) \<and> {d. \<exists>r \<in> set rs. x_direction r = Some d} = meant db e"
  proof (cases "ae_directions e")
    case (Some ids)
    then have "rs = map (by_direction g e) (set_from ids)" "ids \<noteq> []"
      using assms by (simp_all add: entry_rows_def Let_def rmap_checked givenList_def)
    then show ?thesis
      using Some some by (auto simp: by_direction_def meant_def)
  next
    case None
    define ns where "ns = (case ae_exits e of Some ns \<Rightarrow> ns | None \<Rightarrow> [])"
    have ns: "givenList e = ns" "ns \<noteq> []"
      using None assms(2) by (simp_all add: givenList_def ns_def)
    show ?thesis
    proof (cases "own_directions (ae_cascade e) db = []")
      case True
      then have "rs = map (by_node g e) (set_from ns)"
        using assms(1) None by (simp add: entry_rows_def ns_def)
      then show ?thesis
        using some [OF ns(2)] None True by (auto simp: by_node_def meant_def)
    next
      case False
      then obtain us where us: "rmap (directions_under e (own_directions (ae_cascade e) db)) (set_from ns) = Inr us"
        "rs = map (by_direction g e) (set_from (concat us))"
        using assms(1) None by (auto simp: entry_rows_def ns_def)
      have "set (concat us) = meant db e"
        unfolding rmap_under [OF us(1)] meant_def ns(1) using None by simp
      moreover have "set_from (concat us) \<noteq> []"
        using rmap_under_some [OF us(1)] some ns(2) by blast
      ultimately show ?thesis
        unfolding us(2) by (auto simp: by_direction_def)
    qed
  qed
  then show "rs \<noteq> []" "\<forall>r \<in> set rs. x_group r = g \<and> x_cascade r = ae_cascade e"
    "{d. \<exists>r \<in> set rs. x_direction r = Some d} = meant db e"
    by blast+
qed

lemma exitAclRows_Inr:
  assumes "exitAclRows g acl db = Inr rows" and "distinct (map ae_cascade acl)"
  shows "\<forall>r \<in> set rows. x_group r = g \<and> (\<exists>e \<in> set acl. givenList e \<noteq> [] \<and> x_cascade r = ae_cascade e)"
    and "\<And>e. e \<in> set acl \<Longrightarrow> givenList e \<noteq> [] \<Longrightarrow> row_dirs rows (ae_cascade e) = meant db e \<and> (\<exists>r \<in> set rows. x_cascade r = ae_cascade e)"
proof -
  define live where "live = filter (\<lambda>e. givenList e \<noteq> []) acl"
  obtain rss where rss: "list_all2 (\<lambda>e rs. entry_rows g db e = Inr rs) live rss" "rows = concat rss"
  proof (cases "live = []")
    case True
    then show ?thesis
      using assms(1) that [of "[]"] by (simp add: exitAclRows_def live_def)
  next
    case False
    then show ?thesis
      using assms(1) that unfolding exitAclRows_def live_def [symmetric] Let_def
      by (auto simp: rmap_Inr_iff split: list.splits)
  qed
  have from_entry: "\<exists>e \<in> set live. \<exists>rs. entry_rows g db e = Inr rs \<and> r \<in> set rs" if "r \<in> set rows" for r
    using list_all2_concat [OF rss(1)] that unfolding rss(2) by blast
  have has_rows: "\<exists>rs. entry_rows g db e = Inr rs \<and> set rs \<subseteq> set rows" if "e \<in> set live" for e
    using list_all2_member [OF rss(1) that] unfolding rss(2) by blast
  have live: "e \<in> set live \<longleftrightarrow> e \<in> set acl \<and> givenList e \<noteq> []" for e
    by (auto simp: live_def)
  have entry: "x_group r = g \<and> x_cascade r = ae_cascade e" if "entry_rows g db e = Inr rs" "r \<in> set rs" "e \<in> set live" for e rs r
    using entry_rows_Inr(2) [OF that(1)] that(2,3) live by blast
  show "\<forall>r \<in> set rows. x_group r = g \<and> (\<exists>e \<in> set acl. givenList e \<noteq> [] \<and> x_cascade r = ae_cascade e)"
    using from_entry entry live by blast
  show "row_dirs rows (ae_cascade e) = meant db e \<and> (\<exists>r \<in> set rows. x_cascade r = ae_cascade e)"
    if e: "e \<in> set acl" "givenList e \<noteq> []" for e
  proof -
    obtain rs where rs: "entry_rows g db e = Inr rs" "set rs \<subseteq> set rows"
      using has_rows live e by blast
    have own: "r \<in> set rs" if r: "r \<in> set rows" "x_cascade r = ae_cascade e" for r
    proof -
      obtain f rs' where f: "f \<in> set live" "entry_rows g db f = Inr rs'" "r \<in> set rs'"
        using from_entry [OF r(1)] by blast
      then have "ae_cascade f = ae_cascade e"
        using entry r(2) by metis
      then have "f = e"
        using f(1) e(1) live assms(2) by (auto simp: distinct_map inj_on_def)
      then show ?thesis
        using f rs(1) by simp
    qed
    have mine: "\<forall>r \<in> set rs. x_cascade r = ae_cascade e"
      using entry_rows_Inr(2) [OF rs(1) e(2)] by blast
    have "row_dirs rows (ae_cascade e) = {d. \<exists>r \<in> set rs. x_direction r = Some d}"
      unfolding row_dirs_def using own mine rs(2) by blast
    then show ?thesis
      using entry_rows_Inr(1,3) [OF rs(1) e(2)] mine rs(2) by (metis list.set_intros(1) neq_Nil_conv subsetD)
  qed
qed

section \<open>The properties\<close>

lemma updateSquad_Inr:
  assumes "updateSquad i inp seen db = (Inr s, db', evs)"
  obtains exits where "update_checks i inp seen = Inr exits" and "write_squad i inp exits db = Inr (s, db')" and "evs = [SquadChanged i]"
  using assms by (auto simp: updateSquad_def split: sum.splits)

lemma offRows_cascades: "map snd (offRows i acl) = map ae_cascade (filter (\<lambda>e. givenList e = []) acl)"
  by (simp add: offRows_def)

lemma find_replaced:
  "List.find (\<lambda>t. k t = i) xs = Some x \<Longrightarrow> k y = i \<Longrightarrow> List.find (\<lambda>t. k t = i) (map (\<lambda>t. if k t = i then y else t) xs) = Some y"
  by (induction xs) (auto split: if_splits)

lemma update_checks_rows:
  assumes "update_checks i inp seen = Inr exits" and "su_exitAcl inp = Some acl"
  shows "exitAclRows i acl seen = Inr exits"
proof (cases "exitAclRows i acl seen")
  case (Inl e)
  then show ?thesis
    using assms by (auto simp: update_checks_def split: if_splits option.splits)
next
  case (Inr rows)
  have "update_checks i inp seen = Inr exits \<Longrightarrow> rows = exits"
    using assms(2) Inr
    by (cases "snd (presetUpdateData (su_preset inp) (su_customPreset inp))")
      (auto simp: update_checks_def split: if_splits option.splits sum.splits)
  then show ?thesis
    using assms(1) Inr by simp
qed

text \<open>What a save with an allow-list stores.\<close>

lemma saved_acl_rows:
  assumes "updateSquad i inp seen db = (Inr s, db', evs)" and "su_exitAcl inp = Some acl"
  obtains exits where "exitAclRows i acl seen = Inr exits" and "getSquadById i db' = Inr (mapSquadToPublic db' s)" and "s_id s = i"
    and "cascade_exits db' = filter (\<lambda>r. x_group r \<noteq> i) (cascade_exits db) @ exits"
    and "cascades_off db' = filter (\<lambda>r. fst r \<noteq> i) (cascades_off db) @ map (Pair i) (map snd (offRows i acl))"
proof -
  obtain exits where exits: "update_checks i inp seen = Inr exits" "write_squad i inp exits db = Inr (s, db')"
    using assms(1) by (rule updateSquad_Inr)
  obtain old where old: "find_squad (\<lambda>t. s_id t = i) db = Some old" "s = edit_squad inp old"
    "squads db' = map (\<lambda>t. if s_id t = i then s else t) (squads db)"
    "replace_exits i (su_exitAcl inp) exits db = Inr (cascade_exits db')"
    "replace_links (unique_error ''group_cascades_off_pkey'') (foreign_error ''group_cascades_off_cascade_id_fkey'')
      (map cs_id (cascades db)) i (map_option (\<lambda>acl. map snd (offRows i acl)) (su_exitAcl inp)) (cascades_off db) = Inr (cascades_off db')"
    using exits(2) by (rule write_squad_Inr)
  have rows: "exitAclRows i acl seen = Inr exits"
    by (rule update_checks_rows [OF exits(1) assms(2)])
  have sid: "s_id s = i"
    using find_squad_Some [OF old(1)] old(2) by simp
  have "find_squad (\<lambda>t. s_id t = i) db' = Some s"
    using old(1) sid unfolding find_squad_def old(3) by (rule find_replaced)
  then have view: "getSquadById i db' = Inr (mapSquadToPublic db' s)"
    by (simp add: getSquadById_def)
  have ce: "cascade_exits db' = filter (\<lambda>r. x_group r \<noteq> i) (cascade_exits db) @ exits"
    using old(4) assms(2) insert_exits_Inr by (simp add: replace_exits_def)
  have co: "cascades_off db' = filter (\<lambda>r. fst r \<noteq> i) (cascades_off db) @ map (Pair i) (map snd (offRows i acl))"
    using old(5) assms(2) by (simp add: replace_links_def insert_links_Inr)
  show ?thesis
    by (rule that [OF rows view sid ce co])
qed

lemma of_squad_fresh: "of_squad i (filter (\<lambda>r. fst r \<noteq> i) rows @ map (Pair i) xs) = xs"
  by (simp add: of_squad_def filter_empty_conv comp_def)

text \<open>C16. The allow-list a squad is saved with is the one that is read back: a cascade that is not in it has no
  entry, one given an empty list is off and has no row, and every other one is narrowed, by at least
  one row and never to everything, to exactly the directions it named, or to those whose pool held a
  node it named.\<close>

theorem saved_acl_reads_back:
  assumes "updateSquad i inp seen db = (Inr s, db', evs)" and "su_exitAcl inp = Some acl" and "acl_ok acl"
  shows "\<exists>view. getSquadById i db' = Inr view \<and>
    (\<forall>c. c \<notin> ae_cascade ` set acl \<longrightarrow> map_get (sv_exitAcl view) c = None) \<and>
    (\<forall>e \<in> set acl. map_get (sv_exitAcl view) (ae_cascade e) \<noteq> None \<and>
       dirs_of (sv_exitAcl view) (ae_cascade e) = (if givenList e = [] then {} else meant seen e) \<and>
       ((i, ae_cascade e) \<in> set (cascades_off db') \<longleftrightarrow> givenList e = []) \<and>
       ((\<exists>r \<in> set (cascade_exits db'). x_group r = i \<and> x_cascade r = ae_cascade e) \<longleftrightarrow> givenList e \<noteq> []))"
proof -
  have dist: "distinct (map ae_cascade acl)"
    using assms(3) by (simp add: acl_ok_def)
  obtain exits where st: "exitAclRows i acl seen = Inr exits" "getSquadById i db' = Inr (mapSquadToPublic db' s)" "s_id s = i"
    "cascade_exits db' = filter (\<lambda>r. x_group r \<noteq> i) (cascade_exits db) @ exits"
    "cascades_off db' = filter (\<lambda>r. fst r \<noteq> i) (cascades_off db) @ map (Pair i) (map snd (offRows i acl))"
    using assms(1,2) by (rule saved_acl_rows)
  note rows = exitAclRows_Inr [OF st(1) dist]
  define off where "off = map snd (offRows i acl)"
  have off: "c \<in> set off \<longleftrightarrow> (\<exists>e \<in> set acl. givenList e = [] \<and> ae_cascade e = c)" for c
    unfolding off_def offRows_cascades by auto
  have same: "e = f" if "e \<in> set acl" "f \<in> set acl" "ae_cascade e = ae_cascade f" for e f
    using dist that by (auto simp: distinct_map inj_on_def)
  have mine: "filter (\<lambda>r. x_group r = i) (cascade_exits db') = exits"
    using rows(1) by (simp add: st(4) filter_empty_conv)
  have view: "sv_exitAcl (mapSquadToPublic db' s) = groupExitAcl db' exits off"
    unfolding mapSquadToPublic_def st(3) mine st(5) of_squad_fresh off_def [symmetric] by simp
  have absent: "map_get (groupExitAcl db' exits off) c = None" if "c \<notin> ae_cascade ` set acl" for c
    using that rows(1) unfolding groupExitAcl_get off by auto
  have entry: "map_get (groupExitAcl db' exits off) (ae_cascade e) \<noteq> None \<and>
      dirs_of (groupExitAcl db' exits off) (ae_cascade e) = (if givenList e = [] then {} else meant seen e) \<and>
      ((i, ae_cascade e) \<in> set (cascades_off db') \<longleftrightarrow> givenList e = []) \<and>
      ((\<exists>r \<in> set (cascade_exits db'). x_group r = i \<and> x_cascade r = ae_cascade e) \<longleftrightarrow> givenList e \<noteq> [])"
    if e: "e \<in> set acl" for e
  proof -
    have isoff: "ae_cascade e \<in> set off \<longleftrightarrow> givenList e = []"
      using off same e by blast
    have has: "(\<exists>r \<in> set exits. x_cascade r = ae_cascade e) \<longleftrightarrow> givenList e \<noteq> []"
      using rows e same by metis
    have "(i, ae_cascade e) \<in> set (cascades_off db') \<longleftrightarrow> ae_cascade e \<in> set off"
      unfolding st(5) off_def by auto
    moreover have "(\<exists>r \<in> set (cascade_exits db'). x_group r = i \<and> x_cascade r = ae_cascade e) \<longleftrightarrow> (\<exists>r \<in> set exits. x_cascade r = ae_cascade e)"
      using rows(1) unfolding st(4) by auto
    ultimately show ?thesis
      using isoff has rows(2) [OF e] unfolding groupExitAcl_get by auto
  qed
  show ?thesis
    using absent entry by (intro exI [of _ "mapSquadToPublic db' s"]) (simp add: st(2) view)
qed

section \<open>A squad narrowed to one direction\<close>

definition demo_squad_db :: panel_db where
  "demo_squad_db = demo_db\<lparr>
     squads := squads demo_db @ [\<lparr>s_id = ''g1'', s_name = ''Gold'', s_description = None, s_preset = None,
       s_customPreset = None, s_hwidLimit = None\<rparr>],
     cascades := [\<lparr>cs_id = ''c1'', cs_name = ''one'', cs_enabled = True, cs_createdAt = 0, cs_hops = [], cs_positions = [],
         cs_directions = [(''d1'', [''n1'']), (''d2'', [''n2''])]\<rparr>,
       \<lparr>cs_id = ''c2'', cs_name = ''two'', cs_enabled = True, cs_createdAt = 0, cs_hops = [], cs_positions = [],
         cs_directions = []\<rparr>]\<rparr>"

definition demo_acl :: "acl_entry list" where
  "demo_acl = [\<lparr>ae_cascade = ''c1'', ae_directions = None, ae_exits = Some [''n2'']\<rparr>,
     \<lparr>ae_cascade = ''c2'', ae_directions = Some [], ae_exits = None\<rparr>]"

definition demo_acl_update :: squad_update where
  "demo_acl_update = \<lparr>su_name = None, su_description = None, su_preset = None, su_customPreset = None, su_hwidLimit = None,
     su_profiles = None, su_hosts = None, su_exitAcl = Some demo_acl, su_policies = None\<rparr>"

lemma demo_acl_saved:
  "\<exists>s db' evs. updateSquad ''g1'' demo_acl_update demo_squad_db demo_squad_db = (Inr s, db', evs)"
proof -
  have "\<not> isl (fst (updateSquad ''g1'' demo_acl_update demo_squad_db demo_squad_db))"
    by code_simp
  then obtain s where "fst (updateSquad ''g1'' demo_acl_update demo_squad_db demo_squad_db) = Inr s"
    by (cases "fst (updateSquad ''g1'' demo_acl_update demo_squad_db demo_squad_db)") auto
  then show ?thesis
    by (metis prod.collapse)
qed

theorem saved_acl_reads_back_witness:
  "\<exists>s db' evs view. updateSquad ''g1'' demo_acl_update demo_squad_db demo_squad_db = (Inr s, db', evs) \<and>
     getSquadById ''g1'' db' = Inr view \<and> dirs_of (sv_exitAcl view) ''c1'' = {''d2''} \<and> map_get (sv_exitAcl view) ''c2'' \<noteq> None"
proof -
  obtain s db' evs where run: "updateSquad ''g1'' demo_acl_update demo_squad_db demo_squad_db = (Inr s, db', evs)"
    using demo_acl_saved by blast
  have acl: "su_exitAcl demo_acl_update = Some demo_acl" "acl_ok demo_acl"
    by (simp_all add: demo_acl_update_def acl_ok_def demo_acl_def)
  have meant: "meant demo_squad_db \<lparr>ae_cascade = ''c1'', ae_directions = None, ae_exits = Some [''n2'']\<rparr> = {''d2''}"
    by (auto simp: meant_def own_directions_def demo_squad_db_def givenList_def)
  obtain view where view: "getSquadById ''g1'' db' = Inr view"
    "\<forall>e \<in> set demo_acl. map_get (sv_exitAcl view) (ae_cascade e) \<noteq> None \<and>
       dirs_of (sv_exitAcl view) (ae_cascade e) = (if givenList e = [] then {} else meant demo_squad_db e)"
    using saved_acl_reads_back [OF run acl] by blast
  have "dirs_of (sv_exitAcl view) ''c1'' = {''d2''}" "map_get (sv_exitAcl view) ''c2'' \<noteq> None"
    using view(2) meant by (simp_all add: demo_acl_def givenList_def)
  then show ?thesis
    using run view(1) by blast
qed

end
