(* ===== verification/Roster.thy ===== *)
theory Roster
  imports Retention SquadRules
begin

text \<open>
  Everything that writes users and squads, as one machine: the calls of both services, each with any
  state as the one it read, the scheduled jobs and the erasure, in any order.
\<close>

inductive roster_step :: "panel_db \<Rightarrow> panel_db \<Rightarrow> bool" where
  created: "createUser sha inp drawn now seen db = (r1, db', evs) \<Longrightarrow> roster_step db db'"
| updated: "updateUser i upd now seen db = (r2, db', evs) \<Longrightarrow> roster_step db db'"
| deleted: "deleteUser i now seen db = (r3, db', evs) \<Longrightarrow> roster_step db db'"
| revoked: "revokeSubscription i now seen db = (r4, db', evs) \<Longrightarrow> roster_step db db'"
| rotated: "rotateSubscription i tokens now seen db = (r5, db', evs) \<Longrightarrow> roster_step db db'"
| reissued: "reissueCredentials i draws now seen db = (r6, db', evs) \<Longrightarrow> roster_step db db'"
| reset: "resetUserTraffic i now seen db = (r7, db', evs) \<Longrightarrow> roster_step db db'"
| batch: "bulkUsers action now ids db = (r8, db', evs) \<Longrightarrow> roster_step db db'"
| strategy: "resetTrafficForStrategy s now db = (n, db', evs) \<Longrightarrow> roster_step db db'"
| rolling: "resetTrafficRolling now db = (n, db', evs) \<Longrightarrow> roster_step db db'"
| expiry: "findExpiredUsers now db = (n, db', jobs, evs) \<Longrightarrow> roster_step db db'"
| quota: "findExceededTrafficUsers now db = (n, db', jobs, evs) \<Longrightarrow> roster_step db db'"
| squad_created: "createSquad i new seen db = (r9, db', evs) \<Longrightarrow> roster_step db db'"
| squad_updated: "updateSquad i edit seen db = (r10, db', evs) \<Longrightarrow> roster_step db db'"
| squad_deleted: "deleteSquad i seen db = (r11, db', evs) \<Longrightarrow> roster_step db db'"
| erased: "purgeDeletedUsers sha now db = (n, db') \<Longrightarrow> roster_step db db'"
| forgotten: "forget_devices now db = (n, db') \<Longrightarrow> roster_step db db'"
| device: "enforceHwid systemMax i hwid limit x now seen db = (r12, db') \<Longrightarrow> roster_step db db'"

lemma users_wf_devices: "users_wf (db\<lparr>devices := ds\<rparr>) = users_wf db"
  by (simp add: users_wf_def squads_of_def)

lemma counters_wf:
  assumes "users_wf db"
  shows "resetTrafficForStrategy s now db = (n, db', evs) \<Longrightarrow> users_wf db'" and "resetTrafficRolling now db = (n, db', evs) \<Longrightarrow> users_wf db'"
  using assms by (auto simp: resetTrafficForStrategy_def resetTrafficRolling_def zero_counters_def users_wf_traffic Let_def split: if_splits)

lemma ticks_wf:
  assumes "users_wf db"
  shows "findExpiredUsers now db = (n, db', jobs, evs) \<Longrightarrow> users_wf db'" and "findExceededTrafficUsers now db = (n, db', jobs, evs) \<Longrightarrow> users_wf db'"
  using flip_users_wf [OF assms] by (auto simp: findExpiredUsers_def findExceededTrafficUsers_def flip_users_db)

lemma purge_wf: "users_wf db \<Longrightarrow> purgeDeletedUsers sha now db = (n, db') \<Longrightarrow> users_wf db'"
  using purged(2) drop_users_wf by blast

lemma device_table: "enforceHwid systemMax i hwid limit x now seen db = (r, db') \<Longrightarrow> \<exists>ds. db' = db\<lparr>devices := ds\<rparr>"
proof -
  assume run: "enforceHwid systemMax i hwid limit x now seen db = (r, db')"
  have same: "\<exists>ds. db = db\<lparr>devices := ds\<rparr>"
    by (rule exI [of _ "devices db"]) simp
  consider "db' = db" | existing where "known_device i limit existing now db = (r, db')"
    | h where "new_device systemMax i h limit x now db = (r, db')"
    using run by (auto simp: enforceHwid_def split: option.splits if_splits)
  then show ?thesis
    using same
    by cases (auto simp: known_device_def touch_device_def new_device_def Let_def split: if_splits sum.splits dest!: insert_device_Inr(1))
qed

lemma forget_table: "forget_devices now db = (n, db') \<Longrightarrow> \<exists>ds. db' = db\<lparr>devices := ds\<rparr>"
  unfolding forget_devices_def Let_def by blast

lemma device_wf:
  assumes "users_wf db"
  shows "enforceHwid systemMax i hwid limit x now seen db = (r, db') \<Longrightarrow> users_wf db'" and "forget_devices now db = (n, db') \<Longrightarrow> users_wf db'"
  using assms by (auto simp: users_wf_devices dest!: device_table forget_table)

lemmas writers_wf = service_wf squads_wf counters_wf ticks_wf purge_wf device_wf

lemma roster_step_wf: "roster_step db db' \<Longrightarrow> users_wf db \<Longrightarrow> users_wf db'"
proof (induction rule: roster_step.induct)
  case (batch action now ids db r8 db' evs)
  then show ?case
    unfolding bulkUsers_def by (rule bulk_loop_wf [rotated])
next
  case (forgotten now db n db')
  then show ?case
    by (rule device_wf(2) [rotated])
qed (erule (1) writers_wf)+

lemma roster_run_wf: "roster_step\<^sup>*\<^sup>* db db' \<Longrightarrow> users_wf db \<Longrightarrow> users_wf db'"
  by (induction rule: rtranclp_induct) (auto intro: roster_step_wf)



end
