(* ===== verification/SyncRuns.thy ===== *)
theory SyncRuns
  imports UserSync Roster
begin

text \<open>
  The rollout as one machine: the calls of the services and the scheduled jobs, each at one moment, the
  delivery of events and the attempts at jobs, in any order. What it keeps: whenever a node does not hold
  what the database says it should, something is queued that will put it right.
\<close>

section \<open>What a node should hold\<close>

definition active_now :: "string \<Rightarrow> panel_db \<Rightarrow> bool" where
  "active_now i db \<longleftrightarrow> active_row i db \<noteq> None"

definition wanted :: "(string \<Rightarrow> string) \<Rightarrow> string list \<Rightarrow> panel_db \<Rightarrow> string \<Rightarrow> string \<Rightarrow> add_request option" where
  "wanted sha dead db n i =
     (case active_row i db of
        None \<Rightarrow> None
      | Some u \<Rightarrow> map_option (\<lambda>ids. add_request_for sha u ids None None) (map_get (reach_of dead i db) n))"

text \<open>A request apart from the tunnel addresses.\<close>

definition bare :: "add_request \<Rightarrow> add_request" where
  "bare r = r\<lparr>ar_awgIp := None, ar_awgIp3 := None\<rparr>"

text \<open>A node that never took a push gets its users with its first one.\<close>

definition right_at :: "(string \<Rightarrow> string) \<Rightarrow> string list \<Rightarrow> panel_db \<Rightarrow> fleet \<Rightarrow> string \<Rightarrow> node_row \<Rightarrow> bool" where
  "right_at sha dead db held i n \<longleftrightarrow>
     map_option bare (held (n_id n) i) = wanted sha dead db (n_id n) i \<or>
     n_lastInboundSyncAt n = None \<and> wanted sha dead db (n_id n) i \<noteq> None"

definition in_step :: "(string \<Rightarrow> string) \<Rightarrow> string list \<Rightarrow> string \<Rightarrow> sync_state \<Rightarrow> bool" where
  "in_step sha dead i st \<longleftrightarrow> list_all (right_at sha dead (sy_db st) (sy_held st) i) (fetchActiveNodes (sy_db st))"

text \<open>The job that puts a user right, and what will lead to it.\<close>

definition due_job :: "panel_db \<Rightarrow> string \<Rightarrow> node_job" where
  "due_job db i = (if active_now i db then AddUser i else RemoveUser i)"

definition queued_by :: "panel_db \<Rightarrow> domain_event \<Rightarrow> node_job list" where
  "queued_by db e = fst (snd (handle_event 0 e db db))"

definition pending :: "sync_state \<Rightarrow> node_job \<Rightarrow> bool" where
  "pending st j \<longleftrightarrow> j \<in> fst ` set (sy_jobs st) \<or> j \<in> set (sy_failed st) \<or> (\<exists>e \<in> set (sy_events st). j \<in> set (queued_by (sy_db st) e))"

section \<open>The steps\<close>

text \<open>A call at one moment: the database it leaves, the jobs it queues and the events it emits. A squad may
  be deleted when its members are among \<open>left\<close>: nothing is emitted for them.\<close>

inductive call_step :: "string set \<Rightarrow> panel_db \<Rightarrow> panel_db \<Rightarrow> node_job list \<Rightarrow> domain_event list \<Rightarrow> bool" for left where
  created: "createUser sha inp drawn now db db = (r1, db', evs) \<Longrightarrow> call_step left db db' [] evs"
| updated: "updateUser i upd now db db = (r2, db', evs) \<Longrightarrow> call_step left db db' [] evs"
| deleted: "deleteUser i now db db = (r3, db', evs) \<Longrightarrow> call_step left db db' [] evs"
| revoked: "revokeSubscription i now db db = (r4, db', evs) \<Longrightarrow> call_step left db db' [] evs"
| rotated: "rotateSubscription i tokens now db db = (r5, db', evs) \<Longrightarrow> call_step left db db' [] evs"
| reissued: "reissueCredentials i draws now db db = (r6, db', evs) \<Longrightarrow> call_step left db db' [] evs"
| reset: "resetUserTraffic i now db db = (r7, db', evs) \<Longrightarrow> call_step left db db' [] evs"
| batch: "bulk_one action now i db = (r8, db', evs) \<Longrightarrow> call_step left db db' [] evs"
| strategy: "resetTrafficForStrategy s now db = (n, db', evs) \<Longrightarrow> call_step left db db' [] evs"
| rolling: "resetTrafficRolling now db = (n, db', evs) \<Longrightarrow> call_step left db db' [] evs"
| expiry: "findExpiredUsers now db = (n, db', jobs, evs) \<Longrightarrow> call_step left db db' (map fst jobs) evs"
| quota: "findExceededTrafficUsers now db = (n, db', jobs, evs) \<Longrightarrow> call_step left db db' (map fst jobs) evs"
| reconciled: "reconcileOrphanNodeUsers now db = (n, jobs) \<Longrightarrow> call_step left db db (map fst (filter fresh jobs)) []"
| squad_created: "createSquad g new db db = (r9, db', evs) \<Longrightarrow> call_step left db db' [] evs"
| squad_updated: "updateSquad g edit db db = (r10, db', evs) \<Longrightarrow> call_step left db db' [] evs"
| squad_deleted: "deleteSquad g db db = (r11, db', evs) \<Longrightarrow> {i. (g, i) \<in> set (members db)} \<subseteq> left \<Longrightarrow> call_step left db db' [] evs"
| erased: "purgeDeletedUsers sha now db = (n, db') \<Longrightarrow> call_step left db db' [] []"
| forgotten: "forget_devices now db = (n, db') \<Longrightarrow> call_step left db db' [] []"
| device: "enforceHwid systemMax i hwid limit x now db db = (r12, db') \<Longrightarrow> call_step left db db' [] []"

inductive sync_step :: "string set \<Rightarrow> (string \<Rightarrow> string) \<Rightarrow> string list \<Rightarrow> sync_state \<Rightarrow> sync_state \<Rightarrow> bool" for left sha dead where
  call: "call_step left (sy_db st) db' js evs \<Longrightarrow>
    sync_step left sha dead st (st\<lparr>sy_db := db', sy_events := sy_events st @ evs, sy_jobs := sy_jobs st @ map queue_job js\<rparr>)"
| delivery: "k < length (sy_events st) \<Longrightarrow> sync_step left sha dead st (deliver now k st)"
| attempted: "k < length (sy_jobs st) \<Longrightarrow> sync_step left sha dead st (attempt sha dead outcome k st)"
| stalled: "k < length (sy_jobs st) \<Longrightarrow> sync_step left sha dead st (st\<lparr>sy_jobs := sy_jobs st @ [sy_jobs st ! k]\<rparr>)"

section \<open>What the need of a user depends on\<close>

definition same_world :: "panel_db \<Rightarrow> panel_db \<Rightarrow> bool" where
  "same_world a b \<longleftrightarrow> bindings b = bindings a \<and> profiles b = profiles a \<and> nodes b = nodes a \<and> cascades b = cascades a"

definition same_squad :: "string \<Rightarrow> panel_db \<Rightarrow> panel_db \<Rightarrow> bool" where
  "same_squad g a b \<longleftrightarrow>
     (\<forall>x. ((g, x) \<in> set (group_profiles b) \<longleftrightarrow> (g, x) \<in> set (group_profiles a)) \<and>
          ((g, x) \<in> set (group_hosts b) \<longleftrightarrow> (g, x) \<in> set (group_hosts a)) \<and>
          ((g, x) \<in> set (cascades_off b) \<longleftrightarrow> (g, x) \<in> set (cascades_off a)))"

definition known_as :: "user_row \<Rightarrow> string \<times> string \<times> string \<times> identities" where
  "known_as u = (u_id u, u_shortId u, u_username u, u_identities u)"

definition same_need :: "string \<Rightarrow> panel_db \<Rightarrow> panel_db \<Rightarrow> bool" where
  "same_need i a b \<longleftrightarrow> same_world a b \<and> map_option known_as (active_row i b) = map_option known_as (active_row i a) \<and>
     (active_now i b \<longrightarrow>
       (\<forall>g. ((g, i) \<in> set (members b) \<longleftrightarrow> (g, i) \<in> set (members a)) \<and> ((g, i) \<in> set (members a) \<longrightarrow> same_squad g a b)))"

lemma in_hosts_of: "h \<in> set (hosts_of g db) \<longleftrightarrow> (g, h) \<in> set (group_hosts db)"
  by (force simp: hosts_of_def)

lemma no_hosts_of: "hosts_of g db = [] \<longleftrightarrow> (\<forall>h. (g, h) \<notin> set (group_hosts db))"
  using in_hosts_of by (metis empty_iff equals0I list.set(1) set_empty)

lemma squad_reaches_cong:
  assumes "same_world a b" and "same_squad g a b"
  shows "squad_reaches dead g b x \<longleftrightarrow> squad_reaches dead g a x"
proof -
  have "binding_protocol x b = binding_protocol x a"
    using assms(1) by (simp add: binding_protocol_def profile_of_def same_world_def)
  moreover have "entriesSwitchedOff dead g b = entriesSwitchedOff dead g a"
    using assms by (simp add: entriesSwitchedOff_def same_world_def same_squad_def)
  ultimately show ?thesis
    using assms(2) by (simp add: squad_reaches_def in_hosts_of no_hosts_of same_squad_def)
qed

lemma reaches_cong:
  assumes "same_world a b" and "\<And>g. (g, i) \<in> set (members b) \<longleftrightarrow> (g, i) \<in> set (members a)"
    and "\<And>g. (g, i) \<in> set (members a) \<Longrightarrow> same_squad g a b"
  shows "reaches dead b i x \<longleftrightarrow> reaches dead a i x"
proof -
  have "(\<exists>g. (g, i) \<in> set (members b) \<and> squad_reaches dead g b x) \<longleftrightarrow> (\<exists>g. (g, i) \<in> set (members a) \<and> squad_reaches dead g a x)"
    using assms squad_reaches_cong by blast
  then show ?thesis
    using assms(1) by (simp add: reaches_def profile_of_def node_of_def same_world_def)
qed

lemma reach_of_spec:
  "case map_get (reach_of dead i db) n of
      None \<Rightarrow> \<not> (\<exists>b \<in> set (bindings db). b_node b = n \<and> reaches dead db i b)
    | Some l \<Rightarrow> l \<noteq> [] \<and> sorted l \<and> distinct l \<and> set l = b_id ` {b \<in> set (bindings db). b_node b = n \<and> reaches dead db i b}"
proof -
  have "map_get (reach_of dead i db) n = looked_up (reachOfUsers dead (Some [i]) None db) i n"
    by (simp add: reach_of_def looked_up_def split: option.split)
  then show ?thesis
    using reach_spec [of "Some [i]" db i, where dead = dead and n = n] by (simp add: asked_about_def)
qed

lemma reach_of_cong:
  assumes "bindings b = bindings a" and "\<And>x. reaches dead b i x \<longleftrightarrow> reaches dead a i x"
  shows "map_get (reach_of dead i b) n = map_get (reach_of dead i a) n"
  using reach_of_spec [where dead = dead and i = i and db = a and n = n] reach_of_spec [where dead = dead and i = i and db = b and n = n] assms
  by (auto split: option.splits simp: sorted_distinct_set_unique)

lemma same_need_wanted:
  assumes "same_need i a b"
  shows "wanted sha dead b n i = wanted sha dead a n i"
proof (cases "active_row i b")
  case None
  then show ?thesis
    using assms by (simp add: wanted_def same_need_def)
next
  case (Some u)
  then have "map_option known_as (active_row i a) = Some (known_as u)"
    using assms by (simp add: same_need_def)
  then obtain v where v: "active_row i a = Some v" "known_as u = known_as v"
    by auto
  have "map_get (reach_of dead i b) n = map_get (reach_of dead i a) n"
    using assms Some by (intro reach_of_cong reaches_cong) (auto simp: same_need_def same_world_def active_now_def)
  then show ?thesis
    using v by (simp add: wanted_def Some add_request_for_def known_as_def wire_of_def)
qed

lemma same_need_nodes: "same_need i a b \<Longrightarrow> fetchActiveNodes b = fetchActiveNodes a"
  by (simp add: same_need_def same_world_def fetchActiveNodes_def)

lemma same_need_active: "same_need i a b \<Longrightarrow> active_now i b = active_now i a"
  unfolding same_need_def active_now_def by (metis option.map_disc_iff)

lemma same_need_due: "same_need i a b \<Longrightarrow> due_job b i = due_job a i"
  by (simp add: due_job_def same_need_active)

lemma active_row_Some:
  "active_row i db = Some u \<Longrightarrow> u \<in> set (users db) \<and> u_id u = i \<and> u_deletedAt u = None \<and> u_status u = Active"
  by (auto simp: active_row_def findActiveById_def split: option.splits if_splits dest: find_user_Some)

lemma same_need_queued:
  assumes "same_need i a b" and "due_job b i \<in> set (queued_by a e)"
  shows "due_job b i \<in> set (queued_by b e)"
  using assms active_row_Some [of i b]
  by (cases e)
    (auto simp: queued_by_def handle_event_def due_job_def same_need_def active_now_def image_iff
      dest: active_row_Some split: if_splits option.splits)


section \<open>Every call accounts for what it changes\<close>

definition accounts :: "string \<Rightarrow> panel_db \<Rightarrow> panel_db \<Rightarrow> node_job list \<Rightarrow> domain_event list \<Rightarrow> bool" where
  "accounts i a b js evs \<longleftrightarrow> same_need i a b \<or> due_job b i \<in> set js \<or> (\<exists>e \<in> set evs. due_job b i \<in> set (queued_by b e))"

definition live :: "user_row \<Rightarrow> bool" where
  "live u \<longleftrightarrow> u_deletedAt u = None \<and> u_status u = Active"

lemma active_row_of:
  assumes wf: "users_wf db" and u: "u \<in> set (users db)" "u_id u = i"
  shows "active_row i db = (if live u then Some u else None)"
proof (cases "u_deletedAt u = None")
  case True
  then have "findActiveById i db = Some u"
    using u by (simp add: findActiveById_Some [OF wf])
  then show ?thesis
    using True by (simp add: active_row_def live_def)
next
  case False
  have "v = u" if "v \<in> set (users db)" "u_id v = i" for v
    using wf u that by (auto simp: users_wf_def distinct_map inj_on_def)
  then have "findActiveById i db = None"
    using False by (cases "findActiveById i db") (auto simp: findActiveById_Some [OF wf])
  then show ?thesis
    using False by (simp add: active_row_def live_def)
qed

lemma active_row_live: "active_row i db = Some u \<Longrightarrow> u \<in> set (users db) \<and> u_id u = i \<and> live u"
  using active_row_Some [of i db u] by (simp add: live_def)

lemma same_need_refl [simp]: "same_need i a a"
  by (simp add: same_need_def same_world_def same_squad_def)

lemma accounts_same [simp]: "accounts i a a js evs"
  by (simp add: accounts_def)

text \<open>A write that leaves the squads alone.\<close>

definition same_grants :: "panel_db \<Rightarrow> panel_db \<Rightarrow> bool" where
  "same_grants a b \<longleftrightarrow> same_world a b \<and> group_profiles b = group_profiles a \<and> group_hosts b = group_hosts a \<and> cascades_off b = cascades_off a"

lemma same_need_rows:
  assumes "same_grants a b" and "map_option known_as (active_row i b) = map_option known_as (active_row i a)"
    and "\<And>g. (g, i) \<in> set (members b) \<longleftrightarrow> (g, i) \<in> set (members a)"
  shows "same_need i a b"
  using assms by (simp add: same_need_def same_grants_def same_squad_def)

lemma active_row_rows: "users b = users a \<Longrightarrow> active_row i b = active_row i a"
  by (simp add: active_row_def findActiveById_def find_user_def)

lemma same_need_tables: "same_grants a b \<Longrightarrow> users b = users a \<Longrightarrow> members b = members a \<Longrightarrow> same_need i a b"
  using active_row_rows [of b a i] by (intro same_need_rows) simp_all

lemma updateById_effect:
  assumes wf: "users_wf db" and upd: "updateById i f gs b now db = Inr (u', db')"
    and keeps: "\<And>u. u_id (f u) = u_id u" and some: "gs \<noteq> Some []"
  obtains u where "u \<in> set (users db)" and "u_id u = i" and "u' = (f u)\<lparr>u_updatedAt := now\<rparr>"
    and "active_row i db = (if live u then Some u else None)" and "active_row i db' = (if live u' then Some u' else None)"
    and "\<And>j. j \<noteq> i \<Longrightarrow> same_need j db db'"
    and "gs = None \<or> \<not> live u' \<Longrightarrow> map_option known_as (active_row i db') = map_option known_as (active_row i db) \<Longrightarrow> same_need i db db'"
proof -
  obtain db1 u where db1: "(if b then ensureAllSquad db else Inr db) = Inr db1"
    and u: "find_user (\<lambda>u. u_id u = i) db1 = Some u" and u': "u' = (f u)\<lparr>u_updatedAt := now\<rparr>"
    and db': "db' = db1\<lparr>users := map (\<lambda>v. if u_id v = i then u' else v) (users db1),
           members := (case gs of None \<Rightarrow> members db1
             | Some g \<Rightarrow> filter (\<lambda>m. snd m \<noteq> i) (members db1) @ map (\<lambda>x. (x, i)) g)\<rparr>"
    by (rule updateById_Inr [OF upd]) blast
  obtain extra where extra: "db1 = db\<lparr>squads := squads db @ extra\<rparr>"
    using maybe_ensured [OF db1] by blast
  have mem: "u \<in> set (users db)" "u_id u = i" and id': "u_id u' = i"
    using find_user_Some [OF u] by (simp_all add: extra u' keeps)
  have grants: "same_grants db db'"
    by (simp add: db' extra same_grants_def same_world_def)
  have wf': "users_wf db'"
    by (rule updateById_wf [OF wf upd keeps some])
  have in': "u' \<in> set (users db')"
    using mem by (auto simp: db' extra)
  have others: "same_need j db db'" if "j \<noteq> i" for j
  proof -
    have "List.find (\<lambda>v. u_id v = j \<and> u_deletedAt v = None) (map (\<lambda>v. if u_id v = i then u' else v) us) =
        List.find (\<lambda>v. u_id v = j \<and> u_deletedAt v = None) us" for us
      using that id' by (induction us) auto
    then have "active_row j db' = active_row j db"
      by (simp add: active_row_def findActiveById_def find_user_def db' extra)
    then show ?thesis
      using that by (intro same_need_rows [OF grants]) (auto simp: db' extra split: option.splits)
  qed
  have own: "same_need i db db'"
    if "gs = None \<or> \<not> live u'" "map_option known_as (active_row i db') = map_option known_as (active_row i db)"
    using that(1)
  proof
    assume "gs = None"
    then show ?thesis
      using that(2) by (intro same_need_rows [OF grants]) (auto simp: db' extra)
  next
    assume "\<not> live u'"
    then show ?thesis
      using that(2) grants active_row_of [OF wf' in' id'] by (simp add: same_need_def active_now_def same_grants_def)
  qed
  show ?thesis
    by (rule that [OF mem u' active_row_of [OF wf mem] active_row_of [OF wf' in' id'] others own])
qed


lemma queued_by_simps [simp]:
  "queued_by db (Created i name) = [AddUser i]"
  "queued_by db (Updated i ch) = (if ''groupIds'' \<in> set ch \<or> ''credentials'' \<in> set ch then [AddUser i] else [])"
  "queued_by db (StatusChanged i s t) = (if t = Active then (if s \<noteq> Active then [AddUser i] else []) else [RemoveUser i])"
  "queued_by db (Deleted i) = [RemoveUser i]"
  "queued_by db (TrafficReset i n) = []"
  by (simp_all add: queued_by_def handle_event_def split: option.split)

lemma due_job_live: "active_row i db = (if live u then Some u else None) \<Longrightarrow> due_job db i = (if live u then AddUser i else RemoveUser i)"
  by (simp add: due_job_def active_now_def)

lemma edit_row_known [simp]:
  "known_as (edit_row inp nxt u\<lparr>u_updatedAt := now\<rparr>) = known_as u" "u_deletedAt (edit_row inp nxt u) = u_deletedAt u"
  "u_status (edit_row inp nxt u) = or_keep nxt (u_status u)"
  by (simp_all add: edit_row_def known_as_def Let_def)

lemma updateUser_accounts:
  assumes wf: "users_wf db" and run: "updateUser i inp now db db = (r, db', evs)"
  shows "accounts j db db' [] evs"
proof (cases r)
  case (Inl e)
  then have "db' = db"
    using run by (auto simp: updateUser_def Let_def split: option.splits sum.splits prod.splits if_splits)
  then show ?thesis
    by simp
next
  case (Inr u1)
  then obtain u0 b where u0: "findActiveById i db = Some u0"
    and w: "updateById i (edit_row inp (statusAfterEdit u0 (used_bytes i db) inp now)) (map_option picked_squads (ui_groupIds inp)) b now db = Inr (u1, db')"
    and evs: "evs = (case changedFields u0 inp (statusAfterEdit u0 (used_bytes i db) inp now) of [] \<Rightarrow> [] | ch \<Rightarrow> [Updated i ch]) @
      (case statusAfterEdit u0 (used_bytes i db) inp now of
         Some s \<Rightarrow> if s \<noteq> u_status u0 then [StatusChanged i (u_status u0) s] else [] | None \<Rightarrow> [])"
    using run unfolding updateUser_def Let_def by (auto split: option.splits sum.splits if_splits prod.splits)
  define nxt where "nxt = statusAfterEdit u0 (used_bytes i db) inp now"
  have gs: "map_option picked_squads (ui_groupIds inp) \<noteq> Some []"
    by auto
  obtain u where u: "u \<in> set (users db)" "u_id u = i" "u1 = (edit_row inp nxt u)\<lparr>u_updatedAt := now\<rparr>"
    "active_row i db = (if live u then Some u else None)" "active_row i db' = (if live u1 then Some u1 else None)"
    "\<And>j. j \<noteq> i \<Longrightarrow> same_need j db db'"
    "map_option picked_squads (ui_groupIds inp) = None \<or> \<not> live u1 \<Longrightarrow>
      map_option known_as (active_row i db') = map_option known_as (active_row i db) \<Longrightarrow> same_need i db db'"
    by (rule updateById_effect [OF wf w [folded nxt_def] edit_row_id gs]) (rule that)
  have "u = u0"
    using wf u(1,2) u0 by (auto simp: findActiveById_Some users_wf_def distinct_map inj_on_def)
  have due: "due_job db' i = (if live u1 then AddUser i else RemoveUser i)"
    by (rule due_job_live [OF u(5)])
  have st: "u_deletedAt u = None" "live u1 \<longleftrightarrow> or_keep nxt (u_status u) = Active"
    using u0 u(3) \<open>u = u0\<close> by (simp_all add: findActiveById_Some [OF wf] live_def)
  consider "j \<noteq> i" | s where "j = i" "nxt = Some s" "s \<noteq> u_status u" | "j = i" "or_keep nxt (u_status u) = u_status u"
    unfolding or_keep_def by (cases nxt) auto
  then show ?thesis
  proof cases
    case 2
    then have "StatusChanged i (u_status u) s \<in> set evs"
      by (simp add: evs \<open>u = u0\<close> nxt_def)
    moreover have "due_job db' i \<in> set (queued_by db' (StatusChanged i (u_status u) s))"
      using 2 st by (auto simp: due or_keep_def)
    ultimately show ?thesis
      using 2(1) unfolding accounts_def by blast
  next
    case 3
    have "live u1 \<longleftrightarrow> live u"
      using 3 st by (simp add: live_def)
    then have same: "map_option known_as (active_row i db') = map_option known_as (active_row i db)"
      using u(3) by (simp add: u(4,5))
    show ?thesis
    proof (cases "map_option picked_squads (ui_groupIds inp) = None \<or> \<not> live u1")
      case True
      then show ?thesis
        using u(7) same 3(1) by (simp add: accounts_def)
    next
      case False
      then have "''groupIds'' \<in> set (changedFields u0 inp nxt)"
        by (simp add: changedFields_def Let_def changed_if_def)
      then have "\<exists>ch. Updated i ch \<in> set evs \<and> ''groupIds'' \<in> set ch"
        unfolding evs nxt_def [symmetric] by (cases "changedFields u0 inp nxt") auto
      then show ?thesis
        using False 3(1) by (force simp: accounts_def due)
    qed
  qed (use u(6) in \<open>simp add: accounts_def\<close>)
qed


lemma createUser_accounts:
  assumes wf: "users_wf db" and run: "createUser sha inp drawn now db db = (r, db', evs)"
  shows "accounts j db db' [] evs"
proof (cases r)
  case (Inl e)
  then have "db' = db"
    using run by (auto simp: createUser_def Let_def split: sum.splits if_splits)
  then show ?thesis
    by simp
next
  case (Inr u)
  have "repo_create u (picked_squads (ci_groupIds inp)) (ci_groupIds inp = []) db = Inr db' \<and> u = new_user inp drawn now \<and>
      evs = [Created (u_id u) (u_username u)]"
    using run unfolding Inr createUser_def Let_def by (simp split: sum.splits if_splits) blast
  then obtain b where made: "repo_create u (picked_squads (ci_groupIds inp)) b db = Inr db'"
    and u: "u = new_user inp drawn now" and evs: "evs = [Created (u_id u) (u_username u)]"
    by blast
  obtain db1 where db1: "(if b then ensureAllSquad db else Inr db) = Inr db1" "insert_user u (picked_squads (ci_groupIds inp)) db1 = Inr db'"
    using made unfolding repo_create_def rbind_Inr_iff by blast
  obtain extra where extra: "db1 = db\<lparr>squads := squads db @ extra\<rparr>"
    using maybe_ensured [OF db1(1)] by blast
  have db': "db' = db1\<lparr>users := users db1 @ [u], user_traffic := map_set (u_id u) \<lparr>ut_used = 0, ut_lastReset = None\<rparr> (user_traffic db1),
      members := members db1 @ map (\<lambda>g. (g, u_id u)) (picked_squads (ci_groupIds inp))\<rparr>"
    using db1(2) by (auto simp: insert_user_def insert_members_Inr split: option.splits if_splits)
  show ?thesis
  proof (cases "j = u_id u")
    case True
    have "live u"
      by (simp add: u live_def new_user_def)
    moreover have "users_wf db'" "u \<in> set (users db')"
      using repo_create_wf [OF wf made] by simp_all
    ultimately have "active_row j db' = Some u"
      using active_row_of [of db' u j] True by simp
    then show ?thesis
      using True by (simp add: accounts_def evs due_job_def active_now_def)
  next
    case False
    have "List.find (\<lambda>v. u_id v = j \<and> u_deletedAt v = None) (us @ [u]) = List.find (\<lambda>v. u_id v = j \<and> u_deletedAt v = None) us" for us
      using False by (induction us) auto
    then have "active_row j db' = active_row j db"
      by (simp add: active_row_def findActiveById_def find_user_def db' extra)
    moreover have "same_grants db db'"
      by (simp add: db' extra same_grants_def same_world_def)
    ultimately have "same_need j db db'"
      using False by (intro same_need_rows) (auto simp: db' extra)
    then show ?thesis
      by (simp add: accounts_def)
  qed
qed

text \<open>A write of one row that keeps who the user is and whether they are active.\<close>

lemma quiet_update:
  assumes wf: "users_wf db" and upd: "updateById i f None b now db = Inr (u', db')"
    and keeps: "\<And>u. known_as (f u) = known_as u \<and> u_deletedAt (f u) = u_deletedAt u \<and> u_status (f u) = u_status u"
  shows "same_need j db db'"
proof -
  have id: "u_id (f u) = u_id u" for u
    using keeps [of u] by (simp add: known_as_def)
  have stamp: "known_as (u\<lparr>u_updatedAt := now\<rparr>) = known_as u" for u
    by (simp add: known_as_def)
  obtain u where u: "u' = (f u)\<lparr>u_updatedAt := now\<rparr>"
    "active_row i db = (if live u then Some u else None)" "active_row i db' = (if live u' then Some u' else None)"
    "\<And>j. j \<noteq> i \<Longrightarrow> same_need j db db'"
    "(None :: string list option) = None \<or> \<not> live u' \<Longrightarrow>
      map_option known_as (active_row i db') = map_option known_as (active_row i db) \<Longrightarrow> same_need i db db'"
    by (rule updateById_effect [OF wf upd id]) (simp, rule that)
  have "live u' \<longleftrightarrow> live u" "known_as u' = known_as u"
    using keeps [of u] by (simp_all add: live_def u(1) stamp)
  then have "same_need i db db'"
    using u(5) by (simp add: u(2,3))
  then show ?thesis
    using u(4) by (cases "j = i") simp_all
qed

lemma deleteUser_accounts:
  assumes wf: "users_wf db" and run: "deleteUser i now db db = (r, db', evs)"
  shows "accounts j db db' [] evs"
proof (cases r)
  case (Inl e)
  then have "db' = db"
    using run by (auto simp: deleteUser_def split: sum.splits if_splits)
  then show ?thesis
    by simp
next
  case (Inr v)
  then obtain u1 where w: "updateById i (u_deletedAt_update (\<lambda>_. Some now)) None False now db = Inr (u1, db')" and evs: "evs = [Deleted i]"
    using run by (auto simp: deleteUser_def split: sum.splits if_splits)
  obtain u where u: "u1 = (u_deletedAt_update (\<lambda>_. Some now) u)\<lparr>u_updatedAt := now\<rparr>"
    "active_row i db' = (if live u1 then Some u1 else None)" "\<And>j. j \<noteq> i \<Longrightarrow> same_need j db db'"
    by (rule updateById_effect [OF wf w]) (simp, simp, rule that)
  have "due_job db' i = RemoveUser i"
    unfolding due_job_live [OF u(2)] by (simp add: u(1) live_def)
  then show ?thesis
    using u(3) by (cases "j = i") (simp_all add: accounts_def evs)
qed

lemma revokeSubscription_accounts:
  assumes "users_wf db" and "revokeSubscription i now db db = (r, db', evs)"
  shows "accounts j db db' [] evs"
proof -
  have "db' = db \<or> (\<exists>u. updateById i (u_revokedAt_update (\<lambda>_. Some now)) None False now db = Inr (u, db'))"
    using assms(2) by (auto simp: revokeSubscription_def split: sum.splits if_splits)
  then show ?thesis
    using quiet_update [OF assms(1), of i "u_revokedAt_update (\<lambda>_. Some now)" False now _ db' j]
    by (auto simp: accounts_def known_as_def)
qed

lemma attempts_Inr:
  "attempts i f ch ds now db = (r, db', evs) \<Longrightarrow>
   db' = db \<or> (\<exists>d \<in> set ds. \<exists>u. updateById i (f d) None False now db = Inr (u, db') \<and> evs = [Updated i ch])"
  by (induction ds) (auto split: sum.splits if_splits)

lemma rotateSubscription_accounts:
  assumes "users_wf db" and "rotateSubscription i draw now db db = (r, db', evs)"
  shows "accounts j db db' [] evs"
proof -
  consider "db' = db" | d u where "updateById i (with_token d) None False now db = Inr (u, db')"
    using assms(2) attempts_Inr unfolding rotateSubscription_def by (fastforce split: if_splits)
  then show ?thesis
  proof cases
    case 2
    then show ?thesis
      using quiet_update [OF assms(1) 2, of j] by (simp add: accounts_def known_as_def with_token_def)
  qed simp
qed

lemma reissueCredentials_accounts:
  assumes wf: "users_wf db" and run: "reissueCredentials i draw now db db = (r, db', evs)"
  shows "accounts j db db' [] evs"
proof -
  consider "db' = db" | d u1 where "updateById i (with_credentials d) None False now db = Inr (u1, db')"
      "evs = [Updated i [''credentials'', ''subscriptionToken'', ''subRevokedAt'']]"
    using run attempts_Inr unfolding reissueCredentials_def by (fastforce split: if_splits)
  then show ?thesis
  proof cases
    case 2
    obtain u where u: "u1 = (with_credentials d u)\<lparr>u_updatedAt := now\<rparr>"
      "active_row i db = (if live u then Some u else None)" "active_row i db' = (if live u1 then Some u1 else None)"
      "\<And>j. j \<noteq> i \<Longrightarrow> same_need j db db'"
      "(None :: string list option) = None \<or> \<not> live u1 \<Longrightarrow>
        map_option known_as (active_row i db') = map_option known_as (active_row i db) \<Longrightarrow> same_need i db db'"
      by (rule updateById_effect [OF wf 2(1)]) (simp add: with_credentials_def, simp, rule that)
    have "live u1 \<longleftrightarrow> live u"
      by (simp add: live_def u(1) with_credentials_def)
    then have "accounts i db db' [] evs"
      using u(5) by (cases "live u1") (simp_all add: accounts_def 2(2) due_job_live [OF u(3)] u(2,3))
    then show ?thesis
      using u(4) by (cases "j = i") (simp_all add: accounts_def)
  qed simp
qed


lemma traffic_need [simp]: "same_need j db (db\<lparr>user_traffic := t\<rparr>)"
  by (rule same_need_tables) (simp_all add: same_grants_def same_world_def)

lemma devices_need [simp]: "same_need j db (db\<lparr>devices := ds\<rparr>)"
  by (rule same_need_tables) (simp_all add: same_grants_def same_world_def)

lemma resetUserTraffic_accounts: "resetUserTraffic i now db db = (r, db', evs) \<Longrightarrow> accounts j db db' [] evs"
  by (auto simp: resetUserTraffic_def resetTraffic_def accounts_def Let_def split: option.splits if_splits)

lemma counters_account:
  "resetTrafficForStrategy s now db = (n, db', evs) \<Longrightarrow> accounts j db db' [] evs"
  "resetTrafficRolling now db = (n, db', evs) \<Longrightarrow> accounts j db db' [] evs"
  by (auto simp: resetTrafficForStrategy_def resetTrafficRolling_def zero_counters_def accounts_def Let_def split: if_splits)

lemma bulk_one_accounts:
  assumes wf: "users_wf db" and run: "bulk_one action now i db = (r, db', evs)"
  shows "accounts j db db' [] evs"
proof -
  consider "db' = db" | inp r' where "updateUser i inp now db db = (r', db', evs)" | r' where "resetUserTraffic i now db db = (r', db', evs)"
    | r' where "revokeSubscription i now db db = (r', db', evs)" | r' where "deleteUser i now db db = (r', db', evs)"
    using run by (cases action) (auto simp: bulk_one_def Let_def split: option.splits if_splits prod.splits)
  then show ?thesis
    by cases (use wf in \<open>auto intro: updateUser_accounts resetUserTraffic_accounts revokeSubscription_accounts deleteUser_accounts\<close>)
qed

text \<open>The status jobs.\<close>

lemma flip_users_accounts:
  assumes wf: "users_wf db" and run: "flip_users s due now db = (n, db', jobs, evs)"
    and s: "s \<noteq> Active" and due: "\<And>u. due u \<Longrightarrow> live u"
  shows "accounts j db db' (map fst jobs) evs"
proof -
  have db': "db' = db\<lparr>users := map (flipped s now due) (users db)\<rparr>"
    and jobs: "jobs = map (\<lambda>u. (RemoveUser (u_id u), None)) (filter due (users db))"
    using run by (simp_all add: flip_users_db)
  have wf': "users_wf db'"
    unfolding db' by (rule flip_users_wf [OF wf])
  have grants: "same_grants db db'" "members db' = members db"
    by (simp_all add: db' same_grants_def same_world_def)
  show ?thesis
  proof (cases "\<exists>u \<in> set (users db). u_id u = j \<and> due u")
    case True
    then obtain u where u: "u \<in> set (users db)" "u_id u = j" "due u"
      by blast
    have "flipped s now due u \<in> set (users db')" "u_id (flipped s now due u) = j" "\<not> live (flipped s now due u)"
      using u s by (simp_all add: db' live_def)
    then have "due_job db' j = RemoveUser j"
      using active_row_of [OF wf'] by (simp add: due_job_def active_now_def)
    moreover have "RemoveUser j \<in> set (map fst jobs)"
      using u by (force simp: jobs)
    ultimately show ?thesis
      by (simp add: accounts_def)
  next
    case False
    have "active_row j db' = active_row j db"
    proof -
      have "List.find (\<lambda>v. u_id v = j \<and> u_deletedAt v = None) (map (flipped s now due) us) =
          List.find (\<lambda>v. u_id v = j \<and> u_deletedAt v = None) us" if "\<not> (\<exists>u \<in> set us. u_id u = j \<and> due u)" for us
        using that by (induction us) (auto simp: flipped_def)
      then show ?thesis
        using False by (simp add: active_row_def findActiveById_def find_user_def db')
    qed
    then show ?thesis
      using grants by (simp add: accounts_def same_need_rows)
  qed
qed

lemma ticks_account:
  assumes "users_wf db"
  shows "findExpiredUsers now db = (n, db', jobs, evs) \<Longrightarrow> accounts j db db' (map fst jobs) evs"
    and "findExceededTrafficUsers now db = (n, db', jobs, evs) \<Longrightarrow> accounts j db db' (map fst jobs) evs"
  unfolding findExpiredUsers_def findExceededTrafficUsers_def
  by (erule flip_users_accounts [OF assms]; simp add: expiry_due_def quota_due_def live_def)+

text \<open>The erasure only takes users deleted before.\<close>

lemma purge_accounts:
  assumes wf: "users_wf db" and run: "purgeDeletedUsers sha now db = (n, db')"
  shows "accounts j db db' [] []"
proof -
  define due where "due = filter (purge_due (now - DELETED_USER_RETENTION_DAYS * DAY_MS)) (users db)"
  have db': "db' = drop_users (map u_id due) (add_tombstones (tombstones sha due) db)"
    using purged(2) [OF wf run] by (simp add: due_def)
  have grants: "same_grants db db'"
    by (simp add: db' drop_users_def add_tombstones_def same_grants_def same_world_def)
  have key: "u = v" if "u \<in> set (users db)" "v \<in> set (users db)" "u_id u = u_id v" for u v
    using wf that by (auto simp: users_wf_def distinct_map inj_on_def)
  have wf': "users_wf db'"
    by (rule purge_wf [OF wf run])
  have "same_need j db db'"
  proof (cases "active_row j db")
    case (Some u)
    then have u: "u \<in> set (users db)" "u_id u = j" "live u"
      using active_row_live by blast+
    have "j \<notin> set (map u_id due)"
    proof
      assume "j \<in> set (map u_id due)"
      then obtain v where "v \<in> set due" "u_id v = j"
        by auto
      then show False
        using u key [of u v] by (auto simp: due_def purge_due_def live_def)
    qed
    then have "u \<in> set (users db')" "\<And>g. (g, j) \<in> set (members db') \<longleftrightarrow> (g, j) \<in> set (members db)"
      using u unfolding db' dropped by auto
    then show ?thesis
      using u active_row_of [OF wf', of u j] by (intro same_need_rows [OF grants]) (simp_all add: Some)
  next
    case None
    have "active_row j db' = None"
    proof (rule ccontr)
      assume "active_row j db' \<noteq> None"
      then obtain u where "u \<in> set (users db')" "u_id u = j" "live u"
        using active_row_live by blast
      then have "active_row j db = Some u"
        using active_row_of [OF wf, of u j] unfolding db' dropped by simp
      then show False
        using None by simp
    qed
    then show ?thesis
      using grants None by (simp add: same_need_def active_now_def same_grants_def)
  qed
  then show ?thesis
    by (simp add: accounts_def)
qed


text \<open>The squads.\<close>

lemma links_of_others:
  "insert_links taken gone known g xs rows = Inr rows' \<Longrightarrow> h \<noteq> g \<Longrightarrow> (h, x) \<in> set rows' \<longleftrightarrow> (h, x) \<in> set rows"
  "replace_links taken gone known g given rows = Inr rows' \<Longrightarrow> h \<noteq> g \<Longrightarrow> (h, x) \<in> set rows' \<longleftrightarrow> (h, x) \<in> set rows"
  by (auto simp: replace_links_def insert_links_Inr split: option.splits)

lemma insert_squad_grants:
  assumes "insert_squad s inp exits db = Inr db'"
  shows "same_world db db'" and "h \<noteq> s_id s \<Longrightarrow> same_squad h db db'"
  using assms by (auto simp: insert_squad_def same_world_def same_squad_def links_of_others(1) split: option.splits)

lemma write_squad_grants:
  assumes "write_squad i inp exits db = Inr (s', db')"
  shows "same_world db db'" and "h \<noteq> i \<Longrightarrow> same_squad h db db'"
  using assms
  by (auto simp: write_squad_def same_world_def same_squad_def links_of_others(2) Let_def split: option.splits)

lemma same_need_squads:
  assumes "same_world a b" and "users b = users a" and "members b = members a"
    and "\<And>g. active_now i b \<Longrightarrow> (g, i) \<in> set (members a) \<Longrightarrow> same_squad g a b"
  shows "same_need i a b"
  using assms active_row_rows [of b a i] by (simp add: same_need_def)

lemma queued_by_squad:
  "AddUser i \<in> set (queued_by db (SquadChanged g)) \<longleftrightarrow> (g, i) \<in> set (members db) \<and> (\<exists>u \<in> set (users db). u_id u = i \<and> live u)"
proof -
  have "set (queued_by db (SquadChanged g)) =
      AddUser ` {i \<in> snd ` {m \<in> set (members db). fst m = g}. \<exists>u \<in> set (users db). u_id u = i \<and> live u}"
    by (simp add: queued_by_def handle_event_def live_def)
  also have "snd ` {m \<in> set (members db). fst m = g} = {i. (g, i) \<in> set (members db)}"
    by force
  finally show ?thesis
    by (simp add: image_iff)
qed

lemma createSquad_accounts:
  assumes wf: "users_wf db" and run: "createSquad g new db db = (r, db', evs)"
  shows "accounts j db db' [] evs"
proof (cases r)
  case (Inl e)
  then have "db' = db"
    using run by (auto simp: createSquad_def Let_def split: if_splits sum.splits)
  then show ?thesis
    by simp
next
  case (Inr s)
  then obtain exits where new: "insert_squad (new_squad g new) new exits db = Inr db'"
    using run by (auto simp: createSquad_def Let_def split: if_splits sum.splits)
  have "same_squad h db db'" if "(h, j) \<in> set (members db)" for h
  proof (rule insert_squad_grants(2) [OF new])
    have "h \<in> s_id ` set (squads db)"
      using that wf by (force simp: users_wf_def)
    then show "h \<noteq> s_id (new_squad g new)"
      using insert_squad_Inr(2) [OF new] by auto
  qed
  then have "same_need j db db'"
    by (intro same_need_squads insert_squad_grants(1) [OF new] insert_squad_Inr(3,4) [OF new])
  then show ?thesis
    by (simp add: accounts_def)
qed

lemma updateSquad_accounts:
  assumes run: "updateSquad g edit db db = (r, db', evs)"
  shows "accounts j db db' [] evs"
proof (cases r)
  case (Inl e)
  then have "db' = db"
    using run by (auto simp: updateSquad_def split: sum.splits)
  then show ?thesis
    by simp
next
  case (Inr s)
  then obtain exits where w: "write_squad g edit exits db = Inr (s, db')" and evs: "evs = [SquadChanged g]"
    using run by (auto simp: updateSquad_def split: sum.splits)
  have tables: "users db' = users db" "members db' = members db"
    by (rule write_squad_Inr [OF w], simp)+
  show ?thesis
  proof (cases "(g, j) \<in> set (members db) \<and> active_now j db'")
    case True
    then obtain u where u: "u \<in> set (users db')" "u_id u = j" "live u"
      unfolding active_now_def using active_row_live by blast
    have "AddUser j \<in> set (queued_by db' (SquadChanged g))"
      unfolding queued_by_squad using True u tables by auto
    then show ?thesis
      using True by (simp add: accounts_def evs due_job_def)
  next
    case False
    then have "same_need j db db'"
    proof (intro same_need_squads write_squad_grants(1) [OF w] tables)
      show "same_squad h db db'" if "active_now j db'" "(h, j) \<in> set (members db)" for h
        by (rule write_squad_grants(2) [OF w]) (use False that in auto)
    qed
    then show ?thesis
      by (simp add: accounts_def)
  qed
qed

lemma deleteSquad_accounts:
  assumes run: "deleteSquad g db db = (r, db', evs)" and out: "(g, j) \<notin> set (members db)"
  shows "accounts j db db' [] evs"
proof (cases r)
  case (Inl e)
  then have "db' = db"
    using run by (auto simp: deleteSquad_def split: if_splits sum.splits)
  then show ?thesis
    by simp
next
  case (Inr v)
  then have ok: "deleteSquad g db db = (Inr (), db', evs)"
    using run by simp
  note facts = deleted_members [OF ok]
  have w: "backstop (reallyOrphaned g db) (drop_squad g db) = Inr db'"
    by (rule deleteSquad_Inr(1) [OF ok])
  have world: "same_world db db'" "\<And>h. h \<noteq> g \<Longrightarrow> same_squad h db db'"
    using w by (auto simp: backstop_def drop_squad_def same_world_def same_squad_def split: if_splits)
  have ms: "(h, j) \<in> set (members db') \<longleftrightarrow> (h, j) \<in> set (members db)" for h
    using out unfolding facts(1) by auto
  have "same_need j db db'"
    unfolding same_need_def
  proof (intro conjI impI allI world(1))
    show "map_option known_as (active_row j db') = map_option known_as (active_row j db)"
      by (simp add: active_row_rows [OF facts(2)])
    show "same_squad h db db'" if "(h, j) \<in> set (members db)" for h
      by (rule world(2)) (use that out in auto)
  qed (rule ms)
  then show ?thesis
    by (simp add: accounts_def)
qed

lemma call_step_accounts:
  assumes "call_step left db db' js evs" and "users_wf db" and "i \<notin> left"
  shows "accounts i db db' js evs"
  using assms
proof cases
  case (squad_deleted g r11)
  then show ?thesis
    using assms(3) deleteSquad_accounts by blast
next
  case (forgotten now n)
  then show ?thesis
    using forget_table by (fastforce simp: accounts_def)
next
  case (device systemMax j hwid limit x now r)
  then show ?thesis
    using device_table by (fastforce simp: accounts_def)
qed (use assms(2) createUser_accounts updateUser_accounts deleteUser_accounts revokeSubscription_accounts
    rotateSubscription_accounts reissueCredentials_accounts resetUserTraffic_accounts bulk_one_accounts counters_account
    ticks_account createSquad_accounts updateSquad_accounts purge_accounts in \<open>simp; blast\<close>)+

lemma call_step_wf: "call_step left db db' js evs \<Longrightarrow> users_wf db \<Longrightarrow> users_wf db'"
proof (induction rule: call_step.induct)
  case (batch action now i db r8 db' evs)
  then show ?case
    by (rule bulk_one_wf [rotated])
qed (assumption | erule (1) writers_wf)+


section \<open>What a job leaves\<close>

lemma peers_need [simp]: "same_need j db (db\<lparr>peers := ps\<rparr>)"
  by (rule same_need_tables) (simp_all add: same_grants_def same_world_def)

lemma awg_address_peers: "awg_address b ids u db = (ip, db') \<Longrightarrow> \<exists>ps. db' = db\<lparr>peers := ps\<rparr>"
proof -
  have "\<exists>ps. db = db\<lparr>peers := ps\<rparr>"
    by (rule exI [of _ "peers db"]) simp
  then show "awg_address b ids u db = (ip, db') \<Longrightarrow> \<exists>ps. db' = db\<lparr>peers := ps\<rparr>"
    by (auto simp: awg_address_def split: option.splits if_splits prod.splits)
qed

definition call_wanted :: "(string \<Rightarrow> string) \<Rightarrow> user_row \<Rightarrow> (string, string list) jsmap \<Rightarrow> string \<Rightarrow> add_request option" where
  "call_wanted sha u reach n = map_option (\<lambda>ids. add_request_for sha u ids None None) (map_get reach n)"

lemma bare_request [simp]: "bare (add_request_for sha u ids one three) = add_request_for sha u ids None None"
  by (simp add: bare_def add_request_for_def)

lemma take_call_other: "m \<noteq> n \<or> j \<noteq> i \<Longrightarrow> take_call r n i req held m j = held m j"
  by (auto simp: take_call_def)

lemma take_call_own: "take_call r n i req held n i = (if r = LostBefore then held n i else req)"
  by (simp add: take_call_def)

lemma add_call_effect:
  assumes "add_call sha outcome u reach n (ok, db, held) = (ok', db', held')"
  shows "\<exists>ps. db' = db\<lparr>peers := ps\<rparr>" and "m \<noteq> n_id n \<or> j \<noteq> u_id u \<Longrightarrow> held' m j = held m j"
    and "held' (n_id n) (u_id u) = held (n_id n) (u_id u) \<or> map_option bare (held' (n_id n) (u_id u)) = call_wanted sha u reach (n_id n)"
    and "ok' \<Longrightarrow> ok \<and> (map_get reach (n_id n) = None \<or> n_lastInboundSyncAt n \<noteq> None \<longrightarrow>
      map_option bare (held' (n_id n) (u_id u)) = call_wanted sha u reach (n_id n))"
proof -
  have same: "\<exists>ps. db = db\<lparr>peers := ps\<rparr>"
    by (rule exI [of _ "peers db"]) simp
  consider (off) "map_get reach (n_id n) = None" "ok' = (ok \<and> outcome (n_id n) = Answered)" "db' = db"
      "held' = take_call (outcome (n_id n)) (n_id n) (u_id u) None held"
    | (new) ids where "map_get reach (n_id n) = Some ids" "n_lastInboundSyncAt n = None" "ok' = ok" "db' = db" "held' = held"
    | (on) ids ip ip3 db1 one three where "map_get reach (n_id n) = Some ids" "n_lastInboundSyncAt n \<noteq> None"
      "awg_address one ids u db = (ip, db1)" "awg_address three ids u db1 = (ip3, db')"
      "ok' = (ok \<and> outcome (n_id n) = Answered)"
      "held' = take_call (outcome (n_id n)) (n_id n) (u_id u) (Some (add_request_for sha u ids ip ip3)) held"
    using assms by (auto simp: add_call_def Let_def split: option.splits if_splits prod.splits)
  note cases = this
  show "\<exists>ps. db' = db\<lparr>peers := ps\<rparr>"
    using cases
  proof cases
    case on
    then show ?thesis
      by (auto dest!: awg_address_peers)
  qed (use same in auto)
  show "held' m j = held m j" if "m \<noteq> n_id n \<or> j \<noteq> u_id u"
    using cases that by cases (simp_all add: take_call_other)
  show "held' (n_id n) (u_id u) = held (n_id n) (u_id u) \<or> map_option bare (held' (n_id n) (u_id u)) = call_wanted sha u reach (n_id n)"
    using cases by cases (simp_all add: take_call_own call_wanted_def)
  show "ok \<and> (map_get reach (n_id n) = None \<or> n_lastInboundSyncAt n \<noteq> None \<longrightarrow>
      map_option bare (held' (n_id n) (u_id u)) = call_wanted sha u reach (n_id n))" if "ok'"
    using cases that by cases (simp_all add: take_call_own call_wanted_def)
qed

lemma add_calls_effect:
  assumes "add_calls sha outcome u reach ns (ok, db, held) = (ok', db', held')"
  shows "\<exists>ps. db' = db\<lparr>peers := ps\<rparr>" and "j \<noteq> u_id u \<Longrightarrow> held' m j = held m j"
    and "map_option bare (held m (u_id u)) = call_wanted sha u reach m \<Longrightarrow> map_option bare (held' m (u_id u)) = call_wanted sha u reach m"
    and "ok' \<Longrightarrow> ok \<and> (\<forall>n \<in> set ns. map_get reach (n_id n) = None \<or> n_lastInboundSyncAt n \<noteq> None \<longrightarrow>
      map_option bare (held' (n_id n) (u_id u)) = call_wanted sha u reach (n_id n))"
proof -
  have "(\<exists>ps. db' = db\<lparr>peers := ps\<rparr>) \<and> (\<forall>m j. j \<noteq> u_id u \<longrightarrow> held' m j = held m j) \<and>
      (\<forall>m. map_option bare (held m (u_id u)) = call_wanted sha u reach m \<longrightarrow> map_option bare (held' m (u_id u)) = call_wanted sha u reach m) \<and>
      (ok' \<longrightarrow> ok \<and> (\<forall>n \<in> set ns. map_get reach (n_id n) = None \<or> n_lastInboundSyncAt n \<noteq> None \<longrightarrow>
        map_option bare (held' (n_id n) (u_id u)) = call_wanted sha u reach (n_id n)))"
    using assms
  proof (induction ns arbitrary: ok db held)
    case Nil
    then show ?case
      by (auto simp: add_calls_def intro!: exI [of _ "peers db"])
  next
    case (Cons n ns)
    obtain ok1 db1 held1 where one: "add_call sha outcome u reach n (ok, db, held) = (ok1, db1, held1)"
      by (metis prod_cases3)
    then have rest: "add_calls sha outcome u reach ns (ok1, db1, held1) = (ok', db', held')"
      using Cons.prems by (simp add: add_calls_def)
    note step = add_call_effect [OF one] and later = Cons.IH [OF rest]
    have kept: "map_option bare (held1 m (u_id u)) = call_wanted sha u reach m"
      if "map_option bare (held m (u_id u)) = call_wanted sha u reach m" for m
      using that step(2) [of m "u_id u"] step(3) by (cases "m = n_id n") auto
    obtain ps ps' where "db1 = db\<lparr>peers := ps\<rparr>" "db' = db1\<lparr>peers := ps'\<rparr>"
      using step(1) later by blast
    then have "\<exists>ps. db' = db\<lparr>peers := ps\<rparr>"
      by (intro exI [of _ ps']) simp
    then show ?case
      using later kept step(2,4) by simp
  qed
  then show "\<exists>ps. db' = db\<lparr>peers := ps\<rparr>" and "j \<noteq> u_id u \<Longrightarrow> held' m j = held m j"
    and "map_option bare (held m (u_id u)) = call_wanted sha u reach m \<Longrightarrow> map_option bare (held' m (u_id u)) = call_wanted sha u reach m"
    and "ok' \<Longrightarrow> ok \<and> (\<forall>n \<in> set ns. map_get reach (n_id n) = None \<or> n_lastInboundSyncAt n \<noteq> None \<longrightarrow>
      map_option bare (held' (n_id n) (u_id u)) = call_wanted sha u reach (n_id n))"
    by blast+
qed

lemma remove_calls_other: "j \<noteq> i \<Longrightarrow> remove_calls outcome i ns held m j = held m j"
  unfolding remove_calls_def by (induction ns arbitrary: held) (simp_all add: take_call_other)

lemma remove_calls_own:
  "remove_calls outcome i ns held m i = (if \<exists>n \<in> set ns. n_id n = m \<and> outcome m \<noteq> LostBefore then None else held m i)"
  unfolding remove_calls_def
proof (induction ns arbitrary: held)
  case (Cons n ns)
  show ?case
    by (cases "n_id n = m") (auto simp: Cons.IH take_call_own take_call_other)
qed simp


lemma in_step_cong:
  assumes "same_need i (sy_db st) (sy_db st')" and "\<And>n. sy_held st' n i = sy_held st n i"
  shows "in_step sha dead i st' = in_step sha dead i st"
  using assms same_need_wanted [OF assms(1)] same_need_nodes [OF assms(1)]
  by (simp add: in_step_def right_at_def [abs_def])

lemma removes_iff: "users_wf db \<Longrightarrow> removes i db \<longleftrightarrow> \<not> active_now i db"
proof (cases "find_user (\<lambda>u. u_id u = i) db")
  case None
  then have "active_row i db = None"
    using active_row_live [of i db] by (cases "active_row i db") (auto simp: find_user_def find_None_iff)
  then show ?thesis
    using None by (simp add: removes_def active_now_def)
next
  case (Some u)
  assume "users_wf db"
  then have "active_row i db = (if live u then Some u else None)"
    using find_user_Some [OF Some] by (intro active_row_of) auto
  then show ?thesis
    using Some by (simp add: removes_def active_now_def live_def)
qed

lemma add_job_effect:
  assumes run: "syncAddUser sha dead outcome i db db held = (ok, db', held', ps)"
  shows "\<exists>p. db' = db\<lparr>peers := p\<rparr>" and "j \<noteq> i \<or> \<not> active_now i db \<Longrightarrow> held' m j = held m j"
    and "ok \<Longrightarrow> active_now i db \<Longrightarrow> list_all (right_at sha dead db held' i) (fetchActiveNodes db)"
proof -
  have same: "\<exists>p. db = db\<lparr>peers := p\<rparr>"
    by (rule exI [of _ "peers db"]) simp
  have "(\<exists>p. db' = db\<lparr>peers := p\<rparr>) \<and> (j \<noteq> i \<or> \<not> active_now i db \<longrightarrow> held' m j = held m j) \<and>
      (ok \<longrightarrow> active_now i db \<longrightarrow> list_all (right_at sha dead db held' i) (fetchActiveNodes db))"
  proof (cases "active_row i db")
    case None
    then have "db' = db" "held' = held"
      using run by (auto simp: syncAddUser_def active_row_def split: option.splits if_splits)
    then show ?thesis
      using same None by (simp add: active_now_def)
  next
    case (Some u)
    have u: "u_id u = i"
      using active_row_live [OF Some] by simp
    have calls: "add_calls sha outcome u (reach_of dead i db) (fetchActiveNodes db) (True, db, held) = (ok, db', held')"
      using run Some by (auto simp: syncAddUser_def active_row_def Let_def split: option.splits if_splits prod.splits)
    have wanted: "wanted sha dead db n i = call_wanted sha u (reach_of dead i db) n" for n
      by (simp add: wanted_def Some call_wanted_def)
    note facts = add_calls_effect [OF calls, unfolded u]
    have "right_at sha dead db held' i n" if "ok" "n \<in> set (fetchActiveNodes db)" for n
    proof (cases "map_get (reach_of dead i db) (n_id n) = None \<or> n_lastInboundSyncAt n \<noteq> None")
      case True
      then have "map_option bare (held' (n_id n) i) = call_wanted sha u (reach_of dead i db) (n_id n)"
        using facts(4) [OF that(1)] that(2) by blast
      then show ?thesis
        by (simp add: right_at_def wanted)
    next
      case False
      then show ?thesis
        by (auto simp: right_at_def wanted call_wanted_def)
    qed
    then show ?thesis
      using facts(1,2) Some by (auto simp: list_all_iff active_now_def)
  qed
  then show "\<exists>p. db' = db\<lparr>peers := p\<rparr>" and "j \<noteq> i \<or> \<not> active_now i db \<Longrightarrow> held' m j = held m j"
    and "ok \<Longrightarrow> active_now i db \<Longrightarrow> list_all (right_at sha dead db held' i) (fetchActiveNodes db)"
    by blast+
qed

lemma remove_job_effect:
  assumes wf: "users_wf db" and run: "syncRemoveUser outcome i db db held = (ok, db', held', ps)"
  shows "db' = db" and "j \<noteq> i \<or> active_now i db \<Longrightarrow> held' m j = held m j"
    and "ok \<Longrightarrow> \<not> active_now i db \<Longrightarrow> list_all (right_at sha dead db held' i) (fetchActiveNodes db)"
proof -
  show "db' = db"
    using run by (auto simp: syncRemoveUser_def split: if_splits)
  show "held' m j = held m j" if "j \<noteq> i \<or> active_now i db"
    using run that by (auto simp: syncRemoveUser_def removes_iff [OF wf] remove_calls_other split: if_splits)
  show "list_all (right_at sha dead db held' i) (fetchActiveNodes db)" if "ok" "\<not> active_now i db"
  proof -
    have "list_all (\<lambda>n. outcome (n_id n) = Answered) (fetchActiveNodes db)" "held' = remove_calls outcome i (fetchActiveNodes db) held"
      using run that by (auto simp add: syncRemoveUser_def removes_iff [OF wf])
    moreover have "wanted sha dead db n i = None" for n
      using that(2) by (simp add: wanted_def active_now_def)
    ultimately show ?thesis
      by (auto simp: list_all_iff right_at_def remove_calls_own)
  qed
qed

lemma run_job_effect:
  assumes wf: "users_wf db" and run: "run_job sha dead outcome j db db held = (ok, db', held', ps)"
  shows "\<exists>p. db' = db\<lparr>peers := p\<rparr>" and "j \<noteq> due_job db i \<Longrightarrow> held' m i = held m i"
    and "ok \<Longrightarrow> j = due_job db i \<Longrightarrow> list_all (right_at sha dead db held' i) (fetchActiveNodes db)"
proof -
  have same: "\<exists>p. db = db\<lparr>peers := p\<rparr>"
    by (rule exI [of _ "peers db"]) simp
  show "\<exists>p. db' = db\<lparr>peers := p\<rparr>"
  proof (cases j)
    case (AddUser k)
    then show ?thesis
      using run add_job_effect(1) by (simp add: run_job_def)
  next
    case (RemoveUser k)
    then have "db' = db"
      using run remove_job_effect(1) [OF wf] by (simp add: run_job_def)
    then show ?thesis
      using same by simp
  qed (use run same in \<open>simp add: run_job_def\<close>)
  show "held' m i = held m i" if "j \<noteq> due_job db i"
  proof (cases j)
    case (AddUser k)
    then show ?thesis
      using run that add_job_effect(2) [of sha dead outcome k db held ok db' held' ps i m]
      by (auto simp: run_job_def due_job_def split: if_splits)
  next
    case (RemoveUser k)
    then show ?thesis
      using run that remove_job_effect(2) [OF wf, of outcome k held ok db' held' ps i m]
      by (auto simp: run_job_def due_job_def split: if_splits)
  qed (use run in \<open>simp add: run_job_def\<close>)
  show "list_all (right_at sha dead db held' i) (fetchActiveNodes db)" if "ok" "j = due_job db i"
  proof (cases "active_now i db")
    case True
    then show ?thesis
      using run that add_job_effect(3) [of sha dead outcome i db held ok db' held' ps] by (simp add: run_job_def due_job_def)
  next
    case False
    then show ?thesis
      using run that remove_job_effect(3) [OF wf, of outcome i held ok db' held' ps] by (simp add: run_job_def due_job_def)
  qed
qed


section \<open>The machine keeps its accounts\<close>

text \<open>A machine that never loses a debt: whenever it is out of step, it still owes the work that mends it.\<close>

locale accounted =
  fixes good :: "'s \<Rightarrow> bool" and settled :: "'s \<Rightarrow> bool" and owed :: "'s \<Rightarrow> bool" and step :: "'s \<Rightarrow> 's \<Rightarrow> bool"
  assumes good_step: "good s \<Longrightarrow> step s t \<Longrightarrow> good t"
    and no_debt_lost: "good s \<Longrightarrow> step s t \<Longrightarrow> settled s \<or> owed s \<Longrightarrow> settled t \<or> owed t"
begin

lemma run_good: "step\<^sup>*\<^sup>* s t \<Longrightarrow> good s \<Longrightarrow> good t"
  by (induction rule: rtranclp_induct) (blast intro: good_step)+

lemma run_accounts: "step\<^sup>*\<^sup>* s t \<Longrightarrow> good s \<Longrightarrow> settled s \<or> owed s \<Longrightarrow> settled t \<or> owed t"
proof (induction rule: rtranclp_induct)
  case (step t u)
  then show ?case
    using run_good no_debt_lost by blast
qed

lemma debt_free: "step\<^sup>*\<^sup>* s t \<Longrightarrow> good s \<Longrightarrow> settled s \<Longrightarrow> \<not> owed t \<Longrightarrow> settled t"
  using run_accounts by blast

end

definition ready :: "string set \<Rightarrow> string \<Rightarrow> sync_state \<Rightarrow> bool" where
  "ready left i st \<longleftrightarrow> users_wf (sy_db st) \<and> i \<notin> left"

definition owed :: "string \<Rightarrow> sync_state \<Rightarrow> bool" where
  "owed i st \<longleftrightarrow> pending st (due_job (sy_db st) i)"

lemma debt_moves:
  assumes acc: "accounts i (sy_db st) (sy_db st') js evs" and held: "\<And>n. sy_held st' n i = sy_held st n i"
    and new: "set js \<subseteq> fst ` set (sy_jobs st')" "set evs \<subseteq> set (sy_events st')"
    and old: "due_job (sy_db st) i \<in> fst ` set (sy_jobs st) \<Longrightarrow> due_job (sy_db st) i \<in> fst ` set (sy_jobs st')"
      "set (sy_failed st) \<subseteq> set (sy_failed st')"
      "\<And>e. e \<in> set (sy_events st) \<Longrightarrow> due_job (sy_db st) i \<in> set (queued_by (sy_db st) e) \<Longrightarrow>
        e \<in> set (sy_events st') \<or> due_job (sy_db st) i \<in> fst ` set (sy_jobs st')"
    and before: "in_step sha dead i st \<or> owed i st"
  shows "in_step sha dead i st' \<or> owed i st'"
proof -
  consider "due_job (sy_db st') i \<in> set js" | e where "e \<in> set evs" "due_job (sy_db st') i \<in> set (queued_by (sy_db st') e)"
    | (same) "same_need i (sy_db st) (sy_db st')"
    using acc unfolding accounts_def by blast
  then show ?thesis
  proof cases
    case same
    show ?thesis
    proof (cases "in_step sha dead i st")
      case True
      then show ?thesis
        using in_step_cong [OF same held] by simp
    next
      case False
      then have "pending st (due_job (sy_db st') i)"
        using before same_need_due [OF same] by (simp add: owed_def)
      then have "pending st' (due_job (sy_db st') i)"
        using old same_need_due [OF same] same_need_queued [OF same] unfolding pending_def
        by (metis subsetD)
      then show ?thesis
        by (simp add: owed_def)
    qed
  qed (use new in \<open>auto simp: owed_def pending_def\<close>)
qed

lemma set_jobs_map: "fst ` set (map queue_job js) = set js"
  by (simp add: queue_job_def image_image)

lemma call_keeps_debt:
  assumes "call_step left (sy_db st) db' js evs" and "ready left i st" and "in_step sha dead i st \<or> owed i st"
  defines "st' \<equiv> st\<lparr>sy_db := db', sy_events := sy_events st @ evs, sy_jobs := sy_jobs st @ map queue_job js\<rparr>"
  shows "in_step sha dead i st' \<or> owed i st'"
proof (rule debt_moves [OF _ _ _ _ _ _ _ assms(3)])
  show "accounts i (sy_db st) (sy_db st') js evs"
    using call_step_accounts assms(1,2) by (simp add: st'_def ready_def)
  show "set js \<subseteq> fst ` set (sy_jobs st')"
    using set_jobs_map [of js] by (simp add: st'_def image_Un)
qed (auto simp: st'_def image_Un)

lemma handled_accounts:
  assumes wf: "users_wf db" and run: "handle_event now e db db = (db', js, es)"
  shows "accounts i db db' js es" and "js = queued_by db e" and "users_wf db'"
proof -
  show "js = queued_by db e"
    using run by (cases e) (auto simp: queued_by_def handle_event_def split: option.splits if_splits)
  consider "db' = db" | j n where "e = TrafficReset j n" "db' = revive j now db" "es = [StatusChanged j Limited Active]"
      "findActiveById j db \<noteq> None"
    using run by (cases e) (auto simp: handle_event_def split: option.splits if_splits)
  then have "accounts i db db' js es \<and> users_wf db'"
  proof cases
    case 2
    define f where "f u = (if u_id u = j then u\<lparr>u_status := Active, u_updatedAt := now\<rparr> else u)" for u :: user_row
    have db': "db' = db\<lparr>users := map f (users db)\<rparr>"
      by (simp add: 2(2) revive_def f_def [abs_def])
    have wf': "users_wf db'"
      unfolding db' by (rule users_wf_map [OF wf]) (simp add: f_def)
    show ?thesis
    proof (cases "i = j")
      case True
      obtain u where u: "u \<in> set (users db)" "u_id u = j" "u_deletedAt u = None"
        using 2(4) by (auto simp: findActiveById_Some [OF wf])
      have "f u \<in> set (users db')" "u_id (f u) = j" "live (f u)"
        using u by (auto simp: db' f_def live_def)
      then have "due_job db' i = AddUser i"
        using active_row_of [OF wf'] True by (simp add: due_job_def active_now_def)
      then show ?thesis
        using wf' True by (simp add: accounts_def 2(3))
    next
      case False
      have "List.find (\<lambda>v. u_id v = i \<and> u_deletedAt v = None) (map f us) = List.find (\<lambda>v. u_id v = i \<and> u_deletedAt v = None) us" for us
        using False by (induction us) (auto simp: f_def)
      then have "active_row i db' = active_row i db"
        by (simp add: active_row_def findActiveById_def find_user_def db')
      then show ?thesis
        using wf' by (simp add: accounts_def same_need_rows same_grants_def same_world_def db')
    qed
  qed (use wf in simp)
  then show "accounts i db db' js es" and "users_wf db'"
    by blast+
qed

lemma in_rest: "k < length xs \<Longrightarrow> x \<in> set xs \<Longrightarrow> x \<noteq> xs ! k \<Longrightarrow> x \<in> set (take k xs) \<union> set (drop (Suc k) xs)"
proof -
  assume "k < length xs" "x \<in> set xs" "x \<noteq> xs ! k"
  moreover have "set xs = set (take k xs) \<union> {xs ! k} \<union> set (drop (Suc k) xs)" if "k < length xs"
    using arg_cong [OF id_take_nth_drop [OF that], of set] by auto
  ultimately show ?thesis
    by blast
qed

lemma deliver_wf: "users_wf (sy_db st) \<Longrightarrow> users_wf (sy_db (deliver now k st))"
  by (auto simp: deliver_def Let_def split: prod.split dest: handled_accounts(3))

lemma attempt_wf: "users_wf (sy_db st) \<Longrightarrow> users_wf (sy_db (attempt sha dead outcome k st))"
proof -
  assume wf: "users_wf (sy_db st)"
  obtain j left where j: "sy_jobs st ! k = (j, left)"
    by (cases "sy_jobs st ! k")
  obtain ok db' held' ps where run: "run_job sha dead outcome j (sy_db st) (sy_db st) (sy_held st) = (ok, db', held', ps)"
    by (metis prod_cases4)
  obtain p where db': "db' = sy_db st\<lparr>peers := p\<rparr>"
    using run_job_effect(1) [OF wf run] by blast
  have "users_wf db'"
    by (rule users_wf_cong [OF wf]) (use wf in \<open>simp_all add: db' users_wf_def\<close>)
  then show ?thesis
    by (simp add: attempt_def j run Let_def)
qed

lemma deliver_keeps_debt:
  assumes "k < length (sy_events st)" and "ready left i st" and "in_step sha dead i st \<or> owed i st"
  shows "in_step sha dead i (deliver now k st) \<or> owed i (deliver now k st)"
proof -
  obtain db' js es where run: "handle_event now (sy_events st ! k) (sy_db st) (sy_db st) = (db', js, es)"
    by (metis prod_cases3)
  have st': "deliver now k st = st\<lparr>sy_db := db', sy_events := take k (sy_events st) @ drop (Suc k) (sy_events st) @ es,
      sy_jobs := sy_jobs st @ map queue_job js\<rparr>"
    by (simp add: deliver_def run)
  have wf: "users_wf (sy_db st)"
    using assms(2) by (simp add: ready_def)
  note facts = handled_accounts [OF wf run]
  have jobs: "fst ` set (sy_jobs (deliver now k st)) = fst ` set (sy_jobs st) \<union> set js"
    using set_jobs_map [of js] by (simp add: st' image_Un)
  show "in_step sha dead i (deliver now k st) \<or> owed i (deliver now k st)"
  proof (rule debt_moves [OF _ _ _ _ _ _ _ assms(3)])
    show "e \<in> set (sy_events (deliver now k st)) \<or> due_job (sy_db st) i \<in> fst ` set (sy_jobs (deliver now k st))"
      if "e \<in> set (sy_events st)" "due_job (sy_db st) i \<in> set (queued_by (sy_db st) e)" for e
    proof (cases "e = sy_events st ! k")
      case True
      then show ?thesis
        using that(2) facts(2) unfolding jobs by simp
    next
      case False
      then show ?thesis
        using in_rest [OF assms(1) that(1)] by (auto simp: st')
    qed
  qed (use facts(1) jobs in \<open>auto simp: st'\<close>)
qed

lemma attempt_keeps_debt:
  assumes k: "k < length (sy_jobs st)" and "ready left i st" and before: "in_step sha dead i st \<or> owed i st"
  shows "in_step sha dead i (attempt sha dead outcome k st) \<or> owed i (attempt sha dead outcome k st)"
proof -
  define st' where "st' = attempt sha dead outcome k st"
  obtain j left where j: "sy_jobs st ! k = (j, left)"
    by (cases "sy_jobs st ! k")
  obtain ok db' held' ps where run: "run_job sha dead outcome j (sy_db st) (sy_db st) (sy_held st) = (ok, db', held', ps)"
    by (metis prod_cases4)
  let ?rest = "take k (sy_jobs st) @ drop (Suc k) (sy_jobs st)"
  have st': "sy_db st' = db'" "sy_held st' = held'" "sy_events st' = sy_events st"
    "sy_jobs st' = (if ok \<or> left \<le> 1 then ?rest else ?rest @ [(j, left - 1)])"
    "sy_failed st' = (if ok \<or> 1 < left then sy_failed st else sy_failed st @ [j])"
    by (simp_all add: st'_def attempt_def j run Let_def)
  have wf: "users_wf (sy_db st)"
    using assms(2) by (simp add: ready_def)
  obtain p where db': "db' = sy_db st\<lparr>peers := p\<rparr>"
    using run_job_effect(1) [OF wf run] by blast
  have need: "same_need i (sy_db st) db'"
    by (simp add: db')
  have kept: "d \<in> fst ` set (sy_jobs st')" if d: "d \<in> fst ` set (sy_jobs st)" "d \<noteq> j" for d
  proof -
    obtain x where "x \<in> set (sy_jobs st)" "fst x = d"
      using d(1) by blast
    then show ?thesis
      using in_rest [OF k, of x] d(2) j by (force simp: st'(4))
  qed
  have "in_step sha dead i st' \<or> owed i st'"
  proof (cases "j = due_job (sy_db st) i")
    case True
    show ?thesis
    proof (cases ok)
      case ok: True
      have "list_all (right_at sha dead (sy_db st) held' i) (fetchActiveNodes (sy_db st))"
        by (rule run_job_effect(3) [OF wf run ok True])
      then have "in_step sha dead i st'"
        using same_need_wanted [OF need] same_need_nodes [OF need] by (simp add: in_step_def right_at_def [abs_def] st')
      then show ?thesis
        by simp
    next
      case False
      have "pending st' j"
        using False by (auto simp: pending_def st'(4,5))
      then show ?thesis
        using True same_need_due [OF need] by (simp add: owed_def st'(1))
    qed
  next
    case False
    show ?thesis
    proof (rule debt_moves [OF _ _ _ _ _ _ _ before])
      show "accounts i (sy_db st) (sy_db st') [] []"
        using need by (simp add: accounts_def st'(1))
      show "sy_held st' n i = sy_held st n i" for n
        using run_job_effect(2) [OF wf run False] by (simp add: st'(2))
      show "due_job (sy_db st) i \<in> fst ` set (sy_jobs st) \<Longrightarrow> due_job (sy_db st) i \<in> fst ` set (sy_jobs st')"
        using kept False by metis
    qed (auto simp: st')
  qed
  then show "in_step sha dead i (attempt sha dead outcome k st) \<or> owed i (attempt sha dead outcome k st)"
    by (simp add: st'_def)
qed

lemma stalled_keeps_debt:
  assumes "k < length (sy_jobs st)" and "in_step sha dead i st \<or> owed i st"
  shows "in_step sha dead i (st\<lparr>sy_jobs := sy_jobs st @ [sy_jobs st ! k]\<rparr>) \<or> owed i (st\<lparr>sy_jobs := sy_jobs st @ [sy_jobs st ! k]\<rparr>)"
  by (rule debt_moves [where js = "[]" and evs = "[]", OF _ _ _ _ _ _ _ assms(2)]) (auto simp: image_Un)

interpretation rollout: accounted "ready left i" "in_step sha dead i" "owed i" "sync_step left sha dead"
proof
  show "ready left i t" if "ready left i s" "sync_step left sha dead s t" for s t
    using that(2)
  proof cases
    case (call db' js evs)
    then show ?thesis
      using that(1) call_step_wf by (simp add: ready_def)
  qed (use that(1) in \<open>simp_all add: ready_def deliver_wf attempt_wf\<close>)
  show "in_step sha dead i t \<or> owed i t"
    if "ready left i s" "sync_step left sha dead s t" "in_step sha dead i s \<or> owed i s" for s t
    using that(2)
  proof cases
    case (call db' js evs)
    show ?thesis
      unfolding call(1) by (rule call_keeps_debt [OF call(2) that(1,3)])
  next
    case (delivery k now)
    show ?thesis
      unfolding delivery(1) by (rule deliver_keeps_debt [OF delivery(2) that(1,3)])
  next
    case (attempted k outcome)
    show ?thesis
      unfolding attempted(1) by (rule attempt_keeps_debt [OF attempted(2) that(1,3)])
  next
    case (stalled k)
    show ?thesis
      unfolding stalled(1) by (rule stalled_keeps_debt [OF stalled(2) that(3)])
  qed
qed


section \<open>The queues run dry\<close>

text \<open>One way to serve the backlog: every event in turn, then every job, each answered by every node.\<close>

definition event_weight :: "domain_event \<Rightarrow> nat" where
  "event_weight e = (case e of TrafficReset i n \<Rightarrow> 2 | _ \<Rightarrow> 1)"

lemma deliver_lighter:
  assumes "sy_events st \<noteq> []"
  shows "sum_list (map event_weight (sy_events (deliver now 0 st))) < sum_list (map event_weight (sy_events st))"
proof -
  obtain e rest where e: "sy_events st = e # rest"
    using assms by (cases "sy_events st") auto
  obtain db' js es where run: "handle_event now e (sy_db st) (sy_db st) = (db', js, es)"
    by (metis prod_cases3)
  then have "sum_list (map event_weight es) < event_weight e"
    by (cases e) (auto simp: handle_event_def event_weight_def split: option.splits if_splits)
  then show ?thesis
    by (simp add: deliver_def e run)
qed

function deliver_all :: "int \<Rightarrow> sync_state \<Rightarrow> sync_state" where
  "deliver_all now st = (if sy_events st = [] then st else deliver_all now (deliver now 0 st))"
  by pat_completeness auto
termination
  by (relation "measure (\<lambda>(_, st). sum_list (map event_weight (sy_events st)))") (simp_all add: deliver_lighter)

lemma add_calls_answered:
  "(\<And>m. outcome m = Answered) \<Longrightarrow> fst (add_calls sha outcome u reach ns (ok, db, held)) = ok"
proof (induction ns arbitrary: ok db held)
  case (Cons n ns)
  obtain ok1 db1 held1 where one: "add_call sha outcome u reach n (ok, db, held) = (ok1, db1, held1)"
    by (metis prod_cases3)
  then have "ok1 = ok"
    using Cons.prems by (auto simp: add_call_def Let_def split: option.splits if_splits prod.splits)
  then show ?case
    using Cons.IH [OF Cons.prems, of ok1 db1 held1] one by (simp add: add_calls_def)
qed (simp add: add_calls_def)

lemma run_job_answered: "fst (run_job sha dead (\<lambda>_. Answered) j seen db held) = True"
  using add_calls_answered [of "\<lambda>_. Answered" sha _ _ _ True db held]
  by (auto simp: run_job_def syncAddUser_def syncRemoveUser_def Let_def list_all_iff split: node_job.split option.split prod.splits)
    (metis fst_conv)

lemma attempt_answered:
  assumes "sy_jobs st = x # rest"
  shows "sy_jobs (attempt sha dead (\<lambda>_. Answered) 0 st) = rest" and "sy_failed (attempt sha dead (\<lambda>_. Answered) 0 st) = sy_failed st"
    and "sy_events (attempt sha dead (\<lambda>_. Answered) 0 st) = sy_events st"
proof -
  obtain j left where x: "x = (j, left)"
    by (cases x)
  obtain ok db' held' ps where run: "run_job sha dead (\<lambda>_. Answered) j (sy_db st) (sy_db st) (sy_held st) = (ok, db', held', ps)"
    by (metis prod_cases4)
  have ok
    using run_job_answered [of sha dead j "sy_db st" "sy_db st" "sy_held st"] by (simp add: run)
  then show "sy_jobs (attempt sha dead (\<lambda>_. Answered) 0 st) = rest" and "sy_failed (attempt sha dead (\<lambda>_. Answered) 0 st) = sy_failed st"
    and "sy_events (attempt sha dead (\<lambda>_. Answered) 0 st) = sy_events st"
    using assms by (simp_all add: attempt_def x run Let_def)
qed

function work_off :: "(string \<Rightarrow> string) \<Rightarrow> string list \<Rightarrow> sync_state \<Rightarrow> sync_state" where
  "work_off sha dead st = (if sy_jobs st = [] then st else work_off sha dead (attempt sha dead (\<lambda>_. Answered) 0 st))"
  by pat_completeness auto
termination
  by (relation "measure (\<lambda>(_, _, st). length (sy_jobs st))") (auto simp: neq_Nil_conv attempt_answered)

declare deliver_all.simps [simp del] work_off.simps [simp del]

lemma deliver_all_runs: "(sync_step left sha dead)\<^sup>*\<^sup>* st (deliver_all now st) \<and> sy_events (deliver_all now st) = [] \<and>
  sy_failed (deliver_all now st) = sy_failed st"
proof (induction now st rule: deliver_all.induct)
  case (1 now st)
  show ?case
  proof (cases "sy_events st = []")
    case True
    then show ?thesis
      by (simp add: deliver_all.simps [of now st])
  next
    case False
    then have "sync_step left sha dead st (deliver now 0 st)"
      by (intro sync_step.delivery) simp
    moreover have "sy_failed (deliver now 0 st) = sy_failed st"
      by (simp add: deliver_def Let_def split: prod.split)
    ultimately show ?thesis
      using 1 [OF False] False by (simp add: deliver_all.simps [of now st] converse_rtranclp_into_rtranclp)
  qed
qed

lemma work_off_runs: "(sync_step left sha dead)\<^sup>*\<^sup>* st (work_off sha dead st) \<and> sy_jobs (work_off sha dead st) = [] \<and>
  sy_events (work_off sha dead st) = sy_events st \<and> sy_failed (work_off sha dead st) = sy_failed st"
proof (induction sha dead st rule: work_off.induct)
  case (1 sha dead st)
  show ?case
  proof (cases "sy_jobs st = []")
    case True
    then show ?thesis
      by (simp add: work_off.simps [of sha dead st])
  next
    case False
    then obtain x rest where jobs: "sy_jobs st = x # rest"
      by (cases "sy_jobs st") auto
    have "sync_step left sha dead st (attempt sha dead (\<lambda>_. Answered) 0 st)"
      by (rule sync_step.attempted) (simp add: jobs)
    then show ?thesis
      using 1 [OF False] False attempt_answered [OF jobs, of sha dead]
      by (simp add: work_off.simps [of sha dead st] converse_rtranclp_into_rtranclp)
  qed
qed

text \<open>C5. The nodes converge to the database: from a state in which the nodes hold a user as they should, whatever
  calls, scheduled jobs, deliveries of events, failed, repeated and reordered attempts at jobs follow, as
  long as no squad of the user was deleted, serving the backlog ends, and then every live node that ever
  took a push holds the user on exactly the inbounds the rule gives, with the credentials of the row, if
  the user is active, and not at all otherwise, unless the very job for that was given up for good.\<close>

theorem nodes_converge:
  assumes "users_wf (sy_db st)" and "in_step sha dead i st" and "i \<notin> left" and "(sync_step left sha dead)\<^sup>*\<^sup>* st st'"
  shows "let fin = work_off sha dead (deliver_all now st')
    in sy_events fin = [] \<and> sy_jobs fin = [] \<and> sy_failed fin = sy_failed st' \<and>
       (due_job (sy_db fin) i \<notin> set (sy_failed st') \<longrightarrow> in_step sha dead i fin)"
proof -
  define fin where "fin = work_off sha dead (deliver_all now st')"
  note served = deliver_all_runs [of left sha dead st' now] and worked = work_off_runs [of left sha dead "deliver_all now st'", folded fin_def]
  have run: "(sync_step left sha dead)\<^sup>*\<^sup>* st fin"
    using assms(4) served worked by (meson rtranclp_trans)
  have dry: "sy_events fin = []" "sy_jobs fin = []" "sy_failed fin = sy_failed st'"
    using served worked by simp_all
  have "in_step sha dead i fin" if "due_job (sy_db fin) i \<notin> set (sy_failed st')"
  proof (rule rollout.debt_free [OF run _ assms(2)])
    show "ready left i st"
      using assms(1,3) by (simp add: ready_def)
    show "\<not> owed i fin"
      using dry that by (simp add: owed_def pending_def)
  qed
  then show ?thesis
    using dry unfolding fin_def [symmetric] Let_def by blast
qed

section \<open>Ann pays\<close>

definition demo_rollout_db :: panel_db where
  "demo_rollout_db = demo_db\<lparr>group_profiles := [(ALL_SQUAD_ID, ''p1'')],
     profiles := [\<lparr>p_id = ''p1'', p_enabled = True, p_protocol = ''xray'', p_awgProtocol3 = False, p_subnet = None\<rparr>],
     bindings := [demo_binding],
     nodes := [\<lparr>n_id = ''n1'', n_name = ''n1'', n_disabled = False, n_deleted = False, n_lastInboundSyncAt = Some 1\<rparr>]\<rparr>"

definition demo_rollout :: sync_state where
  "demo_rollout = \<lparr>sy_db = demo_rollout_db, sy_events = [], sy_jobs = [], sy_pushes = [], sy_held = (\<lambda>_ _. None), sy_failed = []\<rparr>"

lemma demo_rollout_wf: "users_wf (sy_db demo_rollout)"
  by (simp add: demo_rollout_def demo_rollout_db_def users_wf_def uniq_def demo_defs squads_of_def one_preset_def)

definition demo_paid :: sync_state where
  "demo_paid = (let (r, db', evs) = updateUser ''ann'' (no_edit\<lparr>ui_expireAt := Some (Some 2692000000)\<rparr>) 100000000 demo_rollout_db demo_rollout_db
     in demo_rollout\<lparr>sy_db := db', sy_events := evs\<rparr>)"

theorem nodes_converge_witness:
  "let fin = work_off id [] (deliver_all 100000001 demo_paid)
   in sy_jobs fin = [] \<and> in_step id [] ''ann'' fin \<and> map_option ar_inboundIds (sy_held fin ''n1'' ''ann'') = Some [''b1'']"
proof -
  obtain r db' evs where call: "updateUser ''ann'' (no_edit\<lparr>ui_expireAt := Some (Some 2692000000)\<rparr>) 100000000 demo_rollout_db demo_rollout_db = (r, db', evs)"
    by (metis prod_cases3)
  have "sync_step {} id [] demo_rollout (demo_rollout\<lparr>sy_db := db', sy_events := sy_events demo_rollout @ evs,
      sy_jobs := sy_jobs demo_rollout @ map queue_job []\<rparr>)"
    by (rule sync_step.call, rule call_step.updated) (use call in \<open>simp add: demo_rollout_def\<close>)
  then have step: "(sync_step {} id [])\<^sup>*\<^sup>* demo_rollout demo_paid"
    by (intro r_into_rtranclp) (simp add: demo_paid_def call demo_rollout_def)
  have start: "in_step id [] ''ann'' demo_rollout"
    by code_simp
  have kept: "sy_failed demo_paid = []" and in_squad: "''ann'' \<notin> {}"
    by (simp_all add: demo_paid_def call demo_rollout_def)
  have "map_option ar_inboundIds (sy_held (work_off id [] (deliver_all 100000001 demo_paid)) ''n1'' ''ann'') = Some [''b1'']"
    by code_simp
  then show ?thesis
    using nodes_converge [OF demo_rollout_wf start in_squad step, of 100000001] kept by (simp add: Let_def)
qed


end
