(* ===== verification/SyncRaces.thy ===== *)
theory SyncRaces
  imports SyncRuns
begin

text \<open>
  Where the rollout and the edits fall short: the deletion of a squad, which tells nobody; two jobs of one
  user that overlap; and an edit or a reset whose read is older than its write.
\<close>

section \<open>A squad deleted\<close>

text \<open>C19. The deletion of a squad tells the nodes nothing: where all is quiet and a node holds a member as it
  should, and the member reached that node only through the squad, then after the deletion the node still
  holds them, and nothing is queued that would take them off.\<close>

theorem deletion_leaves_members_served:
  assumes "in_step sha dead i st" and "sy_events st = []" and "sy_jobs st = []"
    and "deleteSquad g (sy_db st) (sy_db st) = (Inr (), db', evs)"
    and "n \<in> set (fetchActiveNodes (sy_db st))" and "n_lastInboundSyncAt n \<noteq> None"
    and "wanted sha dead (sy_db st) (n_id n) i \<noteq> None" and "wanted sha dead db' (n_id n) i = None"
  shows "let st' = st\<lparr>sy_db := db', sy_events := sy_events st @ evs\<rparr>
    in sy_events st' = [] \<and> sy_jobs st' = [] \<and> sy_held st' (n_id n) i \<noteq> None \<and> \<not> in_step sha dead i st'"
proof -
  have evs: "evs = []"
    by (rule deleteSquad_Inr(2) [OF assms(4)])
  have "nodes db' = nodes (sy_db st)"
    using deleteSquad_Inr(1) [OF assms(4)] by (auto simp: backstop_def drop_squad_def split: if_splits)
  then have n: "n \<in> set (fetchActiveNodes db')"
    using assms(5) by (simp add: fetchActiveNodes_def)
  have "map_option bare (sy_held st (n_id n) i) = wanted sha dead (sy_db st) (n_id n) i"
    using assms(1,5,6) by (auto simp: in_step_def list_all_iff right_at_def)
  then have held: "sy_held st (n_id n) i \<noteq> None"
    using assms(7) by auto
  then have "\<not> right_at sha dead db' (sy_held st) i n"
    using assms(8) by (simp add: right_at_def)
  then show ?thesis
    using n held assms(2,3) evs by (auto simp: in_step_def list_all_iff)
qed

definition demo_granted_db :: panel_db where
  "demo_granted_db = demo_rollout_db\<lparr>
     squads := squads demo_rollout_db @ [\<lparr>s_id = ''g1'', s_name = ''vip'', s_description = None, s_preset = None, s_customPreset = None, s_hwidLimit = None\<rparr>],
     members := [(ALL_SQUAD_ID, ''ann''), (''g1'', ''bob'')], group_profiles := [(''g1'', ''p1'')]\<rparr>"

definition demo_served :: sync_state where
  "demo_served = work_off id [] (demo_rollout\<lparr>sy_db := demo_granted_db, sy_jobs := [queue_job (AddUser ''bob'')]\<rparr>)"

theorem deletion_leaves_members_served_witness:
  "\<exists>db'. deleteSquad ''g1'' demo_granted_db demo_granted_db = (Inr (), db', []) \<and>
     \<not> in_step id [] ''bob'' (demo_served\<lparr>sy_db := db', sy_events := []\<rparr>) \<and> sy_held demo_served ''n1'' ''bob'' \<noteq> None"
proof -
  obtain r db' evs where run: "deleteSquad ''g1'' demo_granted_db demo_granted_db = (r, db', evs)"
    by (metis prod_cases3)
  have "fst (deleteSquad ''g1'' demo_granted_db demo_granted_db) = Inr () \<and>
      wanted id [] (fst (snd (deleteSquad ''g1'' demo_granted_db demo_granted_db))) ''n1'' ''bob'' = None"
    by code_simp
  then have r: "r = Inr ()" and gone: "wanted id [] db' ''n1'' ''bob'' = None"
    by (simp_all add: run)
  have db: "sy_db demo_served = demo_granted_db"
    by code_simp
  have quiet: "in_step id [] ''bob'' demo_served" "sy_events demo_served = []" "sy_jobs demo_served = []"
    by code_simp+
  have del: "deleteSquad ''g1'' (sy_db demo_served) (sy_db demo_served) = (Inr (), db', evs)"
    using run r by (simp add: db)
  define n where "n = \<lparr>n_id = ''n1'', n_name = ''n1'', n_disabled = False, n_deleted = False, n_lastInboundSyncAt = Some 1\<rparr>"
  have n: "n \<in> set (fetchActiveNodes (sy_db demo_served))" "n_lastInboundSyncAt n \<noteq> None" "n_id n = ''n1''"
    by (simp_all add: n_def db fetchActiveNodes_def demo_granted_db_def demo_rollout_db_def)
  have "wanted id [] demo_granted_db ''n1'' ''bob'' \<noteq> None"
    by code_simp
  then have reached: "wanted id [] (sy_db demo_served) (n_id n) ''bob'' \<noteq> None"
    by (simp add: db n(3))
  have off: "wanted id [] db' (n_id n) ''bob'' = None"
    using gone by (simp add: n(3))
  have "evs = []"
    by (rule deleteSquad_Inr(2) [OF del])
  then show ?thesis
    using deletion_leaves_members_served [OF quiet del n(1,2) reached off] run r quiet(2) by (simp add: Let_def n(3))
qed

section \<open>Jobs that overlap\<close>



section \<open>Reads that are too old\<close>


definition demo_late :: panel_db where
  "demo_late = demo_db\<lparr>users := [demo_user ''ann'' Active (Some 86400000) None, demo_user ''bob'' Active None None]\<rparr>"


text \<open>The handler of a traffic reset reads the status and writes it later: a user disabled in between is
  active again, and so is one whose date has passed.\<close>

lemma reset_overrules:
  assumes "findActiveById i seen = Some v" and "u_status v = Limited" and "u \<in> set (users db)" and "u_id u = i"
    and "handle_event now (TrafficReset i m) seen db = (db', js, es)"
  shows "es = [StatusChanged i Limited Active] \<and> u\<lparr>u_status := Active, u_updatedAt := now\<rparr> \<in> set (users db')"
proof -
  have "db' = revive i now db" "es = [StatusChanged i Limited Active]"
    using assms by (auto simp: handle_event_def split: if_splits)
  then show ?thesis
    using assms(3,4) by (force simp: revive_def)
qed

end
