(* ===== verification/Spec2Isabelle.thy ===== *)
theory Spec2Isabelle
  imports AwgPeers GeoRuleSets TrafficPoll CascadeSave SessionRuns SyncRaces
begin

text \<open>
  \<^bold>\<open>Iceslab panel: a verification library of its core rules.\<close>

  Iceslab is a panel for a fleet of VPN nodes. The backend (\<open>src/apps/panel-backend\<close>, TypeScript)
  keeps users, profiles, nodes and cascades in PostgreSQL, pushes configuration to node agents
  (\<open>src/apps/node\<close>, Go) and bills the traffic they report; \<open>src/packages/shared\<close> holds the
  dictionaries both sides speak. This library models the parts of the backend that decide
  something: which address a peer gets, what a geo data file means, what a poll bills, which
  cascade shapes are legal, what a save of a cascade writes, who is signed in, and which user a node serves on
  which inbounds.

  \<^bold>\<open>Theories, in the order they build on each other.\<close>

  \<^item> \<open>Prelude\<close>, \<open>JsNumber\<close>: the JavaScript the sources use. A \<open>Map\<close> is an association list in
    insertion order, a \<open>Set\<close> a list without repetition, a thrown error the left side of a sum; numbers
    are exact rationals rounded to doubles where the code divides.
  \<^item> \<open>AwgSubnet\<close> (\<open>amneziawg.subnet.ts\<close>), \<open>AwgPeers\<close> (\<open>amneziawg.service.ts\<close>, \<open>awg-addresses.ts\<close>):
    IPv4 text and 32-bit ranges; the peer table, its single and bulk allocators and the per-node
    fill. A statement reads a snapshot and inserts into the table as it is by then, so what other
    sessions commit in between is an argument. Locale \<open>address_pool\<close>, interpreted on a parsed
    subnet, carries the pigeonhole argument of both allocators.
  \<^item> \<open>GeoDatReader\<close>, \<open>GeoDatIndex\<close>, \<open>GeoRuleSets\<close> (\<open>geo-dat.ts\<close>): the protobuf reader, the tag
    index of a geosite or geoip file, the rule sets cut from it. Bytes are 8-bit words. Loops over
    the buffer carry the remaining length as their measure; the varint loop stops at ten bytes.
  \<^item> \<open>TrafficStats\<close> (\<open>stats.compute.ts\<close>), \<open>Lingering\<close> (\<open>lingering.ts\<close>), \<open>TrafficPoll\<close>
    (\<open>stats.cron.ts\<close>): deltas of cumulative counters, billing, the users still connected after
    removal, and the poll as a state machine over the tables it writes.
  \<^item> \<open>CascadeTopology\<close> (\<open>cascade.validation.ts\<close>), \<open>CascadeLinks\<close> (\<open>cascade.config.ts\<close>),
    \<open>LinkStore\<close>: the legal shapes of a cascade; the plan of its legs, their credentials and
    receiving ports; the jsonb columns they are stored in. Locale \<open>column\<close> states what a column
    promises (what may be written is read back as itself, what is read may be written); the link
    credential, the leg knobs and the tunnel credential interpret it.
  \<^item> \<open>NodePorts\<close> (\<open>node-ports.ts\<close>): who holds a port on a node, and how complete the answer is.
  \<^item> \<open>CascadeTunnels\<close> (\<open>cascade-tunnel.ts\<close>, \<open>writeTunnels\<close>): the AmneziaWG tunnels under legs.
  \<^item> \<open>CascadeDirections\<close> (\<open>direction-merge.ts\<close>, \<open>directionsForSave\<close>, \<open>positionsForSave\<close>): which
    stored direction an incoming one is, and what a save fills in.
  \<^item> \<open>CascadeSave\<close> (\<open>writeTopologyV4\<close> of \<open>cascade.service.ts\<close>): the write of a topology as one
    transaction over all of the above, and the relation \<open>saved\<close> of its runs. Locale \<open>ledger\<close>
    states what handing out numbers from a counter promises; the tags of a cascade interpret it.
  \<^item> \<open>Totp\<close> (\<open>lib/auth/totp.ts\<close>): base32 on 32-bit words, the code of a time step and its
    verification. \<open>RedisLock\<close>: the Redis commands the panel counts with and the locale
    \<open>failure_lock\<close>, the contract of a lock on a key for whatever serves the requests.
  \<^item> \<open>SignIn\<close> (\<open>auth.service.ts\<close>, \<open>admin.service.ts\<close>), \<open>TwoFactor\<close> (\<open>twofa.service.ts\<close>), \<open>Sessions\<close>
    (\<open>revoked-tokens.ts\<close>, \<open>auth.hook.ts\<close>), \<open>Scopes\<close> (\<open>scope.hook.ts\<close>), \<open>LoginCap\<close> (\<open>login-cap.ts\<close>):
    the services of authentication over one state, the admin rows, the API tokens, the audit rows
    and the Redis keys.
  \<^item> \<open>AuthRoutes\<close> (\<open>auth.routes.ts\<close>, \<open>audit.hook.ts\<close>): every route as a step \<open>auth_step\<close> of one machine.
    \<open>AuthRuns\<close> and \<open>SessionRuns\<close>: what any run of it keeps. The lock of an address and a username and
    the lock of a second factor interpret \<open>failure_lock\<close> on that machine.
  \<^item> \<open>PanelTables\<close> (\<open>users.prisma\<close>, \<open>squads.prisma\<close>): the tables of users, squads, profiles, nodes and
    cascades as one record of lists of rows, and the statements that their indexes, foreign keys and
    checks refuse. \<open>UserService\<close> (\<open>users.service.ts\<close>, \<open>users.repository.ts\<close>): every call that writes a
    user, with the errors it answers and the events it emits; \<open>UserRules\<close>: what they keep and decide.
  \<^item> \<open>UserCrons\<close> (\<open>users.cron.ts\<close>): resets of counters, status flips, the reconciliation and the digest.
    \<open>Retention\<close> (\<open>retention.cron.ts\<close>): the erasure of deleted users in batches, and of old devices.
  \<^item> \<open>CascadeOwnership\<close> (\<open>cascade-ownership.ts\<close>): which cascades share nodes, and which are dead for it.
    \<open>UserReach\<close> (\<open>user-reach.ts\<close>): the inbounds a user is served on, as code and as a relation.
  \<^item> \<open>Squads\<close>, \<open>SquadRules\<close> (\<open>squads.service.ts\<close>, \<open>squads.mapper.ts\<close>): what a squad grants and narrows, its
    deletion, and the allow-list as a screen reads it. \<open>Devices\<close> (\<open>hwid.service.ts\<close>): the device ceiling.
    \<open>Roster\<close>: everything that writes users and squads as one relation.
  \<^item> \<open>UserSync\<close> (\<open>users.events.ts\<close>, \<open>users.queue.ts\<close>): events become jobs, jobs become calls to nodes.
    \<open>SyncRuns\<close>: calls, deliveries and attempts as one machine \<open>sync_step\<close>. Locale \<open>accounted\<close> states what
    it means never to lose a debt; the machine interprets it for every user. \<open>SyncRaces\<close>: what atomic
    calls and undeleted squads hide.

  \<^bold>\<open>What the lemmas show.\<close> Addresses: every subnet keeps its network, server and broadcast
  addresses out of the pool, the allocators find an address whenever one is free, give no address
  twice and keep both unique keys under any interleaving, except for the race the code's comment
  denies. Geo data: the reader never leaves the buffer, the index slices it exactly, every listed
  tag expands, and a rule always has a condition. Traffic: over any run of polls with failures, what
  was billed plus what is still owed is what the nodes counted. Cascades: the validator decides the
  shape rules; gates and writer walk the same legs and ports; one key pair per receiving node; a
  leg has a tunnel exactly when it says so and its two ends match; the merge and the writer agree
  on every row; a tag names one direction for the life of a cascade; and saving the same again
  changes nothing at all. Authentication: base32 and the verification of a code do what they
  promise; over any run of the routes, guesses against a lock are bounded, a spent code step is not
  accepted again, a signed-out token and every session older than a password change are turned
  away, and every refused sign-in is in the log, as a row or in a count. Users: the tables stay whole
  under any interleaving of the calls and jobs, nobody is ever without a squad, an edit lands on the
  status the facts give, the two status jobs settle everyone, an erased user stays erased, a saved
  allow-list is the one read back, devices stay under the ceiling, a user reaches exactly the inbounds
  the rule gives, and once the backlog is served the nodes hold exactly that. Some statements say where
  the code falls short: sign-ins that overlap may share a code, the key of the lock runs two IPv6
  addresses together, two first requests of one device collide, the deletion of a squad tells the nodes
  nothing, jobs of one user that overlap may cut off an active user, and an extension that races the
  expiry tick leaves the user expired.

  \<^bold>\<open>Parameters and bounds.\<close> Random text, key pairs, TLS pairs, row ids and random integers are drawn
  from functions given as arguments (\<open>secrets\<close>, \<open>tunnel_draws\<close>, \<open>save_env\<close>), with only their
  documented ranges assumed. bcrypt, HMAC-SHA1, SHA-256 and the token library are fields of
  \<open>auth_env\<close>; the last is assumed to refuse expired tokens (\<open>jwt_contract\<close>, \<open>token_expiry\<close>). A request
  of authentication is served at one moment, given in milliseconds. A call of the user, squad and device
  services reads one database (\<open>seen\<close>) and writes another (\<open>db\<close>); in \<open>sync_step\<close> both are the same, and
  events are delivered once, jobs at least once. The dead cascades are an argument of the reach; the
  hash of derived credentials and of erased source ids is \<open>sha\<close>; the answers of nodes are \<open>outcome\<close>. The only fuel is that of the header loop of a new tunnel obfuscation,
  which draws until it has four different values: any fuel in which the draws show four is enough.
  Node ids are UUIDs, so they hold no bar character, which the code uses as a separator. Text is
  one character per code unit over ASCII; the case mapping of other text is a parameter of the geo
  theories.

  \<^bold>\<open>Not modelled.\<close> The Fastify routes other than those of authentication and the zod schemas
  (parsing of requests), Prisma and Redis themselves (their statements are modelled where a rule
  depends on them), the rendering of xray,
  sing-box and client subscription documents, the gates that ask nodes for versions, the pushes of
  whole configurations (a node's first push, after which jobs reach it), BullMQ's timing, the frontend
  (\<open>src/apps/panel-frontend\<close>) and the node agent.
\<close>

end
